(* ===== verification/Prelude.thy ===== *)
theory Prelude
  imports Main "HOL-Library.Word" "HOL-Library.Monad_Syntax"
begin

text \<open>
  Shared vocabulary of the development: the theorem collections the component theories
  extend, and the generic facts on lists, options and words they share.

  The sources abort the process through the macros BUG() and BUG_ON() of src/src/Error.hpp.
  An operation that can abort is an option-valued function here, and None stands for the abort;
  a read outside a vector or through a null pointer is None as well.
\<close>

named_theorems vset_simps \<open>what an operation of VSet does to the set of its elements\<close>
named_theorems view_simps \<open>which events a vector clock contains after an operation\<close>
named_theorems kind_defs \<open>class tests on label kinds\<close>
named_theorems graph_simps \<open>what a graph operation leaves unchanged\<close>

subsection \<open>Aborting computations\<close>

text \<open>BUG_ON(c): abort when the condition holds.\<close>

definition BUG_ON :: "bool \<Rightarrow> unit option" where
  "BUG_ON c = (if c then None else Some ())"

lemma BUG_ON_simps [simp]: "BUG_ON True = None" "BUG_ON False = Some ()"
  by (simp_all add: BUG_ON_def)

lemma BUG_ON_bind [simp]: "(BUG_ON c \<bind> f) = (if c then None else f ())"
  by (simp add: BUG_ON_def)

lemma BUG_ON_eq_Some [simp]: "BUG_ON c = Some u \<longleftrightarrow> \<not> c"
  by (simp add: BUG_ON_def)

text \<open>Checked read of a vector.\<close>

definition vec_at :: "'a list \<Rightarrow> int \<Rightarrow> 'a option" where
  "vec_at xs i = (if 0 \<le> i \<and> i < int (length xs) then Some (xs ! nat i) else None)"

lemma vec_at_Some_iff:
  "vec_at xs i = Some x \<longleftrightarrow> 0 \<le> i \<and> nat i < length xs \<and> xs ! nat i = x"
  by (auto simp: vec_at_def)

subsection \<open>Strictly sorted lists\<close>

abbreviation ssorted :: "'a::linorder list \<Rightarrow> bool" where
  "ssorted \<equiv> sorted_wrt (<)"

lemma ssorted_distinct: "ssorted xs \<Longrightarrow> distinct xs"
  by (simp add: strict_sorted_iff)

lemma ssorted_unique:
  "ssorted xs \<Longrightarrow> ssorted ys \<Longrightarrow> set xs = set ys \<Longrightarrow> xs = ys"
  by (simp add: strict_sorted_equal)

lemma ssorted_take: "ssorted xs \<Longrightarrow> ssorted (take n xs)"
  by (rule sorted_wrt_take)

lemma ssorted_nth_less: "ssorted xs \<Longrightarrow> i < j \<Longrightarrow> j < length xs \<Longrightarrow> xs ! i < xs ! j"
  by (rule sorted_wrt_nth_less)

lemma ssorted_take_Suc_less:
  "ssorted xs \<Longrightarrow> n < length xs \<Longrightarrow> x \<in> set (take n xs) \<Longrightarrow> x < xs ! n"
  by (auto simp: in_set_conv_nth intro: ssorted_nth_less)

lemma takeWhile_less_ssorted:
  "ssorted xs \<Longrightarrow> set (takeWhile (\<lambda>y. y < x) xs) = {y \<in> set xs. y < x}"
proof (induction xs)
  case (Cons a xs)
  then show ?case by (cases "a < x") force+
qed simp

lemma dropWhile_less_ssorted:
  "ssorted xs \<Longrightarrow> set (dropWhile (\<lambda>y. y < x) xs) = {y \<in> set xs. x \<le> y}"
proof (induction xs)
  case (Cons a xs)
  then show ?case by (cases "a < x") force+
qed simp

lemma sorted_list_of_set_snoc:
  assumes "finite U" "\<And>u. u \<in> U \<Longrightarrow> u < x"
  shows "sorted_list_of_set (insert x U) = sorted_list_of_set U @ [x]"
proof -
  have "x \<notin> U" using assms(2) by blast
  have "sorted_list_of_set (insert x U) = sorted_list_of_set U @ [x] \<longleftrightarrow>
      ssorted (sorted_list_of_set U @ [x]) \<and> set (sorted_list_of_set U @ [x]) = insert x U \<and>
      length (sorted_list_of_set U @ [x]) = card (insert x U)"
    by (rule sorted_list_of_set_unique [symmetric]) (simp add: assms(1))
  then show ?thesis
    using assms \<open>x \<notin> U\<close> by (simp add: sorted_wrt_append)
qed

lemma set_take_Suc: "n < length xs \<Longrightarrow> set (take (Suc n) xs) = insert (xs ! n) (set (take n xs))"
  by (simp add: take_Suc_conv_app_nth)

lemma card_set_take: "ssorted (take n xs) \<Longrightarrow> n \<le> length xs \<Longrightarrow> card (set (take n xs)) = n"
  by (simp add: distinct_card ssorted_distinct)

lemma ssorted_take_Suc_iff:
  "n < length xs \<Longrightarrow>
     ssorted (take (Suc n) xs) \<longleftrightarrow> ssorted (take n xs) \<and> (\<forall>y\<in>set (take n xs). y < xs ! n)"
  by (simp add: take_Suc_conv_app_nth sorted_wrt_append)

subsection \<open>Hash maps from keys to buckets\<close>

text \<open>
  std::unordered_map from keys to lists, as an association list: \<open>m[k]\<close> creates an empty bucket
  on first use, \<open>bucket\<close> reads one and \<open>bucket_upd\<close> applies a function to one.
\<close>

definition bucket :: "('k \<times> 'v list) list \<Rightarrow> 'k \<Rightarrow> 'v list" where
  "bucket m k = (case map_of m k of None \<Rightarrow> [] | Some vs \<Rightarrow> vs)"

fun bucket_upd :: "'k \<Rightarrow> ('v list \<Rightarrow> 'v list) \<Rightarrow> ('k \<times> 'v list) list \<Rightarrow> ('k \<times> 'v list) list" where
  "bucket_upd k f [] = [(k, f [])]"
| "bucket_upd k f ((k', vs) # m) =
     (if k' = k then (k', f vs) # m else (k', vs) # bucket_upd k f m)"

lemma map_of_bucket_upd:
  "map_of (bucket_upd k f m) l = (if l = k then Some (f (bucket m k)) else map_of m l)"
  by (induction m) (auto simp: bucket_def)

lemma bucket_upd_same [simp]: "bucket (bucket_upd k f m) k = f (bucket m k)"
  by (simp add: bucket_def [of "bucket_upd k f m"] map_of_bucket_upd)

lemma bucket_upd_other [simp]: "l \<noteq> k \<Longrightarrow> bucket (bucket_upd k f m) l = bucket m l"
  by (simp add: bucket_def map_of_bucket_upd)

lemma fst_bucket_upd: "fst ` set (bucket_upd k f m) = insert k (fst ` set m)"
  by (induction k f m rule: bucket_upd.induct) (simp_all add: insert_commute)

lemma distinct_bucket_upd: "distinct (map fst m) \<Longrightarrow> distinct (map fst (bucket_upd k f m))"
proof (induction m)
  case (Cons p m)
  have "set (map fst (bucket_upd k f m)) = insert k (set (map fst m))"
    using fst_bucket_upd [of k f m] by simp
  then show ?case using Cons by (cases p) auto
qed simp

section \<open>Searching lists with predicates that may abort\<close>

fun find_opt :: "('a \<Rightarrow> bool option) \<Rightarrow> 'a list \<Rightarrow> 'a option option" where
  "find_opt P [] = Some None"
| "find_opt P (x # xs) = do { b \<leftarrow> P x; if b then Some (Some x) else find_opt P xs }"

fun find_suffix :: "('a \<Rightarrow> bool option) \<Rightarrow> 'a list \<Rightarrow> 'a list option" where
  "find_suffix P [] = Some []"
| "find_suffix P (x # xs) = do { b \<leftarrow> P x; if b then Some (x # xs) else find_suffix P xs }"

fun filter_opt :: "('a \<Rightarrow> bool option) \<Rightarrow> 'a list \<Rightarrow> 'a list option" where
  "filter_opt P [] = Some []"
| "filter_opt P (x # xs) = do { b \<leftarrow> P x; ys \<leftarrow> filter_opt P xs; Some (if b then x # ys else ys) }"

fun all_opt :: "('a \<Rightarrow> bool option) \<Rightarrow> 'a list \<Rightarrow> bool option" where
  "all_opt P [] = Some True"
| "all_opt P (x # xs) = do { b \<leftarrow> P x; if b then all_opt P xs else Some False }"

lemma find_opt_total: "\<forall>x\<in>set xs. P x = Some (Q x) \<Longrightarrow> find_opt P xs = Some (find Q xs)"
  by (induction xs) auto

lemma filter_opt_total: "\<forall>x\<in>set xs. P x = Some (Q x) \<Longrightarrow> filter_opt P xs = Some (filter Q xs)"
  by (induction xs) auto

lemma all_opt_total: "\<forall>x\<in>set xs. P x = Some (Q x) \<Longrightarrow> all_opt P xs = Some (list_all Q xs)"
  by (induction xs) auto

end
