(* ===== verification/VSets.thy ===== *)
theory VSets
  imports Prelude
begin

text \<open>
  The sorted-vector set VSet (src/src/VSet.hpp, src/src/VSet.tcc). The only field of the class is
  the vector \<open>vset_\<close>, so a VSet is a list here; an iterator is the index it points at, and
  \<open>end()\<close> is the length. The loops that walk two sets in parallel keep the two iterators as
  the remaining suffixes; the in-place loops of the bulk operations keep their indices and update
  the vector position by position, as the code does.
\<close>

section \<open>The class\<close>

type_synonym 'a VSet = "'a list"

definition VSet_inv :: "'a::linorder VSet \<Rightarrow> bool" where
  "VSet_inv s = ssorted s"

definition VSet_empty :: "'a VSet" where
  "VSet_empty = []"

text \<open>std::lower_bound on a sorted range: the first position whose element is not below x.\<close>

definition lower_bound :: "'a::linorder list \<Rightarrow> 'a \<Rightarrow> nat" where
  "lower_bound xs x = length (takeWhile (\<lambda>y. y < x) xs)"

definition VSet_find :: "'a::linorder VSet \<Rightarrow> 'a \<Rightarrow> nat" where
  "VSet_find s el =
     (let it = lower_bound s el in if it = length s \<or> s ! it \<noteq> el then length s else it)"

definition VSet_count :: "'a::linorder VSet \<Rightarrow> 'a \<Rightarrow> int" where
  "VSet_count s el = (if VSet_find s el \<noteq> length s then 1 else 0)"

text \<open>Single insertion: the new vector, the iterator returned, and whether it was inserted.\<close>

definition VSet_insert :: "'a::linorder VSet \<Rightarrow> 'a \<Rightarrow> 'a VSet \<times> nat \<times> bool" where
  "VSet_insert s el =
     (let it = lower_bound s el in
      if it = length s \<or> s ! it \<noteq> el then (take it s @ el # drop it s, it, True)
      else (s, it, False))"

definition VSet_erase :: "'a::linorder VSet \<Rightarrow> 'a \<Rightarrow> 'a VSet \<times> int" where
  "VSet_erase s el =
     (let it = lower_bound s el in
      if it = length s \<or> s ! it \<noteq> el then (s, 0)
      else (take it s @ drop (Suc it) s, 1))"

text \<open>
  Insertion of a range, also the body of the range and initializer-list constructors: an element
  above the maximum is appended, any other goes through the single insertion.
\<close>

definition VSet_push :: "'a::linorder VSet \<Rightarrow> 'a \<Rightarrow> 'a VSet" where
  "VSet_push s x = (if s \<noteq> [] \<and> last s < x then s @ [x] else fst (VSet_insert s x))"

fun VSet_insert_range :: "'a::linorder VSet \<Rightarrow> 'a list \<Rightarrow> 'a VSet" where
  "VSet_insert_range s [] = s"
| "VSet_insert_range s (x # xs) = VSet_insert_range (VSet_push s x) xs"

definition VSet_from_range :: "'a::linorder list \<Rightarrow> 'a VSet" where
  "VSet_from_range xs = VSet_insert_range VSet_empty xs"

section \<open>Bulk insertion\<close>

text \<open>
  The counting loop: walks both sets and counts the elements of b that a lacks; returns the count
  and what is left of b.
\<close>

fun count_loop :: "'a::linorder list \<Rightarrow> 'a list \<Rightarrow> nat \<Rightarrow> nat \<times> 'a list" where
  "count_loop (x # a) (y # b) count =
     (if x < y then count_loop a (y # b) count
      else if x = y then count_loop a b count
      else count_loop (x # a) b (Suc count))"
| "count_loop a b count = (count, b)"

text \<open>
  The filling loop, from the last position of the resized vector down to position 0. The first
  argument is the number of positions still to fill, so the position written is one less.
\<close>

fun fill_loop :: "nat \<Rightarrow> int \<Rightarrow> int \<Rightarrow> 'a::linorder list \<Rightarrow> 'a list \<Rightarrow> 'a list" where
  "fill_loop 0 idxA idxB v s = v"
| "fill_loop (Suc i) idxA idxB v s =
     (if idxA < 0 \<or> (idxB \<ge> 0 \<and> v ! nat idxA < s ! nat idxB)
      then fill_loop i idxA (idxB - 1) (v[i := s ! nat idxB]) s
      else if idxA \<ge> 0 \<and> idxB \<ge> 0 \<and> v ! nat idxA = s ! nat idxB
      then fill_loop i (idxA - 1) (idxB - 1) (v[i := v ! nat idxA]) s
      else fill_loop i (idxA - 1) idxB (v[i := v ! nat idxA]) s)"

definition VSet_insert_all :: "'a::linorder VSet \<Rightarrow> 'a VSet \<Rightarrow> 'a VSet \<times> nat" where
  "VSet_insert_all a s =
     (if a = [] then (s, length s)
      else if s = [] then (a, 0)
      else if length s = 1
      then (let r = VSet_insert a (s ! 0) in (fst r, if snd (snd r) then 1 else 0))
      else
        let (c, rest) = count_loop a s 0;
            count = c + length rest
        in if count = 0 then (a, 0)
           else (fill_loop (length a + count) (int (length a) - 1) (int (length s) - 1)
                   (a @ replicate count (a ! 0)) s, count))"

section \<open>Bulk deletion\<close>

text \<open>
  The main loop of the bulk deletion, on indices a and b with aMov the next position to fill;
  returns the vector, a, aMov and the number of erased elements.
\<close>

function erase_loop :: "'a::linorder list \<Rightarrow> 'a list \<Rightarrow> nat \<Rightarrow> nat \<Rightarrow> nat \<Rightarrow> int \<Rightarrow>
    'a list \<times> nat \<times> nat \<times> int" where
  "erase_loop v s a b aMov erased =
     (if a < length v \<and> b < length s then
        if v ! a = s ! b then erase_loop v s (Suc a) (Suc b) aMov (erased + 1)
        else if v ! a < s ! b
        then erase_loop (if aMov \<noteq> a then v[aMov := v ! a] else v) s (Suc a) b (Suc aMov) erased
        else erase_loop v s a (Suc b) aMov erased
      else (v, a, aMov, erased))"
  by pat_completeness auto
termination
  by (relation "measure (\<lambda>(v, s, a, b, aMov, erased). (length v - a) + (length s - b))") auto

text \<open>Copying what is left of a, and the final resize.\<close>

function shift_loop :: "'a list \<Rightarrow> nat \<Rightarrow> nat \<Rightarrow> 'a list \<times> nat" where
  "shift_loop v a aMov =
     (if a < length v then shift_loop (v[aMov := v ! a]) (Suc a) (Suc aMov) else (v, aMov))"
  by pat_completeness auto
termination
  by (relation "measure (\<lambda>(v, a, aMov). length v - a)") auto

declare erase_loop.simps [simp del] shift_loop.simps [simp del]

definition VSet_erase_all :: "'a::linorder VSet \<Rightarrow> 'a VSet \<Rightarrow> 'a VSet \<times> int" where
  "VSet_erase_all v s =
     (if v = [] \<or> s = [] then (v, 0)
      else let (v', a, aMov, erased) = erase_loop v s 0 0 0 0 in
        (if aMov \<noteq> a then let (v'', n) = shift_loop v' a aMov in (take n v'', erased)
         else (v', erased)))"

section \<open>Comparisons and intersection\<close>

text \<open>The loop of subsetOf; None is a read of \<open>*b\<close> at the end of s.\<close>

fun subset_loop :: "'a::linorder list \<Rightarrow> 'a list \<Rightarrow> bool option" where
  "subset_loop [] b = Some True"
| "subset_loop (x # a) b =
     (if length (x # a) > length b then Some False
      else case b of
        [] \<Rightarrow> None
      | y # b' \<Rightarrow> if x < y then Some False
                 else if x = y then subset_loop a b' else subset_loop (x # a) b')"

definition VSet_subsetOf :: "'a::linorder VSet \<Rightarrow> 'a VSet \<Rightarrow> bool option" where
  "VSet_subsetOf a s = (if length a > length s then Some False else subset_loop a s)"

fun VSet_intersects :: "'a::linorder VSet \<Rightarrow> 'a VSet \<Rightarrow> bool" where
  "VSet_intersects (x # a) (y # b) =
     (if x = y then True
      else if x < y then VSet_intersects a (y # b) else VSet_intersects (x # a) b)"
| "VSet_intersects _ _ = False"

fun intersect_loop :: "'a::linorder list \<Rightarrow> 'a list \<Rightarrow> 'a VSet \<Rightarrow> 'a VSet" where
  "intersect_loop (x # a) (y # b) result =
     (if x = y then intersect_loop a b (fst (VSet_insert result x))
      else if x < y then intersect_loop a (y # b) result
      else intersect_loop (x # a) b result)"
| "intersect_loop _ _ result = result"

definition VSet_intersectWith :: "'a::linorder VSet \<Rightarrow> 'a VSet \<Rightarrow> 'a VSet" where
  "VSet_intersectWith a s = intersect_loop a s VSet_empty"

section \<open>Single-element operations\<close>

lemma take_lower_bound: "take (lower_bound s x) s = takeWhile (\<lambda>y. y < x) s"
  by (metis lower_bound_def takeWhile_eq_take)

lemma drop_lower_bound: "drop (lower_bound s x) s = dropWhile (\<lambda>y. y < x) s"
  by (metis lower_bound_def dropWhile_eq_drop)

lemma lower_bound_le: "lower_bound s x \<le> length s"
  by (simp add: lower_bound_def length_takeWhile_le)

lemma lower_bound_absent:
  assumes "ssorted s"
  shows "(lower_bound s x = length s \<or> s ! lower_bound s x \<noteq> x) \<longleftrightarrow> x \<notin> set s"
  using assms
proof (induction s)
  case (Cons a s)
  then show ?case by (cases "a < x") (auto simp: lower_bound_def)
qed (simp add: lower_bound_def)

lemma drop_lower_bound_member:
  assumes "ssorted s" "x \<in> set s"
  shows "drop (lower_bound s x) s = x # drop (Suc (lower_bound s x)) s"
proof -
  have "lower_bound s x < length s \<and> s ! lower_bound s x = x"
    using lower_bound_absent [OF assms(1), of x] assms(2) lower_bound_le [of s x] by auto
  then show ?thesis by (metis Cons_nth_drop_Suc)
qed

lemma ssorted_insert_mid:
  assumes "ssorted s" "x \<notin> set s"
  shows "ssorted (takeWhile (\<lambda>y. y < x) s @ x # dropWhile (\<lambda>y. y < x) s)"
  using assms
proof (induction s)
  case (Cons a s)
  then show ?case
    by (cases "a < x") (auto simp: takeWhile_less_ssorted dropWhile_less_ssorted)
qed simp

lemma VSet_insert_eq:
  assumes "VSet_inv s"
  shows "fst (VSet_insert s x) =
     (if x \<in> set s then s else takeWhile (\<lambda>y. y < x) s @ x # dropWhile (\<lambda>y. y < x) s)"
    and "snd (snd (VSet_insert s x)) \<longleftrightarrow> x \<notin> set s"
  using lower_bound_absent [of s x] assms
  by (auto simp: VSet_insert_def VSet_inv_def Let_def take_lower_bound drop_lower_bound)

lemma VSet_insert_set [vset_simps]:
  "VSet_inv s \<Longrightarrow> set (fst (VSet_insert s x)) = insert x (set s)"
  by (auto simp: VSet_insert_eq VSet_inv_def takeWhile_less_ssorted dropWhile_less_ssorted)

lemma VSet_insert_inv [simp]: "VSet_inv s \<Longrightarrow> VSet_inv (fst (VSet_insert s x))"
  by (auto simp: VSet_insert_eq) (simp add: VSet_inv_def ssorted_insert_mid)

lemma VSet_count_iff [vset_simps]: "VSet_inv s \<Longrightarrow> VSet_count s x = (if x \<in> set s then 1 else 0)"
  using lower_bound_absent [of s x]
  by (auto simp: VSet_count_def VSet_find_def VSet_inv_def Let_def)

lemma VSet_erase_eq:
  assumes "VSet_inv s" "x \<in> set s"
  obtains l r where "s = l @ x # r" and "fst (VSet_erase s x) = l @ r"
    and "x \<notin> set l" and "x \<notin> set r" and "ssorted (l @ r)"
proof
  let ?n = "lower_bound s x"
  show s: "s = take ?n s @ x # drop (Suc ?n) s"
    using drop_lower_bound_member [of s x] assms by (metis VSet_inv_def append_take_drop_id)
  show "fst (VSet_erase s x) = take ?n s @ drop (Suc ?n) s"
    using lower_bound_absent [of s x] assms by (auto simp: VSet_erase_def VSet_inv_def Let_def)
  have "ssorted (take ?n s @ x # drop (Suc ?n) s)"
    using assms(1) s by (simp add: VSet_inv_def)
  then show "x \<notin> set (take ?n s)" "x \<notin> set (drop (Suc ?n) s)"
    "ssorted (take ?n s @ drop (Suc ?n) s)"
    by (auto simp: sorted_wrt_append)
qed

lemma VSet_erase_absent: "VSet_inv s \<Longrightarrow> x \<notin> set s \<Longrightarrow> VSet_erase s x = (s, 0)"
  using lower_bound_absent [of s x] by (auto simp: VSet_erase_def VSet_inv_def Let_def)

lemma VSet_erase_set [vset_simps]:
  assumes "VSet_inv s"
  shows "set (fst (VSet_erase s x)) = set s - {x}"
proof (cases "x \<in> set s")
  case True
  with assms obtain l r where "s = l @ x # r" "fst (VSet_erase s x) = l @ r"
    "x \<notin> set l" "x \<notin> set r" by (rule VSet_erase_eq)
  then show ?thesis by auto
qed (simp add: assms VSet_erase_absent)

lemma VSet_erase_inv [simp]:
  assumes "VSet_inv s"
  shows "VSet_inv (fst (VSet_erase s x))"
proof (cases "x \<in> set s")
  case True
  with assms obtain l r where "fst (VSet_erase s x) = l @ r" "ssorted (l @ r)"
    by (rule VSet_erase_eq)
  then show ?thesis by (simp add: VSet_inv_def)
qed (simp add: assms VSet_erase_absent)

lemma ssorted_last_max: "ssorted s \<Longrightarrow> s \<noteq> [] \<Longrightarrow> y \<in> set s \<Longrightarrow> y \<le> last s"
  by (induction s rule: rev_induct) (auto simp: sorted_wrt_append)

lemma VSet_push_eq: "VSet_inv s \<Longrightarrow> VSet_push s x = fst (VSet_insert s x)"
proof (cases "s \<noteq> [] \<and> last s < x")
  case True
  assume inv: "VSet_inv s"
  have "\<forall>y\<in>set s. y < x"
    using ssorted_last_max [of s] inv True by (force simp: VSet_inv_def)
  then have tw: "takeWhile (\<lambda>y. y < x) s = s" and dw: "dropWhile (\<lambda>y. y < x) s = []"
    and "x \<notin> set s"
    by auto
  then show ?thesis using True inv
    by (simp add: VSet_push_def VSet_insert_eq tw dw
        del: takeWhile_eq_all_conv dropWhile_eq_Nil_conv)
qed (auto simp: VSet_push_def)

lemma VSet_insert_range_inv [simp]: "VSet_inv s \<Longrightarrow> VSet_inv (VSet_insert_range s xs)"
  by (induction xs arbitrary: s) (auto simp: VSet_push_eq)

lemma VSet_insert_range_set [vset_simps]:
  "VSet_inv s \<Longrightarrow> set (VSet_insert_range s xs) = set s \<union> set xs"
  by (induction xs arbitrary: s) (auto simp: VSet_push_eq vset_simps)

lemma VSet_empty_inv [simp]: "VSet_inv VSet_empty"
  by (simp add: VSet_inv_def VSet_empty_def)

lemma VSet_empty_set [vset_simps]: "set VSet_empty = {}"
  by (simp add: VSet_empty_def)

section \<open>Bulk insertion is union\<close>

lemma count_loop_card:
  assumes "ssorted a" "ssorted b"
  shows "fst (count_loop a b c) + length (snd (count_loop a b c)) = c + card (set b - set a)"
  using assms
proof (induction a b c rule: count_loop.induct)
  case (1 x a y b c)
  have ya: "y \<notin> set a" if "y \<le> x" using 1(4) that by auto
  have eq1: "set (y # b) - set (x # a) = set (y # b) - set a" if "x < y"
    using 1(5) that by force
  have eq2: "set (y # b) - set (x # a) = set b - set a" if "x = y"
    using 1(4,5) that by force
  have eq3: "set (y # b) - set (x # a) = insert y (set b - set (x # a))" if "y < x"
    using ya [OF less_imp_le [OF that]] that by auto
  have "y \<notin> set b" using 1(5) by auto
  then show ?case
    using 1 eq1 eq2 eq3 by (cases x y rule: linorder_cases) (auto simp del: set_simps)
qed (auto simp: distinct_card ssorted_distinct)

text \<open>
  One step of the filling loop: it writes the maximum x of what is left to merge at the last free
  position, and the rest of the loop merges what is below x.
\<close>

lemma fill_step:
  assumes card: "Suc n = card (insert x U)" and U: "finite U" "\<forall>u\<in>U. u < x"
    and len: "Suc n \<le> length v"
    and rest: "n = card U \<Longrightarrow>
      fill_loop n ia ib (v[n := x]) s = sorted_list_of_set U @ drop n (v[n := x])"
  shows "fill_loop n ia ib (v[n := x]) s = sorted_list_of_set (insert x U) @ drop (Suc n) v"
proof -
  have "x \<notin> U" using U(2) by blast
  then have "n = card U" using card U(1) by simp
  moreover have "drop n (v[n := x]) = x # drop (Suc n) v"
    using len Cons_nth_drop_Suc [of n "v[n := x]"] by simp
  ultimately show ?thesis
    using rest sorted_list_of_set_snoc [OF U(1), of x] U(2) by simp
qed

lemma ssorted_take_below:
  "ssorted (take k xs) \<Longrightarrow> k \<le> length xs \<Longrightarrow> k = 0 \<or> xs ! (k - 1) < x \<Longrightarrow> \<forall>y\<in>set (take k xs). y < x"
  by (cases k) (auto simp: ssorted_take_Suc_iff set_take_Suc intro: order.strict_trans)

lemma take_length_card_le:
  "ssorted (take k xs) \<Longrightarrow> k \<le> length xs \<Longrightarrow> set (take k xs) \<subseteq> U \<Longrightarrow> finite U \<Longrightarrow> k \<le> card U"
  by (metis card_mono card_set_take)

lemma fill_cases:
  fixes v s :: "'a::linorder list"
  assumes "0 < na + nb"
  obtains (b) m where "nb = Suc m" "na = 0 \<or> v ! (na - 1) < s ! m"
    | (ab) k m where "na = Suc k" "nb = Suc m" "v ! k = s ! m"
    | (a) k where "na = Suc k" "nb = 0 \<or> s ! (nb - 1) < v ! k"
proof (cases "na = 0 \<or> nb = 0")
  case True
  then show thesis using assms b [of "nb - 1"] a [of "na - 1"] by (cases "na = 0") auto
next
  case False
  then show thesis using b [of "nb - 1"] a [of "na - 1"] ab [of "na - 1" "nb - 1"]
    by (cases "v ! (na - 1)" "s ! (nb - 1)" rule: linorder_cases) simp_all
qed

lemma fill_loop_correct:
  assumes "ssorted (take na v)" "na \<le> length v" "ssorted (take nb s)" "nb \<le> length s"
    and "n = card (set (take na v) \<union> set (take nb s))" "n \<le> length v"
  shows "fill_loop n (int na - 1) (int nb - 1) v s =
           sorted_list_of_set (set (take na v) \<union> set (take nb s)) @ drop n v"
  using assms
proof (induction n arbitrary: na nb v)
  case 0
  then show ?case by simp
next
  case (Suc n)
  note p = Suc.prems
  have "0 < na + nb" using p(5) by (cases "na = 0"; cases "nb = 0") auto
  then show ?case
  proof (cases rule: fill_cases [of na nb v s])
    case (b m)
    let ?U = "set (take na v) \<union> set (take m s)"
    have m: "m < length s" "ssorted (take m s)" using p(3,4) b(1) by (auto simp: ssorted_take_Suc_iff)
    have U: "set (take na v) \<union> set (take nb s) = insert (s ! m) ?U"
      using m b(1) by (simp add: set_take_Suc)
    have "fill_loop n (int na - 1) (int m - 1) (v[n := s ! m]) s
        = sorted_list_of_set (insert (s ! m) ?U) @ drop (Suc n) v"
    proof (rule fill_step)
      show "\<forall>u\<in>?U. u < s ! m"
        using ssorted_take_below [OF p(1,2) b(2)] p(3) m b(1) by (auto simp: ssorted_take_Suc_iff)
      assume n: "n = card ?U"
      then have "na \<le> n" using take_length_card_le [OF p(1,2), of ?U] by simp
      then show "fill_loop n (int na - 1) (int m - 1) (v[n := s ! m]) s
          = sorted_list_of_set ?U @ drop n (v[n := s ! m])"
        using Suc.IH [of na "v[n := s ! m]" m] p m n by simp
    qed (use p U in simp_all)
    then show ?thesis using b U by (cases na) auto
  next
    case (ab k m)
    let ?U = "set (take k v) \<union> set (take m s)"
    have m: "m < length s" "ssorted (take m s)" using p(3,4) ab(2) by (auto simp: ssorted_take_Suc_iff)
    have k: "k < length v" "ssorted (take k v)" using p(1,2) ab(1) by (auto simp: ssorted_take_Suc_iff)
    have U: "set (take na v) \<union> set (take nb s) = insert (v ! k) ?U"
      using m k ab by (simp add: set_take_Suc)
    have "fill_loop n (int k - 1) (int m - 1) (v[n := v ! k]) s
        = sorted_list_of_set (insert (v ! k) ?U) @ drop (Suc n) v"
    proof (rule fill_step)
      show "\<forall>u\<in>?U. u < v ! k" using p(1,3) k m ab by (auto simp: ssorted_take_Suc_iff)
      assume n: "n = card ?U"
      then have "k \<le> n" using take_length_card_le [OF k(2), of ?U] k(1) by simp
      then show "fill_loop n (int k - 1) (int m - 1) (v[n := v ! k]) s
          = sorted_list_of_set ?U @ drop n (v[n := v ! k])"
        using Suc.IH [of k "v[n := v ! k]" m] p m k n by simp
    qed (use p U in simp_all)
    then show ?thesis using ab U by auto
  next
    case (a k)
    let ?U = "set (take k v) \<union> set (take nb s)"
    have k: "k < length v" "ssorted (take k v)" using p(1,2) a(1) by (auto simp: ssorted_take_Suc_iff)
    have U: "set (take na v) \<union> set (take nb s) = insert (v ! k) ?U"
      using k a by (simp add: set_take_Suc)
    have "fill_loop n (int k - 1) (int nb - 1) (v[n := v ! k]) s
        = sorted_list_of_set (insert (v ! k) ?U) @ drop (Suc n) v"
    proof (rule fill_step)
      show "\<forall>u\<in>?U. u < v ! k"
        using ssorted_take_below [OF p(3,4) a(2)] p(1) k a(1) by (auto simp: ssorted_take_Suc_iff)
      assume n: "n = card ?U"
      then have "k \<le> n" using take_length_card_le [OF k(2), of ?U] k(1) by simp
      then show "fill_loop n (int k - 1) (int nb - 1) (v[n := v ! k]) s
          = sorted_list_of_set ?U @ drop n (v[n := v ! k])"
        using Suc.IH [of k "v[n := v ! k]" nb] p k n by simp
    qed (use p U in simp_all)
    then show ?thesis using a U by (cases nb) auto
  qed
qed

lemma VSet_insert_all_eq:
  assumes "VSet_inv a" "VSet_inv s"
  shows "VSet_insert_all a s = (sorted_list_of_set (set a \<union> set s), card (set s - set a))"
proof -
  have ss: "ssorted a" "ssorted s" using assms by (simp_all add: VSet_inv_def)
  let ?c = "card (set s - set a)"
  have cnt: "fst (count_loop a s 0) + length (snd (count_loop a s 0)) = ?c"
    using count_loop_card [OF ss, of 0] by simp
  have idem: "xs = sorted_list_of_set (set xs)" if "ssorted xs" for xs :: "'a list"
    using that by (simp add: sorted_list_of_set.idem_if_sorted_distinct strict_sorted_iff)
  have single: "VSet_insert_all a s = (sorted_list_of_set (set a \<union> set s), ?c)"
    if s: "s = [x]" "a \<noteq> []" for x
  proof -
    have "fst (VSet_insert a x) = sorted_list_of_set (set (fst (VSet_insert a x)))"
      using VSet_insert_inv [OF assms(1), of x] by (intro idem) (simp add: VSet_inv_def)
    then have "fst (VSet_insert a x) = sorted_list_of_set (insert x (set a))"
      by (simp only: VSet_insert_set [OF assms(1)])
    then show ?thesis
      using s VSet_insert_eq(2) [OF assms(1), of x]
      by (simp add: VSet_insert_all_def Let_def insert_Diff_if)
  qed
  have absorb: "set a \<union> set s = set a" if "?c = 0" using that by auto
  have card: "length a + ?c = card (set a \<union> set s)"
    using card_Un_disjoint [of "set a" "set s - set a"] ss
    by (simp add: distinct_card ssorted_distinct)
  have fill: "fill_loop (length a + ?c) (int (length a) - 1) (int (length s) - 1)
      (a @ replicate ?c (a ! 0)) s = sorted_list_of_set (set a \<union> set s)"
    using fill_loop_correct [of "length a" "a @ replicate ?c (a ! 0)" "length s" s
        "length a + ?c"] ss card by simp
  show ?thesis
  proof (cases "a = [] \<or> s = [] \<or> length s = 1")
    case True
    then show ?thesis
      using idem [OF ss(1)] idem [OF ss(2)] single ss
      by (auto simp: VSet_insert_all_def distinct_card ssorted_distinct length_Suc_conv)
  next
    case False
    then have "VSet_insert_all a s =
        (if ?c = 0 then (a, 0) else (sorted_list_of_set (set a \<union> set s), ?c))"
      unfolding VSet_insert_all_def Let_def split_beta cnt fill by simp
    moreover have "sorted_list_of_set (set a \<union> set s) = a" if "?c = 0"
      using absorb [OF that] idem [OF ss(1)] by metis
    ultimately show ?thesis by presburger
  qed
qed

section \<open>Bulk deletion is difference\<close>

lemma ssorted_filter_drop_below:
  "ssorted s \<Longrightarrow> b < length s \<Longrightarrow> \<forall>x\<in>set xs. s ! b < x \<Longrightarrow>
     filter (\<lambda>x. x \<notin> set (drop b s)) xs = filter (\<lambda>x. x \<notin> set (drop (Suc b) s)) xs"
  by (subst Cons_nth_drop_Suc [symmetric]) (auto intro!: filter_cong)

lemma ssorted_less_drop:
  "ssorted s \<Longrightarrow> b < length s \<Longrightarrow> x < s ! b \<Longrightarrow> x \<notin> set (drop b s)"
  by (subst Cons_nth_drop_Suc [symmetric], assumption)
    (metis (no_types, lifting) Cons_nth_drop_Suc order.asym order.strict_trans set_ConsD
      sorted_wrt.simps(2) sorted_wrt_drop)

text \<open>
  The loop invariant: the first aMov positions hold the kept elements; from position a on the
  vector is as it was. At the end, the kept elements followed by the rest of the vector are the
  elements of v outside s.
\<close>

lemma erase_loop_correct:
  assumes "ssorted (drop a v)" "ssorted s" "aMov \<le> a" "a \<le> length v"
    and "erase_loop v s a b aMov erased = (v', a', aMov', erased')"
  shows "length v' = length v \<and> aMov' \<le> a' \<and> a' \<le> length v \<and>
     take aMov' v' @ drop a' v' = take aMov v @ filter (\<lambda>x. x \<notin> set (drop b s)) (drop a v) \<and>
     erased' - erased = int a' - int aMov' - (int a - int aMov)"
  using assms
proof (induction v s a b aMov erased rule: erase_loop.induct)
  case (1 v s a b aMov erased)
  note p = 1(4-8)
  show ?case
  proof (cases "a < length v \<and> b < length s")
    case False
    have "filter (\<lambda>x. x \<notin> set (drop b s)) (drop a v) = drop a v"
      using False by (auto simp: filter_id_conv)
    then show ?thesis using p False by (auto simp: erase_loop.simps [of v s a b])
  next
    case ab: True
    have dv: "drop a v = v ! a # drop (Suc a) v" "drop b s = s ! b # drop (Suc b) s"
      using ab by (simp_all add: Cons_nth_drop_Suc)
    have sv: "ssorted (drop (Suc a) v)" "\<forall>x\<in>set (drop (Suc a) v). v ! a < x"
      using p(1) dv by simp_all
    consider "v ! a = s ! b" | "v ! a < s ! b" | "s ! b < v ! a" by (rule linorder_cases)
    then show ?thesis
    proof cases
      case 1
      then show ?thesis
        using "1.IH"(1) [OF ab 1] p ab sv ssorted_filter_drop_below [of s b "drop (Suc a) v"]
        by (simp add: erase_loop.simps [of v s a b]) (simp add: dv)
    next
      case 2
      let ?v = "if aMov \<noteq> a then v[aMov := v ! a] else v"
      have "length ?v = length v" "drop (Suc a) ?v = drop (Suc a) v" "take (Suc aMov) ?v = take aMov v @ [v ! a]"
        using ab p(3) by (auto simp: take_Suc_conv_app_nth)
      then show ?thesis
        using "1.IH"(2) [OF ab] 2 2 [THEN less_imp_neq] p ab sv ssorted_less_drop [of s b "v ! a"]
        by (simp add: erase_loop.simps [of v s a b] dv(1) split del: if_split)
    next
      case 3
      then have ne: "v ! a \<noteq> s ! b" "\<not> v ! a < s ! b" by auto
      have "erase_loop v s a (Suc b) aMov erased = (v', a', aMov', erased')"
        using p(5) ab ne by (simp add: erase_loop.simps [of v s a b])
      moreover have "\<forall>x\<in>set (drop a v). s ! b < x"
        unfolding dv(1) using sv(2) 3 by (auto intro: order.strict_trans)
      ultimately show ?thesis
        using "1.IH"(3) [OF ab ne] p ab ssorted_filter_drop_below [of s b "drop a v"]
        by (simp only: simp_thms)
    qed
  qed
qed

lemma shift_loop_correct:
  "aMov < a \<Longrightarrow> a \<le> length v \<Longrightarrow>
     length (fst (shift_loop v a aMov)) = length v \<and>
     take (snd (shift_loop v a aMov)) (fst (shift_loop v a aMov)) = take aMov v @ drop a v"
proof (induction v a aMov rule: shift_loop.induct)
  case (1 v a aMov)
  show ?case
  proof (cases "a < length v")
    case True
    then have "take (Suc aMov) (v[aMov := v ! a]) = take aMov v @ [v ! a]"
      using 1(2) by (simp add: take_Suc_conv_app_nth)
    then show ?thesis
      using 1 True by (simp add: shift_loop.simps [of v a] Cons_nth_drop_Suc)
  qed (use 1 in \<open>simp add: shift_loop.simps [of v "length v"]\<close>)
qed

lemma VSet_erase_all_eq:
  assumes "VSet_inv v" "VSet_inv s"
  shows "fst (VSet_erase_all v s) = filter (\<lambda>x. x \<notin> set s) v"
    and "snd (VSet_erase_all v s) = int (card (set v \<inter> set s))"
proof -
  have ss: "ssorted v" "ssorted s" using assms by (simp_all add: VSet_inv_def)
  obtain v' a aMov e where l: "erase_loop v s 0 0 0 0 = (v', a, aMov, e)"
    by (cases "erase_loop v s 0 0 0 0")
  have r: "length v' = length v" "aMov \<le> a" "a \<le> length v"
      "take aMov v' @ drop a v' = filter (\<lambda>x. x \<notin> set s) v" "e = int a - int aMov"
    using erase_loop_correct [OF _ ss(2) _ _ l] ss by simp_all
  show fst: "fst (VSet_erase_all v s) = filter (\<lambda>x. x \<notin> set s) v"
  proof (cases "aMov = a \<or> v = [] \<or> s = []")
    case True
    then show ?thesis using r l by (auto simp: VSet_erase_all_def)
  next
    case False
    then show ?thesis
      using r l shift_loop_correct [of aMov a v']
      by (auto simp: VSet_erase_all_def Let_def split: prod.splits)
  qed
  have "int (length v) = int aMov + (int (length v) - int a) + e" using r by simp
  moreover have "length (filter (\<lambda>x. x \<notin> set s) v) = aMov + (length v - a)"
    unfolding r(4) [symmetric] using r(1-3) by simp
  moreover have "length (filter (\<lambda>x. x \<notin> set s) v) + length (filter (\<lambda>x. x \<in> set s) v) = length v"
    using sum_length_filter_compl [of "\<lambda>x. x \<in> set s" v] by simp
  moreover have "length (filter (\<lambda>x. x \<in> set s) v) = card (set v \<inter> set s)"
    using ss(1) by (metis Collect_conj_eq Collect_mem_eq distinct_card distinct_filter set_filter
        ssorted_distinct)
  ultimately have "e = int (card (set v \<inter> set s))" using r(3) by linarith
  then show "snd (VSet_erase_all v s) = int (card (set v \<inter> set s))"
    using l by (auto simp: VSet_erase_all_def Let_def split: prod.splits)
qed

section \<open>Comparisons and intersection\<close>

lemma subset_loop_correct:
  "ssorted a \<Longrightarrow> ssorted b \<Longrightarrow> subset_loop a b = Some (set a \<subseteq> set b)"
proof (induction a b rule: subset_loop.induct)
  case (2 x a b)
  show ?case
  proof (cases "length (x # a) > length b")
    case True
    have "\<not> set (x # a) \<subseteq> set b"
      using True 2(3) card_mono [of "set b" "set (x # a)"]
      by (metis List.finite_set card_length distinct_card le_trans linorder_not_le ssorted_distinct)
    then show ?thesis using True by simp
  next
    case False
    then obtain y b' where b: "b = y # b'" by (cases b) auto
    have gt: "\<forall>z\<in>set a. x < z" "\<forall>z\<in>set b'. y < z" using 2 b by auto
    show ?thesis
    proof (cases x y rule: linorder_cases)
      case less
      then have "x \<notin> set b" using b gt by auto
      then show ?thesis using False b less by simp
    next
      case equal
      then have "set (x # a) \<subseteq> set b \<longleftrightarrow> set a \<subseteq> set b'" using b gt by auto
      then show ?thesis using 2 False b equal by simp
    next
      case greater
      then have "y \<notin> set (x # a)" using gt(1) by auto
      then have "set (x # a) \<subseteq> set b \<longleftrightarrow> set (x # a) \<subseteq> set b'" using b by auto
      then show ?thesis using 2 False b greater by auto
    qed
  qed
qed simp

lemma VSet_subsetOf_iff [vset_simps]:
  assumes "VSet_inv a" "VSet_inv s"
  shows "VSet_subsetOf a s = Some (set a \<subseteq> set s)"
proof (cases "length a > length s")
  case True
  then show ?thesis using assms card_mono [of "set s" "set a"]
    by (auto simp: VSet_subsetOf_def VSet_inv_def distinct_card ssorted_distinct)
qed (use assms in \<open>simp add: VSet_subsetOf_def VSet_inv_def subset_loop_correct\<close>)

lemma VSet_intersects_iff [vset_simps]:
  "VSet_inv a \<Longrightarrow> VSet_inv b \<Longrightarrow> VSet_intersects a b \<longleftrightarrow> set a \<inter> set b \<noteq> {}"
  by (induction a b rule: VSet_intersects.induct) (auto simp: VSet_inv_def)

lemma intersect_loop_inv: "VSet_inv r \<Longrightarrow> VSet_inv (intersect_loop a b r)"
  by (induction a b r rule: intersect_loop.induct) auto

lemma intersect_loop_set:
  "ssorted a \<Longrightarrow> ssorted b \<Longrightarrow> VSet_inv r \<Longrightarrow> set (intersect_loop a b r) = set r \<union> (set a \<inter> set b)"
  by (induction a b r rule: intersect_loop.induct) (auto simp: vset_simps)

lemma VSet_intersectWith_eq:
  assumes "VSet_inv a" "VSet_inv b"
  shows "VSet_intersectWith a b = filter (\<lambda>x. x \<in> set b) a"
proof (rule ssorted_unique)
  show "ssorted (VSet_intersectWith a b)"
    using intersect_loop_inv [OF VSet_empty_inv, of a b]
    by (simp add: VSet_intersectWith_def VSet_inv_def)
  show "set (VSet_intersectWith a b) = set (filter (\<lambda>x. x \<in> set b) a)"
    using assms intersect_loop_set [OF _ _ VSet_empty_inv, of a b]
    by (auto simp: VSet_intersectWith_def VSet_inv_def vset_simps)
qed (use assms in \<open>simp add: VSet_inv_def sorted_wrt_filter\<close>)

section \<open>The interface of a set of events\<close>

text \<open>
  What the clients of VSet rely on (DepView keeps its holes in one): an invariant, the abstract
  set, and insertion, deletion and membership that act on it. The bulk operations of a client are
  folds of the single ones.
\<close>

locale set_interface =
  fixes empty :: 's
    and ins :: "'s \<Rightarrow> 'a \<Rightarrow> 's"
    and del :: "'s \<Rightarrow> 'a \<Rightarrow> 's"
    and member :: "'s \<Rightarrow> 'a \<Rightarrow> bool"
    and abs :: "'s \<Rightarrow> 'a set"
    and inv :: "'s \<Rightarrow> bool"
  assumes inv_empty: "inv empty"
    and abs_empty: "abs empty = {}"
    and inv_ins: "inv s \<Longrightarrow> inv (ins s x)"
    and abs_ins: "inv s \<Longrightarrow> abs (ins s x) = insert x (abs s)"
    and inv_del: "inv s \<Longrightarrow> inv (del s x)"
    and abs_del: "inv s \<Longrightarrow> abs (del s x) = abs s - {x}"
    and member_iff: "inv s \<Longrightarrow> member s x \<longleftrightarrow> x \<in> abs s"
begin

lemma fold_ins:
  "inv s \<Longrightarrow> inv (fold (\<lambda>x t. ins t x) xs s) \<and> abs (fold (\<lambda>x t. ins t x) xs s) = abs s \<union> set xs"
  by (induction xs arbitrary: s) (auto simp: inv_ins abs_ins)

lemma fold_del:
  "inv s \<Longrightarrow> inv (fold (\<lambda>x t. del t x) xs s) \<and> abs (fold (\<lambda>x t. del t x) xs s) = abs s - set xs"
  by (induction xs arbitrary: s) (auto simp: inv_del abs_del)

lemma ins_del_member:
  "inv s \<Longrightarrow> member (ins s x) y \<longleftrightarrow> y = x \<or> member s y"
  "inv s \<Longrightarrow> member (del s x) y \<longleftrightarrow> y \<noteq> x \<and> member s y"
  by (auto simp: member_iff inv_ins abs_ins inv_del abs_del)

end

interpretation vset: set_interface VSet_empty "\<lambda>s x. fst (VSet_insert s x)"
  "\<lambda>s x. fst (VSet_erase s x)" "\<lambda>s x. VSet_count s x \<noteq> 0" set VSet_inv
  by unfold_locales (simp_all add: vset_simps)

section \<open>Properties\<close>

text \<open>C37. The in-place bulk insertion of VSet is set union: the result is a strictly sorted vector of
  exactly the elements of both sets, and the value returned counts the new elements.\<close>

theorem VSet_insert_all_union:
  assumes "VSet_inv a" "VSet_inv s"
  shows "VSet_inv (fst (VSet_insert_all a s)) \<and> set (fst (VSet_insert_all a s)) = set a \<union> set s \<and>
     snd (VSet_insert_all a s) = card (set s - set a)"
  by (simp add: VSet_insert_all_eq [OF assms] VSet_inv_def)

theorem VSet_insert_all_union_witness:
  "set (fst (VSet_insert_all [1, 4, 9] [2, 4, 7 :: int])) = {1, 2, 4, 7, 9} \<and>
   snd (VSet_insert_all [1, 4, 9] [2, 4, 7 :: int]) = card ({2, 4, 7 :: int} - {1, 4, 9})"
  using VSet_insert_all_union [of "[1, 4, 9 :: int]" "[2, 4, 7]"] by (auto simp: VSet_inv_def)

text \<open>The in-place bulk deletion of VSet is set difference in the order of the vector, and the value
  returned counts the elements erased.\<close>

theorem VSet_erase_all_difference:
  assumes "VSet_inv v" "VSet_inv s"
  shows "VSet_erase_all v s = (filter (\<lambda>x. x \<notin> set s) v, int (card (set v \<inter> set s))) \<and>
     VSet_inv (fst (VSet_erase_all v s))"
  using VSet_erase_all_eq [OF assms] assms
  by (simp add: prod_eq_iff VSet_inv_def sorted_wrt_filter)

theorem VSet_erase_all_difference_witness:
  "fst (VSet_erase_all [1, 4, 9] [2, 4, 7 :: int]) = [1, 9]"
  using VSet_erase_all_difference [of "[1, 4, 9 :: int]" "[2, 4, 7]"] by (simp add: VSet_inv_def)

text \<open>The two-iterator walks of VSet agree with the set operations: subsetOf never reads past the end
  of the other set and decides inclusion, intersects decides non-empty intersection, and
  intersectWith returns the intersection.\<close>

theorem VSet_walks:
  assumes "VSet_inv a" "VSet_inv s"
  shows "VSet_subsetOf a s = Some (set a \<subseteq> set s) \<and>
     VSet_intersects a s = (set a \<inter> set s \<noteq> {}) \<and>
     VSet_intersectWith a s = filter (\<lambda>x. x \<in> set s) a"
  using assms by (simp add: vset_simps VSet_intersectWith_eq)

theorem VSet_walks_witness:
  "VSet_subsetOf [4] [2, 4, 7 :: int] = Some True \<and> VSet_intersects [4] [2, 4, 7 :: int] \<and>
   VSet_intersectWith [4] [2, 4, 7 :: int] = [4]"
  using VSet_walks [of "[4 :: int]" "[2, 4, 7]"] by (simp add: VSet_inv_def)

end
