(* ===== verification/MemValues.thy ===== *)
theory MemValues
  imports VSets
begin

unbundle bit_operations_syntax

text \<open>
  The machine values of the model checker: stamps (src/src/Stamp.hpp), access sizes
  (src/src/ASize.hpp), stored values (src/src/SVal.hpp), addresses (src/src/SAddr.hpp), the address
  allocator (src/src/SAddrAllocator.hpp) and memory accesses (src/src/MemAccess.hpp). Every
  unsigned C++ integer is a word of its width, so the arithmetic wraps as it does in the code.
\<close>

section \<open>Stamps and sizes\<close>

type_synonym Stamp = "32 word"

text \<open>
  IMPL_STAMP_BINOP defines a compound assignment and a binary operator for each of + and -. The
  body of the binary operator is \<open>n += v\<close> for both.
\<close>

definition Stamp_add_assign :: "Stamp \<Rightarrow> 32 word \<Rightarrow> Stamp" where
  "Stamp_add_assign s v = s + v"

definition Stamp_sub_assign :: "Stamp \<Rightarrow> 32 word \<Rightarrow> Stamp" where
  "Stamp_sub_assign s v = s - v"

definition Stamp_add :: "Stamp \<Rightarrow> 32 word \<Rightarrow> Stamp" where
  "Stamp_add s v = Stamp_add_assign s v"

definition Stamp_sub :: "Stamp \<Rightarrow> 32 word \<Rightarrow> Stamp" where
  "Stamp_sub s v = Stamp_add_assign s v"

definition Stamp_inc :: "Stamp \<Rightarrow> Stamp" where
  "Stamp_inc s = Stamp_add_assign s 1"

definition Stamp_dec :: "Stamp \<Rightarrow> Stamp" where
  "Stamp_dec s = Stamp_sub_assign s 1"

type_synonym ASize = "32 word"

definition CHAR_BIT :: "32 word" where
  "CHAR_BIT = 8"

definition ASize_getBits :: "ASize \<Rightarrow> 32 word" where
  "ASize_getBits s = s * CHAR_BIT"

section \<open>Values\<close>

type_synonym SVal = "64 word"

definition SVal_width :: nat where
  "SVal_width = 64"

definition SVal_getSigned :: "SVal \<Rightarrow> int" where
  "SVal_getSigned v = sint v"

definition SVal_getBool :: "SVal \<Rightarrow> bool" where
  "SVal_getBool v = (v \<noteq> 0)"

text \<open>Shift left, then arithmetic shift right; aborts on a width outside 1..64.\<close>

definition signExtendBottom :: "SVal \<Rightarrow> nat \<Rightarrow> SVal option" where
  "signExtendBottom v b =
     do { BUG_ON (b = 0 \<or> b > SVal_width);
          Some (signed_drop_bit (SVal_width - b) (push_bit (SVal_width - b) v)) }"

definition SVal_compare :: "SVal \<Rightarrow> SVal \<Rightarrow> int" where
  "SVal_compare a v = (if a < v then -1 else if a > v then 1 else 0)"

definition SVal_compareSigned :: "SVal \<Rightarrow> SVal \<Rightarrow> int" where
  "SVal_compareSigned a v =
     (let l = SVal_getSigned a; r = SVal_getSigned v in if l < r then -1 else if l > r then 1 else 0)"

definition SVal_ult :: "SVal \<Rightarrow> SVal \<Rightarrow> bool" where "SVal_ult a v = (SVal_compare a v < 0)"
definition SVal_slt :: "SVal \<Rightarrow> SVal \<Rightarrow> bool" where "SVal_slt a v = (SVal_compareSigned a v < 0)"
definition SVal_ule :: "SVal \<Rightarrow> SVal \<Rightarrow> bool" where "SVal_ule a v = (SVal_compare a v \<le> 0)"
definition SVal_sle :: "SVal \<Rightarrow> SVal \<Rightarrow> bool" where "SVal_sle a v = (SVal_compareSigned a v \<le> 0)"
definition SVal_ugt :: "SVal \<Rightarrow> SVal \<Rightarrow> bool" where "SVal_ugt a v = (\<not> SVal_ule a v)"
definition SVal_sgt :: "SVal \<Rightarrow> SVal \<Rightarrow> bool" where "SVal_sgt a v = (\<not> SVal_sle a v)"
definition SVal_uge :: "SVal \<Rightarrow> SVal \<Rightarrow> bool" where "SVal_uge a v = (\<not> SVal_ult a v)"
definition SVal_sge :: "SVal \<Rightarrow> SVal \<Rightarrow> bool" where "SVal_sge a v = (\<not> SVal_slt a v)"

text \<open>
  The operators IMPL_BINOP expands to. Division by zero and a shift by the width or more are
  undefined in C++: None.
\<close>

datatype SValOp = Plus | Minus | Times | Div | Mod | And | Or | Xor | Shl | Shr

fun SVal_binop :: "SValOp \<Rightarrow> SVal \<Rightarrow> SVal \<Rightarrow> SVal option" where
  "SVal_binop Plus a v = Some (a + v)"
| "SVal_binop Minus a v = Some (a - v)"
| "SVal_binop Times a v = Some (a * v)"
| "SVal_binop Div a v = (if v = 0 then None else Some (a div v))"
| "SVal_binop Mod a v = (if v = 0 then None else Some (a mod v))"
| "SVal_binop And a v = Some (a AND v)"
| "SVal_binop Or a v = Some (a OR v)"
| "SVal_binop Xor a v = Some (a XOR v)"
| "SVal_binop Shl a v = (if unat v \<ge> SVal_width then None else Some (push_bit (unat v) a))"
| "SVal_binop Shr a v = (if unat v \<ge> SVal_width then None else Some (drop_bit (unat v) a))"

section \<open>Addresses\<close>

type_synonym SAddr = "64 word"

definition wordSize :: nat where "wordSize = 3"
definition byteMask :: SAddr where "byteMask = push_bit wordSize 1 - 1"
definition staticMask :: SAddr where "staticMask = push_bit 63 1"
definition automaticMask :: SAddr where "automaticMask = push_bit 62 1"
definition internalMask :: SAddr where "internalMask = push_bit 61 1"
definition durableMask :: SAddr where "durableMask = push_bit 60 1"
definition storageMask :: SAddr where
  "storageMask = staticMask OR automaticMask OR internalMask OR durableMask"
definition addressMask :: SAddr where "addressMask = durableMask - 1"
definition SAddr_limit :: SAddr where "SAddr_limit = addressMask"

text \<open>
  create: the two conditional-bit-set idioms, \<open>fresh ^= (-b ^ fresh) & mask\<close>, in the order
  of the code.
\<close>

definition set_bit_cond :: "SAddr \<Rightarrow> bool \<Rightarrow> SAddr \<Rightarrow> SAddr" where
  "set_bit_cond fresh b m = fresh XOR (((- (if b then 1 else 0)) XOR fresh) AND m)"

definition SAddr_create :: "SAddr \<Rightarrow> SAddr \<Rightarrow> bool \<Rightarrow> bool \<Rightarrow> SAddr option" where
  "SAddr_create storage val durable internal =
     do { BUG_ON (val \<ge> SAddr_limit);
          let fresh = 0 OR storage;
              fresh = set_bit_cond fresh durable durableMask;
              fresh = set_bit_cond fresh internal internalMask
          in Some (fresh OR val) }"

definition createStatic :: "SAddr \<Rightarrow> bool \<Rightarrow> bool \<Rightarrow> SAddr option" where
  "createStatic = SAddr_create staticMask"
definition createHeap :: "SAddr \<Rightarrow> bool \<Rightarrow> bool \<Rightarrow> SAddr option" where
  "createHeap = SAddr_create 0"
definition createAutomatic :: "SAddr \<Rightarrow> bool \<Rightarrow> bool \<Rightarrow> SAddr option" where
  "createAutomatic = SAddr_create automaticMask"

definition isStatic :: "SAddr \<Rightarrow> bool" where "isStatic a = (a AND staticMask \<noteq> 0)"
definition isDynamic :: "SAddr \<Rightarrow> bool" where "isDynamic a = (\<not> isStatic a)"
definition isAutomatic :: "SAddr \<Rightarrow> bool" where "isAutomatic a = (a AND automaticMask \<noteq> 0)"
definition isHeap :: "SAddr \<Rightarrow> bool" where "isHeap a = (\<not> isAutomatic a)"
definition isInternal :: "SAddr \<Rightarrow> bool" where "isInternal a = (a AND internalMask \<noteq> 0)"
definition isUser :: "SAddr \<Rightarrow> bool" where "isUser a = (\<not> isInternal a)"
definition isDurable :: "SAddr \<Rightarrow> bool" where "isDurable a = (a AND durableMask \<noteq> 0)"
definition isVolatile :: "SAddr \<Rightarrow> bool" where "isVolatile a = (\<not> isDurable a)"
definition isNull :: "SAddr \<Rightarrow> bool" where "isNull a = (a = 0)"

definition sameStorageAs :: "SAddr \<Rightarrow> SAddr \<Rightarrow> bool" where
  "sameStorageAs a b = (a AND storageMask = b AND storageMask)"

definition SAddr_align :: "SAddr \<Rightarrow> SAddr" where
  "SAddr_align a = push_bit wordSize (drop_bit wordSize a)"

definition getByte :: "SAddr \<Rightarrow> int" where
  "getByte a = uint (a AND byteMask)"

definition SAddr_plus :: "SAddr \<Rightarrow> ASize \<Rightarrow> SAddr" where
  "SAddr_plus a s = a + ucast s"

definition SAddr_minus :: "SAddr \<Rightarrow> ASize \<Rightarrow> SAddr" where
  "SAddr_minus a s = a - ucast s"

definition SAddr_diff :: "SAddr \<Rightarrow> SAddr \<Rightarrow> SAddr" where
  "SAddr_diff a b = a - b"

section \<open>The address allocator\<close>

record SAddrAllocator =
  staticPool :: SAddr
  automaticPool :: SAddr
  heapPool :: SAddr

definition SAddrAllocator_init :: SAddrAllocator where
  "SAddrAllocator_init = \<lparr>staticPool = 0, automaticPool = 0, heapPool = 1\<rparr>"

text \<open>
  allocate: the alignment, the offset and their sum with the size are 32-bit unsigned; the mask
  \<open>~(alignment - 1)\<close> is a 32-bit value too, zero-extended before the 64-bit conjunction. The
  result is the address and the new value of the pool.
\<close>

definition allocate :: "(SAddr \<Rightarrow> bool \<Rightarrow> bool \<Rightarrow> SAddr option) \<Rightarrow> SAddr \<Rightarrow> 32 word \<Rightarrow> 32 word \<Rightarrow>
    bool \<Rightarrow> bool \<Rightarrow> (SAddr \<times> SAddr) option" where
  "allocate allocFun pool sz alignment dur internal =
     (let alignment = max alignment (push_bit 3 1);
          offset = alignment - 1;
          oldAddr = pool;
          pool = pool + ucast (offset + sz)
      in do { a \<leftarrow> allocFun ((oldAddr + ucast offset) AND ucast (NOT (alignment - 1))) dur internal;
              Some (a, pool) })"

definition allocStatic :: "SAddrAllocator \<Rightarrow> 32 word \<Rightarrow> 32 word \<Rightarrow> bool \<Rightarrow> bool \<Rightarrow>
    (SAddr \<times> SAddrAllocator) option" where
  "allocStatic al sz alignment dur internal =
     do { (a, p) \<leftarrow> allocate createStatic (staticPool al) sz alignment dur internal;
          Some (a, al\<lparr>staticPool := p\<rparr>) }"

definition allocAutomatic :: "SAddrAllocator \<Rightarrow> 32 word \<Rightarrow> 32 word \<Rightarrow> bool \<Rightarrow> bool \<Rightarrow>
    (SAddr \<times> SAddrAllocator) option" where
  "allocAutomatic al sz alignment dur internal =
     do { (a, p) \<leftarrow> allocate createAutomatic (automaticPool al) sz alignment dur internal;
          Some (a, al\<lparr>automaticPool := p\<rparr>) }"

definition allocHeap :: "SAddrAllocator \<Rightarrow> 32 word \<Rightarrow> 32 word \<Rightarrow> bool \<Rightarrow> bool \<Rightarrow>
    (SAddr \<times> SAddrAllocator) option" where
  "allocHeap al sz alignment dur internal =
     do { (a, p) \<leftarrow> allocate createHeap (heapPool al) sz alignment dur internal;
          Some (a, al\<lparr>heapPool := p\<rparr>) }"

section \<open>Memory accesses\<close>

datatype AType = Pointer | Signed | Unsigned

record AAccess =
  acc_addr :: SAddr
  acc_size :: ASize
  acc_type :: AType

definition AAccess_isPointer :: "AAccess \<Rightarrow> bool" where
  "AAccess_isPointer a = (acc_type a = Pointer)"
definition AAccess_isUnsigned :: "AAccess \<Rightarrow> bool" where
  "AAccess_isUnsigned a = (acc_type a = Unsigned)"
definition AAccess_isSigned :: "AAccess \<Rightarrow> bool" where
  "AAccess_isSigned a = (acc_type a = Signed)"

definition AAccess_contains :: "AAccess \<Rightarrow> SAddr \<Rightarrow> bool" where
  "AAccess_contains a x =
     (if \<not> sameStorageAs (acc_addr a) x then False
      else acc_addr a \<le> x \<and> x < SAddr_plus (acc_addr a) (acc_size a))"

definition AAccess_overlaps :: "AAccess \<Rightarrow> AAccess \<Rightarrow> bool" where
  "AAccess_overlaps a other =
     (if \<not> sameStorageAs (acc_addr a) (acc_addr other) then False
      else SAddr_plus (acc_addr a) (acc_size a) > acc_addr other \<and>
           acc_addr a < SAddr_plus (acc_addr other) (acc_size other))"

text \<open>
  WordFragment derives from std::set of int, kept here as the strictly increasing list of its
  elements, which is the order in which the code iterates over it.
\<close>

type_synonym WordFragment = "int list"

definition WordFragment_of :: "AAccess \<Rightarrow> WordFragment" where
  "WordFragment_of a = map (\<lambda>i. getByte (acc_addr a) + int i) [0..<unat (acc_size a)]"

definition WordFragment_subtract :: "WordFragment \<Rightarrow> WordFragment \<Rightarrow> WordFragment" where
  "WordFragment_subtract f g = filter (\<lambda>x. x \<notin> set g) f"

definition WordFragment_intersect :: "WordFragment \<Rightarrow> WordFragment \<Rightarrow> WordFragment" where
  "WordFragment_intersect f g = filter (\<lambda>x. x \<in> set g) f"

definition getOverlap :: "AAccess \<Rightarrow> WordFragment \<Rightarrow> WordFragment" where
  "getOverlap a f = WordFragment_intersect (WordFragment_of a) f"

text \<open>The inner do-while loop of getAccesses, after its first iteration.\<close>

fun run_loop :: "int \<Rightarrow> int \<Rightarrow> int list \<Rightarrow> int \<times> int list" where
  "run_loop beg sz [] = (sz, [])"
| "run_loop beg sz (x # it) =
     (if x = beg + sz then run_loop beg (sz + 1) it else (sz, x # it))"

lemma run_loop_length: "length (snd (run_loop beg sz it)) \<le> length it"
  by (induction beg sz it rule: run_loop.induct) auto

function access_loop :: "SAddr \<Rightarrow> AType \<Rightarrow> int list \<Rightarrow> AAccess list" where
  "access_loop w ty [] = []"
| "access_loop w ty (beg # it) =
     \<lparr>acc_addr = SAddr_plus w (word_of_int beg),
      acc_size = word_of_int (fst (run_loop beg 1 it)), acc_type = ty\<rparr>
     # access_loop w ty (snd (run_loop beg 1 it))"
  by pat_completeness auto
termination
  by (relation "measure (\<lambda>(w, ty, it). length it)") (auto simp: run_loop_length le_imp_less_Suc)

definition getAccesses :: "SAddr \<Rightarrow> WordFragment \<Rightarrow> AType \<Rightarrow> AAccess list option" where
  "getAccesses w fragment ty =
     do { BUG_ON (w \<noteq> SAddr_align w); Some (access_loop w ty fragment) }"

section \<open>Values: sign extension and comparisons\<close>

lemma signExtendBottom_bits:
  assumes "0 < b" "b \<le> 64"
  obtains r where "signExtendBottom v b = Some r"
    and "\<And>n. n < 64 \<Longrightarrow> bit r n \<longleftrightarrow> bit v (min n (b - 1))"
proof
  let ?r = "signed_drop_bit (64 - b) (push_bit (64 - b) v)"
  show "signExtendBottom v b = Some ?r"
    using assms by (simp add: signExtendBottom_def SVal_width_def)
  show "bit ?r n \<longleftrightarrow> bit v (min n (b - 1))" if "n < 64" for n
    using assms that
    by (auto simp: bit_signed_drop_bit_iff bit_push_bit_iff min_def not_le)
qed

lemma SVal_compare_spec:
  "SVal_ult a v \<longleftrightarrow> uint a < uint v" "SVal_ule a v \<longleftrightarrow> uint a \<le> uint v"
  "SVal_ugt a v \<longleftrightarrow> uint v < uint a" "SVal_uge a v \<longleftrightarrow> uint v \<le> uint a"
  "SVal_slt a v \<longleftrightarrow> sint a < sint v" "SVal_sle a v \<longleftrightarrow> sint a \<le> sint v"
  "SVal_sgt a v \<longleftrightarrow> sint v < sint a" "SVal_sge a v \<longleftrightarrow> sint v \<le> sint a"
  by (auto simp: SVal_ult_def SVal_ule_def SVal_ugt_def SVal_uge_def SVal_slt_def SVal_sle_def
      SVal_sgt_def SVal_sge_def SVal_compare_def SVal_compareSigned_def SVal_getSigned_def
      word_less_def word_le_def Let_def)

section \<open>Addresses: the storage bits and the word boundary\<close>

lemmas mask_defs = staticMask_def automaticMask_def internalMask_def durableMask_def

lemma bit_push_1: "k < 64 \<Longrightarrow> n < 64 \<Longrightarrow> bit (push_bit k 1 :: 64 word) n \<longleftrightarrow> n = k"
  by (auto simp: bit_simps simp del: push_bit_of_1)

lemma mask_bits:
  assumes "n < 64"
  shows "bit staticMask n \<longleftrightarrow> n = 63" "bit automaticMask n \<longleftrightarrow> n = 62"
    "bit internalMask n \<longleftrightarrow> n = 61" "bit durableMask n \<longleftrightarrow> n = 60"
  unfolding mask_defs using assms by (rule bit_push_1 [rotated], simp)+

lemma and_bit_mask: "k < 64 \<Longrightarrow> (a AND push_bit k 1 \<noteq> 0) \<longleftrightarrow> bit (a :: 64 word) k"
  by (simp add: bit_iff_and_push_bit_not_eq_0)

lemma storage_bits:
  "isStatic a \<longleftrightarrow> bit a 63" "isAutomatic a \<longleftrightarrow> bit a 62"
  "isInternal a \<longleftrightarrow> bit a 61" "isDurable a \<longleftrightarrow> bit a 60"
  by (simp_all add: isStatic_def isAutomatic_def isInternal_def isDurable_def mask_defs
      and_bit_mask del: push_bit_of_1)

lemma bit_set_bit_cond:
  "k < 64 \<Longrightarrow> n < 64 \<Longrightarrow>
     bit (set_bit_cond fresh b (push_bit k 1)) n \<longleftrightarrow> (if n = k then b else bit fresh n)"
  by (auto simp: set_bit_cond_def bit_simps simp del: push_bit_of_1)

lemma address_small_bits: "v < SAddr_limit \<Longrightarrow> 60 \<le> n \<Longrightarrow> \<not> bit v n"
proof -
  assume v: "v < SAddr_limit" and n: "60 \<le> n"
  have "v < 2 ^ 60" using v
    by (auto simp: SAddr_limit_def addressMask_def durableMask_def intro: order.strict_trans)
  then have "take_bit 60 v = v" using less_mask_eq [of v 60] by (simp add: take_bit_eq_mask)
  then show "\<not> bit v n" using n by (metis bit_take_bit_iff linorder_not_less)
qed

lemma bit_addressMask: "n < 64 \<Longrightarrow> bit addressMask n \<longleftrightarrow> n < 60"
proof -
  have "addressMask = mask 60"
    by (simp add: addressMask_def durableMask_def mask_eq_exp_minus_1)
  then have "bit addressMask n \<longleftrightarrow> possible_bit TYPE(64 word) n \<and> n < 60"
    by (metis bit_mask_iff)
  then show "n < 64 \<Longrightarrow> bit addressMask n \<longleftrightarrow> n < 60" by (simp add: possible_bit_word)
qed

lemma SAddr_create_bits:
  assumes "v < SAddr_limit"
  obtains a where "SAddr_create st v dur intl = Some a"
    and "\<forall>n<64. bit a n \<longleftrightarrow>
       (if n = 61 then intl else if n = 60 then dur else bit st n \<or> bit v n)"
proof
  let ?a = "set_bit_cond (set_bit_cond (0 OR st) dur durableMask) intl internalMask OR v"
  show "SAddr_create st v dur intl = Some ?a"
    using assms by (simp add: SAddr_create_def)
  show "\<forall>n<64. bit ?a n \<longleftrightarrow> (if n = 61 then intl else if n = 60 then dur else bit st n \<or> bit v n)"
    using address_small_bits [OF assms, of 60] address_small_bits [OF assms, of 61]
    by (auto simp: mask_defs bit_or_iff bit_set_bit_cond simp del: push_bit_of_1)
qed

lemma byteMask_mask: "byteMask = mask 3"
  by (simp add: byteMask_def wordSize_def mask_eq_exp_minus_1)

lemma getByte_eq: "getByte a = uint a mod 8"
  by (simp add: getByte_def byteMask_mask take_bit_eq_mod uint_mod_distrib flip: take_bit_eq_mask)

lemma getByte_bounds: "0 \<le> getByte a" "getByte a < 8"
  by (simp_all add: getByte_eq)

lemma SAddr_align_uint: "uint (SAddr_align a) = uint a - uint a mod 8"
proof -
  have "uint a div 8 * 8 < 2 ^ 64" using uint_lt2p [of a] by simp
  then have "uint a div 8 * 8 mod 2 ^ 64 = uint a div 8 * 8" by (intro mod_pos_pos_trivial) (simp_all add: pos_imp_zdiv_nonneg_iff)
  then have "uint (SAddr_align a) = uint a div 8 * 8"
    by (simp add: SAddr_align_def wordSize_def push_bit_eq_mult drop_bit_eq_div
        uint_word_ariths uint_div_distrib)
  then show ?thesis by (simp add: minus_mod_eq_div_mult)
qed

lemma SAddr_align_add: "uint (SAddr_align a) + getByte a = uint a"
  by (simp add: SAddr_align_uint getByte_eq)

lemma SAddr_align_iff: "w = SAddr_align w \<longleftrightarrow> uint w mod 8 = 0"
  using SAddr_align_uint [of w] by (auto simp: word_uint_eq_iff)

section \<open>Accesses and bytes\<close>

text \<open>
  The bytes of an access as numbers, and the condition that the access does not leave its storage
  class: the low 60 bits of the address plus the size stay below 2^60.
\<close>

definition bytes :: "AAccess \<Rightarrow> nat set" where
  "bytes a = {unat (acc_addr a) ..< unat (acc_addr a) + unat (acc_size a)}"

definition in_storage :: "AAccess \<Rightarrow> bool" where
  "in_storage a = (unat (acc_addr a) mod 2 ^ 60 + unat (acc_size a) < 2 ^ 60)"

lemma and_high_eq_iff:
  fixes a b :: "64 word"
  assumes "\<And>n. n < 64 \<Longrightarrow> bit m n \<longleftrightarrow> 60 \<le> n"
  shows "a AND m = b AND m \<longleftrightarrow> drop_bit 60 a = drop_bit 60 b"
proof
  assume e: "a AND m = b AND m"
  show "drop_bit 60 a = drop_bit 60 b"
  proof (rule bit_word_eqI)
    fix n assume "n < LENGTH(64)"
    then show "bit (drop_bit 60 a) n \<longleftrightarrow> bit (drop_bit 60 b) n"
      using arg_cong [OF e, of "\<lambda>x. bit x (60 + n)"] assms [of "60 + n"]
      by (cases "60 + n < 64") (auto simp: bit_drop_bit_eq bit_and_iff bit_imp_le_length dest: bit_imp_le_length)
  qed
next
  assume e: "drop_bit 60 a = drop_bit 60 b"
  show "a AND m = b AND m"
  proof (rule bit_word_eqI)
    fix n assume "n < LENGTH(64)"
    then show "bit (a AND m) n \<longleftrightarrow> bit (b AND m) n"
      using arg_cong [OF e, of "\<lambda>x. bit x (n - 60)"] assms [of n]
      by (auto simp: bit_drop_bit_eq bit_and_iff)
  qed
qed

lemma sameStorageAs_iff: "sameStorageAs a b \<longleftrightarrow> unat a div 2 ^ 60 = unat b div 2 ^ 60"
proof -
  have "bit storageMask n \<longleftrightarrow> 60 \<le> n" if "n < 64" for n
    unfolding storageMask_def bit_or_iff mask_bits [OF that] using that by arith
  then have "sameStorageAs a b \<longleftrightarrow> drop_bit 60 a = drop_bit 60 b"
    unfolding sameStorageAs_def by (rule and_high_eq_iff)
  also have "\<dots> \<longleftrightarrow> drop_bit 60 (unat a) = drop_bit 60 (unat b)"
    by (simp only: word_unat_eq_iff unat_drop_bit_eq)
  finally show ?thesis by (simp only: drop_bit_eq_div)
qed

lemma unat_SAddr_plus:
  assumes "unat a + unat (s :: ASize) < 2 ^ 64"
  shows "unat (SAddr_plus a s) = unat a + unat s"
proof -
  have "unat s < 2 ^ 64" using assms by simp
  then have "unat (ucast s :: 64 word) = unat s" by (simp add: unsigned_ucast_eq take_bit_eq_mod)
  then show ?thesis using assms by (simp add: SAddr_plus_def unat_word_ariths)
qed

lemma div_same_block:
  fixes p x M :: nat
  assumes "p mod M + s < M" "p \<le> x" "x \<le> p + s"
  shows "x div M = p div M"
proof -
  have "x = p div M * M + (p mod M + (x - p))" using assms(2) by simp
  moreover have "p mod M + (x - p) < M" using assms by simp
  ultimately show ?thesis by (metis add.right_neutral add_cancel_left_left div_less
        div_mult_self3 less_nat_zero_code)
qed

lemma in_storage_end:
  assumes "in_storage a"
  shows "(unat (acc_addr a) + unat (acc_size a)) div 2 ^ 60 = unat (acc_addr a) div 2 ^ 60"
  using assms div_same_block [of "unat (acc_addr a)" "2 ^ 60" "unat (acc_size a)"
      "unat (acc_addr a) + unat (acc_size a)"]
  by (simp add: in_storage_def)

lemma in_storage_no_wrap:
  assumes "in_storage a"
  shows "unat (acc_addr a) + unat (acc_size a) < 2 ^ 64"
proof -
  have "unat (acc_addr a) div 2 ^ 60 < 2 ^ 4"
    using unsigned_less [of "acc_addr a"] by (simp add: div_less_iff_less_mult)
  then show ?thesis
    unfolding in_storage_end [OF assms, symmetric] by (simp add: div_less_iff_less_mult)
qed

text \<open>
  contains and overlaps decide membership and intersection of the byte sets, for accesses that stay
  in their storage class; the storage test in the code is then implied.
\<close>

lemma AAccess_contains_iff:
  assumes "in_storage a"
  shows "AAccess_contains a x \<longleftrightarrow> unat x \<in> bytes a"
proof -
  have "sameStorageAs (acc_addr a) x" if "unat x \<in> bytes a"
    using that div_same_block [of "unat (acc_addr a)" "2 ^ 60" "unat (acc_size a)" "unat x"] assms
    by (simp add: sameStorageAs_iff bytes_def in_storage_def)
  then show ?thesis
    using unat_SAddr_plus [OF in_storage_no_wrap [OF assms]]
    by (auto simp: AAccess_contains_def bytes_def word_le_nat_alt word_less_nat_alt)
qed

lemma AAccess_overlaps_bytes:
  assumes "in_storage a" "in_storage b" "acc_size a \<noteq> 0" "acc_size b \<noteq> 0"
  shows "AAccess_overlaps a b \<longleftrightarrow> bytes a \<inter> bytes b \<noteq> {}"
proof -
  let ?a = "unat (acc_addr a)" and ?b = "unat (acc_addr b)"
  let ?s = "unat (acc_size a)" and ?t = "unat (acc_size b)"
  have pos: "0 < ?s" "0 < ?t" using assms(3,4) by (simp_all add: unat_gt_0)
  have int: "bytes a \<inter> bytes b \<noteq> {} \<longleftrightarrow> ?b < ?a + ?s \<and> ?a < ?b + ?t"
  proof
    assume "?b < ?a + ?s \<and> ?a < ?b + ?t"
    then have "max ?a ?b \<in> bytes a \<inter> bytes b" using pos by (auto simp: bytes_def)
    then show "bytes a \<inter> bytes b \<noteq> {}" by blast
  qed (auto simp: bytes_def)
  have "sameStorageAs (acc_addr a) (acc_addr b)" if "?b < ?a + ?s \<and> ?a < ?b + ?t"
    unfolding sameStorageAs_iff
    using that div_same_block [of ?a "2 ^ 60" ?s ?b] div_same_block [of ?b "2 ^ 60" ?t ?a] assms
    by (cases "?a \<le> ?b") (simp_all add: in_storage_def)
  then show ?thesis
    unfolding int using unat_SAddr_plus [OF in_storage_no_wrap [OF assms(1)]]
      unat_SAddr_plus [OF in_storage_no_wrap [OF assms(2)]]
    by (auto simp: AAccess_overlaps_def word_less_nat_alt)
qed

section \<open>The allocator below 2^32\<close>

lemma bit_align_mask:
  "k \<le> 32 \<Longrightarrow> bit (ucast (NOT (2 ^ k - 1 :: 32 word)) :: 64 word) n \<longleftrightarrow> n < 32 \<and> k \<le> n"
  by (auto simp: bit_unsigned_iff bit_not_iff bit_mask_iff simp flip: mask_eq_exp_minus_1
      dest: bit_imp_le_length)

lemma and_align_mask:
  fixes y :: "64 word"
  assumes "k \<le> 32" "unat y < 2 ^ 32"
  shows "unat (y AND ucast (NOT (2 ^ k - 1 :: 32 word))) = unat y div 2 ^ k * 2 ^ k"
proof -
  have "take_bit 32 (unat y) = unat y" using assms(2) by (simp add: take_bit_nat_eq_self)
  then have "bit (unat y) n \<longleftrightarrow> n < 32 \<and> bit (unat y) n" for n
    by (metis bit_take_bit_iff)
  then have high: "bit y n \<Longrightarrow> n < 32" for n
    by (simp add: bit_unsigned_iff) blast
  then have "y AND ucast (NOT (2 ^ k - 1 :: 32 word)) = push_bit k (drop_bit k y)"
    using assms(1) by (intro bit_word_eqI)
      (auto simp: bit_and_iff bit_align_mask bit_push_bit_iff bit_drop_bit_eq not_le
        dest: high)
  then have "unat (y AND ucast (NOT (2 ^ k - 1 :: 32 word)))
      = take_bit 64 (unat y div 2 ^ k * 2 ^ k)"
    by (simp only: unsigned_push_bit_eq unat_drop_bit_eq) (simp add: push_bit_eq_mult drop_bit_eq_div)
  moreover have "unat y div 2 ^ k * 2 ^ k < 2 ^ 64"
    using assms(2) div_times_less_eq_dividend [of "unat y" "2 ^ k"] by (elim order.strict_trans1) simp
  ultimately show ?thesis by (simp add: take_bit_nat_eq_self)
qed

lemma unat_exp32: "j < 32 \<Longrightarrow> unat (2 ^ j :: 32 word) = 2 ^ j"
  by (simp add: unat_eq_nat_uint uint_2p word_gt_0 nat_power_eq)

lemma max_pow2: "k < 32 \<Longrightarrow> max (2 ^ k :: 32 word) (push_bit 3 1) = 2 ^ max k 3"
proof -
  assume k: "k < 32"
  have "(2 ^ k :: 32 word) \<le> 2 ^ j \<longleftrightarrow> k \<le> j" if "j < 32" for j
    using that k by (simp add: word_le_nat_alt unat_exp32)
  from this [of 3] show ?thesis by (auto simp: max_def)
qed

text \<open>
  One allocation: the value handed to allocFun is the pool rounded up to the alignment, and the
  pool moves past the block.
\<close>

lemma allocate_eq:
  assumes k: "k < 32" and room: "unat pool + (2 ^ max k 3 - 1) + unat sz < 2 ^ 32"
  obtains v p where
    "allocate f pool sz (2 ^ k) dur internal = do { a \<leftarrow> f v dur internal; Some (a, p) }"
    and "unat v = (unat pool + (2 ^ max k 3 - 1)) div 2 ^ max k 3 * 2 ^ max k 3"
    and "unat p = unat pool + (2 ^ max k 3 - 1) + unat sz"
proof
  let ?j = "max k 3"
  let ?off = "2 ^ ?j - 1 :: 32 word"
  let ?y = "pool + ucast ?off :: 64 word"
  have j: "?j < 32" using k by simp
  have off: "unat ?off = 2 ^ ?j - 1"
    using unat_exp32 [OF j] unat_sub [of 1 "2 ^ ?j :: 32 word"] j
    by (simp add: word_le_nat_alt)
  have up: "unat (ucast w :: 64 word) = unat w" if "unat w < 2 ^ 32" for w :: "32 word"
    using that by (simp add: unsigned_ucast_eq take_bit_eq_mod)
  have osz: "unat (?off + sz) = 2 ^ ?j - 1 + unat sz"
    using room off by (simp add: unat_word_ariths)
  have y: "unat ?y = unat pool + (2 ^ ?j - 1)"
    using room off by (simp add: unat_word_ariths up)
  show "allocate f pool sz (2 ^ k) dur internal =
      do { a \<leftarrow> f (?y AND ucast (NOT ?off)) dur internal; Some (a, pool + ucast (?off + sz)) }"
    unfolding allocate_def Let_def max_pow2 [OF k] by (rule refl)
  show "unat (?y AND ucast (NOT ?off)) = (unat pool + (2 ^ ?j - 1)) div 2 ^ ?j * 2 ^ ?j"
    using and_align_mask [of ?j ?y] j y room by simp
  show "unat (pool + ucast (?off + sz)) = unat pool + (2 ^ ?j - 1) + unat sz"
    using unat_word_ariths(1) [of pool "ucast (?off + sz)"] up [of "?off + sz"] osz room
    by (simp only: add.assoc) (simp add: mod_less)
qed

text \<open>
  A run of heap allocations, each with its size, alignment and flags; the blocks handed out, with
  their sizes, in order. heap_room is what the pool needs to serve them.
\<close>

type_synonym alloc_request = "32 word \<times> 32 word \<times> bool \<times> bool"

fun allocHeap_run :: "SAddrAllocator \<Rightarrow> alloc_request list \<Rightarrow>
    ((SAddr \<times> 32 word) list \<times> SAddrAllocator) option" where
  "allocHeap_run al [] = Some ([], al)"
| "allocHeap_run al ((sz, alignment, dur, internal) # rs) =
     do { (a, al') \<leftarrow> allocHeap al sz alignment dur internal;
          (bs, al'') \<leftarrow> allocHeap_run al' rs;
          Some ((a, sz) # bs, al'') }"

definition heap_room :: "alloc_request list \<Rightarrow> nat" where
  "heap_room rs = (\<Sum>(sz, alignment, _, _)\<leftarrow>rs. unat (max alignment 8) - 1 + unat sz)"

definition pow2_alignments :: "alloc_request list \<Rightarrow> bool" where
  "pow2_alignments rs = (\<forall>(sz, alignment, _, _)\<in>set rs. \<exists>k<32. alignment = 2 ^ k)"

lemma createHeap_low:
  assumes "unat v < 2 ^ 32"
  obtains a where "createHeap v dur internal = Some a" "a AND addressMask = v"
proof -
  have "unat SAddr_limit = 2 ^ 60 - 1"
    by (simp add: SAddr_limit_def addressMask_def durableMask_def)
  then have v: "v < SAddr_limit" using assms by (simp add: word_less_nat_alt)
  obtain a where a: "createHeap v dur internal = Some a" and
    bits: "\<forall>n<64. bit a n \<longleftrightarrow>
      (if n = 61 then internal else if n = 60 then dur else bit (0 :: SAddr) n \<or> bit v n)"
    unfolding createHeap_def by (rule SAddr_create_bits [OF v, of 0 dur internal])
  have "bit v n \<Longrightarrow> n < 60" for n
    using address_small_bits [OF v, of n] by (auto simp: not_less [symmetric])
  then have "a AND addressMask = v"
    using bits address_small_bits [OF v, of 60] address_small_bits [OF v, of 61] by (intro bit_word_eqI) (auto simp: bit_and_iff bit_addressMask)
  with a show thesis by (rule that)
qed

lemma round_up_bounds: "(0::nat) < M \<Longrightarrow> p \<le> (p + (M - 1)) div M * M" "(0::nat) < M \<Longrightarrow> (p + (M - 1)) div M * M \<le> p + (M - 1)"
proof -
  assume M: "0 < M"
  have "(p + (M - 1)) div M * M + (p + (M - 1)) mod M = p + (M - 1)" by simp
  moreover have "(p + (M - 1)) mod M \<le> M - 1" using M by (simp add: less_Suc_eq_le [symmetric])
  ultimately show "p \<le> (p + (M - 1)) div M * M" by linarith
qed (rule div_times_less_eq_dividend)

lemma allocHeap_low:
  assumes k: "k < 32" and room: "unat (heapPool al) + (unat (max (2 ^ k) 8 :: 32 word) - 1) + unat sz < 2 ^ 32"
  obtains a p where "allocHeap al sz (2 ^ k) dur internal = Some (a, al\<lparr>heapPool := p\<rparr>)"
    and "unat p = unat (heapPool al) + (unat (max (2 ^ k) 8 :: 32 word) - 1) + unat sz"
    and "unat (heapPool al) \<le> unat (a AND addressMask)"
    and "unat (a AND addressMask) + unat sz \<le> unat p"
proof -
  let ?j = "max k 3"
  have M: "unat (max (2 ^ k) 8 :: 32 word) = 2 ^ ?j"
    using max_pow2 [OF k] unat_exp32 [of ?j] k by simp
  obtain v p where al: "allocate createHeap (heapPool al) sz (2 ^ k) dur internal =
       do { a \<leftarrow> createHeap v dur internal; Some (a, p) }"
    and v: "unat v = (unat (heapPool al) + (2 ^ ?j - 1)) div 2 ^ ?j * 2 ^ ?j"
    and p: "unat p = unat (heapPool al) + (2 ^ ?j - 1) + unat sz"
    using allocate_eq [OF k, of "heapPool al" sz createHeap dur internal] room M by metis
  have b: "unat (heapPool al) \<le> unat v" "unat v + unat sz \<le> unat p"
    using round_up_bounds [of "2 ^ ?j" "unat (heapPool al)"] v p by simp_all
  then have "unat v < 2 ^ 32" using p room M by simp
  then obtain a where "createHeap v dur internal = Some a" "a AND addressMask = v"
    by (rule createHeap_low)
  then show thesis using that [of a p] al b p M by (simp add: allocHeap_def)
qed

lemma allocHeap_run_blocks:
  assumes "pow2_alignments rs" "unat (heapPool al) + heap_room rs < 2 ^ 32"
  shows "\<exists>bs al'. allocHeap_run al rs = Some (bs, al') \<and> length bs = length rs \<and>
     (\<forall>(a, s)\<in>set bs. unat (heapPool al) \<le> unat (a AND addressMask)) \<and>
     sorted_wrt (\<lambda>(a, s) (b, _). unat (a AND addressMask) + unat s \<le> unat (b AND addressMask)) bs"
  using assms
proof (induction rs arbitrary: al)
  case (Cons r rs)
  obtain sz alg dur intl where r: "r = (sz, alg, dur, intl)" by (cases r)
  obtain k where k: "k < 32" "alg = 2 ^ k"
    using Cons.prems(1) r by (auto simp: pow2_alignments_def)
  obtain a p where a: "allocHeap al sz (2 ^ k) dur intl = Some (a, al\<lparr>heapPool := p\<rparr>)"
    and p: "unat p = unat (heapPool al) + (unat (max (2 ^ k) 8 :: 32 word) - 1) + unat sz"
    and lo: "unat (heapPool al) \<le> unat (a AND addressMask)"
      "unat (a AND addressMask) + unat sz \<le> unat p"
    using allocHeap_low [OF k(1), of al sz dur intl] Cons.prems(2) r k(2)
    by (auto simp: heap_room_def)
  obtain bs al' where bs: "allocHeap_run (al\<lparr>heapPool := p\<rparr>) rs = Some (bs, al')"
    "length bs = length rs" "\<forall>(b, s)\<in>set bs. unat p \<le> unat (b AND addressMask)"
    "sorted_wrt (\<lambda>(a, s) (b, _). unat (a AND addressMask) + unat s \<le> unat (b AND addressMask)) bs"
    using Cons.IH [of "al\<lparr>heapPool := p\<rparr>"] Cons.prems p r k(2)
    by (auto simp: pow2_alignments_def heap_room_def)
  have "unat (heapPool al) \<le> unat p" using lo by simp
  then show ?case using a bs r k(2) lo by (fastforce intro: order_trans)
qed simp

section \<open>Splitting a fragment into accesses\<close>

lemma run_loop_spec:
  assumes "run_loop beg n it = (m, rest)" "0 \<le> n" "ssorted it" "\<forall>x\<in>set it. beg + n \<le> x"
  shows "it = [beg + n .. beg + m - 1] @ rest \<and> n \<le> m \<and> m \<le> n + int (length it) \<and>
     (rest = [] \<or> beg + m < hd rest)"
  using assms
proof (induction beg n it rule: run_loop.induct)
  case (2 beg n x it)
  show ?case
  proof (cases "x = beg + n")
    case True
    have "\<forall>y\<in>set it. beg + (n + 1) \<le> y" using 2(4) True by auto
    then have "it = [beg + (n + 1) .. beg + m - 1] @ rest \<and> n + 1 \<le> m \<and>
        m \<le> n + 1 + int (length it) \<and> (rest = [] \<or> beg + m < hd rest)"
      using 2 True by simp
    then show ?thesis using True upto_rec1 [of "beg + n" "beg + m - 1"] by (simp add: add.assoc)
  next
    case False
    then show ?thesis using 2 by auto
  qed
qed simp

lemma map_upt_upto: "map (\<lambda>i. b + int i) [0..<n] = [b .. b + int n - 1]"
  by (induction n) (simp_all add: upto_rec2 add.commute)

lemma WordFragment_of_run:
  assumes w: "w = SAddr_align w" and b: "0 \<le> b" "b < 8" and m: "0 \<le> m" "m \<le> 8"
  shows "WordFragment_of \<lparr>acc_addr = SAddr_plus w (word_of_int b), acc_size = word_of_int m,
      acc_type = ty\<rparr> = [b .. b + m - 1]"
proof -
  have w8: "uint w mod 8 = 0" using w SAddr_align_iff by blast
  have "uint w + 8 \<le> 2 ^ 64"
  proof -
    have "uint w \<le> 2 ^ 64 - 1" using uint_lt2p [of w] by simp
    then show ?thesis using w8 by (simp, presburger)
  qed
  then have "uint (SAddr_plus w (word_of_int b)) = uint w + b"
    using b by (simp add: SAddr_plus_def uint_word_ariths unsigned_ucast_eq uint_word_of_int
        take_bit_eq_mod)
  then have "getByte (SAddr_plus w (word_of_int b)) = b"
    using w8 b by (simp add: getByte_eq) presburger
  moreover have "unat (word_of_int m :: 32 word) = nat m"
    using m by (simp add: unat_eq_nat_uint uint_word_of_int)
  ultimately show ?thesis
    using m by (simp add: WordFragment_of_def map_upt_upto)
qed

lemma access_loop_covers:
  "w = SAddr_align w \<Longrightarrow> ssorted f \<Longrightarrow> set f \<subseteq> {0..<8} \<Longrightarrow>
     concat (map WordFragment_of (access_loop w ty f)) = f"
proof (induction w ty f rule: access_loop.induct)
  case (2 w ty beg it)
  obtain m rest where r: "run_loop beg 1 it = (m, rest)" by (cases "run_loop beg 1 it")
  have it: "it = [beg + 1 .. beg + m - 1] @ rest" "1 \<le> m"
    using run_loop_spec [OF r] 2(3) by (simp_all add: add1_zle_eq)
  have b: "0 \<le> beg" "beg < 8" using 2(4) by auto
  have "m \<le> 8"
  proof (cases "m = 1")
    case False
    then have "beg + m - 1 \<in> set it" unfolding it(1) using it(2) by simp
    then show ?thesis using 2(4) b by auto
  qed simp
  then have "WordFragment_of \<lparr>acc_addr = SAddr_plus w (word_of_int beg), acc_size = word_of_int m,
      acc_type = ty\<rparr> = [beg .. beg + m - 1]"
    using WordFragment_of_run [OF 2(2) b, of m ty] it(2) by simp
  moreover have "concat (map WordFragment_of (access_loop w ty rest)) = rest"
  proof -
    have "ssorted rest" using 2(3) it(1) by (metis sorted_wrt.simps(2) sorted_wrt_append)
    moreover have "set rest \<subseteq> set it" using it(1) by (metis Un_upper2 set_append)
    ultimately show ?thesis using 2(1,2,4) r by auto
  qed
  ultimately have "concat (map WordFragment_of (access_loop w ty (beg # it)))
      = [beg .. beg + m - 1] @ rest"
    by (simp add: r)
  moreover have "beg # it = [beg .. beg + m - 1] @ rest"
    by (subst it(1)) (use it(2) upto_rec1 [of beg "beg + m - 1"] in simp)
  ultimately show ?case by (rule trans [OF _ sym])
qed simp

section \<open>Properties\<close>

text \<open>Sign extension of the bottom b bits: for every width the precondition allows the operation
  returns, and the result read as a signed number is the two's-complement value of the low b
  bits; any other width aborts.\<close>

theorem signExtendBottom_signed:
  "signExtendBottom v b =
     (if b = 0 \<or> b > 64 then None else Some (word_of_int (signed_take_bit (b - 1) (uint v))))"
proof (cases "b = 0 \<or> b > 64")
  case False
  then obtain r where r: "signExtendBottom v b = Some r"
    and bits: "\<And>n. n < 64 \<Longrightarrow> bit r n \<longleftrightarrow> bit v (min n (b - 1))"
    using signExtendBottom_bits [of b v] by (metis gr0I linorder_not_less)
  have "r = word_of_int (signed_take_bit (b - 1) (uint v))"
    using bits False by (intro bit_word_eqI)
      (auto simp: bit_word_of_int_iff bit_signed_take_bit_iff bit_uint_iff min_def)
  then show ?thesis using r False by simp
qed (auto simp: signExtendBottom_def SVal_width_def)

text \<open>An address built by the create functions reads back: below the limit creation succeeds, the
  storage predicates answer what the address was created with, and the address bits are the value;
  at or above the limit creation aborts.\<close>

theorem SAddr_create_readback:
  assumes "v < SAddr_limit" "storage \<in> {staticMask, 0, automaticMask}"
  shows "\<exists>a. SAddr_create storage v dur internal = Some a \<and>
     isStatic a = (storage = staticMask) \<and> isAutomatic a = (storage = automaticMask) \<and>
     isInternal a = internal \<and> isDurable a = dur \<and> a AND addressMask = v"
proof -
  obtain a where a: "SAddr_create storage v dur internal = Some a"
    and bits: "\<forall>n<64. bit a n \<longleftrightarrow>
      (if n = 61 then internal else if n = 60 then dur else bit storage n \<or> bit v n)"
    by (rule SAddr_create_bits [OF assms(1), of storage dur internal])
  have high: "\<not> bit v n" if "60 \<le> n" for n using address_small_bits [OF assms(1) that] .
  have low: "bit v n \<Longrightarrow> n < 60" for n using high [of n] by (metis not_less)
  have st: "bit storage n \<longleftrightarrow> n = 63 \<and> storage = staticMask \<or> n = 62 \<and> storage = automaticMask"
    if "n < 64" for n
    using that assms(2) mask_bits(1,2) [of n] mask_bits(1,2) [of 63] mask_bits(1,2) [of 62] by auto
  have "a AND addressMask = v"
    using bits st low high [of 60] high [of 61]
    by (intro bit_word_eqI) (auto simp: bit_and_iff bit_addressMask)
  then show ?thesis using a bits st high by (simp add: storage_bits)
qed

theorem SAddr_create_readback_witness:
  "\<exists>a. SAddr_create automaticMask 4096 True False = Some a \<and> \<not> isStatic a \<and> isAutomatic a \<and>
     \<not> isInternal a \<and> isDurable a \<and> a AND addressMask = 4096"
  using SAddr_create_readback [of 4096 automaticMask True False]
  by (simp add: SAddr_limit_def addressMask_def mask_defs)

text \<open>overlaps decides exactly whether two accesses share a byte, for non-empty accesses that stay
  within their storage class.\<close>

theorem AAccess_overlaps_iff:
  assumes "in_storage a" "in_storage b" "acc_size a \<noteq> 0" "acc_size b \<noteq> 0"
  shows "AAccess_overlaps a b \<longleftrightarrow> bytes a \<inter> bytes b \<noteq> {}"
  using assms by (rule AAccess_overlaps_bytes)

theorem AAccess_overlaps_iff_witness:
  "AAccess_overlaps \<lparr>acc_addr = 8, acc_size = 4, acc_type = Signed\<rparr>
     \<lparr>acc_addr = 10, acc_size = 8, acc_type = Signed\<rparr> \<longleftrightarrow> {8..<12} \<inter> {10..<18::nat} \<noteq> {}"
  using AAccess_overlaps_iff [of "\<lparr>acc_addr = 8, acc_size = 4, acc_type = Signed\<rparr>"
      "\<lparr>acc_addr = 10, acc_size = 8, acc_type = Signed\<rparr>"]
  by (simp add: in_storage_def bytes_def)

text \<open>C38. Splitting a fragment of an aligned word into accesses loses nothing and repeats nothing:
  the fragments of the accesses returned, concatenated, are the fragment. An unaligned word
  aborts.\<close>

theorem getAccesses_roundtrip:
  assumes "ssorted f" "set f \<subseteq> {0..<8}"
  shows "(\<exists>as. getAccesses w f ty = Some as \<and> concat (map WordFragment_of as) = f) \<or>
     (uint w mod 8 \<noteq> 0 \<and> getAccesses w f ty = None)"
  using assms access_loop_covers [of w f ty] SAddr_align_iff [of w]
  by (auto simp: getAccesses_def)

theorem getAccesses_roundtrip_witness:
  "\<exists>as. getAccesses 16 [0, 1, 4, 5, 6] Unsigned = Some as \<and>
     concat (map WordFragment_of as) = [0, 1, 4, 5, 6]"
  using getAccesses_roundtrip [of "[0, 1, 4, 5, 6]" 16 Unsigned] by simp

text \<open>C39. The heap allocator never hands out a byte twice while the pool stays below 2^32: any run of
  allocations with power-of-two alignments succeeds, and each block ends before the next one
  begins; no block contains the null address.\<close>

theorem allocHeap_disjoint:
  assumes "pow2_alignments rs" "unat (heapPool al) + heap_room rs < 2 ^ 32"
  shows "\<exists>bs al'. allocHeap_run al rs = Some (bs, al') \<and> length bs = length rs \<and>
     (\<forall>(a, s)\<in>set bs. unat (heapPool al) \<le> unat (a AND addressMask)) \<and>
     sorted_wrt (\<lambda>(a, s) (b, _). unat (a AND addressMask) + unat s \<le> unat (b AND addressMask)) bs"
  using assms by (rule allocHeap_run_blocks)

theorem allocHeap_disjoint_witness:
  "\<exists>bs al'. allocHeap_run SAddrAllocator_init [(8, 8, False, False), (24, 16, True, False)] = Some (bs, al') \<and>
     length bs = 2 \<and>
     sorted_wrt (\<lambda>(a, s) (b, _). unat (a AND addressMask) + unat s \<le> unat (b AND addressMask)) bs"
proof -
  have "\<exists>k<32. (8 :: 32 word) = 2 ^ k" "\<exists>k<32. (16 :: 32 word) = 2 ^ k"
    by (rule exI [of _ 3], simp) (rule exI [of _ 4], simp)
  then have "pow2_alignments [(8, 8, False, False), (24, 16, True, False)]"
    by (simp add: pow2_alignments_def)
  then show ?thesis
    using allocHeap_disjoint [of "[(8, 8, False, False), (24, 16, True, False)]" SAddrAllocator_init]
    by (fastforce simp: heap_room_def SAddrAllocator_init_def max_def)
qed

text \<open>Past 2^32 the zero-extended 32-bit mask clears the high half of the address, and the allocator
  returns an address it has returned before: the first and the third of these requests (8 bytes,
  4294967280 bytes, 8 bytes) get the same address.\<close>

theorem allocHeap_reuses_address:
  "map_option fst (allocHeap_run SAddrAllocator_init
     [(8, 8, False, False), (4294967280, 8, False, False), (8, 8, False, False)])
   = Some [(8, 8), (16, 4294967280), (8, 8)]"
  by code_simp

text \<open>The binary minus of Stamp adds its argument: it agrees with plus, and not with the compound
  assignment of the same operator.\<close>

theorem Stamp_sub_adds:
  "Stamp_sub s v = Stamp_add s v \<and> Stamp_sub s 1 \<noteq> Stamp_dec s"
  by (simp_all add: Stamp_sub_def Stamp_add_def Stamp_dec_def Stamp_sub_assign_def Stamp_add_assign_def)

end
