(* ===== verification/Views.thy ===== *)
theory Views
  imports VSets
begin

text \<open>
  Events and vector clocks: src/src/Event.hpp, src/src/VectorClock.hpp, src/src/View.hpp and
  src/src/View.cpp, src/src/DepView.hpp and src/src/DepView.cpp.

  A View is the vector of the highest index seen per thread (\<open>view_\<close>, an llvm::IndexedMap:
  a vector that grows on demand and pads with the default value, 0 for a View and the empty set
  for the holes). A DepView adds, per thread, the set of indices below the maximum not seen. The
  code indexes the vector with the thread of an event without a check, so the clocks are used with
  events of non-negative threads only; the theorems say so in their hypotheses.
\<close>

section \<open>Events\<close>

datatype Event = Event (thread: int) (index: int)

definition getInit :: Event where "getInit = Event 0 0"
definition getBottom :: Event where "getBottom = Event (-42) (-42)"
definition Event_default :: Event where "Event_default = Event (-17) (-17)"
definition isInitializer :: "Event \<Rightarrow> bool" where "isInitializer e = (e = getInit)"
definition isBottom :: "Event \<Rightarrow> bool" where "isBottom e = (e = getBottom)"
definition Event_prev :: "Event \<Rightarrow> Event" where "Event_prev e = Event (thread e) (index e - 1)"
definition Event_next :: "Event \<Rightarrow> Event" where "Event_next e = Event (thread e) (index e + 1)"

text \<open>operator<=> is a partial order: events of different threads are unordered.\<close>

definition Event_less :: "Event \<Rightarrow> Event \<Rightarrow> bool" where
  "Event_less a b = (thread a = thread b \<and> index a < index b)"

definition Event_leq :: "Event \<Rightarrow> Event \<Rightarrow> bool" where
  "Event_leq a b = (thread a = thread b \<and> index a \<le> index b)"

text \<open>EventL2RCompare orders all events, left to right by thread.\<close>

definition EventL2RCompare :: "Event \<Rightarrow> Event \<Rightarrow> bool" where
  "EventL2RCompare a b = (if thread a = thread b then index a < index b else thread a < thread b)"

lemma Event_eq_iff: "x = e \<longleftrightarrow> thread x = thread e \<and> index x = index e"
  by (cases x; cases e) simp

lemma all_Event: "(\<forall>e. P e) \<longleftrightarrow> (\<forall>t i. P (Event t i))"
  by (metis Event.exhaust)

instantiation Event :: linorder
begin

definition less_Event :: "Event \<Rightarrow> Event \<Rightarrow> bool" where
  "less_Event a b = EventL2RCompare a b"

definition less_eq_Event :: "Event \<Rightarrow> Event \<Rightarrow> bool" where
  "less_eq_Event a b = (a = b \<or> EventL2RCompare a b)"

instance
  by standard
    (auto simp: less_Event_def less_eq_Event_def EventL2RCompare_def Event.expand split: if_splits)

end

section \<open>Plain views\<close>

type_synonym View = "int list"

definition View_empty :: View where "View_empty = []"

definition View_getMax :: "View \<Rightarrow> int \<Rightarrow> int" where
  "View_getMax v t = (if t < int (length v) then v ! nat t else 0)"

definition View_grow :: "View \<Rightarrow> int \<Rightarrow> View" where
  "View_grow v t = v @ replicate (nat t + 1 - length v) 0"

definition View_setMax :: "View \<Rightarrow> Event \<Rightarrow> View" where
  "View_setMax v e =
     (let v = if thread e \<ge> int (length v) then View_grow v (thread e) else v
      in v[nat (thread e) := index e])"

definition View_contains :: "View \<Rightarrow> Event \<Rightarrow> bool" where
  "View_contains v e = (index e \<le> View_getMax v (thread e))"

definition View_updateIdx :: "View \<Rightarrow> Event \<Rightarrow> View" where
  "View_updateIdx v e = (if View_getMax v (thread e) < index e then View_setMax v e else v)"

definition View_update_step :: "View \<Rightarrow> nat \<Rightarrow> View \<Rightarrow> View" where
  "View_update_step v i this =
     (if View_getMax this (int i) < View_getMax v (int i)
      then View_setMax this (Event (int i) (View_getMax v (int i))) else this)"

definition View_update :: "View \<Rightarrow> View \<Rightarrow> View" where
  "View_update this v =
     (if v = [] then this else fold (View_update_step v) [0..<max (length this) (length v)] this)"

section \<open>Views with holes\<close>

record DepView =
  dview :: View
  holes :: "int VSet list"

definition DepView_empty :: DepView where "DepView_empty = \<lparr>dview = [], holes = []\<rparr>"

text \<open>The two operators [] of HoleView: the const one aborts out of range, the other one grows.\<close>

definition holes_at :: "int VSet list \<Rightarrow> int \<Rightarrow> int VSet option" where
  "holes_at hs i = (if 0 \<le> i \<and> i < int (length hs) then Some (hs ! nat i) else None)"

definition holes_grow :: "int VSet list \<Rightarrow> int \<Rightarrow> int VSet list" where
  "holes_grow hs i = hs @ replicate (nat i + 1 - length hs) VSet_empty"

definition DepView_getMax :: "DepView \<Rightarrow> int \<Rightarrow> int" where
  "DepView_getMax d t = View_getMax (dview d) t"

definition DepView_contains :: "DepView \<Rightarrow> Event \<Rightarrow> bool" where
  "DepView_contains d e =
     (index e \<le> DepView_getMax d (thread e) \<and>
      (index e = 0 \<or> (case holes_at (holes d) (thread e) of
          None \<Rightarrow> False | Some h \<Rightarrow> VSet_count h (index e) = 0)))"

definition upd_holes :: "DepView \<Rightarrow> int \<Rightarrow> (int VSet \<Rightarrow> int VSet) \<Rightarrow> DepView" where
  "upd_holes d t f =
     (let hs = holes_grow (holes d) t in d\<lparr>holes := hs[nat t := f (hs ! nat t)]\<rparr>)"

definition addHole :: "DepView \<Rightarrow> Event \<Rightarrow> DepView option" where
  "addHole d e =
     do { BUG_ON (index e > DepView_getMax d (thread e));
          Some (upd_holes d (thread e) (\<lambda>h. fst (VSet_insert h (index e)))) }"

fun addHoles_loop :: "DepView \<Rightarrow> int \<Rightarrow> int list \<Rightarrow> DepView option" where
  "addHoles_loop d t [] = Some d"
| "addHoles_loop d t (i # is) = do { d' \<leftarrow> addHole d (Event t i); addHoles_loop d' t is }"

definition addHolesInRange :: "DepView \<Rightarrow> Event \<Rightarrow> int \<Rightarrow> DepView option" where
  "addHolesInRange d start endIdx = addHoles_loop d (thread start) [index start .. endIdx - 1]"

definition removeHole :: "DepView \<Rightarrow> Event \<Rightarrow> DepView" where
  "removeHole d e = upd_holes d (thread e) (\<lambda>h. fst (VSet_erase h (index e)))"

definition removeAllHoles :: "DepView \<Rightarrow> int \<Rightarrow> DepView" where
  "removeAllHoles d t = upd_holes d t (\<lambda>h. VSet_empty)"

definition removeHolesInRange :: "DepView \<Rightarrow> Event \<Rightarrow> int \<Rightarrow> DepView" where
  "removeHolesInRange d start endIdx =
     fold (\<lambda>i d. removeHole d (Event (thread start) i)) [index start .. endIdx - 1] d"

definition DepView_updateIdx :: "DepView \<Rightarrow> Event \<Rightarrow> DepView option" where
  "DepView_updateIdx d e =
     (let old = View_getMax (dview d) (thread e) in
      if index e > old then
        let d = d\<lparr>dview := View_setMax (dview d) e\<rparr>;
            d = d\<lparr>holes := holes_grow (holes d) (thread e)\<rparr>
        in addHolesInRange d (Event (thread e) (old + 1)) (index e)
      else Some (removeHole d e))"

definition DepView_setMax :: "DepView \<Rightarrow> Event \<Rightarrow> DepView option" where
  "DepView_setMax d e =
     (let d = if thread e \<ge> int (length (dview d))
              then d\<lparr>holes := holes_grow (holes d) (thread e)\<rparr> else d;
          old = View_getMax (dview d) (thread e);
          d = d\<lparr>dview := View_setMax (dview d) e\<rparr>
      in if old < index e then addHolesInRange d (Event (thread e) (old + 1)) (index e)
         else Some (removeHolesInRange d e (old + 1)))"

definition hasHole :: "DepView \<Rightarrow> Event \<Rightarrow> bool" where
  "hasHole d e =
     (case holes_at (holes d) (thread e) of None \<Rightarrow> False | Some h \<Rightarrow> VSet_count h (index e) = 0)"

text \<open>
  One round of update: the holes common to both clocks, and those of the clock that has seen more
  above what the other has seen.
\<close>

definition DepView_update_step :: "DepView \<Rightarrow> nat \<Rightarrow> DepView \<Rightarrow> DepView option" where
  "DepView_update_step v i d =
     (let d = d\<lparr>holes := holes_grow (holes d) (int i)\<rparr>; h = holes d ! i in
      do { vh \<leftarrow> holes_at (holes v) (int i);
           let isec = VSet_intersectWith h vh;
               m = DepView_getMax d (int i); vm = DepView_getMax v (int i)
           in if m < vm then
                Some (d\<lparr>dview := View_setMax (dview d) (Event (int i) vm),
                        holes := (holes d)[i := VSet_insert_range isec
                                   (drop (lower_bound vh (m + 1)) vh)]\<rparr>)
              else
                Some (d\<lparr>holes := (holes d)[i := VSet_insert_range isec
                                   (drop (lower_bound h (vm + 1)) h)]\<rparr>) })"

fun DepView_update_loop :: "DepView \<Rightarrow> nat list \<Rightarrow> DepView \<Rightarrow> DepView option" where
  "DepView_update_loop v [] d = Some d"
| "DepView_update_loop v (i # is) d =
     do { d' \<leftarrow> DepView_update_step v i d; DepView_update_loop v is d' }"

definition DepView_update :: "DepView \<Rightarrow> DepView \<Rightarrow> DepView option" where
  "DepView_update d v =
     (if dview v = [] then Some d else DepView_update_loop v [0..<length (dview v)] d)"

section \<open>The abstract clock\<close>

datatype VectorClock = VC_View View | VC_DepView DepView

fun VectorClock_size :: "VectorClock \<Rightarrow> nat" where
  "VectorClock_size (VC_View v) = length v"
| "VectorClock_size (VC_DepView d) = length (dview d)"

fun VectorClock_contains :: "VectorClock \<Rightarrow> Event \<Rightarrow> bool" where
  "VectorClock_contains (VC_View v) e = View_contains v e"
| "VectorClock_contains (VC_DepView d) e = DepView_contains d e"

fun VectorClock_getMax :: "VectorClock \<Rightarrow> int \<Rightarrow> int" where
  "VectorClock_getMax (VC_View v) t = View_getMax v t"
| "VectorClock_getMax (VC_DepView d) t = DepView_getMax d t"

fun VectorClock_updateIdx :: "VectorClock \<Rightarrow> Event \<Rightarrow> VectorClock option" where
  "VectorClock_updateIdx (VC_View v) e = Some (VC_View (View_updateIdx v e))"
| "VectorClock_updateIdx (VC_DepView d) e = map_option VC_DepView (DepView_updateIdx d e)"

text \<open>Updating a clock with one of the other kind is BUG().\<close>

fun VectorClock_update :: "VectorClock \<Rightarrow> VectorClock \<Rightarrow> VectorClock option" where
  "VectorClock_update (VC_View v) (VC_View w) = Some (VC_View (View_update v w))"
| "VectorClock_update (VC_DepView d) (VC_DepView e) = map_option VC_DepView (DepView_update d e)"
| "VectorClock_update _ _ = None"

section \<open>Laws of plain views\<close>

definition View_inv :: "View \<Rightarrow> bool" where
  "View_inv v = (\<forall>x\<in>set v. 0 \<le> x)"

lemma View_getMax_empty [view_simps]: "0 \<le> t \<Longrightarrow> View_getMax View_empty t = 0"
  by (simp add: View_getMax_def View_empty_def)

lemma View_getMax_grow [view_simps]:
  "0 \<le> t \<Longrightarrow> View_getMax (View_grow v u) t = View_getMax v t"
  by (auto simp: View_getMax_def View_grow_def nth_append)

lemma length_View_setMax [simp]:
  "0 \<le> thread e \<Longrightarrow> length (View_setMax v e) = max (length v) (nat (thread e) + 1)"
  by (auto simp: View_setMax_def View_grow_def Let_def)

lemma View_getMax_setMax [view_simps]:
  assumes "0 \<le> t" "0 \<le> thread e"
  shows "View_getMax (View_setMax v e) t = (if t = thread e then index e else View_getMax v t)"
  using assms
  by (auto simp: View_getMax_def View_setMax_def View_grow_def Let_def nth_append nth_list_update)

lemma View_getMax_nonneg: "View_inv v \<Longrightarrow> 0 \<le> t \<Longrightarrow> 0 \<le> View_getMax v t"
  by (auto simp: View_inv_def View_getMax_def)

lemma View_inv_iff: "View_inv v \<longleftrightarrow> (\<forall>t\<ge>0. 0 \<le> View_getMax v t)"
proof
  assume g: "\<forall>t\<ge>0. 0 \<le> View_getMax v t"
  show "View_inv v" unfolding View_inv_def
  proof
    fix x assume "x \<in> set v"
    then obtain i where "i < length v" "v ! i = x" by (auto simp: in_set_conv_nth)
    then show "0 \<le> x" using g [rule_format, of "int i"] by (simp add: View_getMax_def)
  qed
qed (simp add: View_getMax_nonneg)

lemma View_getMax_updateIdx [view_simps]:
  "0 \<le> t \<Longrightarrow> 0 \<le> thread e \<Longrightarrow> View_getMax (View_updateIdx v e) t =
     (if t = thread e then max (View_getMax v t) (index e) else View_getMax v t)"
  by (auto simp: View_updateIdx_def view_simps)

lemma View_getMax_update_step [view_simps]:
  "0 \<le> t \<Longrightarrow> View_getMax (View_update_step w i v) t =
     (if t = int i then max (View_getMax v t) (View_getMax w t) else View_getMax v t)"
  by (auto simp: View_update_step_def view_simps)

lemma View_getMax_update_loop:
  "0 \<le> t \<Longrightarrow> View_getMax (fold (View_update_step w) [0..<n] v) t =
     (if t < int n then max (View_getMax v t) (View_getMax w t) else View_getMax v t)"
proof (induction n)
  case (Suc n)
  then show ?case by (cases "t = int n") (auto simp: view_simps)
qed simp

text \<open>update is the pointwise maximum.\<close>

lemma View_getMax_update [view_simps]:
  assumes "View_inv v" "View_inv w" "0 \<le> t"
  shows "View_getMax (View_update v w) t = max (View_getMax v t) (View_getMax w t)"
proof (cases "w = []")
  case True
  then show ?thesis using View_getMax_nonneg [OF assms(1,3)] assms(3)
    by (simp add: View_update_def View_getMax_def)
next
  case False
  then show ?thesis using assms(3)
    by (auto simp: View_update_def View_getMax_update_loop) (auto simp: View_getMax_def)
qed

lemma View_empty_inv [simp]: "View_inv View_empty"
  by (simp add: View_inv_def View_empty_def)

lemma View_updateIdx_inv [simp]: "View_inv v \<Longrightarrow> 0 \<le> thread e \<Longrightarrow> View_inv (View_updateIdx v e)"
  by (auto simp: View_inv_iff view_simps le_max_iff_disj)

lemma View_update_inv [simp]: "View_inv v \<Longrightarrow> View_inv w \<Longrightarrow> View_inv (View_update v w)"
  by (auto simp: View_inv_iff [of "View_update v w"] view_simps View_getMax_nonneg le_max_iff_disj)

section \<open>Laws of views with holes\<close>

text \<open>The holes recorded for a thread; none where the vector has not grown.\<close>

definition hvec :: "DepView \<Rightarrow> int \<Rightarrow> int VSet" where
  "hvec d t = (if nat t < length (holes d) then holes d ! nat t else VSet_empty)"

text \<open>
  The invariant: the holes vector covers the view, and the holes of a thread are a sorted set of
  positive indices up to the maximum seen.
\<close>

definition DepView_inv :: "DepView \<Rightarrow> bool" where
  "DepView_inv d = (View_inv (dview d) \<and> length (dview d) \<le> length (holes d) \<and>
     (\<forall>t\<ge>0. VSet_inv (hvec d t) \<and> (\<forall>x\<in>set (hvec d t). 1 \<le> x \<and> x \<le> DepView_getMax d t)))"

lemma DepView_invD:
  assumes "DepView_inv d"
  shows "View_inv (dview d)" "length (dview d) \<le> length (holes d)"
    "0 \<le> t \<Longrightarrow> VSet_inv (hvec d t)" "0 \<le> t \<Longrightarrow> x \<in> set (hvec d t) \<Longrightarrow> 1 \<le> x \<and> x \<le> DepView_getMax d t"
    "0 \<le> t \<Longrightarrow> 0 \<le> DepView_getMax d t"
  using assms by (auto simp: DepView_inv_def DepView_getMax_def View_getMax_nonneg)

lemma hvec_dview [simp]: "hvec (d\<lparr>dview := v\<rparr>) t = hvec d t"
  by (simp add: hvec_def)

lemma hvec_grow [simp]: "hvec (d\<lparr>holes := holes_grow (holes d) u\<rparr>) t = hvec d t"
  by (auto simp: hvec_def holes_grow_def nth_append VSet_empty_def)

lemma hvec_grow_view [simp]:
  "hvec (d\<lparr>dview := v, holes := holes_grow (holes d) u\<rparr>) t = hvec d t"
  by (auto simp: hvec_def holes_grow_def nth_append VSet_empty_def)

lemma length_holes_grow [simp]: "length (holes_grow hs t) = max (length hs) (nat t + 1)"
  by (simp add: holes_grow_def max_def)

lemma upd_holes_simps [simp]:
  "dview (upd_holes d t f) = dview d"
  "length (holes (upd_holes d t f)) = max (length (holes d)) (nat t + 1)"
  "DepView_getMax (upd_holes d t f) u = DepView_getMax d u"
  by (simp_all add: upd_holes_def Let_def DepView_getMax_def)

lemma hvec_upd_holes [view_simps]:
  "0 \<le> t \<Longrightarrow> 0 \<le> u \<Longrightarrow> hvec (upd_holes d t f) u = (if u = t then f (hvec d t) else hvec d u)"
  by (auto simp: upd_holes_def Let_def hvec_def holes_grow_def nth_append nth_list_update
      VSet_empty_def)

lemma DepView_contains_iff:
  assumes "DepView_inv d" "0 \<le> thread e" "0 \<le> index e"
  shows "DepView_contains d e \<longleftrightarrow>
     index e \<le> DepView_getMax d (thread e) \<and> index e \<notin> set (hvec d (thread e))"
proof -
  have "nat (thread e) < length (holes d)" if "1 \<le> index e" "index e \<le> DepView_getMax d (thread e)"
    using that assms DepView_invD(2) [OF assms(1)]
    by (auto simp: DepView_getMax_def View_getMax_def split: if_splits)
  moreover have "VSet_inv (hvec d (thread e))" using assms by (intro DepView_invD) auto
  moreover have "0 \<notin> set (hvec d (thread e))"
    using DepView_invD(4) [OF assms(1,2)] by fastforce
  ultimately show ?thesis
    using assms(2,3)
    by (cases "index e = 0")
      (auto simp: DepView_contains_def holes_at_def hvec_def vset_simps split: if_splits)
qed

lemma DepView_inv_upd_holes:
  assumes "DepView_inv d" "0 \<le> t" "VSet_inv (f (hvec d t))"
    and "\<And>x. x \<in> set (f (hvec d t)) \<Longrightarrow> 1 \<le> x \<and> x \<le> DepView_getMax d t"
  shows "DepView_inv (upd_holes d t f)"
  using assms by (auto simp: DepView_inv_def view_simps)

lemma addHoles_loop_correct:
  assumes "DepView_inv d" "0 \<le> t" "\<forall>i\<in>set is. 1 \<le> i \<and> i \<le> DepView_getMax d t"
  shows "\<exists>d'. addHoles_loop d t is = Some d' \<and> DepView_inv d' \<and> dview d' = dview d \<and>
     (\<forall>u\<ge>0. set (hvec d' u) = set (hvec d u) \<union> (if u = t then set is else {}))"
  using assms
proof (induction "is" arbitrary: d)
  case (Cons i "is")
  let ?d = "upd_holes d t (\<lambda>h. fst (VSet_insert h i))"
  have v: "VSet_inv (hvec d t)" using Cons.prems by (auto intro: DepView_invD)
  have inv: "DepView_inv ?d"
    using Cons.prems DepView_invD(4) [of d t] v
    by (intro DepView_inv_upd_holes) (auto simp: vset_simps)
  have add: "addHole d (Event t i) = Some ?d" using Cons.prems(3) by (simp add: addHole_def)
  obtain d' where "addHoles_loop ?d t is = Some d'" "DepView_inv d'" "dview d' = dview d"
    "\<forall>u\<ge>0. set (hvec d' u) = set (hvec ?d u) \<union> (if u = t then set is else {})"
    using Cons.IH [OF inv] Cons.prems by auto
  then show ?case using add Cons.prems(2) v by (auto simp: view_simps vset_simps)
qed simp

lemma removeHole_inv: "DepView_inv d \<Longrightarrow> 0 \<le> t \<Longrightarrow> DepView_inv (removeHole d (Event t i))"
  using DepView_invD(3,4) [of d t]
  by (auto simp: removeHole_def vset_simps intro!: DepView_inv_upd_holes)

lemma removeHoles_correct:
  assumes "DepView_inv d" "0 \<le> t"
  shows "DepView_inv (fold (\<lambda>i d. removeHole d (Event t i)) is d) \<and>
     dview (fold (\<lambda>i d. removeHole d (Event t i)) is d) = dview d \<and>
     (\<forall>u\<ge>0. set (hvec (fold (\<lambda>i d. removeHole d (Event t i)) is d) u)
        = set (hvec d u) - (if u = t then set is else {}))"
  using assms
proof (induction "is" arbitrary: d)
  case (Cons i "is")
  have v: "VSet_inv (hvec d t)" using Cons.prems by (auto intro: DepView_invD)
  show ?case
    using Cons.IH [OF removeHole_inv [OF Cons.prems, of i] Cons.prems(2)] Cons.prems(2) v
    by (auto simp: removeHole_def view_simps vset_simps)
qed simp

lemma removeHole_dview: "removeHole (d\<lparr>dview := v\<rparr>) e = (removeHole d e)\<lparr>dview := v\<rparr>"
  by (cases d) (simp add: removeHole_def upd_holes_def Let_def)

lemma fold_removeHole_dview:
  "fold (\<lambda>i d. removeHole d (Event t i)) is (d\<lparr>dview := v\<rparr>) =
     (fold (\<lambda>i d. removeHole d (Event t i)) is d)\<lparr>dview := v\<rparr>"
  by (induction "is" arbitrary: d) (simp_all add: removeHole_dview)

lemma removeHoles_length:
  "length (holes d) \<le> length (holes (fold (\<lambda>i d. removeHole d (Event t i)) is d))"
proof (induction "is" arbitrary: d)
  case (Cons i "is")
  show ?case using Cons [of "removeHole d (Event t i)"] by (simp add: removeHole_def)
qed simp

text \<open>Raising the maximum of a thread keeps the invariant.\<close>

lemma DepView_inv_raise:
  assumes "DepView_inv d" "0 \<le> thread e" "DepView_getMax d (thread e) \<le> index e"
  shows "DepView_inv (d\<lparr>dview := View_setMax (dview d) e, holes := holes_grow (holes d) (thread e)\<rparr>)"
proof -
  have "View_inv (View_setMax (dview d) e)"
    using assms DepView_invD(1,5) [OF assms(1)] View_getMax_nonneg [of "dview d"]
    by (force simp: View_inv_iff view_simps)
  then show ?thesis
    using assms DepView_invD(2,3) [OF assms(1)] DepView_invD(4) [OF assms(1)]
    by (fastforce simp: DepView_inv_def DepView_getMax_def view_simps)
qed

lemma DepView_updateIdx_correct:
  assumes d: "DepView_inv d" and e: "0 \<le> thread e" "0 \<le> index e"
  shows "\<exists>d'. DepView_updateIdx d e = Some d' \<and> DepView_inv d' \<and>
     (\<forall>u\<ge>0. DepView_getMax d' u =
        (if u = thread e then max (DepView_getMax d u) (index e) else DepView_getMax d u)) \<and>
     (\<forall>u\<ge>0. set (hvec d' u) = (if u = thread e
        then set (hvec d u) \<union> {DepView_getMax d u + 1 ..< index e} - {index e} else set (hvec d u)))"
proof (cases "DepView_getMax d (thread e) < index e")
  case True
  let ?d = "d\<lparr>dview := View_setMax (dview d) e, holes := holes_grow (holes d) (thread e)\<rparr>"
  let ?m = "DepView_getMax d (thread e)"
  have inv: "DepView_inv ?d" using True by (intro DepView_inv_raise d e) simp
  have m: "DepView_getMax ?d u = (if u = thread e then index e else DepView_getMax d u)" if "0 \<le> u" for u
    using that e by (simp add: DepView_getMax_def view_simps)
  obtain d' where d': "addHoles_loop ?d (thread e) [?m + 1 .. index e - 1] = Some d'" "DepView_inv d'"
    "dview d' = dview ?d"
    "\<forall>u\<ge>0. set (hvec d' u) = set (hvec ?d u) \<union>
       (if u = thread e then set [?m + 1 .. index e - 1] else {})"
    using addHoles_loop_correct [OF inv e(1), of "[?m + 1 .. index e - 1]"] m e(1)
      DepView_invD(5) [OF d e(1)] by auto
  have "index e \<notin> set (hvec d (thread e))" using True DepView_invD(4) [OF d e(1)] by force
  then have "DepView_updateIdx d e = Some d' \<and>
     (\<forall>u\<ge>0. set (hvec d' u) = (if u = thread e
        then set (hvec d u) \<union> {DepView_getMax d u + 1 ..< index e} - {index e} else set (hvec d u)))"
    using d' True
    by (auto simp: DepView_updateIdx_def addHolesInRange_def Let_def DepView_getMax_def)
  then show ?thesis using d' m True by (auto simp: DepView_getMax_def)
next
  case False
  then show ?thesis
    using removeHoles_correct [OF d e(1), of "[index e]"]
    by (auto simp: DepView_updateIdx_def DepView_getMax_def)
qed

text \<open>setMax cuts the thread at e, or extends it by e alone.\<close>

lemma DepView_setMax_contains:
  assumes d: "DepView_inv d" and e: "0 \<le> thread e" "0 \<le> index e"
  shows "\<exists>d'. DepView_setMax d e = Some d' \<and> DepView_inv d' \<and>
     (\<forall>x. 0 \<le> thread x \<longrightarrow> 0 \<le> index x \<longrightarrow> DepView_contains d' x \<longleftrightarrow>
        x = e \<or> DepView_contains d x \<and> (thread x = thread e \<longrightarrow> index x \<le> index e))"
proof (cases "DepView_getMax d (thread e) < index e")
  case True
  have "holes_grow (holes d) (thread e) = holes d" if "\<not> int (length (dview d)) \<le> thread e"
    using that DepView_invD(2) [OF d] e(1) by (simp add: holes_grow_def)
  then have "DepView_setMax d e = DepView_updateIdx d e"
    using True
    by (cases d) (auto simp: DepView_setMax_def DepView_updateIdx_def Let_def DepView_getMax_def)
  moreover obtain d' where d': "DepView_updateIdx d e = Some d'" "DepView_inv d'"
     "\<forall>u\<ge>0. DepView_getMax d' u =
        (if u = thread e then max (DepView_getMax d u) (index e) else DepView_getMax d u)"
     "\<forall>u\<ge>0. set (hvec d' u) = (if u = thread e
        then set (hvec d u) \<union> {DepView_getMax d u + 1 ..< index e} - {index e} else set (hvec d u))"
    using DepView_updateIdx_correct [OF d e] by blast
  moreover have "DepView_contains d' x \<longleftrightarrow>
      x = e \<or> DepView_contains d x \<and> (thread x = thread e \<longrightarrow> index x \<le> index e)"
    if x: "0 \<le> thread x" "0 \<le> index x" for x
    using d'(3,4) x True e
    by (auto simp: DepView_contains_iff [OF d x] DepView_contains_iff [OF d'(2) x] Event_eq_iff)
  ultimately show ?thesis by metis
next
  case False
  let ?g = "if thread e \<ge> int (length (dview d)) then d\<lparr>holes := holes_grow (holes d) (thread e)\<rparr> else d"
  let ?rm = "fold (\<lambda>i d. removeHole d (Event (thread e) i)) [index e .. DepView_getMax d (thread e)]"
  let ?r = "?rm ?g\<lparr>dview := View_setMax (dview d) e\<rparr>"
  have g: "DepView_inv ?g" "dview ?g = dview d" "\<And>u. hvec ?g u = hvec d u"
    using d by (auto simp: DepView_inv_def DepView_getMax_def)
  have r: "DepView_inv (?rm ?g)" "dview (?rm ?g) = dview d"
    "\<forall>u\<ge>0. set (hvec (?rm ?g) u) = set (hvec d u) -
       (if u = thread e then {index e .. DepView_getMax d (thread e)} else {})"
    using removeHoles_correct [OF g(1) e(1), of "[index e .. DepView_getMax d (thread e)]"] g(2,3)
    by auto
  have set: "DepView_setMax d e = Some ?r"
    unfolding DepView_setMax_def Let_def removeHolesInRange_def
      fold_removeHole_dview [where d = ?g] g(2)
    using False by (simp add: DepView_getMax_def)
  have m: "DepView_getMax ?r u = (if u = thread e then index e else DepView_getMax d u)" if "0 \<le> u" for u
    using that e(1) by (simp add: DepView_getMax_def view_simps)
  have "View_inv (dview ?r)"
    unfolding View_inv_iff using m e(2) DepView_invD(5) [OF d] by (auto simp: DepView_getMax_def)
  moreover have "length (dview ?r) \<le> length (holes ?r)"
    using removeHoles_length [of ?g "thread e" "[index e .. DepView_getMax d (thread e)]"]
      DepView_invD(2) [OF d] e(1) by (auto split: if_splits)
  ultimately have inv: "DepView_inv ?r"
    unfolding DepView_inv_def hvec_dview
    using r(3) m DepView_invD(3) [OF r(1)] DepView_invD(4) [OF d] False by (auto split: if_splits)
  have "DepView_contains ?r x \<longleftrightarrow>
      x = e \<or> DepView_contains d x \<and> (thread x = thread e \<longrightarrow> index x \<le> index e)"
    if x: "0 \<le> thread x" "0 \<le> index x" for x
    using r(3) m [OF x(1)] x False e
    by (auto simp: DepView_contains_iff [OF d x] DepView_contains_iff [OF inv x] Event_eq_iff)
  then show ?thesis using set inv by blast
qed

lemma DepView_updateIdx_contains:
  assumes d: "DepView_inv d" and e: "0 \<le> thread e" "0 \<le> index e"
  shows "\<exists>d'. DepView_updateIdx d e = Some d' \<and> DepView_inv d' \<and>
     (\<forall>x. 0 \<le> thread x \<longrightarrow> 0 \<le> index x \<longrightarrow> DepView_contains d' x \<longleftrightarrow> x = e \<or> DepView_contains d x)"
proof -
  obtain d' where d': "DepView_updateIdx d e = Some d'" "DepView_inv d'"
     "\<forall>u\<ge>0. DepView_getMax d' u =
        (if u = thread e then max (DepView_getMax d u) (index e) else DepView_getMax d u)"
     "\<forall>u\<ge>0. set (hvec d' u) = (if u = thread e
        then set (hvec d u) \<union> {DepView_getMax d u + 1 ..< index e} - {index e} else set (hvec d u))"
    using DepView_updateIdx_correct [OF d e] by blast
  have "DepView_contains d' x \<longleftrightarrow> x = e \<or> DepView_contains d x"
    if x: "0 \<le> thread x" "0 \<le> index x" for x
    using d'(3,4) x e
    by (auto simp: DepView_contains_iff [OF d x] DepView_contains_iff [OF d'(2) x] Event_eq_iff)
  then show ?thesis using d' by blast
qed

lemma VSet_insert_above_set:
  assumes "VSet_inv s" "VSet_inv k"
  shows "set (VSet_insert_range s (drop (lower_bound k (m + 1)) k)) = set s \<union> {x \<in> set k. m < (x :: int)}"
proof -
  have "set (drop (lower_bound k (m + 1)) k) = {x \<in> set k. m < x}"
    unfolding drop_lower_bound using assms(2) dropWhile_less_ssorted [of k "m + 1"]
    by (simp add: VSet_inv_def add1_zle_eq)
  then show ?thesis by (simp add: VSet_insert_range_set [OF assms(1)])
qed

lemma DepView_update_step_contains:
  assumes d: "DepView_inv d" and v: "DepView_inv v" and i: "i < length (dview v)"
  shows "\<exists>d'. DepView_update_step v i d = Some d' \<and> DepView_inv d' \<and>
     (\<forall>e. 0 \<le> thread e \<longrightarrow> 0 \<le> index e \<longrightarrow>
        DepView_contains d' e \<longleftrightarrow> DepView_contains d e \<or> thread e = int i \<and> DepView_contains v e)"
proof -
  let ?H = "hvec d (int i)" and ?K = "hvec v (int i)"
  let ?m = "DepView_getMax d (int i)" and ?vm = "DepView_getMax v (int i)"
  let ?new = "if ?m < ?vm then VSet_insert_range (VSet_intersectWith ?H ?K) (drop (lower_bound ?K (?m + 1)) ?K)
     else VSet_insert_range (VSet_intersectWith ?H ?K) (drop (lower_bound ?H (?vm + 1)) ?H)"
  let ?d' = "(if ?m < ?vm then d\<lparr>dview := View_setMax (dview d) (Event (int i) ?vm)\<rparr> else d)
     \<lparr>holes := (holes_grow (holes d) (int i))[i := ?new]\<rparr>"
  have HK: "VSet_inv ?H" "VSet_inv ?K" using DepView_invD(3) d v by simp_all
  have bounds: "\<forall>x\<in>set ?H. 1 \<le> x \<and> x \<le> ?m" "\<forall>x\<in>set ?K. 1 \<le> x \<and> x \<le> ?vm"
    using DepView_invD(4) [OF d, of "int i"] DepView_invD(4) [OF v, of "int i"] by auto
  have isec: "VSet_inv (VSet_intersectWith ?H ?K)" "set (VSet_intersectWith ?H ?K) = set ?H \<inter> set ?K"
    using VSet_intersectWith_eq [OF HK] HK by (auto simp: VSet_inv_def sorted_wrt_filter)
  have new: "VSet_inv ?new" "set ?new = set ?H \<inter> set ?K \<union>
      (if ?m < ?vm then {x \<in> set ?K. ?m < x} else {x \<in> set ?H. ?vm < x})"
    using isec HK by (simp_all add: VSet_insert_above_set)
  have hi: "holes_at (holes v) (int i) = Some ?K" "holes_grow (holes d) (int i) ! i = ?H"
    using i DepView_invD(2) [OF v] by (auto simp: holes_at_def hvec_def holes_grow_def nth_append)
  have step: "DepView_update_step v i d = Some ?d'"
    by (simp add: DepView_update_step_def Let_def hi DepView_getMax_def)
  have h: "hvec ?d' u = (if u = int i then ?new else hvec d u)" if "0 \<le> u" for u
    using that by (auto simp: hvec_def holes_grow_def nth_append nth_list_update VSet_empty_def)
  have m: "DepView_getMax ?d' u = (if u = int i then max ?m ?vm else DepView_getMax d u)" if "0 \<le> u" for u
    using that by (auto simp: DepView_getMax_def view_simps)
  have "View_inv (dview ?d')" unfolding View_inv_iff
    using m DepView_invD(5) [OF d] by (auto simp: DepView_getMax_def le_max_iff_disj)
  moreover have "length (dview ?d') \<le> length (holes ?d')"
    using DepView_invD(2) [OF d] by auto
  ultimately have inv: "DepView_inv ?d'"
    unfolding DepView_inv_def using h m new DepView_invD(3,4) [OF d] bounds
    by (auto split: if_splits)
  have "DepView_contains ?d' e \<longleftrightarrow> DepView_contains d e \<or> thread e = int i \<and> DepView_contains v e"
    if e: "0 \<le> thread e" "0 \<le> index e" for e
  proof (cases "thread e = int i")
    case True
    have "index e \<le> max ?m ?vm \<and> index e \<notin> set ?new \<longleftrightarrow>
        index e \<le> ?m \<and> index e \<notin> set ?H \<or> index e \<le> ?vm \<and> index e \<notin> set ?K"
      unfolding new(2) using bounds by (cases "?m < ?vm") auto
    then show ?thesis
      using DepView_contains_iff [OF d e] DepView_contains_iff [OF v e]
        DepView_contains_iff [OF inv e] h [OF e(1)] m [OF e(1)] True by simp
  qed (use DepView_contains_iff [OF d e] DepView_contains_iff [OF inv e] h [OF e(1)] m [OF e(1)] in simp)
  then show ?thesis using step inv by blast
qed

lemma DepView_update_loop_contains:
  assumes "DepView_inv d" and v: "DepView_inv v" and "\<forall>i\<in>set is. i < length (dview v)"
  shows "\<exists>d'. DepView_update_loop v is d = Some d' \<and> DepView_inv d' \<and>
     (\<forall>e. 0 \<le> thread e \<longrightarrow> 0 \<le> index e \<longrightarrow>
        DepView_contains d' e \<longleftrightarrow>
          DepView_contains d e \<or> thread e \<in> int ` set is \<and> DepView_contains v e)"
  using assms(1,3)
proof (induction "is" arbitrary: d)
  case (Cons i "is")
  obtain d1 where d1: "DepView_update_step v i d = Some d1" "DepView_inv d1"
    "\<forall>e. 0 \<le> thread e \<longrightarrow> 0 \<le> index e \<longrightarrow>
        DepView_contains d1 e \<longleftrightarrow> DepView_contains d e \<or> thread e = int i \<and> DepView_contains v e"
    using DepView_update_step_contains [OF Cons.prems(1) v, of i] Cons.prems(2) by auto
  from Cons.IH [OF d1(2)] Cons.prems(2) obtain d2 where "DepView_update_loop v is d1 = Some d2"
    "DepView_inv d2" "\<forall>e. 0 \<le> thread e \<longrightarrow> 0 \<le> index e \<longrightarrow>
        DepView_contains d2 e \<longleftrightarrow> DepView_contains d1 e \<or> thread e \<in> int ` set is \<and> DepView_contains v e"
    by auto
  with d1 show ?case by auto
qed simp

lemma DepView_contains_0:
  "DepView_inv d \<Longrightarrow> 0 \<le> thread e \<Longrightarrow> index e = 0 \<Longrightarrow> DepView_contains d e"
  using DepView_invD(5) [of d "thread e"] by (simp add: DepView_contains_def)

lemma DepView_update_contains:
  assumes d: "DepView_inv d" and v: "DepView_inv v"
  shows "\<exists>d'. DepView_update d v = Some d' \<and> DepView_inv d' \<and>
     (\<forall>e. 0 \<le> thread e \<longrightarrow> 0 \<le> index e \<longrightarrow>
        DepView_contains d' e \<longleftrightarrow> DepView_contains d e \<or> DepView_contains v e)"
proof -
  have out: "DepView_contains v e \<Longrightarrow> DepView_contains d e"
    if "0 \<le> thread e" "0 \<le> index e" "int (length (dview v)) \<le> thread e" for e
    using that DepView_contains_0 [OF d that(1)]
    by (simp add: DepView_contains_iff [OF v that(1,2)] DepView_getMax_def View_getMax_def)
  show ?thesis
  proof (cases "dview v = []")
    case True
    then show ?thesis using d out by (auto simp: DepView_update_def)
  next
    case False
    obtain d' where "DepView_update d v = Some d'" "DepView_inv d'" and
      c: "\<forall>e. 0 \<le> thread e \<longrightarrow> 0 \<le> index e \<longrightarrow> DepView_contains d' e \<longleftrightarrow>
        DepView_contains d e \<or> thread e \<in> int ` {0..<length (dview v)} \<and> DepView_contains v e"
      using DepView_update_loop_contains [OF d v, of "[0..<length (dview v)]"] False
      by (auto simp: DepView_update_def)
    moreover have "thread e \<in> int ` {0..<length (dview v)} \<longleftrightarrow> thread e < int (length (dview v))"
      if "0 \<le> thread e" for e using that by (auto simp: image_int_atLeastLessThan)
    ultimately show ?thesis using out by (metis linorder_not_less)
  qed
qed

section \<open>The interface of a vector clock\<close>

text \<open>
  The contract both clocks implement for their clients: update joins the events of two clocks,
  updateIdx adds what the event covers. A View covers the po-prefix of the event, a DepView the
  event alone.
\<close>

definition pos_event :: "Event \<Rightarrow> bool" where
  "pos_event e = (0 \<le> thread e \<and> 0 \<le> index e)"

fun try_fold :: "('c \<Rightarrow> 'x \<Rightarrow> 'c option) \<Rightarrow> 'x list \<Rightarrow> 'c \<Rightarrow> 'c option" where
  "try_fold f [] c = Some c"
| "try_fold f (x # xs) c = do { c' \<leftarrow> f c x; try_fold f xs c' }"

lemma try_fold_Some: "try_fold (\<lambda>c x. Some (f x c)) xs c = Some (fold f xs c)"
  by (induction xs arbitrary: c) simp_all

locale vector_clock =
  fixes inv :: "'c \<Rightarrow> bool"
    and contains :: "'c \<Rightarrow> Event \<Rightarrow> bool"
    and update :: "'c \<Rightarrow> 'c \<Rightarrow> 'c option"
    and updateIdx :: "'c \<Rightarrow> Event \<Rightarrow> 'c option"
    and covers :: "Event \<Rightarrow> Event \<Rightarrow> bool"
  assumes update_law: "inv a \<Longrightarrow> inv b \<Longrightarrow> \<exists>c. update a b = Some c \<and> inv c \<and>
      (\<forall>x. pos_event x \<longrightarrow> contains c x \<longleftrightarrow> contains a x \<or> contains b x)"
    and updateIdx_law: "inv a \<Longrightarrow> pos_event e \<Longrightarrow> \<exists>c. updateIdx a e = Some c \<and> inv c \<and>
      (\<forall>x. pos_event x \<longrightarrow> contains c x \<longleftrightarrow> contains a x \<or> covers e x)"
begin

lemma update_all:
  assumes "inv c" "\<forall>b\<in>set bs. inv b"
  shows "\<exists>r. try_fold update bs c = Some r \<and> inv r \<and>
     (\<forall>x. pos_event x \<longrightarrow> contains r x \<longleftrightarrow> contains c x \<or> (\<exists>b\<in>set bs. contains b x))"
  using assms
proof (induction bs arbitrary: c)
  case (Cons b bs)
  then obtain c' where c': "update c b = Some c'" "inv c'"
    "\<forall>x. pos_event x \<longrightarrow> contains c' x \<longleftrightarrow> contains c x \<or> contains b x"
    using update_law [of c b] by auto
  from Cons.IH [OF c'(2)] Cons.prems obtain r where "try_fold update bs c' = Some r" "inv r"
    "\<forall>x. pos_event x \<longrightarrow> contains r x \<longleftrightarrow> contains c' x \<or> (\<exists>b\<in>set bs. contains b x)" by auto
  with c' show ?case by auto
qed simp

lemma updateIdx_all:
  assumes "inv c" "\<forall>e\<in>set es. pos_event e"
  shows "\<exists>r. try_fold updateIdx es c = Some r \<and> inv r \<and>
     (\<forall>x. pos_event x \<longrightarrow> contains r x \<longleftrightarrow> contains c x \<or> (\<exists>e\<in>set es. covers e x))"
  using assms
proof (induction es arbitrary: c)
  case (Cons e es)
  then obtain c' where c': "updateIdx c e = Some c'" "inv c'"
    "\<forall>x. pos_event x \<longrightarrow> contains c' x \<longleftrightarrow> contains c x \<or> covers e x"
    using updateIdx_law [of c e] by auto
  from Cons.IH [OF c'(2)] Cons.prems obtain r where "try_fold updateIdx es c' = Some r" "inv r"
    "\<forall>x. pos_event x \<longrightarrow> contains r x \<longleftrightarrow> contains c' x \<or> (\<exists>e\<in>set es. covers e x)" by auto
  with c' show ?case by auto
qed simp

end

interpretation view: vector_clock View_inv View_contains "\<lambda>v w. Some (View_update v w)"
  "\<lambda>v e. Some (View_updateIdx v e)" "\<lambda>e x. Event_leq x e"
  by unfold_locales (auto simp: pos_event_def View_contains_def Event_leq_def view_simps le_max_iff_disj)

interpretation depview: vector_clock DepView_inv DepView_contains DepView_update DepView_updateIdx
  "\<lambda>e x. x = e"
proof unfold_locales
  fix a b assume "DepView_inv a" "DepView_inv b"
  then show "\<exists>c. DepView_update a b = Some c \<and> DepView_inv c \<and>
      (\<forall>x. pos_event x \<longrightarrow> DepView_contains c x \<longleftrightarrow> DepView_contains a x \<or> DepView_contains b x)"
    using DepView_update_contains [of a b] by (auto simp: pos_event_def)
next
  fix a e assume "DepView_inv a" "pos_event e"
  then show "\<exists>c. DepView_updateIdx a e = Some c \<and> DepView_inv c \<and>
      (\<forall>x. pos_event x \<longrightarrow> DepView_contains c x \<longleftrightarrow> DepView_contains a x \<or> x = e)"
    using DepView_updateIdx_contains [of a e] by (auto simp: pos_event_def)
qed

text \<open>What the clients use of the View instance, on the folds of the code.\<close>

lemma View_contains_fold_update:
  assumes "View_inv v" "\<forall>w\<in>set ws. View_inv w" "pos_event x"
  shows "View_contains (fold (\<lambda>w v. View_update v w) ws v) x \<longleftrightarrow>
     View_contains v x \<or> (\<exists>w\<in>set ws. View_contains w x)"
  using view.update_all [OF assms(1,2)] assms(3) by (auto simp: try_fold_Some)

lemma View_contains_update [view_simps]:
  "View_inv v \<Longrightarrow> View_inv w \<Longrightarrow> pos_event x \<Longrightarrow>
     View_contains (View_update v w) x \<longleftrightarrow> View_contains v x \<or> View_contains w x"
  using view.update_law [of v w] by auto

lemma View_contains_updateIdx [view_simps]:
  "View_inv v \<Longrightarrow> pos_event e \<Longrightarrow> pos_event x \<Longrightarrow>
     View_contains (View_updateIdx v e) x \<longleftrightarrow> View_contains v x \<or> Event_leq x e"
  using view.updateIdx_law [of v e] by auto

section \<open>Properties\<close>

definition VectorClock_inv :: "VectorClock \<Rightarrow> bool" where
  "VectorClock_inv c = (case c of VC_View v \<Rightarrow> View_inv v | VC_DepView d \<Rightarrow> DepView_inv d)"

definition same_kind :: "VectorClock \<Rightarrow> VectorClock \<Rightarrow> bool" where
  "same_kind c c' = (case (c, c') of (VC_View _, VC_View _) \<Rightarrow> True
     | (VC_DepView _, VC_DepView _) \<Rightarrow> True | _ \<Rightarrow> False)"

text \<open>C36. Updating a vector clock with another of the same kind is the join: it returns, keeps the
  invariant, and the result contains exactly the events either clock contains. Clocks of different
  kinds abort.\<close>

theorem VectorClock_update_join:
  assumes "VectorClock_inv a" "VectorClock_inv b"
  shows "if same_kind a b
     then \<exists>c. VectorClock_update a b = Some c \<and> VectorClock_inv c \<and> same_kind a c \<and>
        (\<forall>t i. 0 \<le> t \<longrightarrow> 0 \<le> i \<longrightarrow> VectorClock_contains c (Event t i) =
           (VectorClock_contains a (Event t i) \<or> VectorClock_contains b (Event t i)))
     else VectorClock_update a b = None"
proof (cases a; cases b)
  fix v w assume ab: "a = VC_View v" "b = VC_View w"
  then show ?thesis
    using assms view.update_law [of v w, unfolded all_Event]
    by (simp add: VectorClock_inv_def same_kind_def pos_event_def)
next
  fix d e assume ab: "a = VC_DepView d" "b = VC_DepView e"
  then show ?thesis
    using assms depview.update_law [of d e, unfolded all_Event]
    by (auto simp: VectorClock_inv_def same_kind_def pos_event_def)
qed (simp_all add: same_kind_def)

theorem VectorClock_update_join_witness:
  "\<exists>c. VectorClock_update (VC_View [3, 1]) (VC_View [2, 5, 4]) = Some c \<and> VectorClock_inv c \<and>
     VectorClock_contains c (Event 1 5) \<and> VectorClock_contains c (Event 0 3) \<and>
     \<not> VectorClock_contains c (Event 2 5)"
proof -
  obtain c where c: "VectorClock_update (VC_View [3, 1]) (VC_View [2, 5, 4]) = Some c" "VectorClock_inv c"
    "\<forall>t i. 0 \<le> t \<longrightarrow> 0 \<le> i \<longrightarrow> VectorClock_contains c (Event t i) =
       (VectorClock_contains (VC_View [3, 1]) (Event t i) \<or>
        VectorClock_contains (VC_View [2, 5, 4]) (Event t i))"
    using VectorClock_update_join [of "VC_View [3, 1]" "VC_View [2, 5, 4]"]
    by (auto simp: VectorClock_inv_def View_inv_def same_kind_def)
  have "VectorClock_contains c (Event 1 5) \<and> VectorClock_contains c (Event 0 3) \<and>
     \<not> VectorClock_contains c (Event 2 5)"
    using c(3) by (simp add: View_contains_def View_getMax_def)
  with c show ?thesis by blast
qed

text \<open>A dependency-tracking clock adds single events: updateIdx makes exactly the given event
  contained and no other, and setMax moves the maximum of the thread to the event, dropping what is
  above it and adding only the event itself. Neither ever aborts on a well-formed clock.\<close>

theorem DepView_single_event:
  assumes "DepView_inv d" "0 \<le> t" "0 \<le> i"
  shows "(\<exists>d'. DepView_updateIdx d (Event t i) = Some d' \<and> DepView_inv d' \<and>
       (\<forall>u j. 0 \<le> u \<longrightarrow> 0 \<le> j \<longrightarrow> DepView_contains d' (Event u j) =
          ((u, j) = (t, i) \<or> DepView_contains d (Event u j)))) \<and>
     (\<exists>d'. DepView_setMax d (Event t i) = Some d' \<and> DepView_inv d' \<and>
       (\<forall>u j. 0 \<le> u \<longrightarrow> 0 \<le> j \<longrightarrow> DepView_contains d' (Event u j) =
          ((u, j) = (t, i) \<or> DepView_contains d (Event u j) \<and> (u = t \<longrightarrow> j \<le> i))))"
  using DepView_updateIdx_contains [of d "Event t i", unfolded all_Event]
    DepView_setMax_contains [of d "Event t i", unfolded all_Event] assms by simp

theorem DepView_single_event_witness:
  "\<exists>d'. DepView_updateIdx DepView_empty (Event 1 3) = Some d' \<and>
     DepView_contains d' (Event 1 3) \<and> \<not> DepView_contains d' (Event 1 2)"
proof -
  have "DepView_inv DepView_empty"
    by (simp add: DepView_inv_def DepView_empty_def View_inv_def hvec_def vset_simps)
  then obtain d' where "DepView_updateIdx DepView_empty (Event 1 3) = Some d'"
    "\<forall>u j. 0 \<le> u \<longrightarrow> 0 \<le> j \<longrightarrow> DepView_contains d' (Event u j) =
          ((u, j) = (1, 3) \<or> DepView_contains DepView_empty (Event u j))"
    using DepView_single_event [of DepView_empty 1 3] by auto
  moreover have "\<not> DepView_contains DepView_empty (Event 1 2)"
    by (simp add: DepView_contains_def DepView_getMax_def View_getMax_def DepView_empty_def)
  ultimately show ?thesis by simp
qed

text \<open>The query hasHole answers the opposite of its documentation: for a thread the clock has holes
  storage for, it is true exactly when the position is not a hole.\<close>

theorem hasHole_inverted:
  assumes "DepView_inv d" "0 \<le> thread e" "thread e < int (length (holes d))"
  shows "hasHole d e \<longleftrightarrow> index e \<notin> set (holes d ! nat (thread e))"
proof -
  have "VSet_inv (holes d ! nat (thread e))"
    using DepView_invD(3) [OF assms(1,2)] assms(2,3) by (simp add: hvec_def nat_less_iff)
  then show ?thesis using assms(2,3) by (simp add: hasHole_def holes_at_def vset_simps)
qed

theorem hasHole_inverted_witness:
  "hasHole \<lparr>dview = [3], holes = [[1]]\<rparr> (Event 0 2) \<and> \<not> hasHole \<lparr>dview = [3], holes = [[1]]\<rparr> (Event 0 1)"
proof -
  have "DepView_inv \<lparr>dview = [3], holes = [[1]]\<rparr>"
    by (auto simp: DepView_inv_def View_inv_def hvec_def VSet_inv_def VSet_empty_def
        DepView_getMax_def View_getMax_def)
  then show ?thesis
    using hasHole_inverted [of "\<lparr>dview = [3], holes = [[1]]\<rparr>" "Event 0 2"]
      hasHole_inverted [of "\<lparr>dview = [3], holes = [[1]]\<rparr>" "Event 0 1"] by simp
qed

end
