(* ===== verification/LabelKinds.thy ===== *)
theory LabelKinds
  imports Prelude
begin

text \<open>
  The discriminator of labels, the enumeration EventLabelKind of src/src/EventLabel.hpp. The class
  tests of the sources (classofKind) are comparisons with range markers such as EL_LastRead, so the
  kinds are ordered as the enumerators are.
\<close>

datatype (plugins only:) EventLabelKind =
  EL_Empty | EL_Optional | EL_ThreadStart | EL_Init | EL_ThreadStartEnd | EL_TerminatorBegin |
  EL_BlockBegin | EL_SpinloopBlock | EL_FaiZNEBlock | EL_LockZNEBlock | EL_HelpedCASBlock |
  EL_ConfirmationBlock | EL_LockNotAcqBlock | EL_LockNotRelBlock | EL_BarrierBlock |
  EL_ErrorBlock | EL_UserBlock | EL_JoinBlock | EL_ReadOptBlock | EL_BlockEnd | EL_ThreadKill |
  EL_ThreadFinish | EL_TerminatorLast | EL_ThreadCreate | EL_ThreadJoin | EL_LoopBegin |
  EL_SpinStart | EL_FaiZNESpinEnd | EL_LockZNESpinEnd | EL_MemAccessBegin | EL_Read |
  EL_BWaitRead | EL_SpeculativeRead | EL_ConfirmingRead | EL_FaiRead | EL_NoRetFaiRead |
  EL_BIncFaiRead | EL_FaiReadLast | EL_CasRead | EL_LockCasRead | EL_TrylockCasRead |
  EL_HelpedCasRead | EL_ConfirmingCasRead | EL_CasReadLast | EL_DskRead | EL_LastRead | EL_Write
  | EL_UnlockWrite | EL_BInitWrite | EL_BDestroyWrite | EL_FaiWrite | EL_NoRetFaiWrite |
  EL_BIncFaiWrite | EL_FaiWriteLast | EL_CasWrite | EL_LockCasWrite | EL_TrylockCasWrite |
  EL_HelpedCasWrite | EL_ConfirmingCasWrite | EL_CasWriteLast | EL_DskWrite | EL_DskMdWrite |
  EL_DskJnlWrite | EL_DskDirWrite | EL_LastDskWrite | EL_LastWrite | EL_MemAccessEnd | EL_Fence
  | EL_DskFsync | EL_DskSync | EL_DskPbarrier | EL_SmpFenceLKMM | EL_RCUSyncLKMM | EL_LastFence
  | EL_Malloc | EL_Free | EL_HpRetire | EL_FreeLast | EL_HpProtect | EL_LockLAPOR |
  EL_UnlockLAPOR | EL_HelpingCas | EL_DskOpen | EL_RCULockLKMM | EL_RCUUnlockLKMM | EL_CLFlush

primrec kind_idx :: "EventLabelKind \<Rightarrow> nat" where
  "kind_idx EL_Empty = 0"
| "kind_idx EL_Optional = 1"
| "kind_idx EL_ThreadStart = 2"
| "kind_idx EL_Init = 3"
| "kind_idx EL_ThreadStartEnd = 4"
| "kind_idx EL_TerminatorBegin = 5"
| "kind_idx EL_BlockBegin = 6"
| "kind_idx EL_SpinloopBlock = 7"
| "kind_idx EL_FaiZNEBlock = 8"
| "kind_idx EL_LockZNEBlock = 9"
| "kind_idx EL_HelpedCASBlock = 10"
| "kind_idx EL_ConfirmationBlock = 11"
| "kind_idx EL_LockNotAcqBlock = 12"
| "kind_idx EL_LockNotRelBlock = 13"
| "kind_idx EL_BarrierBlock = 14"
| "kind_idx EL_ErrorBlock = 15"
| "kind_idx EL_UserBlock = 16"
| "kind_idx EL_JoinBlock = 17"
| "kind_idx EL_ReadOptBlock = 18"
| "kind_idx EL_BlockEnd = 19"
| "kind_idx EL_ThreadKill = 20"
| "kind_idx EL_ThreadFinish = 21"
| "kind_idx EL_TerminatorLast = 22"
| "kind_idx EL_ThreadCreate = 23"
| "kind_idx EL_ThreadJoin = 24"
| "kind_idx EL_LoopBegin = 25"
| "kind_idx EL_SpinStart = 26"
| "kind_idx EL_FaiZNESpinEnd = 27"
| "kind_idx EL_LockZNESpinEnd = 28"
| "kind_idx EL_MemAccessBegin = 29"
| "kind_idx EL_Read = 30"
| "kind_idx EL_BWaitRead = 31"
| "kind_idx EL_SpeculativeRead = 32"
| "kind_idx EL_ConfirmingRead = 33"
| "kind_idx EL_FaiRead = 34"
| "kind_idx EL_NoRetFaiRead = 35"
| "kind_idx EL_BIncFaiRead = 36"
| "kind_idx EL_FaiReadLast = 37"
| "kind_idx EL_CasRead = 38"
| "kind_idx EL_LockCasRead = 39"
| "kind_idx EL_TrylockCasRead = 40"
| "kind_idx EL_HelpedCasRead = 41"
| "kind_idx EL_ConfirmingCasRead = 42"
| "kind_idx EL_CasReadLast = 43"
| "kind_idx EL_DskRead = 44"
| "kind_idx EL_LastRead = 45"
| "kind_idx EL_Write = 46"
| "kind_idx EL_UnlockWrite = 47"
| "kind_idx EL_BInitWrite = 48"
| "kind_idx EL_BDestroyWrite = 49"
| "kind_idx EL_FaiWrite = 50"
| "kind_idx EL_NoRetFaiWrite = 51"
| "kind_idx EL_BIncFaiWrite = 52"
| "kind_idx EL_FaiWriteLast = 53"
| "kind_idx EL_CasWrite = 54"
| "kind_idx EL_LockCasWrite = 55"
| "kind_idx EL_TrylockCasWrite = 56"
| "kind_idx EL_HelpedCasWrite = 57"
| "kind_idx EL_ConfirmingCasWrite = 58"
| "kind_idx EL_CasWriteLast = 59"
| "kind_idx EL_DskWrite = 60"
| "kind_idx EL_DskMdWrite = 61"
| "kind_idx EL_DskJnlWrite = 62"
| "kind_idx EL_DskDirWrite = 63"
| "kind_idx EL_LastDskWrite = 64"
| "kind_idx EL_LastWrite = 65"
| "kind_idx EL_MemAccessEnd = 66"
| "kind_idx EL_Fence = 67"
| "kind_idx EL_DskFsync = 68"
| "kind_idx EL_DskSync = 69"
| "kind_idx EL_DskPbarrier = 70"
| "kind_idx EL_SmpFenceLKMM = 71"
| "kind_idx EL_RCUSyncLKMM = 72"
| "kind_idx EL_LastFence = 73"
| "kind_idx EL_Malloc = 74"
| "kind_idx EL_Free = 75"
| "kind_idx EL_HpRetire = 76"
| "kind_idx EL_FreeLast = 77"
| "kind_idx EL_HpProtect = 78"
| "kind_idx EL_LockLAPOR = 79"
| "kind_idx EL_UnlockLAPOR = 80"
| "kind_idx EL_HelpingCas = 81"
| "kind_idx EL_DskOpen = 82"
| "kind_idx EL_RCULockLKMM = 83"
| "kind_idx EL_RCUUnlockLKMM = 84"
| "kind_idx EL_CLFlush = 85"

definition all_kinds :: "EventLabelKind list" where
  "all_kinds = [EL_Empty, EL_Optional, EL_ThreadStart, EL_Init, EL_ThreadStartEnd,
  EL_TerminatorBegin, EL_BlockBegin, EL_SpinloopBlock, EL_FaiZNEBlock, EL_LockZNEBlock,
  EL_HelpedCASBlock, EL_ConfirmationBlock, EL_LockNotAcqBlock, EL_LockNotRelBlock,
  EL_BarrierBlock, EL_ErrorBlock, EL_UserBlock, EL_JoinBlock, EL_ReadOptBlock, EL_BlockEnd,
  EL_ThreadKill, EL_ThreadFinish, EL_TerminatorLast, EL_ThreadCreate, EL_ThreadJoin,
  EL_LoopBegin, EL_SpinStart, EL_FaiZNESpinEnd, EL_LockZNESpinEnd, EL_MemAccessBegin, EL_Read,
  EL_BWaitRead, EL_SpeculativeRead, EL_ConfirmingRead, EL_FaiRead, EL_NoRetFaiRead,
  EL_BIncFaiRead, EL_FaiReadLast, EL_CasRead, EL_LockCasRead, EL_TrylockCasRead,
  EL_HelpedCasRead, EL_ConfirmingCasRead, EL_CasReadLast, EL_DskRead, EL_LastRead, EL_Write,
  EL_UnlockWrite, EL_BInitWrite, EL_BDestroyWrite, EL_FaiWrite, EL_NoRetFaiWrite,
  EL_BIncFaiWrite, EL_FaiWriteLast, EL_CasWrite, EL_LockCasWrite, EL_TrylockCasWrite,
  EL_HelpedCasWrite, EL_ConfirmingCasWrite, EL_CasWriteLast, EL_DskWrite, EL_DskMdWrite,
  EL_DskJnlWrite, EL_DskDirWrite, EL_LastDskWrite, EL_LastWrite, EL_MemAccessEnd, EL_Fence,
  EL_DskFsync, EL_DskSync, EL_DskPbarrier, EL_SmpFenceLKMM, EL_RCUSyncLKMM, EL_LastFence,
  EL_Malloc, EL_Free, EL_HpRetire, EL_FreeLast, EL_HpProtect, EL_LockLAPOR, EL_UnlockLAPOR,
  EL_HelpingCas, EL_DskOpen, EL_RCULockLKMM, EL_RCUUnlockLKMM, EL_CLFlush]"

lemma all_kinds_idx: "all_kinds ! kind_idx k = k"
  by (cases k) (simp_all add: all_kinds_def)

lemma kind_idx_inject: "kind_idx k = kind_idx l \<longleftrightarrow> k = l"
  by (metis all_kinds_idx)

text \<open>For evaluation a kind is represented by its number.\<close>

definition kind_of_idx :: "nat \<Rightarrow> EventLabelKind" where
  "kind_of_idx n = all_kinds ! n"

lemma kind_of_idx [code abstype]: "kind_of_idx (kind_idx k) = k"
  by (simp add: kind_of_idx_def all_kinds_idx)

declare kind_idx.simps [code abstract]

instantiation EventLabelKind :: equal
begin

definition equal_EventLabelKind :: "EventLabelKind \<Rightarrow> EventLabelKind \<Rightarrow> bool" where
  "equal_EventLabelKind k l = (kind_idx k = kind_idx l)"

instance
  by standard (simp add: equal_EventLabelKind_def kind_idx_inject)

end

instantiation EventLabelKind :: linorder
begin

definition less_EventLabelKind :: "EventLabelKind \<Rightarrow> EventLabelKind \<Rightarrow> bool" where
  "k < l \<longleftrightarrow> kind_idx k < kind_idx l"

definition less_eq_EventLabelKind :: "EventLabelKind \<Rightarrow> EventLabelKind \<Rightarrow> bool" where
  "k \<le> l \<longleftrightarrow> kind_idx k \<le> kind_idx l"

instance
  by standard (auto simp: less_EventLabelKind_def less_eq_EventLabelKind_def kind_idx_inject)

end

declare less_EventLabelKind_def [kind_defs] less_eq_EventLabelKind_def [kind_defs]

section \<open>Class tests\<close>

definition isThreadStart :: "EventLabelKind \<Rightarrow> bool" where
  [kind_defs]: "isThreadStart k = (k \<ge> EL_ThreadStart \<and> k \<le> EL_ThreadStartEnd)"

definition isBlock :: "EventLabelKind \<Rightarrow> bool" where
  [kind_defs]: "isBlock k = (k \<ge> EL_BlockBegin \<and> k \<le> EL_BlockEnd)"

definition isTerminator :: "EventLabelKind \<Rightarrow> bool" where
  [kind_defs]: "isTerminator k = (k \<ge> EL_TerminatorBegin \<and> k \<le> EL_TerminatorLast)"

definition isMemAccess :: "EventLabelKind \<Rightarrow> bool" where
  [kind_defs]: "isMemAccess k = (k \<ge> EL_MemAccessBegin \<and> k \<le> EL_MemAccessEnd)"

definition isRead :: "EventLabelKind \<Rightarrow> bool" where
  [kind_defs]: "isRead k = (k \<ge> EL_Read \<and> k \<le> EL_LastRead)"

definition isFaiRead :: "EventLabelKind \<Rightarrow> bool" where
  [kind_defs]: "isFaiRead k = (k \<ge> EL_FaiRead \<and> k \<le> EL_FaiReadLast)"

definition isCasRead :: "EventLabelKind \<Rightarrow> bool" where
  [kind_defs]: "isCasRead k = (k \<ge> EL_CasRead \<and> k \<le> EL_CasReadLast)"

definition isWrite :: "EventLabelKind \<Rightarrow> bool" where
  [kind_defs]: "isWrite k = (k \<ge> EL_Write \<and> k \<le> EL_LastWrite)"

definition isFaiWrite :: "EventLabelKind \<Rightarrow> bool" where
  [kind_defs]: "isFaiWrite k = (k \<ge> EL_FaiWrite \<and> k \<le> EL_FaiWriteLast)"

definition isCasWrite :: "EventLabelKind \<Rightarrow> bool" where
  [kind_defs]: "isCasWrite k = (k \<ge> EL_CasWrite \<and> k \<le> EL_CasWriteLast)"

definition isDskWrite :: "EventLabelKind \<Rightarrow> bool" where
  [kind_defs]: "isDskWrite k = (k \<ge> EL_DskWrite \<and> k \<le> EL_LastDskWrite)"

definition isFence :: "EventLabelKind \<Rightarrow> bool" where
  [kind_defs]: "isFence k = (k \<ge> EL_Fence \<and> k \<le> EL_LastFence)"

definition isFree :: "EventLabelKind \<Rightarrow> bool" where
  [kind_defs]: "isFree k = (k \<ge> EL_Free \<and> k \<le> EL_FreeLast)"

definition isDependable :: "EventLabelKind \<Rightarrow> bool" where
  [kind_defs]: "isDependable k = ((k \<ge> EL_Read \<and> k \<le> EL_LastRead) \<or> k = EL_Malloc)"

definition hasValue :: "EventLabelKind \<Rightarrow> bool" where
  [kind_defs]: "hasValue k =
     ((k \<ge> EL_Read \<and> k \<le> EL_LastRead) \<or> (k \<ge> EL_ThreadStart \<and> k \<le> EL_ThreadStartEnd) \<or>
      k = EL_ThreadJoin \<or> k = EL_Optional)"

definition isDskAccess :: "EventLabelKind \<Rightarrow> bool" where
  [kind_defs]: "isDskAccess k =
     (k = EL_DskRead \<or> (k \<ge> EL_DskWrite \<and> k \<le> EL_LastDskWrite) \<or> k = EL_DskSync \<or>
      k = EL_DskFsync \<or> k = EL_DskPbarrier)"

section \<open>The class hierarchy\<close>

text \<open>Inclusions and exclusions between the ranges; every label test of the graph rests on them.\<close>

lemma kind_subclasses [simp]:
  "isRead k \<Longrightarrow> isMemAccess k" "isWrite k \<Longrightarrow> isMemAccess k"
  "isFaiRead k \<Longrightarrow> isRead k" "isCasRead k \<Longrightarrow> isRead k"
  "isFaiWrite k \<Longrightarrow> isWrite k" "isCasWrite k \<Longrightarrow> isWrite k" "isDskWrite k \<Longrightarrow> isWrite k"
  "isBlock k \<Longrightarrow> isTerminator k"
  by (simp_all add: kind_defs)

lemma kind_disjoint:
  "isRead k \<Longrightarrow> \<not> isWrite k" "isMemAccess k \<Longrightarrow> \<not> isFence k" "isMemAccess k \<Longrightarrow> \<not> isTerminator k"
  "isThreadStart k \<Longrightarrow> \<not> isMemAccess k" "isFree k \<Longrightarrow> \<not> isMemAccess k" "isFaiRead k \<Longrightarrow> \<not> isCasRead k"
  "isFaiWrite k \<Longrightarrow> \<not> isCasWrite k" "isTerminator k \<Longrightarrow> \<not> isThreadStart k"
  by (simp_all add: kind_defs)

end
