(* ===== verification/SExprs.thy ===== *)
theory SExprs
  imports VSets MemValues
begin

text \<open>
  Symbolic expressions over registers (src/src/SExpr.hpp) and their visitors (src/src/SExprVisitor.hpp,
  src/src/SExprVisitor.tcc): evaluation, substitution of a register, replacement of registers by
  known values, renaming of registers, and printing. The visitors of the abstract classes that the
  printer overrides for every concrete class are never reached, and left out. The classes for arithmetic, comparison and cast
  expressions differ in their kind only. The type of registers is a parameter, as in the source. A
  division by zero and a shift by the width or more are undefined in C++, and None here.
\<close>

section \<open>Expressions\<close>

type_synonym Width = "32 word"

definition BoolWidth :: Width where "BoolWidth = 1"

datatype CastKind = ZExt | SExt | Trunc
datatype ArithKind = AddK | SubK | MulK | UDivK | SDivK | URemK | SRemK | AndK | OrK | XorK | ShlK | LShrK | AShrK
datatype CmpKind = EqK | NeK | UltK | UleK | UgtK | UgeK | SltK | SleK | SgtK | SgeK

datatype 'r SExpr =
    ConcreteExpr Width SVal
  | RegisterExpr Width 'r string
  | SelectExpr Width "'r SExpr" "'r SExpr" "'r SExpr"
  | ConjunctionExpr "'r SExpr list"
  | DisjunctionExpr "'r SExpr list"
  | NotExpr "'r SExpr"
  | CastExpr CastKind Width "'r SExpr"
  | ArithExpr ArithKind Width "'r SExpr" "'r SExpr"
  | CmpExpr CmpKind "'r SExpr" "'r SExpr"

fun SExpr_getWidth :: "'r SExpr \<Rightarrow> Width" where
  "SExpr_getWidth (ConcreteExpr w v) = w"
| "SExpr_getWidth (RegisterExpr w r n) = w"
| "SExpr_getWidth (SelectExpr w c t f) = w"
| "SExpr_getWidth (CastExpr k w e) = w"
| "SExpr_getWidth (ArithExpr k w l r) = w"
| "SExpr_getWidth _ = BoolWidth"

definition createTrue :: "'r SExpr" where "createTrue = ConcreteExpr 1 1"
definition createFalse :: "'r SExpr" where "createFalse = ConcreteExpr 1 0"

definition SelectExpr_create :: "'r SExpr \<Rightarrow> 'r SExpr \<Rightarrow> 'r SExpr \<Rightarrow> 'r SExpr" where
  "SelectExpr_create c t f = SelectExpr (SExpr_getWidth t) c t f"

definition ConjunctionExpr_create :: "'r SExpr list \<Rightarrow> 'r SExpr option" where
  "ConjunctionExpr_create es = do { BUG_ON (es = []); Some (ConjunctionExpr es) }"

definition DisjunctionExpr_create :: "'r SExpr list \<Rightarrow> 'r SExpr option" where
  "DisjunctionExpr_create es = do { BUG_ON (es = []); Some (DisjunctionExpr es) }"

definition ArithExpr_create :: "ArithKind \<Rightarrow> 'r SExpr \<Rightarrow> 'r SExpr \<Rightarrow> 'r SExpr" where
  "ArithExpr_create k l r = ArithExpr k (SExpr_getWidth l) l r"

text \<open>Cloning keeps everything but the width of an arithmetic expression, which becomes that of its left operand.\<close>

fun SExpr_clone :: "'r SExpr \<Rightarrow> 'r SExpr" where
  "SExpr_clone (ConcreteExpr w v) = ConcreteExpr w v"
| "SExpr_clone (RegisterExpr w r n) = RegisterExpr w r n"
| "SExpr_clone (SelectExpr w c t f) = SelectExpr w (SExpr_clone c) (SExpr_clone t) (SExpr_clone f)"
| "SExpr_clone (ConjunctionExpr es) = ConjunctionExpr (map SExpr_clone es)"
| "SExpr_clone (DisjunctionExpr es) = DisjunctionExpr (map SExpr_clone es)"
| "SExpr_clone (NotExpr e) = NotExpr (SExpr_clone e)"
| "SExpr_clone (CastExpr k w e) = CastExpr k w (SExpr_clone e)"
| "SExpr_clone (ArithExpr k w l r) = ArithExpr_create k (SExpr_clone l) (SExpr_clone r)"
| "SExpr_clone (CmpExpr k l r) = CmpExpr k (SExpr_clone l) (SExpr_clone r)"

section \<open>Children, classes and names\<close>

fun SExpr_getKids :: "'r SExpr \<Rightarrow> 'r SExpr list" where
  "SExpr_getKids (ConcreteExpr w v) = []"
| "SExpr_getKids (RegisterExpr w r n) = []"
| "SExpr_getKids (SelectExpr w c t f) = [c, t, f]"
| "SExpr_getKids (ConjunctionExpr es) = es"
| "SExpr_getKids (DisjunctionExpr es) = es"
| "SExpr_getKids (NotExpr e) = [e]"
| "SExpr_getKids (CastExpr k w e) = [e]"
| "SExpr_getKids (ArithExpr k w l r) = [l, r]"
| "SExpr_getKids (CmpExpr k l r) = [l, r]"

definition SExpr_getNumKids :: "'r SExpr \<Rightarrow> nat" where
  "SExpr_getNumKids e = length (SExpr_getKids e)"

definition SExpr_getKid :: "'r SExpr \<Rightarrow> nat \<Rightarrow> 'r SExpr option" where
  "SExpr_getKid e i = do { BUG_ON (i \<ge> SExpr_getNumKids e); Some (SExpr_getKids e ! i) }"

text \<open>The node with its vector of children replaced by one of the same length.\<close>

fun SExpr_withKids :: "'r SExpr \<Rightarrow> 'r SExpr list \<Rightarrow> 'r SExpr" where
  "SExpr_withKids (SelectExpr w c t f) ks = SelectExpr w (ks ! 0) (ks ! 1) (ks ! 2)"
| "SExpr_withKids (ConjunctionExpr es) ks = ConjunctionExpr ks"
| "SExpr_withKids (DisjunctionExpr es) ks = DisjunctionExpr ks"
| "SExpr_withKids (NotExpr e) ks = NotExpr (ks ! 0)"
| "SExpr_withKids (CastExpr k w e) ks = CastExpr k w (ks ! 0)"
| "SExpr_withKids (ArithExpr k w l r) ks = ArithExpr k w (ks ! 0) (ks ! 1)"
| "SExpr_withKids (CmpExpr k l r) ks = CmpExpr k (ks ! 0) (ks ! 1)"
| "SExpr_withKids e ks = e"

definition SExpr_setKid :: "'r SExpr \<Rightarrow> nat \<Rightarrow> 'r SExpr \<Rightarrow> 'r SExpr option" where
  "SExpr_setKid e i k =
     do { BUG_ON (i \<ge> SExpr_getNumKids e); Some (SExpr_withKids e ((SExpr_getKids e)[i := k])) }"

fun LogicalExpr_classof :: "'r SExpr \<Rightarrow> bool" where
  "LogicalExpr_classof (ConjunctionExpr es) = True"
| "LogicalExpr_classof (DisjunctionExpr es) = True"
| "LogicalExpr_classof (NotExpr e) = True"
| "LogicalExpr_classof _ = False"

fun CastExpr_classof :: "'r SExpr \<Rightarrow> bool" where
  "CastExpr_classof (CastExpr k w e) = True"
| "CastExpr_classof _ = False"

fun CmpExpr_classof :: "'r SExpr \<Rightarrow> bool" where
  "CmpExpr_classof (CmpExpr k l r) = True"
| "CmpExpr_classof _ = False"

fun BinaryExpr_classof :: "'r SExpr \<Rightarrow> bool" where
  "BinaryExpr_classof (ArithExpr k w l r) = True"
| "BinaryExpr_classof (CmpExpr k l r) = True"
| "BinaryExpr_classof _ = False"

text \<open>
  The constructor of registers names a register without a name after a counter of the class, so the
  name of a register that was created is never empty and a clone has the same one.
\<close>

fun decimal :: "nat \<Rightarrow> string" where
  "decimal n = (if n < 10 then [char_of (48 + n)] else decimal (n div 10) @ [char_of (48 + n mod 10)])"

declare decimal.simps [simp del]

definition RegisterExpr_create :: "32 word \<Rightarrow> Width \<Rightarrow> 'r \<Rightarrow> string \<Rightarrow> 'r SExpr \<times> 32 word" where
  "RegisterExpr_create regCount w reg argname =
     (if argname \<noteq> [] then (RegisterExpr w reg argname, regCount)
      else (RegisterExpr w reg (''#s'' @ decimal (unat regCount)), regCount + 1))"

section \<open>Printing\<close>

fun arithOp :: "ArithKind \<Rightarrow> string" where
  "arithOp AddK = ''+''"
| "arithOp SubK = ''-''"
| "arithOp MulK = ''*''"
| "arithOp UDivK = ''/u''"
| "arithOp SDivK = ''/s''"
| "arithOp URemK = ''%u''"
| "arithOp SRemK = ''%s''"
| "arithOp AndK = ''&''"
| "arithOp OrK = ''|''"
| "arithOp XorK = ''^''"
| "arithOp ShlK = ''<<''"
| "arithOp LShrK = ''<<a''"
| "arithOp AShrK = ''>>a''"

fun cmpOp :: "CmpKind \<Rightarrow> string" where
  "cmpOp EqK = ''==''"
| "cmpOp NeK = ''!=''"
| "cmpOp UltK = ''<u''"
| "cmpOp UleK = ''<=u''"
| "cmpOp UgtK = ''>u''"
| "cmpOp UgeK = ''>=u''"
| "cmpOp SltK = ''<s''"
| "cmpOp SleK = ''<=s''"
| "cmpOp SgtK = ''>s''"
| "cmpOp SgeK = ''>=s''"

fun joinStrings :: "string \<Rightarrow> string list \<Rightarrow> string" where
  "joinStrings sep [] = []"
| "joinStrings sep [x] = x"
| "joinStrings sep (x # xs) = x @ sep @ joinStrings sep xs"

fun SExpr_toString :: "'r SExpr \<Rightarrow> string" where
  "SExpr_toString (ConcreteExpr w v) = decimal (unat v)"
| "SExpr_toString (RegisterExpr w r n) = n"
| "SExpr_toString (SelectExpr w c t f) =
     ''('' @ SExpr_toString c @ '' ? '' @ SExpr_toString t @ '' : '' @ SExpr_toString f @ '')''"
| "SExpr_toString (ConjunctionExpr es) = joinStrings (CHR '' '' # CHR ''/'' # CHR 0x5C # '' '') (map SExpr_toString es)"
| "SExpr_toString (DisjunctionExpr es) = joinStrings (CHR '' '' # CHR 0x5C # ''/ '') (map SExpr_toString es)"
| "SExpr_toString (NotExpr e) = ''!'' @ SExpr_toString e"
| "SExpr_toString (CastExpr k w e) = ''cast'' @ decimal (unat w) @ ''('' @ SExpr_toString e @ '')''"
| "SExpr_toString (ArithExpr k w l r) = SExpr_toString l @ '' '' @ arithOp k @ '' '' @ SExpr_toString r"
| "SExpr_toString (CmpExpr k l r) = SExpr_toString l @ '' '' @ cmpOp k @ '' '' @ SExpr_toString r"

section \<open>Evaluation\<close>

record 'r SExprEvaluator =
  ev_map :: "('r \<Rightarrow> SVal option) option"
  ev_val :: SVal
  ev_bruteForce :: bool
  ev_unknown :: "'r VSet"

definition SExprEvaluator_new :: "'r SExprEvaluator" where
  "SExprEvaluator_new = \<lparr>ev_map = None, ev_val = 0, ev_bruteForce = False, ev_unknown = VSet_empty\<rparr>"

definition hasKnownMapping :: "'r SExprEvaluator \<Rightarrow> 'r \<Rightarrow> bool" where
  "hasKnownMapping ev reg = (case ev_map ev of None \<Rightarrow> False | Some m \<Rightarrow> m reg \<noteq> None)"

definition getMappingFor :: "'r SExprEvaluator \<Rightarrow> 'r \<Rightarrow> SVal" where
  "getMappingFor ev reg =
     (if hasKnownMapping ev reg then (case ev_map ev of None \<Rightarrow> 42 | Some m \<Rightarrow> the (m reg)) else 42)"

text \<open>
  The operations on values that the visitors of binary expressions call: both remainders divide,
  signed division is the unsigned one, and the arithmetic shift is the logical one.
\<close>

fun visitArith :: "ArithKind \<Rightarrow> SVal \<Rightarrow> SVal \<Rightarrow> SVal option" where
  "visitArith AddK a b = SVal_binop Plus a b"
| "visitArith SubK a b = SVal_binop Minus a b"
| "visitArith MulK a b = SVal_binop Times a b"
| "visitArith UDivK a b = SVal_binop Div a b"
| "visitArith SDivK a b = SVal_binop Div a b"
| "visitArith URemK a b = SVal_binop Div a b"
| "visitArith SRemK a b = SVal_binop Div a b"
| "visitArith AndK a b = SVal_binop And a b"
| "visitArith OrK a b = SVal_binop Or a b"
| "visitArith XorK a b = SVal_binop Xor a b"
| "visitArith ShlK a b = SVal_binop Shl a b"
| "visitArith LShrK a b = SVal_binop Shr a b"
| "visitArith AShrK a b = SVal_binop Shr a b"

fun visitCmp :: "CmpKind \<Rightarrow> SVal \<Rightarrow> SVal \<Rightarrow> bool" where
  "visitCmp EqK a b = (a = b)"
| "visitCmp NeK a b = (a \<noteq> b)"
| "visitCmp UltK a b = SVal_ult a b"
| "visitCmp UleK a b = SVal_ule a b"
| "visitCmp UgtK a b = SVal_ugt a b"
| "visitCmp UgeK a b = SVal_uge a b"
| "visitCmp SltK a b = SVal_slt a b"
| "visitCmp SleK a b = SVal_sle a b"
| "visitCmp SgtK a b = SVal_sgt a b"
| "visitCmp SgeK a b = SVal_sge a b"

text \<open>
  The visitor of the evaluator. Conjunctions and disjunctions stop at the first operand that
  decides them. The visitor of negations negates the pointer to its operand, which is never null.
\<close>

fun visitE :: "('r::linorder) SExpr \<Rightarrow> 'r SExprEvaluator \<Rightarrow> (SVal \<times> 'r SExprEvaluator) option"
and visitAllOf :: "'r SExpr list \<Rightarrow> 'r SExprEvaluator \<Rightarrow> (bool \<times> 'r SExprEvaluator) option"
and visitAnyOf :: "'r SExpr list \<Rightarrow> 'r SExprEvaluator \<Rightarrow> (bool \<times> 'r SExprEvaluator) option" where
  "visitE (ConcreteExpr w v) ev = Some (v, ev)"
| "visitE (RegisterExpr w r n) ev =
     (if ev_bruteForce ev then Some (ev_val ev, ev)
      else let ev' = (if hasKnownMapping ev r then ev else ev\<lparr>ev_unknown := fst (VSet_insert (ev_unknown ev) r)\<rparr>)
           in Some (getMappingFor ev' r, ev'))"
| "visitE (SelectExpr w c t f) ev =
     do { (b, ev) \<leftarrow> visitE c ev; if SVal_getBool b then visitE t ev else visitE f ev }"
| "visitE (ConjunctionExpr es) ev = do { (b, ev) \<leftarrow> visitAllOf es ev; Some (if b then 1 else 0, ev) }"
| "visitE (DisjunctionExpr es) ev = do { (b, ev) \<leftarrow> visitAnyOf es ev; Some (if b then 1 else 0, ev) }"
| "visitE (NotExpr e) ev = Some (0, ev)"
| "visitE (CastExpr k w e) ev = visitE e ev"
| "visitE (ArithExpr k w l r) ev =
     do { (a, ev) \<leftarrow> visitE l ev; (b, ev) \<leftarrow> visitE r ev; v \<leftarrow> visitArith k a b; Some (v, ev) }"
| "visitE (CmpExpr k l r) ev =
     do { (a, ev) \<leftarrow> visitE l ev; (b, ev) \<leftarrow> visitE r ev; Some (if visitCmp k a b then 1 else 0, ev) }"
| "visitAllOf [] ev = Some (True, ev)"
| "visitAllOf (e # es) ev = do { (b, ev) \<leftarrow> visitE e ev; if SVal_getBool b then visitAllOf es ev else Some (False, ev) }"
| "visitAnyOf [] ev = Some (False, ev)"
| "visitAnyOf (e # es) ev = do { (b, ev) \<leftarrow> visitE e ev; if SVal_getBool b then Some (True, ev) else visitAnyOf es ev }"

text \<open>The two entry points return the value, the number of unknown registers and the evaluator.\<close>

definition evaluate_bf :: "('r::linorder) SExprEvaluator \<Rightarrow> 'r SExpr \<Rightarrow> SVal \<Rightarrow>
    (SVal \<times> nat \<times> 'r SExprEvaluator) option" where
  "evaluate_bf ev e v =
     do { (res, ev) \<leftarrow> visitE e (ev\<lparr>ev_bruteForce := True, ev_val := v, ev_unknown := VSet_empty, ev_map := None\<rparr>);
          Some (res, length (ev_unknown ev), ev\<lparr>ev_bruteForce := False\<rparr>) }"

definition evaluate_map :: "('r::linorder) SExprEvaluator \<Rightarrow> 'r SExpr \<Rightarrow> ('r \<Rightarrow> SVal option) \<Rightarrow>
    (SVal \<times> nat \<times> 'r SExprEvaluator) option" where
  "evaluate_map ev e m =
     do { (res, ev) \<leftarrow> visitE e (ev\<lparr>ev_map := Some m\<rparr>); Some (res, length (ev_unknown ev), ev) }"

section \<open>Replacing registers\<close>

text \<open>
  The visitors replace a register below a node when they visit the node, and the entry points a
  register at the top, so every occurrence is replaced; the replacement is not visited.
\<close>

fun subst_visit :: "('r \<Rightarrow> 'r SExpr option) \<Rightarrow> 'r SExpr \<Rightarrow> 'r SExpr" where
  "subst_visit f (ConcreteExpr w v) = ConcreteExpr w v"
| "subst_visit f (RegisterExpr w r n) = (case f r of None \<Rightarrow> RegisterExpr w r n | Some e \<Rightarrow> e)"
| "subst_visit f (SelectExpr w c t e) = SelectExpr w (subst_visit f c) (subst_visit f t) (subst_visit f e)"
| "subst_visit f (ConjunctionExpr es) = ConjunctionExpr (map (subst_visit f) es)"
| "subst_visit f (DisjunctionExpr es) = DisjunctionExpr (map (subst_visit f) es)"
| "subst_visit f (NotExpr e) = NotExpr (subst_visit f e)"
| "subst_visit f (CastExpr k w e) = CastExpr k w (subst_visit f e)"
| "subst_visit f (ArithExpr k w l r) = ArithExpr k w (subst_visit f l) (subst_visit f r)"
| "subst_visit f (CmpExpr k l r) = CmpExpr k (subst_visit f l) (subst_visit f r)"

definition substitute :: "'r SExpr \<Rightarrow> 'r \<Rightarrow> 'r SExpr \<Rightarrow> 'r SExpr" where
  "substitute orig reg r = subst_visit (\<lambda>x. if x = reg then Some (SExpr_clone r) else None) (SExpr_clone orig)"

definition concretize :: "'r SExpr \<Rightarrow> ('r \<Rightarrow> (SVal \<times> ASize) option) \<Rightarrow> 'r SExpr" where
  "concretize orig rMap =
     subst_visit (\<lambda>x. case rMap x of None \<Rightarrow> None | Some (v, s) \<Rightarrow> Some (ConcreteExpr s v)) (SExpr_clone orig)"

text \<open>The transformer renames registers; its visitors of casts return the transformed operand.\<close>

fun transform :: "('r \<Rightarrow> 's) \<Rightarrow> 'r SExpr \<Rightarrow> 's SExpr" where
  "transform f (ConcreteExpr w v) = ConcreteExpr w v"
| "transform f (RegisterExpr w r n) = RegisterExpr w (f r) n"
| "transform f (SelectExpr w c t e) = SelectExpr w (transform f c) (transform f t) (transform f e)"
| "transform f (ConjunctionExpr es) = ConjunctionExpr (map (transform f) es)"
| "transform f (DisjunctionExpr es) = DisjunctionExpr (map (transform f) es)"
| "transform f (NotExpr e) = NotExpr (transform f e)"
| "transform f (CastExpr k w e) = transform f e"
| "transform f (ArithExpr k w l r) = ArithExpr k w (transform f l) (transform f r)"
| "transform f (CmpExpr k l r) = CmpExpr k (transform f l) (transform f r)"

section \<open>Children\<close>

lemma kids_withKids:
  assumes "length ks = SExpr_getNumKids e"
  shows "SExpr_getKids (SExpr_withKids e ks) = ks"
proof -
  have s: "length xs = Suc (Suc 0) \<Longrightarrow> [xs ! 0, xs ! Suc 0] = xs" "length xs = Suc 0 \<Longrightarrow> [xs ! 0] = xs"
    "length xs = 3 \<Longrightarrow> [xs ! 0, xs ! Suc 0, xs ! 2] = xs" for xs :: "'a SExpr list"
    by (auto simp: length_Suc_conv numeral_3_eq_3 numeral_2_eq_2)
  show ?thesis using assms by (cases e) (auto simp: SExpr_getNumKids_def s)
qed

text \<open>Setting a child and reading one back.\<close>

lemma setKid_getKid:
  assumes "i < SExpr_getNumKids e" "j < SExpr_getNumKids e"
  shows "(SExpr_setKid e i k \<bind> (\<lambda>e'. SExpr_getKid e' j)) = (if i = j then Some k else SExpr_getKid e j)"
  using assms kids_withKids [of "(SExpr_getKids e)[i := k]" e]
  by (auto simp: SExpr_setKid_def SExpr_getKid_def SExpr_getNumKids_def)

section \<open>The value of an expression\<close>

text \<open>What the evaluator computes when every register has a value, without its bookkeeping.\<close>

fun seval :: "('r \<Rightarrow> SVal) \<Rightarrow> 'r SExpr \<Rightarrow> SVal option"
and sall :: "('r \<Rightarrow> SVal) \<Rightarrow> 'r SExpr list \<Rightarrow> bool option"
and sany :: "('r \<Rightarrow> SVal) \<Rightarrow> 'r SExpr list \<Rightarrow> bool option" where
  "seval \<rho> (ConcreteExpr w v) = Some v"
| "seval \<rho> (RegisterExpr w r n) = Some (\<rho> r)"
| "seval \<rho> (SelectExpr w c t f) = do { b \<leftarrow> seval \<rho> c; if SVal_getBool b then seval \<rho> t else seval \<rho> f }"
| "seval \<rho> (ConjunctionExpr es) = map_option (\<lambda>b. if b then 1 else 0) (sall \<rho> es)"
| "seval \<rho> (DisjunctionExpr es) = map_option (\<lambda>b. if b then 1 else 0) (sany \<rho> es)"
| "seval \<rho> (NotExpr e) = Some 0"
| "seval \<rho> (CastExpr k w e) = seval \<rho> e"
| "seval \<rho> (ArithExpr k w l r) = do { a \<leftarrow> seval \<rho> l; b \<leftarrow> seval \<rho> r; visitArith k a b }"
| "seval \<rho> (CmpExpr k l r) = do { a \<leftarrow> seval \<rho> l; b \<leftarrow> seval \<rho> r; Some (if visitCmp k a b then 1 else 0) }"
| "sall \<rho> [] = Some True"
| "sall \<rho> (e # es) = do { b \<leftarrow> seval \<rho> e; if SVal_getBool b then sall \<rho> es else Some False }"
| "sany \<rho> [] = Some False"
| "sany \<rho> (e # es) = do { b \<leftarrow> seval \<rho> e; if SVal_getBool b then Some True else sany \<rho> es }"

definition ev_lookup :: "'r SExprEvaluator \<Rightarrow> 'r \<Rightarrow> SVal" where
  "ev_lookup ev r = (if ev_bruteForce ev then ev_val ev else getMappingFor ev r)"

definition ev_extends :: "'r SExprEvaluator \<Rightarrow> 'r SExprEvaluator \<Rightarrow> bool" where
  "ev_extends ev ev' =
     (ev_map ev' = ev_map ev \<and> ev_val ev' = ev_val ev \<and> ev_bruteForce ev' = ev_bruteForce ev \<and>
      set (ev_unknown ev) \<subseteq> set (ev_unknown ev'))"

lemma ev_extends_refl [simp]: "ev_extends ev ev"
  by (simp add: ev_extends_def)

lemma ev_extends_trans: "ev_extends a b \<Longrightarrow> ev_extends b c \<Longrightarrow> ev_extends a c"
  by (auto simp: ev_extends_def)

lemma ev_lookup_extends: "ev_extends ev ev' \<Longrightarrow> ev_lookup ev' = ev_lookup ev"
  by (simp add: ev_extends_def ev_lookup_def getMappingFor_def hasKnownMapping_def fun_eq_iff)

lemma set_insert_grows: "set s \<subseteq> set (fst (VSet_insert s x))"
  by (auto simp: VSet_insert_def Let_def) (metis UnE append_take_drop_id set_append)

lemma visit_extends:
  "visitE e ev = Some (v, ev') \<Longrightarrow> ev_extends ev ev'"
  "visitAllOf es ev = Some (b, ev') \<Longrightarrow> ev_extends ev ev'"
  "visitAnyOf es ev = Some (b, ev') \<Longrightarrow> ev_extends ev ev'"
proof (induction e ev and es ev and es ev arbitrary: v ev' and b ev' and b ev'
    rule: visitE_visitAllOf_visitAnyOf.induct)
  case (2 w r n ev)
  then show ?case using set_insert_grows [of "ev_unknown ev" r] by (auto simp: ev_extends_def Let_def split: if_splits)
qed (fastforce split: bind_splits if_splits intro: ev_extends_trans)+

lemma bind_visit:
  assumes "ev_lookup ev = \<rho>" "map_option fst (visitE e ev) = seval \<rho> e"
    and "\<And>a ev1. visitE e ev = Some (a, ev1) \<Longrightarrow> ev_lookup ev1 = \<rho> \<Longrightarrow> map_option fst (f (a, ev1)) = h a"
  shows "map_option fst (visitE e ev \<bind> f) = (seval \<rho> e \<bind> h)"
proof (cases "visitE e ev")
  case None
  then show ?thesis using assms(2) by simp
next
  case (Some p)
  then show ?thesis
    using assms(1) assms(3) [of "fst p" "snd p"] ev_lookup_extends [OF visit_extends(1), of e ev "fst p" "snd p"]
    by (simp flip: assms(2))
qed

lemma visit_value:
  "map_option fst (visitE e ev) = seval (ev_lookup ev) e"
  "map_option fst (visitAllOf es ev) = sall (ev_lookup ev) es"
  "map_option fst (visitAnyOf es ev) = sany (ev_lookup ev) es"
proof (induction e ev and es ev and es ev rule: visitE_visitAllOf_visitAnyOf.induct)
  case (2 w r n ev)
  then show ?case by (auto simp: ev_lookup_def getMappingFor_def hasKnownMapping_def Let_def)
next
  case (3 w c t f ev)
  then show ?case by (auto intro!: bind_visit)
next
  case (4 es ev)
  then show ?case by (cases "visitAllOf es ev") (auto simp flip: 4)
next
  case (5 es ev)
  then show ?case by (cases "visitAnyOf es ev") (auto simp flip: 5)
next
  case (8 k w l r ev)
  show ?case unfolding visitE.simps seval.simps
  proof (rule bind_visit [OF refl 8(1)])
    fix a ev1 assume a: "visitE l ev = Some (a, ev1)" "ev_lookup ev1 = ev_lookup ev"
    have "map_option fst (visitE r ev1) = seval (ev_lookup ev) r" using 8(2) [OF a(1) refl] a(2) by simp
    from bind_visit [OF a(2) this, of "\<lambda>(b, ev). do { v \<leftarrow> visitArith k a b; Some (v, ev) }" "visitArith k a"]
    show "map_option fst (case (a, ev1) of (a, ev) \<Rightarrow> do { (b, ev) \<leftarrow> visitE r ev; v \<leftarrow> visitArith k a b; Some (v, ev) }) =
        (seval (ev_lookup ev) r \<bind> visitArith k a)"
      by (simp add: option.map_ident map_conv_bind_option split: bind_split)
  qed
next
  case (9 k l r ev)
  show ?case unfolding visitE.simps seval.simps
  proof (rule bind_visit [OF refl 9(1)])
    fix a ev1 assume a: "visitE l ev = Some (a, ev1)" "ev_lookup ev1 = ev_lookup ev"
    have "map_option fst (visitE r ev1) = seval (ev_lookup ev) r" using 9(2) [OF a(1) refl] a(2) by simp
    from bind_visit [OF a(2) this, of "\<lambda>(b, ev). Some (if visitCmp k a b then 1 else 0, ev)"
        "\<lambda>b. Some (if visitCmp k a b then 1 else 0)"]
    show "map_option fst (case (a, ev1) of (a, ev) \<Rightarrow> do { (b, ev) \<leftarrow> visitE r ev; Some (if visitCmp k a b then 1 else 0, ev) }) =
        (seval (ev_lookup ev) r \<bind> (\<lambda>b. Some (if visitCmp k a b then 1 else 0)))"
      by simp
  qed
next
  case (11 e es ev)
  then show ?case by (auto intro!: bind_visit)
next
  case (13 e es ev)
  then show ?case by (auto intro!: bind_visit)
qed simp_all

lemma seval_clone:
  "seval \<rho> (SExpr_clone e) = seval \<rho> e" "sall \<rho> (map SExpr_clone es) = sall \<rho> es"
  "sany \<rho> (map SExpr_clone es) = sany \<rho> es"
  by (induction \<rho> e and \<rho> es and \<rho> es rule: seval_sall_sany.induct)
    (auto simp: ArithExpr_create_def intro!: Option.bind_cong)

text \<open>Replacing registers by expressions with the value that another environment gives them.\<close>

lemma seval_subst:
  assumes "\<And>r. case f r of None \<Rightarrow> \<rho> r = \<rho>' r | Some e \<Rightarrow> seval \<rho> e = Some (\<rho>' r)"
  shows "seval \<rho> (subst_visit f e) = seval \<rho>' e" "sall \<rho> (map (subst_visit f) es) = sall \<rho>' es"
    "sany \<rho> (map (subst_visit f) es) = sany \<rho>' es"
  using assms
proof (induction \<rho>' e and \<rho>' es and \<rho>' es rule: seval_sall_sany.induct)
  case (2 \<rho>' w r n)
  show ?case using 2 [of r] by (auto split: option.splits)
qed (auto intro!: Option.bind_cong)

lemma seval_transform:
  "seval \<rho> (transform f e) = seval (\<rho> \<circ> f) e" "sall \<rho> (map (transform f) es) = sall (\<rho> \<circ> f) es"
  "sany \<rho> (map (transform f) es) = sany (\<rho> \<circ> f) es"
  by (induction "\<rho> \<circ> f" e and "\<rho> \<circ> f" es and "\<rho> \<circ> f" es rule: seval_sall_sany.induct)
    (auto intro!: Option.bind_cong)

text \<open>The values of the two entry points.\<close>

definition default_42 :: "('r \<Rightarrow> SVal option) \<Rightarrow> 'r \<Rightarrow> SVal" where
  "default_42 m r = (case m r of None \<Rightarrow> 42 | Some v \<Rightarrow> v)"

lemma evaluate_map_value:
  assumes "\<not> ev_bruteForce ev"
  shows "map_option fst (evaluate_map ev e m) = seval (default_42 m) e"
proof -
  have "ev_lookup (ev\<lparr>ev_map := Some m\<rparr>) = default_42 m"
    using assms by (auto simp: ev_lookup_def getMappingFor_def hasKnownMapping_def default_42_def fun_eq_iff split: option.splits)
  then show ?thesis
    using visit_value(1) [of e "ev\<lparr>ev_map := Some m\<rparr>"]
    by (cases "visitE e (ev\<lparr>ev_map := Some m\<rparr>)") (auto simp: evaluate_map_def)
qed

lemma evaluate_map_new: "map_option fst (evaluate_map SExprEvaluator_new e m) = seval (default_42 m) e"
  by (rule evaluate_map_value) (simp add: SExprEvaluator_new_def)

lemma evaluate_bf_value: "map_option fst (evaluate_bf ev e v) = seval (\<lambda>_. v) e"
proof -
  let ?ev = "ev\<lparr>ev_bruteForce := True, ev_val := v, ev_unknown := VSet_empty, ev_map := None\<rparr>"
  have "ev_lookup ?ev = (\<lambda>_. v)" by (simp add: ev_lookup_def fun_eq_iff)
  then show ?thesis
    using visit_value(1) [of e ?ev] by (cases "visitE e ?ev") (auto simp: evaluate_bf_def)
qed

text \<open>As long as no unknown register is seen, more mappings change nothing.\<close>

lemma insert_not_empty: "fst (VSet_insert s x) \<noteq> []"
  by (cases "s = []") (simp_all add: VSet_insert_def Let_def lower_bound_def)

lemma extends_known: "ev_extends a b \<Longrightarrow> ev_unknown b = [] \<Longrightarrow> ev_unknown a = []"
  by (simp add: ev_extends_def)

lemma visit_known:
  assumes "m \<subseteq>\<^sub>m m'"
  shows "visitE e ev = Some (v, ev') \<Longrightarrow> ev_unknown ev' = [] \<Longrightarrow> \<not> ev_bruteForce ev \<Longrightarrow> ev_map ev = Some m \<Longrightarrow>
      visitE e (ev\<lparr>ev_map := Some m'\<rparr>) = Some (v, ev'\<lparr>ev_map := Some m'\<rparr>)"
    and "visitAllOf es ev = Some (b, ev') \<Longrightarrow> ev_unknown ev' = [] \<Longrightarrow> \<not> ev_bruteForce ev \<Longrightarrow> ev_map ev = Some m \<Longrightarrow>
      visitAllOf es (ev\<lparr>ev_map := Some m'\<rparr>) = Some (b, ev'\<lparr>ev_map := Some m'\<rparr>)"
    and "visitAnyOf es ev = Some (b, ev') \<Longrightarrow> ev_unknown ev' = [] \<Longrightarrow> \<not> ev_bruteForce ev \<Longrightarrow> ev_map ev = Some m \<Longrightarrow>
      visitAnyOf es (ev\<lparr>ev_map := Some m'\<rparr>) = Some (b, ev'\<lparr>ev_map := Some m'\<rparr>)"
proof (induction e ev and es ev and es ev arbitrary: v ev' and b ev' and b ev'
    rule: visitE_visitAllOf_visitAnyOf.induct)
  case (2 w r n ev)
  then have "hasKnownMapping ev r" using insert_not_empty [of "ev_unknown ev" r] by (auto simp: Let_def split: if_splits)
  then obtain x where "m r = Some x" using 2 by (auto simp: hasKnownMapping_def)
  then have "m' r = Some x" using assms by (auto simp: map_le_def dom_def)
  then show ?case using 2 \<open>m r = Some x\<close> by (auto simp: hasKnownMapping_def getMappingFor_def)
next
  case (3 w c t f ev)
  then obtain a ev1 where a: "visitE c ev = Some (a, ev1)" "(if SVal_getBool a then visitE t ev1 else visitE f ev1) = Some (v, ev')"
    by (auto split: bind_splits)
  have x: "ev_extends ev ev1" "ev_extends ev1 ev'" using a visit_extends(1) by (auto split: if_splits)
  then have "ev_unknown ev1 = []" using extends_known 3 by blast
  then show ?case using 3 a x by (auto simp: ev_extends_def)
next
  case (8 k w l r ev)
  then obtain a ev1 b where a: "visitE l ev = Some (a, ev1)" "visitE r ev1 = Some (b, ev')" "visitArith k a b = Some v"
    by (auto split: bind_splits)
  have x: "ev_extends ev ev1" "ev_extends ev1 ev'" using a visit_extends(1) by blast+
  then have "ev_unknown ev1 = []" using extends_known 8 by blast
  then show ?case using 8(1) [OF a(1)] 8(2) [OF a(1) refl a(2)] 8(4-) a x by (simp add: ev_extends_def)
next
  case (9 k l r ev)
  then obtain a ev1 b where a: "visitE l ev = Some (a, ev1)" "visitE r ev1 = Some (b, ev')"
      "v = (if visitCmp k a b then 1 else 0)"
    by (auto split: bind_splits)
  have x: "ev_extends ev ev1" "ev_extends ev1 ev'" using a visit_extends(1) by blast+
  then have "ev_unknown ev1 = []" using extends_known 9 by blast
  then show ?case using 9(1) [OF a(1)] 9(2) [OF a(1) refl a(2)] 9(4-) a x by (simp add: ev_extends_def)
next
  case (11 e es ev)
  then obtain a ev1 where a: "visitE e ev = Some (a, ev1)" "(if SVal_getBool a then visitAllOf es ev1 else Some (False, ev1)) = Some (b, ev')"
    by (auto split: bind_splits)
  have x: "ev_extends ev ev1" "ev_extends ev1 ev'" using a visit_extends(1,2) by (auto split: if_splits)
  then have "ev_unknown ev1 = []" using extends_known 11 by blast
  then show ?case using 11 a x by (auto simp: ev_extends_def split: if_splits)
next
  case (13 e es ev)
  then obtain a ev1 where a: "visitE e ev = Some (a, ev1)" "(if SVal_getBool a then Some (True, ev1) else visitAnyOf es ev1) = Some (b, ev')"
    by (auto split: bind_splits)
  have x: "ev_extends ev ev1" "ev_extends ev1 ev'" using a visit_extends(1,3) by (auto split: if_splits)
  then have "ev_unknown ev1 = []" using extends_known 13 by blast
  then show ?case using 13 a x by (auto simp: ev_extends_def split: if_splits)
qed (auto split: bind_splits)

section \<open>Properties\<close>

text \<open>
  Substituting an expression for a register and evaluating gives the value of the original
  expression when the register has the value of the substituted one, in every mapping of the others.
\<close>

theorem substitute_evaluates:
  assumes "map_option fst (evaluate_map SExprEvaluator_new r m) = Some v"
  shows "map_option fst (evaluate_map SExprEvaluator_new (substitute e reg r) m) =
     map_option fst (evaluate_map SExprEvaluator_new e (m(reg \<mapsto> v)))"
proof -
  have "seval (default_42 m) r = Some v"
    using assms evaluate_map_new [of r m] by simp
  then have "seval (default_42 m) (substitute e reg r) = seval (default_42 (m(reg \<mapsto> v))) e"
    unfolding substitute_def
    by (subst seval_subst(1) [where \<rho>' = "default_42 (m(reg \<mapsto> v))"]) (auto simp: seval_clone default_42_def)
  then show ?thesis by (simp only: evaluate_map_new)
qed

theorem substitute_evaluates_witness:
  "map_option fst (evaluate_map SExprEvaluator_new
     (substitute (ArithExpr AddK 64 (RegisterExpr 64 (1::nat) []) (ConcreteExpr 64 3)) 1 (RegisterExpr 64 2 []))
     [2 \<mapsto> 4]) = Some 7"
proof -
  have "map_option fst (evaluate_map SExprEvaluator_new (RegisterExpr 64 (2::nat) []) [2 \<mapsto> 4]) = Some 4"
    by code_simp
  from substitute_evaluates [OF this, of "ArithExpr AddK 64 (RegisterExpr 64 (1::nat) []) (ConcreteExpr 64 3)" 1]
  show ?thesis unfolding evaluate_map_new by (simp add: default_42_def)
qed

text \<open>
  C35. The annotation of a load is evaluated as it is meant to be: renaming the registers of an
  expression, replacing those with known values and evaluating with the value read for every
  remaining one gives the value of the original expression in the combined mapping.
\<close>

theorem annotation_evaluates:
  "map_option fst (evaluate_bf ev (concretize (transform f e) rMap) v) =
   map_option fst (evaluate_map SExprEvaluator_new e (\<lambda>r. Some (case rMap (f r) of None \<Rightarrow> v | Some (x, _) \<Rightarrow> x)))"
proof -
  let ?\<rho> = "\<lambda>r. case rMap r of None \<Rightarrow> v | Some (x, _) \<Rightarrow> x"
  have "seval (\<lambda>_. v) (concretize (transform f e) rMap) = seval ?\<rho> (transform f e)"
    unfolding concretize_def
    by (subst seval_subst(1) [where \<rho>' = ?\<rho>]) (auto simp: seval_clone split: option.splits)
  also have "\<dots> = seval (default_42 (\<lambda>r. Some (?\<rho> (f r)))) e"
    by (simp add: seval_transform comp_def default_42_def [abs_def])
  finally show ?thesis by (simp only: evaluate_bf_value evaluate_map_new)
qed

text \<open>
  When evaluation under a partial mapping meets no unknown register, its value does not depend
  on the registers without a mapping: it is the same under every larger mapping. This is what the
  transformations rely on that fold conditions whose count of unknown registers is zero.
\<close>

theorem evaluate_known_stable:
  assumes "evaluate_map SExprEvaluator_new e m = Some (v, 0, ev)" "m \<subseteq>\<^sub>m m'"
  shows "\<exists>ev'. evaluate_map SExprEvaluator_new e m' = Some (v, 0, ev')"
proof -
  let ?new = "SExprEvaluator_new\<lparr>ev_map := Some m\<rparr>"
  have "visitE e ?new = Some (v, ev)" "ev_unknown ev = []"
    using assms(1) by (auto simp: evaluate_map_def split: bind_splits)
  then have "visitE e (?new\<lparr>ev_map := Some m'\<rparr>) = Some (v, ev\<lparr>ev_map := Some m'\<rparr>)"
    by (intro visit_known(1) [OF assms(2)]) (simp_all add: SExprEvaluator_new_def)
  then show ?thesis using \<open>ev_unknown ev = []\<close> by (simp add: evaluate_map_def)
qed

theorem evaluate_known_stable_witness:
  "\<exists>ev'. evaluate_map SExprEvaluator_new
     (ConjunctionExpr [RegisterExpr 1 (1::nat) [], RegisterExpr 1 2 []]) [1 \<mapsto> 0, 2 \<mapsto> 5] = Some (0, 0, ev')"
proof -
  have "evaluate_map SExprEvaluator_new (ConjunctionExpr [RegisterExpr 1 (1::nat) [], RegisterExpr 1 2 []]) [1 \<mapsto> 0] =
      Some (0, 0, SExprEvaluator_new\<lparr>ev_map := Some [1 \<mapsto> 0]\<rparr>)"
    by (simp add: evaluate_map_def SExprEvaluator_new_def hasKnownMapping_def getMappingFor_def SVal_getBool_def VSet_empty_def)
  then show ?thesis by (rule evaluate_known_stable) (simp add: map_le_def)
qed

text \<open>
  A negation evaluates to false whatever its operand is, and a remainder to the quotient: the
  visitors negate a pointer and call the division operator.
\<close>

theorem evaluate_negation_false:
  "map_option fst (evaluate_bf ev (NotExpr e) v) = Some 0 \<and>
   map_option fst (evaluate_bf ev (ArithExpr URemK w a b) v) = map_option fst (evaluate_bf ev (ArithExpr UDivK w a b) v) \<and>
   map_option fst (evaluate_bf ev (ArithExpr SRemK w a b) v) = map_option fst (evaluate_bf ev (ArithExpr UDivK w a b) v)"
proof -
  have "visitArith URemK = visitArith UDivK" "visitArith SRemK = visitArith UDivK" by (intro ext, simp)+
  then show ?thesis unfolding evaluate_bf_value seval.simps by simp
qed

end
