(* ===== verification/Labels.thy ===== *)
theory Labels
  imports MemValues Views LabelKinds SExprs
begin

text \<open>
  Labels of an execution graph (src/src/EventLabel.hpp, with src/src/EventAttr.hpp,
  src/src/ThreadInfo.hpp and src/src/DepInfo.hpp). The class hierarchy is one record here: the
  fields of EventLabel followed by those of its subclasses, in the order of the file, and the kind
  says which fields an object of that class has; a constructor leaves the others at fixed values
  no operation reads. A pointer to a label of the same graph (an rf edge, a reader, the allocation
  of an access) is the position of that label, since a label is owned by the graph at its
  position. The constructors of reads leave the annotation null; setAnnot sets it.
\<close>

section \<open>Attributes and small records\<close>

datatype AtomicOrdering = NotAtomic | Unordered | Monotonic | Acquire | Release | AcquireRelease
  | SequentiallyConsistent

type_synonym WriteAttr = "32 word"

definition WA_None :: WriteAttr where "WA_None = 0"
definition WA_Local :: WriteAttr where "WA_Local = 1"
definition WA_Final :: WriteAttr where "WA_Final = 2"
definition WA_RevBlocker :: WriteAttr where "WA_RevBlocker = 4"
definition WA_WWRacy :: WriteAttr where "WA_WWRacy = 8"

text \<open>The RMW operators of the instruction set (llvm::AtomicRMWInst::BinOp) that the labels store.\<close>

datatype BinOp = Op_Xchg | Op_Add | Op_Sub | Op_And | Op_Nand | Op_Or | Op_Xor | Op_Max | Op_Min
  | Op_UMax | Op_UMin

datatype SmpFenceType = MB | WMB | RMB | MBBA | MBAA | MBAS | MBAUL

primrec smp_idx :: "SmpFenceType \<Rightarrow> nat" where
  "smp_idx MB = 0" | "smp_idx WMB = 1" | "smp_idx RMB = 2" | "smp_idx MBBA = 3"
| "smp_idx MBAA = 4" | "smp_idx MBAS = 5" | "smp_idx MBAUL = 6"

definition isCumul :: "SmpFenceType \<Rightarrow> bool" where
  "isCumul t = (smp_idx t \<le> smp_idx WMB \<or> smp_idx t \<ge> smp_idx MBBA)"

definition isStrong :: "SmpFenceType \<Rightarrow> bool" where
  "isStrong t = (t = MB \<or> smp_idx t \<ge> smp_idx MBBA)"

record ThreadInfo =
  ti_id :: int
  ti_parentId :: int
  ti_funId :: "32 word"
  ti_arg :: SVal
  ti_symmId :: int

definition ThreadInfo_default :: ThreadInfo where
  "ThreadInfo_default = \<lparr>ti_id = 0, ti_parentId = 0, ti_funId = 0, ti_arg = 0, ti_symmId = -1\<rparr>"

record EventDeps =
  addr_dep :: "Event VSet"
  data_dep :: "Event VSet"
  ctrl_dep :: "Event VSet"
  addrPo_dep :: "Event VSet"
  cas_dep :: "Event VSet"

definition EventDeps_empty :: EventDeps where
  "EventDeps_empty = \<lparr>addr_dep = VSet_empty, data_dep = VSet_empty, ctrl_dep = VSet_empty,
     addrPo_dep = VSet_empty, cas_dep = VSet_empty\<rparr>"

datatype StorageDuration = SD_Static | SD_Automatic | SD_Heap | SD_StorageLast
datatype StorageType = ST_Volatile | ST_Durable | ST_StorageLast
datatype AddressSpace = AS_User | AS_Internal

record MallocInfo =
  allocSize :: "32 word"
  mi_alignment :: "32 word"
  mi_sdur :: StorageDuration
  mi_stype :: StorageType
  mi_spc :: AddressSpace
  mi_name :: string

definition MallocInfo_default :: MallocInfo where
  "MallocInfo_default = \<lparr>allocSize = 0, mi_alignment = 0, mi_sdur = SD_Heap, mi_stype = ST_Volatile,
     mi_spc = AS_User, mi_name = []\<rparr>"

text \<open>What the disk labels carry: mapping, ordered data range, inode, size, file name, descriptor.\<close>

record DskInfo =
  dsk_mapping :: "64 word"
  dsk_ordDataRange :: "64 word \<times> 64 word"
  dsk_inode :: "64 word"
  dsk_size :: "32 word"
  dsk_fileName :: string
  dsk_fd :: SVal

definition DskInfo_default :: DskInfo where
  "DskInfo_default = \<lparr>dsk_mapping = 0, dsk_ordDataRange = (0, 0), dsk_inode = 0, dsk_size = 0,
     dsk_fileName = [], dsk_fd = 0\<rparr>"

section \<open>The label record\<close>

record EventLabel =
  kind :: EventLabelKind
  position :: Event
  ordering :: AtomicOrdering
  deps :: EventDeps
  stamp :: "Stamp option"
  prefixView :: "VectorClock option"
  calculatedRels :: "Event VSet list"
  calculatedViews :: "View list"
  revisitable :: bool
  access :: AAccess
  maximal :: bool
  allocLab :: "Event option"
  rfs :: "(Event \<times> AAccess) list"
  ipr :: bool
  annot :: "32 word SExpr option"
  binOp :: BinOp
  opValue :: SVal
  expected :: SVal
  swapValue :: SVal
  wattr :: WriteAttr
  val :: SVal
  readerList :: "Event list"
  childId :: "32 word"
  childInfo :: ThreadInfo
  parentCreate :: Event
  threadInfo :: ThreadInfo
  symmetricTid :: int
  parentJoin :: "Event option"
  retVal :: SVal
  allocAddr :: SAddr
  freeLab :: "Event option"
  accessList :: "Event list"
  mallocInfo :: MallocInfo
  freeAddr :: SAddr
  freedSize :: "32 word"
  aLab :: "Event option"
  hpAddr :: SAddr
  protAddr :: SAddr
  flushAddr :: SAddr
  smpType :: SmpFenceType
  expandable :: bool
  expanded :: bool
  pbView :: DepView
  dskInfo :: DskInfo
  initRfs :: "(SAddr \<times> Event list) list"

definition AAccess_default :: AAccess where
  "AAccess_default = \<lparr>acc_addr = 0, acc_size = 0, acc_type = Unsigned\<rparr>"

section \<open>Constructors\<close>

text \<open>The protected constructor of EventLabel, with the default member initializers.\<close>

definition EventLabel_new :: "EventLabelKind \<Rightarrow> Event \<Rightarrow> AtomicOrdering \<Rightarrow> EventDeps \<Rightarrow> EventLabel" where
  "EventLabel_new k p o' d =
     \<lparr>kind = k, position = p, ordering = o', deps = d, stamp = None, prefixView = None,
      calculatedRels = [], calculatedViews = [], revisitable = True,
      access = AAccess_default, maximal = True, allocLab = None, rfs = [], ipr = False, annot = None,
      binOp = Op_Add, opValue = 0, expected = 0, swapValue = 0, wattr = WA_None, val = 0,
      readerList = [], childId = 0, childInfo = ThreadInfo_default, parentCreate = getInit,
      threadInfo = ThreadInfo_default, symmetricTid = -1, parentJoin = None, retVal = 0,
      allocAddr = 0, freeLab = None, accessList = [], mallocInfo = MallocInfo_default,
      freeAddr = 0, freedSize = 0, aLab = None, hpAddr = 0, protAddr = 0, flushAddr = 0,
      smpType = MB, expandable = True, expanded = False, pbView = DepView_empty,
      dskInfo = DskInfo_default, initRfs = []\<rparr>"

definition EmptyLabel :: "Event \<Rightarrow> EventLabel" where
  "EmptyLabel pos = EventLabel_new EL_Empty pos NotAtomic EventDeps_empty"

text \<open>BlockLabel and the classes of BLOCK_PURE_SUBCLASS, given by their kind.\<close>

definition BlockLabel :: "EventLabelKind \<Rightarrow> Event \<Rightarrow> EventLabel" where
  "BlockLabel k pos = EventLabel_new k pos NotAtomic EventDeps_empty"

definition JoinBlockLabel :: "Event \<Rightarrow> 32 word \<Rightarrow> EventLabel" where
  "JoinBlockLabel pos c = (BlockLabel EL_JoinBlock pos)\<lparr>childId := c\<rparr>"

definition ReadOptBlockLabel :: "Event \<Rightarrow> SAddr \<Rightarrow> EventLabel" where
  "ReadOptBlockLabel pos a = (BlockLabel EL_ReadOptBlock pos)\<lparr>flushAddr := a\<rparr>"

definition OptionalLabel :: "Event \<Rightarrow> EventDeps \<Rightarrow> EventLabel" where
  "OptionalLabel pos d = EventLabel_new EL_Optional pos NotAtomic d"

definition LoopBeginLabel :: "Event \<Rightarrow> EventDeps \<Rightarrow> EventLabel" where
  "LoopBeginLabel pos d = EventLabel_new EL_LoopBegin pos NotAtomic d"

definition SpinStartLabel :: "Event \<Rightarrow> EventDeps \<Rightarrow> EventLabel" where
  "SpinStartLabel pos d = EventLabel_new EL_SpinStart pos NotAtomic d"

definition FaiZNESpinEndLabel :: "Event \<Rightarrow> EventDeps \<Rightarrow> EventLabel" where
  "FaiZNESpinEndLabel pos d = EventLabel_new EL_FaiZNESpinEnd pos NotAtomic d"

definition LockZNESpinEndLabel :: "Event \<Rightarrow> EventDeps \<Rightarrow> EventLabel" where
  "LockZNESpinEndLabel pos d = EventLabel_new EL_LockZNESpinEnd pos NotAtomic d"

definition MemAccessLabel :: "EventLabelKind \<Rightarrow> Event \<Rightarrow> AtomicOrdering \<Rightarrow> AAccess \<Rightarrow> EventDeps \<Rightarrow>
    EventLabel" where
  "MemAccessLabel k pos o' a d = (EventLabel_new k pos o' d)\<lparr>access := a\<rparr>"

text \<open>ReadLabel and the classes of READ_PURE_SUBCLASS; the rf argument may be null.\<close>

definition ReadLabel :: "EventLabelKind \<Rightarrow> Event \<Rightarrow> AtomicOrdering \<Rightarrow> AAccess \<Rightarrow> Event option \<Rightarrow>
    EventDeps \<Rightarrow> EventLabel" where
  "ReadLabel k pos o' a rf d =
     (MemAccessLabel k pos o' a d)\<lparr>rfs := (case rf of None \<Rightarrow> [] | Some w \<Rightarrow> [(w, a)])\<rparr>"

definition BWaitReadLabel :: "Event \<Rightarrow> AtomicOrdering \<Rightarrow> AAccess \<Rightarrow> Event option \<Rightarrow> EventDeps \<Rightarrow>
    EventLabel" where
  "BWaitReadLabel pos o' a rf d = ReadLabel EL_BWaitRead pos o' a rf d"

text \<open>FaiReadLabel and FAIREAD_PURE_SUBCLASS, CasReadLabel and CASREAD_PURE_SUBCLASS.\<close>

definition FaiReadLabel :: "EventLabelKind \<Rightarrow> Event \<Rightarrow> AtomicOrdering \<Rightarrow> AAccess \<Rightarrow> BinOp \<Rightarrow> SVal \<Rightarrow>
    WriteAttr \<Rightarrow> Event option \<Rightarrow> EventDeps \<Rightarrow> EventLabel" where
  "FaiReadLabel k pos o' a op v wa rf d =
     (ReadLabel k pos o' a rf d)\<lparr>binOp := op, opValue := v, wattr := wa\<rparr>"

definition CasReadLabel :: "EventLabelKind \<Rightarrow> Event \<Rightarrow> AtomicOrdering \<Rightarrow> AAccess \<Rightarrow> SVal \<Rightarrow> SVal \<Rightarrow>
    WriteAttr \<Rightarrow> Event option \<Rightarrow> EventDeps \<Rightarrow> EventLabel" where
  "CasReadLabel k pos o' a ex sw wa rf d =
     (ReadLabel k pos o' a rf d)\<lparr>expected := ex, swapValue := sw, wattr := wa\<rparr>"

definition LockCasReadLabel :: "Event \<Rightarrow> SAddr \<Rightarrow> ASize \<Rightarrow> WriteAttr \<Rightarrow> Event option \<Rightarrow> EventDeps \<Rightarrow>
    EventLabel" where
  "LockCasReadLabel pos a s wa rf d =
     CasReadLabel EL_LockCasRead pos Acquire \<lparr>acc_addr = a, acc_size = s, acc_type = Signed\<rparr> 0 1 wa rf d"

definition TrylockCasReadLabel :: "Event \<Rightarrow> SAddr \<Rightarrow> ASize \<Rightarrow> WriteAttr \<Rightarrow> Event option \<Rightarrow> EventDeps \<Rightarrow>
    EventLabel" where
  "TrylockCasReadLabel pos a s wa rf d =
     CasReadLabel EL_TrylockCasRead pos Acquire \<lparr>acc_addr = a, acc_size = s, acc_type = Signed\<rparr> 0 1 wa rf d"

definition DskReadLabel :: "Event \<Rightarrow> AAccess \<Rightarrow> Event option \<Rightarrow> EventDeps \<Rightarrow> EventLabel" where
  "DskReadLabel pos a rf d = ReadLabel EL_DskRead pos Acquire a rf d"

definition WriteLabel :: "EventLabelKind \<Rightarrow> Event \<Rightarrow> AtomicOrdering \<Rightarrow> AAccess \<Rightarrow> SVal \<Rightarrow> WriteAttr \<Rightarrow>
    EventDeps \<Rightarrow> EventLabel" where
  "WriteLabel k pos o' a v wa d = (MemAccessLabel k pos o' a d)\<lparr>val := v, wattr := wa\<rparr>"

definition UnlockWriteLabel :: "Event \<Rightarrow> SAddr \<Rightarrow> ASize \<Rightarrow> EventDeps \<Rightarrow> EventLabel" where
  "UnlockWriteLabel pos a s d =
     WriteLabel EL_UnlockWrite pos Release \<lparr>acc_addr = a, acc_size = s, acc_type = Signed\<rparr> 0 WA_None d"

definition BInitWriteLabel :: "Event \<Rightarrow> AtomicOrdering \<Rightarrow> AAccess \<Rightarrow> SVal \<Rightarrow> EventDeps \<Rightarrow> EventLabel" where
  "BInitWriteLabel pos o' a v d = WriteLabel EL_BInitWrite pos o' a v WA_None d"

definition BDestroyWriteLabel :: "Event \<Rightarrow> AtomicOrdering \<Rightarrow> AAccess \<Rightarrow> SVal \<Rightarrow> EventDeps \<Rightarrow> EventLabel" where
  "BDestroyWriteLabel pos o' a v d = WriteLabel EL_BDestroyWrite pos o' a v WA_None d"

definition FaiWriteLabel :: "Event \<Rightarrow> AtomicOrdering \<Rightarrow> AAccess \<Rightarrow> SVal \<Rightarrow> WriteAttr \<Rightarrow> EventDeps \<Rightarrow>
    EventLabel" where
  "FaiWriteLabel pos o' a v wa d = WriteLabel EL_FaiWrite pos o' a v wa d"

definition NoRetFaiWriteLabel :: "Event \<Rightarrow> AtomicOrdering \<Rightarrow> AAccess \<Rightarrow> SVal \<Rightarrow> WriteAttr \<Rightarrow> EventDeps \<Rightarrow>
    EventLabel" where
  "NoRetFaiWriteLabel pos o' a v wa d = WriteLabel EL_NoRetFaiWrite pos o' a v wa d"

definition BIncFaiWriteLabel :: "Event \<Rightarrow> AtomicOrdering \<Rightarrow> AAccess \<Rightarrow> SVal \<Rightarrow> WriteAttr \<Rightarrow> EventDeps \<Rightarrow>
    EventLabel" where
  "BIncFaiWriteLabel pos o' a v wa d = WriteLabel EL_BIncFaiWrite pos o' a v wa d"

text \<open>CasWriteLabel and CASWRITE_PURE_SUBCLASS.\<close>

definition CasWriteLabel :: "EventLabelKind \<Rightarrow> Event \<Rightarrow> AtomicOrdering \<Rightarrow> AAccess \<Rightarrow> SVal \<Rightarrow> WriteAttr \<Rightarrow>
    EventDeps \<Rightarrow> EventLabel" where
  "CasWriteLabel k pos o' a v wa d = WriteLabel k pos o' a v wa d"

definition LockCasWriteLabel :: "Event \<Rightarrow> AtomicOrdering \<Rightarrow> AAccess \<Rightarrow> SVal \<Rightarrow> WriteAttr \<Rightarrow> EventDeps \<Rightarrow>
    EventLabel" where
  "LockCasWriteLabel pos o' a v wa d = CasWriteLabel EL_LockCasWrite pos o' a v wa d"

text \<open>The constructor takes the attributes but passes WriteAttr::None to the base class.\<close>

definition TrylockCasWriteLabel :: "Event \<Rightarrow> AtomicOrdering \<Rightarrow> AAccess \<Rightarrow> SVal \<Rightarrow> WriteAttr \<Rightarrow> EventDeps \<Rightarrow>
    EventLabel" where
  "TrylockCasWriteLabel pos o' a v wa d = CasWriteLabel EL_TrylockCasWrite pos o' a v WA_None d"

definition DskWriteLabel :: "EventLabelKind \<Rightarrow> Event \<Rightarrow> AtomicOrdering \<Rightarrow> AAccess \<Rightarrow> SVal \<Rightarrow> 64 word \<Rightarrow>
    EventDeps \<Rightarrow> EventLabel" where
  "DskWriteLabel k pos o' a v m d =
     (WriteLabel k pos o' a v WA_None d)\<lparr>dskInfo := DskInfo_default\<lparr>dsk_mapping := m\<rparr>\<rparr>"

definition DskMdWriteLabel :: "Event \<Rightarrow> AtomicOrdering \<Rightarrow> AAccess \<Rightarrow> SVal \<Rightarrow> 64 word \<Rightarrow>
    64 word \<times> 64 word \<Rightarrow> EventDeps \<Rightarrow> EventLabel" where
  "DskMdWriteLabel pos o' a v m r d =
     (DskWriteLabel EL_DskMdWrite pos o' a v m d)
       \<lparr>dskInfo := DskInfo_default\<lparr>dsk_mapping := m, dsk_ordDataRange := r\<rparr>\<rparr>"

definition DskDirWriteLabel :: "Event \<Rightarrow> AtomicOrdering \<Rightarrow> AAccess \<Rightarrow> SVal \<Rightarrow> 64 word \<Rightarrow> EventDeps \<Rightarrow>
    EventLabel" where
  "DskDirWriteLabel pos o' a v m d = DskWriteLabel EL_DskDirWrite pos o' a v m d"

definition DskJnlWriteLabel :: "Event \<Rightarrow> AtomicOrdering \<Rightarrow> AAccess \<Rightarrow> SVal \<Rightarrow> 64 word \<Rightarrow> 64 word \<Rightarrow>
    EventDeps \<Rightarrow> EventLabel" where
  "DskJnlWriteLabel pos o' a v m i d =
     (DskWriteLabel EL_DskJnlWrite pos o' a v m d)
       \<lparr>dskInfo := DskInfo_default\<lparr>dsk_mapping := m, dsk_inode := i\<rparr>\<rparr>"

definition FenceLabel :: "EventLabelKind \<Rightarrow> Event \<Rightarrow> AtomicOrdering \<Rightarrow> EventDeps \<Rightarrow> EventLabel" where
  "FenceLabel k pos o' d = EventLabel_new k pos o' d"

definition DskFsyncLabel :: "Event \<Rightarrow> AtomicOrdering \<Rightarrow> 64 word \<Rightarrow> 32 word \<Rightarrow> EventDeps \<Rightarrow> EventLabel" where
  "DskFsyncLabel pos o' i s d =
     (FenceLabel EL_DskFsync pos o' d)\<lparr>dskInfo := DskInfo_default\<lparr>dsk_inode := i, dsk_size := s\<rparr>\<rparr>"

definition DskSyncLabel :: "Event \<Rightarrow> AtomicOrdering \<Rightarrow> EventDeps \<Rightarrow> EventLabel" where
  "DskSyncLabel pos o' d = FenceLabel EL_DskSync pos o' d"

definition DskPbarrierLabel :: "Event \<Rightarrow> AtomicOrdering \<Rightarrow> EventDeps \<Rightarrow> EventLabel" where
  "DskPbarrierLabel pos o' d = FenceLabel EL_DskPbarrier pos o' d"

text \<open>The ordering argument of an LKMM fence is ignored: the fence type determines it.\<close>

definition SmpFenceLabelLKMM :: "Event \<Rightarrow> AtomicOrdering \<Rightarrow> SmpFenceType \<Rightarrow> EventDeps \<Rightarrow> EventLabel" where
  "SmpFenceLabelLKMM pos o' t d =
     (FenceLabel EL_SmpFenceLKMM pos (if isStrong t then SequentiallyConsistent else Monotonic) d)
       \<lparr>smpType := t\<rparr>"

definition RCUSyncLabelLKMM :: "Event \<Rightarrow> EventDeps \<Rightarrow> EventLabel" where
  "RCUSyncLabelLKMM pos d = FenceLabel EL_RCUSyncLKMM pos SequentiallyConsistent d"

definition ThreadCreateLabel :: "Event \<Rightarrow> AtomicOrdering \<Rightarrow> ThreadInfo \<Rightarrow> EventDeps \<Rightarrow> EventLabel" where
  "ThreadCreateLabel pos o' ci d = (EventLabel_new EL_ThreadCreate pos o' d)\<lparr>childInfo := ci\<rparr>"

definition ThreadJoinLabel :: "Event \<Rightarrow> AtomicOrdering \<Rightarrow> 32 word \<Rightarrow> EventDeps \<Rightarrow> EventLabel" where
  "ThreadJoinLabel pos o' c d = (EventLabel_new EL_ThreadJoin pos o' d)\<lparr>childId := c\<rparr>"

definition ThreadKillLabel :: "Event \<Rightarrow> EventDeps \<Rightarrow> EventLabel" where
  "ThreadKillLabel pos d = EventLabel_new EL_ThreadKill pos NotAtomic d"

definition ThreadStartLabel :: "Event \<Rightarrow> AtomicOrdering \<Rightarrow> Event \<Rightarrow> ThreadInfo \<Rightarrow> int \<Rightarrow> EventLabel" where
  "ThreadStartLabel pos o' pc ti symm =
     (EventLabel_new EL_ThreadStart pos o' EventDeps_empty)
       \<lparr>parentCreate := pc, threadInfo := ti, symmetricTid := symm\<rparr>"

definition ThreadFinishLabel :: "Event \<Rightarrow> AtomicOrdering \<Rightarrow> SVal \<Rightarrow> EventLabel" where
  "ThreadFinishLabel pos o' v =
     (EventLabel_new EL_ThreadFinish pos o' EventDeps_empty)\<lparr>retVal := v\<rparr>"

definition MallocLabel :: "Event \<Rightarrow> AtomicOrdering \<Rightarrow> SAddr \<Rightarrow> MallocInfo \<Rightarrow> EventDeps \<Rightarrow> EventLabel" where
  "MallocLabel pos o' a mi d = (EventLabel_new EL_Malloc pos o' d)\<lparr>allocAddr := a, mallocInfo := mi\<rparr>"

text \<open>FreeLabel, and HpRetireLabel by its kind.\<close>

definition FreeLabel :: "EventLabelKind \<Rightarrow> Event \<Rightarrow> AtomicOrdering \<Rightarrow> SAddr \<Rightarrow> 32 word \<Rightarrow> EventDeps \<Rightarrow>
    EventLabel" where
  "FreeLabel k pos o' a s d = (EventLabel_new k pos o' d)\<lparr>freeAddr := a, freedSize := s\<rparr>"

definition HpRetireLabel :: "Event \<Rightarrow> AtomicOrdering \<Rightarrow> SAddr \<Rightarrow> 32 word \<Rightarrow> EventDeps \<Rightarrow> EventLabel" where
  "HpRetireLabel pos o' a s d = FreeLabel EL_HpRetire pos o' a s d"

definition HpProtectLabel :: "Event \<Rightarrow> AtomicOrdering \<Rightarrow> SAddr \<Rightarrow> SAddr \<Rightarrow> EventDeps \<Rightarrow> EventLabel" where
  "HpProtectLabel pos o' hp pr d = (EventLabel_new EL_HpProtect pos o' d)\<lparr>hpAddr := hp, protAddr := pr\<rparr>"

definition LockLabelLAPOR :: "Event \<Rightarrow> AtomicOrdering \<Rightarrow> SAddr \<Rightarrow> EventDeps \<Rightarrow> EventLabel" where
  "LockLabelLAPOR pos o' a d = (EventLabel_new EL_LockLAPOR pos o' d)\<lparr>flushAddr := a\<rparr>"

definition UnlockLabelLAPOR :: "Event \<Rightarrow> AtomicOrdering \<Rightarrow> SAddr \<Rightarrow> EventDeps \<Rightarrow> EventLabel" where
  "UnlockLabelLAPOR pos o' a d = (EventLabel_new EL_UnlockLAPOR pos o' d)\<lparr>flushAddr := a\<rparr>"

definition HelpingCasLabel :: "Event \<Rightarrow> AtomicOrdering \<Rightarrow> AAccess \<Rightarrow> SVal \<Rightarrow> SVal \<Rightarrow> EventDeps \<Rightarrow>
    EventLabel" where
  "HelpingCasLabel pos o' a ex sw d =
     (EventLabel_new EL_HelpingCas pos o' d)\<lparr>access := a, expected := ex, swapValue := sw\<rparr>"

definition DskOpenLabel :: "Event \<Rightarrow> AtomicOrdering \<Rightarrow> string \<Rightarrow> SVal \<Rightarrow> EventDeps \<Rightarrow> EventLabel" where
  "DskOpenLabel pos o' f fd d =
     (EventLabel_new EL_DskOpen pos o' d)\<lparr>dskInfo := DskInfo_default\<lparr>dsk_fileName := f, dsk_fd := fd\<rparr>\<rparr>"

definition RCULockLabelLKMM :: "Event \<Rightarrow> EventDeps \<Rightarrow> EventLabel" where
  "RCULockLabelLKMM pos d = EventLabel_new EL_RCULockLKMM pos Acquire d"

definition RCUUnlockLabelLKMM :: "Event \<Rightarrow> EventDeps \<Rightarrow> EventLabel" where
  "RCUUnlockLabelLKMM pos d = EventLabel_new EL_RCUUnlockLKMM pos Release d"

definition CLFlushLabel :: "Event \<Rightarrow> AtomicOrdering \<Rightarrow> SAddr \<Rightarrow> EventDeps \<Rightarrow> EventLabel" where
  "CLFlushLabel pos o' a d = (EventLabel_new EL_CLFlush pos o' d)\<lparr>flushAddr := a\<rparr>"

definition InitLabel :: EventLabel where
  "InitLabel = (EventLabel_new EL_Init getInit Acquire EventDeps_empty)\<lparr>parentCreate := getInit\<rparr>"

section \<open>Queries\<close>

definition getThread :: "EventLabel \<Rightarrow> int" where "getThread lab = thread (position lab)"
definition getIndex :: "EventLabel \<Rightarrow> int" where "getIndex lab = index (position lab)"

definition hasStamp :: "EventLabel \<Rightarrow> bool" where "hasStamp lab = (stamp lab \<noteq> None)"

text \<open>Reading an unset stamp is undefined behaviour: None.\<close>

definition getStamp :: "EventLabel \<Rightarrow> Stamp option" where "getStamp lab = stamp lab"

definition setStamp :: "Stamp \<Rightarrow> EventLabel \<Rightarrow> EventLabel" where
  "setStamp s lab = lab\<lparr>stamp := Some s\<rparr>"

text \<open>
  The calculated views: INIT and empty labels have a single one. Reading past the vector is
  undefined in C++; it is the empty view here.
\<close>

definition label_view :: "EventLabel \<Rightarrow> nat \<Rightarrow> View" where
  "label_view lab i =
     (let j = if isInitializer (position lab) \<or> kind lab = EL_Empty then 0 else i
      in if j < length (calculatedViews lab) then calculatedViews lab ! j else View_empty)"

definition isNotAtomic :: "EventLabel \<Rightarrow> bool" where
  "isNotAtomic lab = (ordering lab = NotAtomic)"
definition isAtLeastAcquire :: "EventLabel \<Rightarrow> bool" where
  "isAtLeastAcquire lab = (ordering lab = Acquire \<or> ordering lab = AcquireRelease \<or>
     ordering lab = SequentiallyConsistent)"
definition isAtMostAcquire :: "EventLabel \<Rightarrow> bool" where
  "isAtMostAcquire lab = (ordering lab = NotAtomic \<or> ordering lab = Monotonic \<or> ordering lab = Acquire)"
definition isAtLeastRelease :: "EventLabel \<Rightarrow> bool" where
  "isAtLeastRelease lab = (ordering lab = Release \<or> ordering lab = AcquireRelease \<or>
     ordering lab = SequentiallyConsistent)"
definition isAtMostRelease :: "EventLabel \<Rightarrow> bool" where
  "isAtMostRelease lab = (ordering lab = NotAtomic \<or> ordering lab = Monotonic \<or> ordering lab = Release)"
definition isSC :: "EventLabel \<Rightarrow> bool" where
  "isSC lab = (ordering lab = SequentiallyConsistent)"

definition setRevisitStatus :: "bool \<Rightarrow> EventLabel \<Rightarrow> EventLabel" where
  "setRevisitStatus b lab = lab\<lparr>revisitable := b\<rparr>"

definition setAddedMax :: "bool \<Rightarrow> EventLabel \<Rightarrow> EventLabel" where
  "setAddedMax b lab = lab\<lparr>maximal := b\<rparr>"

definition isStable :: "EventLabel \<Rightarrow> bool" where
  "isStable lab = (\<not> revisitable lab \<or> (isMemAccess (kind lab) \<and> \<not> maximal lab))"

definition getAddr :: "EventLabel \<Rightarrow> SAddr" where "getAddr lab = acc_addr (access lab)"
definition getSize :: "EventLabel \<Rightarrow> ASize" where "getSize lab = acc_size (access lab)"

definition label_overlaps :: "EventLabel \<Rightarrow> EventLabel \<Rightarrow> bool" where
  "label_overlaps l m = AAccess_overlaps (access l) (access m)"

subsection \<open>Reads\<close>

definition hasRf :: "EventLabel \<Rightarrow> bool" where "hasRf lab = (rfs lab \<noteq> [])"

definition getRf :: "EventLabel \<Rightarrow> Event option" where
  "getRf lab = (if hasRf lab then Some (fst (rfs lab ! 0)) else None)"

definition readsExt :: "EventLabel \<Rightarrow> bool" where
  "readsExt lab = (case getRf lab of None \<Rightarrow> False
     | Some w \<Rightarrow> \<not> isInitializer w \<and> thread w \<noteq> getThread lab)"

definition readsInt :: "EventLabel \<Rightarrow> bool" where
  "readsInt lab = (case getRf lab of None \<Rightarrow> False
     | Some w \<Rightarrow> isInitializer w \<or> thread w = getThread lab)"

definition setRf :: "Event option \<Rightarrow> EventLabel \<Rightarrow> EventLabel" where
  "setRf rf lab = lab\<lparr>rfs := (case rf of None \<Rightarrow> [] | Some w \<Rightarrow> [(w, access lab)])\<rparr>"

definition setIPRStatus :: "bool \<Rightarrow> EventLabel \<Rightarrow> EventLabel" where
  "setIPRStatus b lab = lab\<lparr>ipr := b\<rparr>"

definition setAnnot :: "32 word SExpr option \<Rightarrow> EventLabel \<Rightarrow> EventLabel" where
  "setAnnot a lab = lab\<lparr>annot := a\<rparr>"

definition addRf :: "Event \<Rightarrow> AAccess \<Rightarrow> EventLabel \<Rightarrow> EventLabel" where
  "addRf w a lab = lab\<lparr>rfs := rfs lab @ [(w, a)]\<rparr>"

definition removeRf :: "Event \<Rightarrow> EventLabel \<Rightarrow> EventLabel" where
  "removeRf pos lab = lab\<lparr>rfs := filter (\<lambda>p. fst p \<noteq> pos) (rfs lab)\<rparr>"

subsection \<open>Writes and attributes\<close>

definition setAttr :: "WriteAttr \<Rightarrow> EventLabel \<Rightarrow> EventLabel" where
  "setAttr a lab = lab\<lparr>wattr := wattr lab OR a\<rparr>"

definition hasAttr :: "WriteAttr \<Rightarrow> EventLabel \<Rightarrow> bool" where
  "hasAttr a lab = (wattr lab AND a \<noteq> 0)"

definition isFinal :: "EventLabel \<Rightarrow> bool" where "isFinal lab = hasAttr WA_Final lab"
definition isLocal :: "EventLabel \<Rightarrow> bool" where "isLocal lab = hasAttr WA_Local lab"

text \<open>
  getSizedValAtOffset: the value shifted down to the offset of the access and masked to its size.
  The mask is \<open>SVal(~0) >> (64 - size * 8)\<close>, with the amount computed in 32 bits.
\<close>

definition getSizedValAtOffset :: "EventLabel \<Rightarrow> AAccess \<Rightarrow> SVal option" where
  "getSizedValAtOffset lab a =
     do { BUG_ON (\<not> AAccess_contains (access lab) (acc_addr a));
          v \<leftarrow> SVal_binop Shr (val lab) (SAddr_diff (acc_addr a) (getAddr lab) * 8);
          m \<leftarrow> SVal_binop Shr (- 1) (ucast (64 - acc_size a * 8 :: 32 word));
          SVal_binop And v m }"

definition addReader :: "Event \<Rightarrow> EventLabel \<Rightarrow> EventLabel option" where
  "addReader r lab =
     do { BUG_ON (r \<in> set (readerList lab)); Some (lab\<lparr>readerList := readerList lab @ [r]\<rparr>) }"

definition removeReader :: "(Event \<Rightarrow> bool) \<Rightarrow> EventLabel \<Rightarrow> EventLabel" where
  "removeReader cond lab = lab\<lparr>readerList := filter (\<lambda>r. \<not> cond r) (readerList lab)\<rparr>"

subsection \<open>Allocations\<close>

definition malloc_contains :: "EventLabel \<Rightarrow> SAddr \<Rightarrow> bool" where
  "malloc_contains lab a =
     (allocAddr lab \<le> a \<and> a < SAddr_plus (allocAddr lab) (allocSize (mallocInfo lab)))"

definition free_contains :: "EventLabel \<Rightarrow> SAddr \<Rightarrow> bool" where
  "free_contains lab a = (freeAddr lab \<le> a \<and> a < SAddr_plus (freeAddr lab) (freedSize lab))"

definition addAccess :: "Event \<Rightarrow> EventLabel \<Rightarrow> EventLabel option" where
  "addAccess e lab =
     do { BUG_ON (e \<in> set (accessList lab)); Some (lab\<lparr>accessList := accessList lab @ [e]\<rparr>) }"

definition removeAccess :: "(Event \<Rightarrow> bool) \<Rightarrow> EventLabel \<Rightarrow> EventLabel" where
  "removeAccess cond lab = lab\<lparr>accessList := filter (\<lambda>e. \<not> cond e) (accessList lab)\<rparr>"

section \<open>Reset\<close>

text \<open>The virtual method reset() of each class, and its dispatch on the kind.\<close>

definition EventLabel_reset :: "EventLabel \<Rightarrow> EventLabel" where
  "EventLabel_reset lab = lab\<lparr>stamp := None, calculatedRels := [], calculatedViews := [],
     prefixView := None, revisitable := True\<rparr>"

definition MemAccessLabel_reset :: "EventLabel \<Rightarrow> EventLabel" where
  "MemAccessLabel_reset lab = (EventLabel_reset lab)\<lparr>maximal := True, allocLab := None\<rparr>"

definition ReadLabel_reset :: "EventLabel \<Rightarrow> EventLabel" where
  "ReadLabel_reset lab = (MemAccessLabel_reset lab)\<lparr>rfs := [], ipr := False\<rparr>"

definition clearRevBlocker :: "EventLabel \<Rightarrow> EventLabel" where
  "clearRevBlocker lab = lab\<lparr>wattr := wattr lab AND NOT WA_RevBlocker\<rparr>"

definition WriteLabel_reset :: "EventLabel \<Rightarrow> EventLabel" where
  "WriteLabel_reset lab = clearRevBlocker ((MemAccessLabel_reset lab)\<lparr>readerList := []\<rparr>)"

definition DskAccessLabel_reset :: "EventLabel \<Rightarrow> EventLabel" where
  "DskAccessLabel_reset lab = lab\<lparr>pbView := DepView_empty\<rparr>"

definition ThreadFinishLabel_reset :: "EventLabel \<Rightarrow> EventLabel" where
  "ThreadFinishLabel_reset lab = (EventLabel_reset lab)\<lparr>parentJoin := None\<rparr>"

definition MallocLabel_reset :: "EventLabel \<Rightarrow> EventLabel" where
  "MallocLabel_reset lab = (EventLabel_reset lab)\<lparr>freeLab := None, accessList := []\<rparr>"

definition FreeLabel_reset :: "EventLabel \<Rightarrow> EventLabel" where
  "FreeLabel_reset lab = (EventLabel_reset lab)\<lparr>aLab := None\<rparr>"

definition label_reset :: "EventLabel \<Rightarrow> EventLabel" where
  "label_reset lab =
     (let k = kind lab in
      if isFaiRead k \<or> isCasRead k then clearRevBlocker (ReadLabel_reset lab)
      else if k = EL_DskRead then DskAccessLabel_reset (ReadLabel_reset lab)
      else if isRead k then ReadLabel_reset lab
      else if isDskWrite k then DskAccessLabel_reset (WriteLabel_reset lab)
      else if isWrite k then WriteLabel_reset lab
      else if k = EL_DskFsync \<or> k = EL_DskSync \<or> k = EL_DskPbarrier
      then DskAccessLabel_reset (EventLabel_reset lab)
      else if k = EL_ThreadFinish then ThreadFinishLabel_reset lab
      else if k = EL_Malloc then MallocLabel_reset lab
      else if isFree k then FreeLabel_reset lab
      else EventLabel_reset lab)"

section \<open>The initial label\<close>

text \<open>
  The readers of INIT, in buckets by aligned address. Iterating over the readers of an access
  (rf_begin, rf_end) filters the bucket by overlap, so it needs the accesses of the readers.
\<close>

definition init_rf_range :: "(Event \<Rightarrow> AAccess) \<Rightarrow> EventLabel \<Rightarrow> AAccess \<Rightarrow> Event list" where
  "init_rf_range acc ini a =
     filter (\<lambda>r. AAccess_overlaps (acc r) a) (bucket (initRfs ini) (SAddr_align (acc_addr a)))"

definition init_addReader :: "(Event \<Rightarrow> AAccess) \<Rightarrow> Event \<Rightarrow> AAccess \<Rightarrow> EventLabel \<Rightarrow> EventLabel option" where
  "init_addReader acc r a ini =
     do { BUG_ON (r \<in> set (init_rf_range acc ini a));
          Some (ini\<lparr>initRfs := bucket_upd (SAddr_align (acc_addr a)) (\<lambda>rs. rs @ [r]) (initRfs ini)\<rparr>) }"

definition init_removeReader :: "SAddr \<Rightarrow> (Event \<Rightarrow> bool) \<Rightarrow> EventLabel \<Rightarrow> EventLabel" where
  "init_removeReader a cond ini =
     ini\<lparr>initRfs := bucket_upd (SAddr_align a) (filter (\<lambda>r. \<not> cond r)) (initRfs ini)\<rparr>"

section \<open>Lemmas\<close>

lemma label_reset_simps [simp]:
  "kind (label_reset lab) = kind lab" "position (label_reset lab) = position lab"
  "ordering (label_reset lab) = ordering lab" "access (label_reset lab) = access lab"
  "stamp (label_reset lab) = None" "calculatedViews (label_reset lab) = []"
  "revisitable (label_reset lab)"
  by (simp_all add: label_reset_def Let_def EventLabel_reset_def MemAccessLabel_reset_def
      ReadLabel_reset_def WriteLabel_reset_def clearRevBlocker_def DskAccessLabel_reset_def
      ThreadFinishLabel_reset_def MallocLabel_reset_def FreeLabel_reset_def)

end
