(* ===== verification/ExecGraph.thy ===== *)
theory ExecGraph
  imports Labels
begin

text \<open>
  Execution graphs (src/src/ExecutionGraph.hpp and src/src/ExecutionGraph.cpp): the threads with
  their labels, the next stamp, the coherence lists per aligned address, and the recovery thread.
  A label is identified with its position, so the pointer comparisons of the code (\<open>&oLab == rLab\<close>,
  containsLab) are comparisons of positions. The two hash maps are association lists, iterated in
  list order. A read outside the graph or an aborting BUG_ON is None.
\<close>

section \<open>State\<close>

record ExecutionGraph =
  events :: "EventLabel list list"
  timestamp :: Stamp
  coherence :: "(SAddr \<times> Event list) list"
  recoveryTID :: int

section \<open>Basic getters\<close>

definition getNumThreads :: "ExecutionGraph \<Rightarrow> nat" where
  "getNumThreads g = length (events g)"

definition getThreadSize :: "ExecutionGraph \<Rightarrow> int \<Rightarrow> nat" where
  "getThreadSize g t = (if 0 \<le> t \<and> nat t < length (events g) then length (events g ! nat t) else 0)"

definition isThreadEmpty :: "ExecutionGraph \<Rightarrow> int \<Rightarrow> bool" where
  "isThreadEmpty g t = (getThreadSize g t = 0)"

definition containsPos :: "ExecutionGraph \<Rightarrow> Event \<Rightarrow> bool" where
  "containsPos g e =
     (thread e \<ge> 0 \<and> thread e < int (getNumThreads g) \<and> index e \<ge> 0 \<and>
      index e < int (getThreadSize g (thread e)))"

definition getEventLabel :: "ExecutionGraph \<Rightarrow> Event \<Rightarrow> EventLabel option" where
  "getEventLabel g e =
     (if containsPos g e then Some (events g ! nat (thread e) ! nat (index e)) else None)"

definition label_is :: "(EventLabel \<Rightarrow> bool) \<Rightarrow> ExecutionGraph \<Rightarrow> Event \<Rightarrow> bool" where
  "label_is P g e = (case getEventLabel g e of None \<Rightarrow> False | Some l \<Rightarrow> P l)"

definition containsPosNonEmpty :: "ExecutionGraph \<Rightarrow> Event \<Rightarrow> bool" where
  "containsPosNonEmpty g e = label_is (\<lambda>l. kind l \<noteq> EL_Empty) g e"

definition getReadLabel :: "ExecutionGraph \<Rightarrow> Event \<Rightarrow> EventLabel option" where
  "getReadLabel g e = do { l \<leftarrow> getEventLabel g e; if isRead (kind l) then Some l else None }"

definition getWriteLabel :: "ExecutionGraph \<Rightarrow> Event \<Rightarrow> EventLabel option" where
  "getWriteLabel g e = do { l \<leftarrow> getEventLabel g e; if isWrite (kind l) then Some l else None }"

definition getPreviousLabel :: "ExecutionGraph \<Rightarrow> Event \<Rightarrow> EventLabel option" where
  "getPreviousLabel g e = (if index e = 0 then None else getEventLabel g (Event_prev e))"

definition getFirstThreadEvent :: "int \<Rightarrow> Event" where
  "getFirstThreadEvent t = Event t 0"

definition getLastThreadEvent :: "ExecutionGraph \<Rightarrow> int \<Rightarrow> Event" where
  "getLastThreadEvent g t = Event t (int (getThreadSize g t) - 1)"

definition getLastThreadLabel :: "ExecutionGraph \<Rightarrow> int \<Rightarrow> EventLabel option" where
  "getLastThreadLabel g t = getEventLabel g (getLastThreadEvent g t)"

definition getFirstThreadLabel :: "ExecutionGraph \<Rightarrow> int \<Rightarrow> EventLabel option" where
  "getFirstThreadLabel g t =
     do { l \<leftarrow> getEventLabel g (getFirstThreadEvent t); if isThreadStart (kind l) then Some l else None }"

definition getNextLabel :: "ExecutionGraph \<Rightarrow> Event \<Rightarrow> EventLabel option" where
  "getNextLabel g e =
     (if e = getLastThreadEvent g (thread e) then None else getEventLabel g (Event_next e))"

definition graph_labels :: "ExecutionGraph \<Rightarrow> EventLabel list" where
  "graph_labels g = concat (events g)"

definition getInitLabel :: "ExecutionGraph \<Rightarrow> EventLabel option" where
  "getInitLabel g = getEventLabel g (Event 0 0)"

definition label_access :: "ExecutionGraph \<Rightarrow> Event \<Rightarrow> AAccess" where
  "label_access g e = (case getEventLabel g e of None \<Rightarrow> AAccess_default | Some l \<Rightarrow> access l)"

text \<open>Writing through the pointer returned by getEventLabel.\<close>

definition upd_label :: "Event \<Rightarrow> (EventLabel \<Rightarrow> EventLabel) \<Rightarrow> ExecutionGraph \<Rightarrow> ExecutionGraph" where
  "upd_label e f g =
     (if containsPos g e
      then g\<lparr>events := (events g)[nat (thread e) :=
               (events g ! nat (thread e))[nat (index e) :=
                  f (events g ! nat (thread e) ! nat (index e))]]\<rparr>
      else g)"

section \<open>Searches in a thread\<close>

text \<open>
  The loops of the code that walk a thread downwards from an event, excluding position 0: the
  first position, from the top, that the body returns from.
\<close>

definition below :: "Event \<Rightarrow> Event list" where
  "below e = map (\<lambda>j. Event (thread e) j) (rev [1 .. index e - 1])"

definition getPreviousNonEmptyLabel :: "ExecutionGraph \<Rightarrow> Event \<Rightarrow> EventLabel option" where
  "getPreviousNonEmptyLabel g e =
     (case find (label_is (\<lambda>l. kind l \<noteq> EL_Empty) g) (below e) of
        Some p \<Rightarrow> getEventLabel g p
      | None \<Rightarrow> getEventLabel g (Event (thread e) 0))"

definition getLastThreadStoreAtLoc :: "ExecutionGraph \<Rightarrow> Event \<Rightarrow> SAddr \<Rightarrow> Event" where
  "getLastThreadStoreAtLoc g upperLimit a =
     (case find (label_is (\<lambda>l. isWrite (kind l) \<and> getAddr l = a) g) (below upperLimit) of
        Some p \<Rightarrow> p | None \<Rightarrow> getInit)"

definition isReleaseAt :: "SAddr \<Rightarrow> EventLabel \<Rightarrow> bool" where
  "isReleaseAt a l =
     (kind l = EL_ThreadCreate \<or> kind l = EL_ThreadFinish \<or> kind l = EL_UnlockLAPOR \<or>
      (isFence (kind l) \<and> isAtLeastRelease l) \<or>
      (isWrite (kind l) \<and> isAtLeastRelease l \<and> getAddr l = a))"

definition getLastThreadReleaseAtLoc :: "ExecutionGraph \<Rightarrow> Event \<Rightarrow> SAddr \<Rightarrow> Event" where
  "getLastThreadReleaseAtLoc g upperLimit a =
     (case find (label_is (isReleaseAt a) g) (below upperLimit) of
        Some p \<Rightarrow> p | None \<Rightarrow> Event (thread upperLimit) 0)"

text \<open>getPreviousLabelST includes position 0.\<close>

definition getPreviousLabelST :: "ExecutionGraph \<Rightarrow> Event \<Rightarrow> (EventLabel \<Rightarrow> bool) \<Rightarrow> EventLabel option" where
  "getPreviousLabelST g e cond =
     (case find (label_is cond g) (map (\<lambda>j. Event (thread e) j) (rev [0 .. index e - 1])) of
        Some p \<Rightarrow> getEventLabel g p | None \<Rightarrow> None)"

definition isLockCasWrite :: "EventLabelKind \<Rightarrow> bool" where
  "isLockCasWrite k = (k = EL_LockCasWrite \<or> k = EL_TrylockCasWrite)"

text \<open>The stack of unmatched unlocks (only its height matters) while walking towards the lock.\<close>

fun match_lock_loop :: "ExecutionGraph \<Rightarrow> SAddr \<Rightarrow> nat \<Rightarrow> Event list \<Rightarrow> Event option" where
  "match_lock_loop g a n [] = Some getInit"
| "match_lock_loop g a n (p # ps) =
     do { lab \<leftarrow> getEventLabel g p;
          let n = (if kind lab = EL_UnlockWrite \<and> getAddr lab = a then Suc n else n) in
          if isLockCasWrite (kind lab) \<and> getAddr lab = a
          then (if n = 0 then Some (Event_prev (position lab)) else match_lock_loop g a (n - 1) ps)
          else match_lock_loop g a n ps }"

definition getMatchingLock :: "ExecutionGraph \<Rightarrow> Event \<Rightarrow> Event option" where
  "getMatchingLock g unlock =
     do { uLab \<leftarrow> getEventLabel g unlock;
          BUG_ON (kind uLab \<noteq> EL_UnlockWrite);
          match_lock_loop g (getAddr uLab) 0 (below unlock) }"

fun match_unlock_loop :: "ExecutionGraph \<Rightarrow> SAddr \<Rightarrow> nat \<Rightarrow> Event list \<Rightarrow> Event option" where
  "match_unlock_loop g a n [] = Some getInit"
| "match_unlock_loop g a n (p # ps) =
     do { lab \<leftarrow> getEventLabel g p;
          let n = (if isLockCasWrite (kind lab) \<and> getAddr lab = a then Suc n else n) in
          if kind lab = EL_UnlockWrite \<and> getAddr lab = a
          then (if n = 0 then Some (position lab) else match_unlock_loop g a (n - 1) ps)
          else match_unlock_loop g a n ps }"

definition getMatchingUnlock :: "ExecutionGraph \<Rightarrow> Event \<Rightarrow> Event option" where
  "getMatchingUnlock g lock =
     do { lLab \<leftarrow> getEventLabel g lock;
          BUG_ON (kind lLab \<noteq> EL_LockCasRead \<and> kind lLab \<noteq> EL_TrylockCasRead);
          match_unlock_loop g (getAddr lLab) 0
            (map (\<lambda>j. Event (thread lock) j)
               [index lock + 2 .. int (getThreadSize g (thread lock)) - 1]) }"

text \<open>The matching speculative read, and the last SC event seen on the way (the out-parameter).\<close>

fun match_spec_loop :: "ExecutionGraph \<Rightarrow> SAddr \<Rightarrow> Event option \<Rightarrow> Event list \<Rightarrow>
    (Event \<times> Event option) option" where
  "match_spec_loop g a sc [] = Some (getInit, sc)"
| "match_spec_loop g a sc (p # ps) =
     do { lab \<leftarrow> getEventLabel g p;
          let sc = (if isSC lab then Some (position lab) else sc) in
          if kind lab = EL_SpeculativeRead \<and> getAddr lab = a then Some (position lab, sc)
          else match_spec_loop g a sc ps }"

definition getMatchingSpeculativeRead :: "ExecutionGraph \<Rightarrow> Event \<Rightarrow> (Event \<times> Event option) option" where
  "getMatchingSpeculativeRead g conf =
     do { cLab \<leftarrow> getEventLabel g conf;
          BUG_ON (\<not> isRead (kind cLab));
          match_spec_loop g (getAddr cLab) None (below conf) }"

definition getMalloc :: "ExecutionGraph \<Rightarrow> SAddr \<Rightarrow> Event" where
  "getMalloc g a =
     (case find (\<lambda>l. kind l = EL_Malloc \<and> malloc_contains l a) (graph_labels g) of
        Some l \<Rightarrow> position l | None \<Rightarrow> getInit)"

definition getMallocCounterpart :: "ExecutionGraph \<Rightarrow> EventLabel \<Rightarrow> Event" where
  "getMallocCounterpart g fLab =
     (case find (\<lambda>l. kind l = EL_Malloc \<and> allocAddr l = freeAddr fLab) (graph_labels g) of
        Some l \<Rightarrow> position l | None \<Rightarrow> getInit)"

definition collectAllEvents :: "ExecutionGraph \<Rightarrow> (EventLabel \<Rightarrow> bool) \<Rightarrow> Event list" where
  "collectAllEvents g cond =
     [Event (int i) (int j). i \<leftarrow> [0..<length (events g)], j \<leftarrow> [0..<length (events g ! i)],
        cond (events g ! i ! j)]"

section \<open>Read-modify-writes\<close>

definition isRMWStore :: "EventLabel \<Rightarrow> bool" where
  "isRMWStore l = (isFaiWrite (kind l) \<or> isCasWrite (kind l))"

definition isRMWLoad :: "ExecutionGraph \<Rightarrow> EventLabel \<Rightarrow> bool" where
  "isRMWLoad g l =
     (if \<not> isCasRead (kind l) \<and> \<not> isFaiRead (kind l) then False
      else if getIndex l = int (getThreadSize g (getThread l)) - 1 then False
      else case getEventLabel g (Event (getThread l) (getIndex l + 1)) of
        None \<Rightarrow> False
      | Some n \<Rightarrow> if \<not> isMemAccess (kind n) then False
                 else isRMWStore n \<and> getAddr n = getAddr l)"

definition isConfirming :: "EventLabel \<Rightarrow> bool" where
  "isConfirming l = (kind l = EL_ConfirmingRead \<or> kind l = EL_ConfirmingCasRead)"

text \<open>std::min_element by stamp: the first of the minimal ones. A missing stamp is None.\<close>

fun min_stamp_loop :: "ExecutionGraph \<Rightarrow> Event \<Rightarrow> Stamp \<Rightarrow> Event list \<Rightarrow> Event option" where
  "min_stamp_loop g best s [] = Some best"
| "min_stamp_loop g best s (e # es) =
     do { l \<leftarrow> getEventLabel g e; s' \<leftarrow> getStamp l;
          if s' < s then min_stamp_loop g e s' es else min_stamp_loop g best s es }"

definition getMinimumStampEvent :: "ExecutionGraph \<Rightarrow> Event list \<Rightarrow> Event option" where
  "getMinimumStampEvent g es =
     (case es of [] \<Rightarrow> Some getInit
      | e # es' \<Rightarrow> do { l \<leftarrow> getEventLabel g e; s \<leftarrow> getStamp l; min_stamp_loop g e s es' })"

definition readFromOverlaps :: "AAccess \<Rightarrow> EventLabel \<Rightarrow> Event \<Rightarrow> bool" where
  "readFromOverlaps a rLab s = (\<exists>rf\<in>set (rfs rLab). fst rf = s \<and> AAccess_overlaps a (snd rf))"

text \<open>The readers to scan for one rf edge of the load part: those of the write, or those of INIT.\<close>

definition rf_readers :: "ExecutionGraph \<Rightarrow> Event \<Rightarrow> AAccess \<Rightarrow> Event list" where
  "rf_readers g w a =
     (case getEventLabel g w of
        Some wLab \<Rightarrow> if isWrite (kind wLab) then readerList wLab
          else (case getInitLabel g of
            Some ini \<Rightarrow> init_rf_range (label_access g) ini a | None \<Rightarrow> [])
      | None \<Rightarrow> [])"

text \<open>The const lookup of the readers of INIT raises an exception when the bucket is missing.\<close>

definition init_bucket_missing :: "ExecutionGraph \<Rightarrow> Event \<times> AAccess \<Rightarrow> bool" where
  "init_bucket_missing g rf =
     (\<not> label_is (\<lambda>l. isWrite (kind l)) g (fst rf) \<and>
      (case getInitLabel g of None \<Rightarrow> True
       | Some ini \<Rightarrow> map_of (initRfs ini) (SAddr_align (acc_addr (snd rf))) = None))"

definition rf_source :: "ExecutionGraph \<Rightarrow> Event \<Rightarrow> Event" where
  "rf_source g w = (if label_is (\<lambda>l. isWrite (kind l)) g w then w else getInit)"

definition pending_at :: "ExecutionGraph \<Rightarrow> Event \<Rightarrow> Event \<times> AAccess \<Rightarrow> Event list" where
  "pending_at g p rf =
     filter (\<lambda>r. r \<noteq> p \<and>
         label_is (\<lambda>l. isRMWLoad g l \<and> readFromOverlaps (snd rf) l (rf_source g (fst rf))) g r)
       (rf_readers g (fst rf) (snd rf))"

definition getPendingRMW :: "ExecutionGraph \<Rightarrow> EventLabel \<Rightarrow> Event option" where
  "getPendingRMW g sLab =
     (if \<not> isRMWStore sLab then Some getInit
      else do { pLab \<leftarrow> getPreviousLabel g (position sLab);
                BUG_ON (\<not> isRead (kind pLab) \<or> \<not> hasRf pLab);
                BUG_ON (\<exists>rf\<in>set (rfs pLab). init_bucket_missing g rf);
                getMinimumStampEvent g (concat (map (pending_at g (position pLab)) (rfs pLab))) })"

definition violatesAtomicity :: "ExecutionGraph \<Rightarrow> EventLabel \<Rightarrow> bool option" where
  "violatesAtomicity g sLab =
     (if \<not> isRMWStore sLab then Some False
      else do { p \<leftarrow> getPendingRMW g sLab; Some (\<not> isInitializer p) })"

text \<open>The loads a store may revisit: overlapping, revisitable, added maximally, outside the view.\<close>

definition revisitable_loads :: "ExecutionGraph \<Rightarrow> EventLabel \<Rightarrow> VectorClock \<Rightarrow> Event list" where
  "revisitable_loads g sLab before =
     [Event (int i) j. i \<leftarrow> [0..<length (events g)],
        j \<leftarrow> [VectorClock_getMax before (int i) + 1 .. int (getThreadSize g (int i)) - 1],
        label_is (\<lambda>l. isRead (kind l) \<and> label_overlaps l sLab \<and> revisitable l \<and> maximal l) g
          (Event (int i) j)]"

definition stamp_greater :: "ExecutionGraph \<Rightarrow> Event \<Rightarrow> Event \<Rightarrow> bool" where
  "stamp_greater g e f =
     (case (getEventLabel g e, getEventLabel g f) of
        (Some l, Some m) \<Rightarrow> (case (getStamp l, getStamp m) of (Some s, Some u) \<Rightarrow> s > u | _ \<Rightarrow> False)
      | _ \<Rightarrow> False)"

definition getRevisitable :: "ExecutionGraph \<Rightarrow> EventLabel \<Rightarrow> VectorClock \<Rightarrow> Event list option" where
  "getRevisitable g sLab before =
     do { pendingRMW \<leftarrow> getPendingRMW g sLab;
          let loads = revisitable_loads g sLab before in
          Some (if \<not> isInitializer pendingRMW
                then filter (\<lambda>e. \<not> stamp_greater g e pendingRMW) loads else loads) }"

definition getInitRfsAtLoc :: "ExecutionGraph \<Rightarrow> AAccess \<Rightarrow> Event list" where
  "getInitRfsAtLoc g a =
     map position (filter (\<lambda>l. isRead (kind l) \<and>
       (\<exists>p\<in>set (rfs l). isInitializer (fst p) \<and> AAccess_overlaps (snd p) a)) (graph_labels g))"

definition isStoreReadByExclusiveRead :: "ExecutionGraph \<Rightarrow> Event \<Rightarrow> SAddr \<Rightarrow> bool" where
  "isStoreReadByExclusiveRead g store ptr =
     (\<exists>l\<in>set (graph_labels g). isRMWLoad g l \<and> (\<exists>p\<in>set (rfs l). fst p = store \<and> getAddr l = ptr))"

definition isStoreReadBySettledRMW :: "ExecutionGraph \<Rightarrow> Event \<Rightarrow> SAddr \<Rightarrow> VectorClock \<Rightarrow> bool" where
  "isStoreReadBySettledRMW g store ptr prefix =
     (\<exists>l\<in>set (graph_labels g). isRMWLoad g l \<and> (\<exists>p\<in>set (rfs l). fst p = store \<and> getAddr l = ptr) \<and>
        ((\<not> revisitable l \<and> (case getNextLabel g (position l) of
              Some w \<Rightarrow> \<not> hasAttr WA_RevBlocker w | None \<Rightarrow> False)) \<or>
         VectorClock_contains prefix (position l)))"

section \<open>Coherence\<close>

definition getBucket :: "SAddr \<Rightarrow> SAddr" where "getBucket a = SAddr_align a"

text \<open>
  getStoresToLoc: on a const graph a missing bucket raises an exception (None); on a mutable one
  it is created empty.
\<close>

definition getStoresToLoc_const :: "ExecutionGraph \<Rightarrow> SAddr \<Rightarrow> Event list option" where
  "getStoresToLoc_const g a = map_of (coherence g) (getBucket a)"

definition getStoresToLoc :: "ExecutionGraph \<Rightarrow> SAddr \<Rightarrow> Event list" where
  "getStoresToLoc g a = bucket (coherence g) (getBucket a)"

definition touchStoresToLoc :: "ExecutionGraph \<Rightarrow> SAddr \<Rightarrow> ExecutionGraph" where
  "touchStoresToLoc g a = g\<lparr>coherence := bucket_upd (getBucket a) (\<lambda>s. s) (coherence g)\<rparr>"

text \<open>A co range is the coherence list filtered by overlap with the access.\<close>

definition overlap_filter :: "ExecutionGraph \<Rightarrow> AAccess \<Rightarrow> Event list \<Rightarrow> Event list" where
  "overlap_filter g a = filter (\<lambda>w. AAccess_overlaps (label_access g w) a)"

definition co_range :: "ExecutionGraph \<Rightarrow> AAccess \<Rightarrow> Event list" where
  "co_range g a = overlap_filter g a (getStoresToLoc g (acc_addr a))"

text \<open>
  co_succ_begin: the filtered range that starts at the label itself, advanced by one; co_pred_begin
  likewise on the reversed list.
\<close>

definition co_succ :: "ExecutionGraph \<Rightarrow> EventLabel \<Rightarrow> AAccess \<Rightarrow> Event list" where
  "co_succ g lab a =
     tl (overlap_filter g a (dropWhile (\<lambda>w. w \<noteq> position lab) (getStoresToLoc g (getAddr lab))))"

definition co_pred :: "ExecutionGraph \<Rightarrow> EventLabel \<Rightarrow> Event list" where
  "co_pred g lab =
     tl (overlap_filter g (access lab)
       (dropWhile (\<lambda>w. w \<noteq> position lab) (rev (getStoresToLoc g (getAddr lab)))))"

definition co_imm_succ :: "ExecutionGraph \<Rightarrow> EventLabel \<Rightarrow> Event option" where
  "co_imm_succ g lab = (case co_succ g lab (access lab) of [] \<Rightarrow> None | w # _ \<Rightarrow> Some w)"

definition co_imm_pred :: "ExecutionGraph \<Rightarrow> EventLabel \<Rightarrow> Event option" where
  "co_imm_pred g lab = (case co_pred g lab of [] \<Rightarrow> None | w # _ \<Rightarrow> Some w)"

text \<open>fr successors of a read; a read without rf is a null dereference.\<close>

definition fr_succ :: "ExecutionGraph \<Rightarrow> EventLabel \<Rightarrow> Event list option" where
  "fr_succ g rLab =
     do { w \<leftarrow> getRf rLab; wLab \<leftarrow> getEventLabel g w;
          Some (if isWrite (kind wLab) then co_succ g wLab (access wLab) else co_range g (access rLab)) }"

definition fr_imm_succ :: "ExecutionGraph \<Rightarrow> EventLabel \<Rightarrow> Event option option" where
  "fr_imm_succ g rLab =
     do { ws \<leftarrow> fr_succ g rLab; Some (case ws of [] \<Rightarrow> None | w # _ \<Rightarrow> Some w) }"

definition fr_imm_pred :: "ExecutionGraph \<Rightarrow> EventLabel \<Rightarrow> Event list" where
  "fr_imm_pred g wLab =
     (case co_pred g wLab of
        [] \<Rightarrow> (case getInitLabel g of Some ini \<Rightarrow> init_rf_range (label_access g) ini (access wLab) | None \<Rightarrow> [])
      | p # _ \<Rightarrow> (case getEventLabel g p of Some l \<Rightarrow> readerList l | None \<Rightarrow> []))"

definition isLocEmpty :: "ExecutionGraph \<Rightarrow> AAccess \<Rightarrow> bool" where
  "isLocEmpty g a = (co_range g a = [])"

definition hasLocMoreThanOneStore :: "ExecutionGraph \<Rightarrow> AAccess \<Rightarrow> bool" where
  "hasLocMoreThanOneStore g a = (\<not> isLocEmpty g a \<and> tl (co_range g a) \<noteq> [])"

definition isCoMaximal :: "ExecutionGraph \<Rightarrow> AAccess \<Rightarrow> Event \<Rightarrow> bool" where
  "isCoMaximal g a e =
     (if isInitializer e then isLocEmpty g a else \<not> isLocEmpty g a \<and> e = last (co_range g a))"

text \<open>Insertion before an iterator into the list, given by its index; removal of a store.\<close>

definition addStoreToCO :: "EventLabel \<Rightarrow> nat \<Rightarrow> ExecutionGraph \<Rightarrow> ExecutionGraph" where
  "addStoreToCO wLab i g =
     g\<lparr>coherence := bucket_upd (getBucket (getAddr wLab))
        (\<lambda>s. take i s @ position wLab # drop i s) (coherence g)\<rparr>"

definition addStoresToCO :: "Event list \<Rightarrow> AAccess \<Rightarrow> nat \<Rightarrow> ExecutionGraph \<Rightarrow> ExecutionGraph" where
  "addStoresToCO ws a i g =
     g\<lparr>coherence := bucket_upd (getBucket (acc_addr a)) (\<lambda>s. take i s @ ws @ drop i s) (coherence g)\<rparr>"

definition removeStoreFromCO :: "EventLabel \<Rightarrow> ExecutionGraph \<Rightarrow> ExecutionGraph" where
  "removeStoreFromCO wLab g =
     g\<lparr>coherence := bucket_upd (getBucket (getAddr wLab)) (filter (\<lambda>w. w \<noteq> position wLab)) (coherence g)\<rparr>"

definition trackCoherenceAtLoc :: "AAccess \<Rightarrow> ExecutionGraph \<Rightarrow> ExecutionGraph" where
  "trackCoherenceAtLoc a g =
     upd_label (Event 0 0)
       (\<lambda>ini. ini\<lparr>initRfs := bucket_upd (SAddr_align (acc_addr a)) (\<lambda>s. s) (initRfs ini)\<rparr>)
       (touchStoresToLoc g (acc_addr a))"

section \<open>Adding labels and threads\<close>

definition addNewThread :: "ExecutionGraph \<Rightarrow> ExecutionGraph" where
  "addNewThread g = g\<lparr>events := events g @ [[]]\<rparr>"

definition addRecoveryThread :: "ExecutionGraph \<Rightarrow> ExecutionGraph" where
  "addRecoveryThread g = g\<lparr>recoveryTID := int (length (events g)), events := events g @ [[]]\<rparr>"

definition delRecoveryThread :: "ExecutionGraph \<Rightarrow> ExecutionGraph" where
  "delRecoveryThread g = g\<lparr>events := butlast (events g), recoveryTID := -1\<rparr>"

definition nextStamp :: "ExecutionGraph \<Rightarrow> Stamp \<times> ExecutionGraph" where
  "nextStamp g = (timestamp g, g\<lparr>timestamp := Stamp_inc (timestamp g)\<rparr>)"

definition resetStamp :: "Stamp \<Rightarrow> ExecutionGraph \<Rightarrow> ExecutionGraph" where
  "resetStamp s g = g\<lparr>timestamp := s\<rparr>"

definition addLabelToGraph :: "EventLabel \<Rightarrow> ExecutionGraph \<Rightarrow> ExecutionGraph option" where
  "addLabelToGraph lab g =
     (let (lab, g) = (if hasStamp lab then (lab, g)
                      else let (s, g') = nextStamp g in (setStamp s lab, g'));
          pos = position lab; t = nat (thread pos)
      in do { BUG_ON (thread pos < 0 \<or> t \<ge> length (events g));
              g' \<leftarrow> (if index pos < int (length (events g ! t)) then
                      do { eLab \<leftarrow> getEventLabel g pos;
                           BUG_ON (kind eLab \<noteq> EL_Empty);
                           Some (upd_label pos (\<lambda>_. lab) g) }
                     else Some (g\<lparr>events := (events g)[t := events g ! t @ [lab]]\<rparr>));
              BUG_ON (index pos > int (length (events g' ! t)));
              _ \<leftarrow> getEventLabel g' pos;
              Some g' })"

definition ExecutionGraph_new :: "ExecutionGraph option" where
  "ExecutionGraph_new =
     do { g \<leftarrow> addLabelToGraph InitLabel \<lparr>events = [[]], timestamp = 0, coherence = [], recoveryTID = -1\<rparr>;
          Some (upd_label (Event 0 0) (\<lambda>l. l\<lparr>calculatedRels := [VSet_empty], calculatedViews := [View_empty],
                  prefixView := Some (VC_View View_empty)\<rparr>) g) }"

definition addAlloc :: "Event option \<Rightarrow> Event \<Rightarrow> ExecutionGraph \<Rightarrow> ExecutionGraph option" where
  "addAlloc aPos m g =
     (case aPos of None \<Rightarrow> Some g
      | Some a \<Rightarrow> do { let g = upd_label m (\<lambda>l. l\<lparr>allocLab := Some a\<rparr>) g in
                      do { al \<leftarrow> getEventLabel g a; al' \<leftarrow> addAccess m al;
                           Some (upd_label a (\<lambda>_. al') g) } })"

section \<open>Changing rf edges\<close>

definition addInitRfToLoc :: "EventLabel \<Rightarrow> ExecutionGraph \<Rightarrow> ExecutionGraph option" where
  "addInitRfToLoc rLab g =
     do { ini \<leftarrow> getInitLabel g;
          ini' \<leftarrow> init_addReader (label_access g) (position rLab) (access rLab) ini;
          Some (upd_label (Event 0 0) (\<lambda>_. ini') g) }"

definition removeInitRfToLoc :: "EventLabel \<Rightarrow> ExecutionGraph \<Rightarrow> ExecutionGraph" where
  "removeInitRfToLoc rLab g =
     upd_label (Event 0 0) (init_removeReader (getAddr rLab) (\<lambda>r. r = position rLab)) g"

text \<open>Detaching a read from the reader list of a former rf, when that is still in the graph.\<close>

definition detach_reader :: "EventLabel \<Rightarrow> Event \<Rightarrow> ExecutionGraph \<Rightarrow> ExecutionGraph" where
  "detach_reader rLab w g =
     (case getEventLabel g w of
        None \<Rightarrow> g
      | Some oldLab \<Rightarrow>
          if isWrite (kind oldLab) then upd_label w (removeReader (\<lambda>r. r = position rLab)) g
          else if isInitializer w then removeInitRfToLoc rLab g else g)"

definition attach_reader :: "EventLabel \<Rightarrow> Event \<Rightarrow> ExecutionGraph \<Rightarrow> ExecutionGraph option" where
  "attach_reader rLab w g =
     do { rfLab \<leftarrow> getEventLabel g w;
          if isWrite (kind rfLab) then
            do { wLab \<leftarrow> addReader (position rLab) rfLab; Some (upd_label w (\<lambda>_. wLab) g) }
          else do { BUG_ON (\<not> isInitializer w); addInitRfToLoc rLab g } }"

definition changeRf :: "Event \<Rightarrow> Event \<Rightarrow> ExecutionGraph \<Rightarrow> ExecutionGraph option" where
  "changeRf read store g =
     do { rLab \<leftarrow> getEventLabel g read;
          BUG_ON (\<not> isRead (kind rLab));
          let oldRf = getRf rLab in
          do { rf \<leftarrow> (if isBottom store then Some None
                      else do { l \<leftarrow> getEventLabel g store; Some (Some (position l)) });
               let g = upd_label read (setRf rf) g;
                   g = (case oldRf of None \<Rightarrow> g | Some w \<Rightarrow> detach_reader rLab w g)
               in if isBottom store then Some g else attach_reader rLab store g } }"

fun attach_all :: "EventLabel \<Rightarrow> Event list \<Rightarrow> ExecutionGraph \<Rightarrow> ExecutionGraph option" where
  "attach_all rLab [] g = Some g"
| "attach_all rLab (w # ws) g = do { g' \<leftarrow> attach_reader rLab w g; attach_all rLab ws g' }"

text \<open>The overload for mixed-size accesses: a list of rf edges; duplicate stores are attached once.\<close>

definition changeRfs :: "Event \<Rightarrow> (Event \<times> AAccess) list \<Rightarrow> ExecutionGraph \<Rightarrow> ExecutionGraph option" where
  "changeRfs read newRfs g =
     do { rLab \<leftarrow> getEventLabel g read;
          BUG_ON (\<not> isRead (kind rLab));
          BUG_ON (\<exists>p\<in>set newRfs. getEventLabel g (fst p) = None);
          let old = rfs rLab;
              g = upd_label read (\<lambda>l. l\<lparr>rfs := newRfs\<rparr>) g;
              g = fold (\<lambda>p. detach_reader rLab (fst p)) old g
          in attach_all rLab (rev (remdups (rev (map fst newRfs)))) g }"

section \<open>Removing events\<close>

definition unlink_read :: "EventLabel \<Rightarrow> ExecutionGraph \<Rightarrow> ExecutionGraph" where
  "unlink_read lab g =
     (if isRead (kind lab)
      then fold (\<lambda>p g. if label_is (\<lambda>l. isWrite (kind l)) g (fst p)
                       then upd_label (fst p) (removeReader (\<lambda>r. r = position lab)) g else g)
             (rfs lab) g
      else g)"

definition unlink_write :: "EventLabel \<Rightarrow> ExecutionGraph \<Rightarrow> ExecutionGraph" where
  "unlink_write lab g =
     (if isWrite (kind lab) then fold (\<lambda>r. upd_label r (setRf None)) (readerList lab) g else g)"

definition unlink_access :: "EventLabel \<Rightarrow> ExecutionGraph \<Rightarrow> ExecutionGraph" where
  "unlink_access lab g =
     (if isMemAccess (kind lab)
      then (case allocLab lab of None \<Rightarrow> g
            | Some a \<Rightarrow> upd_label a (removeAccess (\<lambda>e. e = position lab)) g)
      else g)"

text \<open>A free without allocation is a null dereference.\<close>

definition unlink_free :: "EventLabel \<Rightarrow> ExecutionGraph \<Rightarrow> ExecutionGraph option" where
  "unlink_free lab g =
     (if isFree (kind lab) then do { a \<leftarrow> aLab lab; Some (upd_label a (\<lambda>l. l\<lparr>freeLab := None\<rparr>) g) }
      else Some g)"

definition unlink_malloc :: "EventLabel \<Rightarrow> ExecutionGraph \<Rightarrow> ExecutionGraph" where
  "unlink_malloc lab g =
     (if kind lab = EL_Malloc
      then (case freeLab lab of None \<Rightarrow> g | Some d \<Rightarrow> upd_label d (\<lambda>l. l\<lparr>aLab := None\<rparr>) g)
      else g)"

definition resizeThread :: "Event \<Rightarrow> ExecutionGraph \<Rightarrow> ExecutionGraph" where
  "resizeThread pos g =
     g\<lparr>events := (events g)[nat (thread pos) := take (nat (index pos)) (events g ! nat (thread pos))]\<rparr>"

definition removeLast :: "int \<Rightarrow> ExecutionGraph \<Rightarrow> ExecutionGraph option" where
  "removeLast t g =
     do { lab \<leftarrow> getLastThreadLabel g t;
          g \<leftarrow> unlink_free lab (unlink_access lab (unlink_write lab (unlink_read lab g)));
          Some (resizeThread (position lab) (unlink_malloc lab g)) }"

text \<open>
  getViewFromStamp: per thread, the last label whose stamp is at most the given one. A label
  without a stamp is None.
\<close>

fun last_leq :: "Stamp \<Rightarrow> EventLabel list \<Rightarrow> nat \<Rightarrow> nat option" where
  "last_leq s ls 0 = None"
| "last_leq s ls (Suc j) =
     (case stamp (ls ! j) of
        Some u \<Rightarrow> if u \<le> s then Some j else last_leq s ls j
      | None \<Rightarrow> last_leq s ls j)"

definition getViewFromStamp :: "ExecutionGraph \<Rightarrow> Stamp \<Rightarrow> View" where
  "getViewFromStamp g s =
     fold (\<lambda>i v. case last_leq s (events g ! i) (length (events g ! i)) of
         Some j \<Rightarrow> View_setMax v (Event (int i) (int j)) | None \<Rightarrow> v)
       [0..<length (events g)] View_empty"

definition getPredsView :: "ExecutionGraph \<Rightarrow> Event \<Rightarrow> View option" where
  "getPredsView g e =
     do { l \<leftarrow> getEventLabel g e; s \<leftarrow> getStamp l; Some (getViewFromStamp g s) }"

definition kept_buckets :: "ExecutionGraph \<Rightarrow> View \<Rightarrow> SAddr list" where
  "kept_buckets g preds =
     [getBucket (getAddr l). i \<leftarrow> [0..<length preds], j \<leftarrow> [0 .. View_getMax preds (int i)],
        l \<leftarrow> (case getEventLabel g (Event (int i) j) of Some l \<Rightarrow> [l] | None \<Rightarrow> []),
        isMemAccess (kind l)]"

text \<open>
  The loop of removeAfter: it walks the coherence map and, in lockstep, the map of INIT readers; a
  location not kept is erased from both, and the readers of a kept one are filtered. The second map
  is given as the part before its iterator and the rest; running out of it is None.
\<close>

fun remove_after_loop :: "(SAddr \<Rightarrow> bool) \<Rightarrow> View \<Rightarrow> (SAddr \<times> Event list) list \<Rightarrow>
    (SAddr \<times> Event list) list \<Rightarrow> (SAddr \<times> Event list) list \<Rightarrow>
    ((SAddr \<times> Event list) list \<times> (SAddr \<times> Event list) list) option" where
  "remove_after_loop keep v [] done rs = Some ([], done @ rs)"
| "remove_after_loop keep v (l # ls) done [] = None"
| "remove_after_loop keep v ((a, ws) # ls) done (r # rs) =
     (if \<not> keep (getBucket a) then remove_after_loop keep v ls done rs
      else let irfs = bucket_upd (SAddr_align a) (filter (View_contains v)) (done @ r # rs);
               n = Suc (length done)
           in do { (ls', rs') \<leftarrow> remove_after_loop keep v ls (take n irfs) (drop n irfs);
                   Some ((a, filter (View_contains v) ws) # ls', rs') })"

definition removeAfter :: "View \<Rightarrow> ExecutionGraph \<Rightarrow> ExecutionGraph option" where
  "removeAfter preds g =
     do { ini \<leftarrow> getInitLabel g;
          let keep = kept_buckets g preds in
          do { (co', irfs) \<leftarrow> remove_after_loop (\<lambda>a. a \<in> set keep) preds (coherence g) [] (initRfs ini);
               Some ((upd_label (Event 0 0) (\<lambda>l. l\<lparr>initRfs := irfs\<rparr>) g)\<lparr>coherence := co'\<rparr>) } }"

text \<open>
  The pruning of dangling pointers in cutToStamp, for one label. The rf loop erases from the vector
  it iterates over: it reads position i of a buffer whose first n entries are live, and an erasure
  compacts the live part and leaves the rest of the buffer as it was.
\<close>

fun prune_rfs_loop :: "View \<Rightarrow> nat \<Rightarrow> nat \<Rightarrow> (Event \<times> AAccess) list \<Rightarrow> nat \<Rightarrow> (Event \<times> AAccess) list" where
  "prune_rfs_loop v i 0 buf n = take n buf"
| "prune_rfs_loop v i (Suc k) buf n =
     (let pos = fst (buf ! i) in
      if \<not> View_contains v pos then
        let live = filter (\<lambda>p. fst p \<noteq> pos) (take n buf)
        in prune_rfs_loop v (Suc i) k (live @ drop (length live) buf) (length live)
      else prune_rfs_loop v (Suc i) k buf n)"

definition prune_rfs :: "View \<Rightarrow> (Event \<times> AAccess) list \<Rightarrow> (Event \<times> AAccess) list" where
  "prune_rfs v rs = prune_rfs_loop v 0 (length rs) rs (length rs)"

definition prune_opt :: "View \<Rightarrow> Event option \<Rightarrow> Event option" where
  "prune_opt v p = (case p of None \<Rightarrow> None | Some e \<Rightarrow> if View_contains v e then Some e else None)"

definition prune_write :: "View \<Rightarrow> EventLabel \<Rightarrow> EventLabel" where
  "prune_write v lab = (if isWrite (kind lab) then removeReader (\<lambda>r. \<not> View_contains v r) lab else lab)"

definition prune_read :: "View \<Rightarrow> EventLabel \<Rightarrow> EventLabel" where
  "prune_read v lab = (if isRead (kind lab) then lab\<lparr>rfs := prune_rfs v (rfs lab)\<rparr> else lab)"

definition prune_access :: "View \<Rightarrow> EventLabel \<Rightarrow> EventLabel" where
  "prune_access v lab =
     (if isMemAccess (kind lab) then lab\<lparr>allocLab := prune_opt v (allocLab lab)\<rparr> else lab)"

definition prune_finish :: "View \<Rightarrow> EventLabel \<Rightarrow> EventLabel" where
  "prune_finish v lab =
     (if kind lab = EL_ThreadFinish then lab\<lparr>parentJoin := prune_opt v (parentJoin lab)\<rparr> else lab)"

definition prune_free :: "View \<Rightarrow> EventLabel \<Rightarrow> EventLabel" where
  "prune_free v lab = (if isFree (kind lab) then lab\<lparr>aLab := prune_opt v (aLab lab)\<rparr> else lab)"

definition prune_malloc :: "View \<Rightarrow> EventLabel \<Rightarrow> EventLabel" where
  "prune_malloc v lab =
     (if kind lab = EL_Malloc
      then removeAccess (\<lambda>e. \<not> View_contains v e) (lab\<lparr>freeLab := prune_opt v (freeLab lab)\<rparr>)
      else lab)"

definition prune_label :: "View \<Rightarrow> EventLabel \<Rightarrow> EventLabel" where
  "prune_label v lab =
     prune_malloc v (prune_free v (prune_finish v (prune_access v (prune_read v (prune_write v lab)))))"

definition prune_graph :: "View \<Rightarrow> ExecutionGraph \<Rightarrow> ExecutionGraph" where
  "prune_graph v g =
     fold (\<lambda>e. upd_label e (prune_label v))
       [Event (int i) j. i \<leftarrow> [0..<length v], j \<leftarrow> [0 .. View_getMax v (int i)]] g"

definition cut_threads :: "View \<Rightarrow> ExecutionGraph \<Rightarrow> ExecutionGraph" where
  "cut_threads v g =
     g\<lparr>events := map (\<lambda>i. take (nat (View_getMax v (int i) + 1)) (events g ! i)) [0..<length (events g)]\<rparr>"

definition cutToStamp :: "Stamp \<Rightarrow> ExecutionGraph \<Rightarrow> ExecutionGraph option" where
  "cutToStamp s g =
     (let preds = getViewFromStamp g s in
      do { g \<leftarrow> removeAfter preds g; Some (cut_threads preds (prune_graph preds g)) })"

text \<open>compressStampsAfter: every stamp above st gets the next one, in label order.\<close>

fun compress_labels :: "Stamp \<Rightarrow> Stamp \<Rightarrow> EventLabel list \<Rightarrow> EventLabel list \<times> Stamp" where
  "compress_labels st next [] = ([], next)"
| "compress_labels st next (l # ls) =
     (case stamp l of
        Some s \<Rightarrow> if s > st
          then (let (ls', n) = compress_labels st (Stamp_inc next) ls in (setStamp next l # ls', n))
          else (let (ls', n) = compress_labels st next ls in (l # ls', n))
      | None \<Rightarrow> (let (ls', n) = compress_labels st next ls in (l # ls', n)))"

fun compress_threads :: "Stamp \<Rightarrow> Stamp \<Rightarrow> EventLabel list list \<Rightarrow> EventLabel list list \<times> Stamp" where
  "compress_threads st next [] = ([], next)"
| "compress_threads st next (t # ts) =
     (let (t', n) = compress_labels st next t; (ts', n') = compress_threads st n ts in (t' # ts', n'))"

definition compressStampsAfter :: "Stamp \<Rightarrow> ExecutionGraph \<Rightarrow> ExecutionGraph" where
  "compressStampsAfter st g =
     (let g = resetStamp (Stamp_add st 1) g; (evs, n) = compress_threads st (timestamp g) (events g)
      in g\<lparr>events := evs, timestamp := n\<rparr>)"

section \<open>Validation\<close>

text \<open>validate() as a predicate: True when no BUG() is reached.\<close>

definition validate_read :: "ExecutionGraph \<Rightarrow> EventLabel \<Rightarrow> bool" where
  "validate_read g l =
     ((\<forall>p\<in>set (rfs l). containsPos g (fst p)) \<and>
      (\<forall>p\<in>set (rfs l). label_is (\<lambda>w. isWrite (kind w) \<longrightarrow> position l \<in> set (readerList w)) g (fst p)))"

definition validate_write :: "ExecutionGraph \<Rightarrow> EventLabel \<Rightarrow> bool" where
  "validate_write g l =
     (\<not> (isRMWStore l \<and> length (filter (label_is (isRMWLoad g) g) (readerList l)) > 1) \<and>
      (\<forall>r\<in>set (readerList l). containsPosNonEmpty g r) \<and>
      (\<forall>r\<in>set (readerList l). label_is (\<lambda>rl. \<exists>p\<in>set (rfs rl). fst p = position l) g r))"

definition validate :: "ExecutionGraph \<Rightarrow> bool" where
  "validate g =
     (\<forall>l\<in>set (graph_labels g). (isRead (kind l) \<longrightarrow> validate_read g l) \<and>
        (isWrite (kind l) \<longrightarrow> validate_write g l))"

section \<open>Reading and writing labels\<close>

lemma containsPos_iff:
  "containsPos g e \<longleftrightarrow> 0 \<le> thread e \<and> nat (thread e) < length (events g) \<and> 0 \<le> index e \<and>
     nat (index e) < length (events g ! nat (thread e))"
  by (auto simp: containsPos_def getNumThreads_def getThreadSize_def)

lemma getEventLabel_Some_iff:
  "getEventLabel g e = Some l \<longleftrightarrow> containsPos g e \<and> l = events g ! nat (thread e) ! nat (index e)"
  by (auto simp: getEventLabel_def)

lemma upd_label_other_fields [simp]:
  "timestamp (upd_label e f g) = timestamp g" "coherence (upd_label e f g) = coherence g"
  "recoveryTID (upd_label e f g) = recoveryTID g" "length (events (upd_label e f g)) = length (events g)"
  by (simp_all add: upd_label_def)

lemma containsPos_upd_label [simp]: "containsPos (upd_label e f g) x = containsPos g x"
  by (auto simp: containsPos_iff upd_label_def nth_list_update)

lemma getEventLabel_upd_label [graph_simps]:
  "getEventLabel (upd_label e f g) x =
     (if x = e then map_option f (getEventLabel g e) else getEventLabel g x)"
proof (cases "containsPos g e")
  case True
  have "x = e" if "containsPos g x" "nat (thread x) = nat (thread e)" "nat (index x) = nat (index e)"
    using that True by (auto simp: containsPos_iff Event_eq_iff)
  then show ?thesis using True
    by (auto simp: getEventLabel_def upd_label_def nth_list_update containsPos_iff)
qed (auto simp: getEventLabel_def upd_label_def)

lemma getThreadSize_upd_label [simp]: "getThreadSize (upd_label e f g) t = getThreadSize g t"
  by (cases "nat t = nat (thread e)") (auto simp: getThreadSize_def upd_label_def containsPos_iff)

section \<open>Consistency of rf edges and reader lists\<close>

text \<open>
  A read lists its writes and a write (or INIT) lists its readers. The invariant says that the two
  agree, that labels know their positions, and that the readers of INIT are filed under the aligned
  address of their accesses.
\<close>

definition reads_from :: "ExecutionGraph \<Rightarrow> Event \<Rightarrow> Event \<Rightarrow> bool" where
  "reads_from g r w = label_is (\<lambda>l. isRead (kind l) \<and> w \<in> fst ` set (rfs l)) g r"

definition init_listed :: "ExecutionGraph \<Rightarrow> SAddr \<Rightarrow> Event \<Rightarrow> bool" where
  "init_listed g a r = label_is (\<lambda>ini. r \<in> set (bucket (initRfs ini) a)) g getInit"

definition listed_reader :: "ExecutionGraph \<Rightarrow> Event \<Rightarrow> Event \<Rightarrow> bool" where
  "listed_reader g w r =
     (label_is (\<lambda>l. isWrite (kind l) \<and> r \<in> set (readerList l)) g w \<or>
      w = getInit \<and> (\<exists>a. init_listed g a r))"

definition rf_inv :: "ExecutionGraph \<Rightarrow> bool" where
  "rf_inv g =
     ((\<forall>e. label_is (\<lambda>l. position l = e) g e \<or> getEventLabel g e = None) \<and>
      label_is (\<lambda>l. kind l = EL_Init) g getInit \<and>
      (\<forall>r w. reads_from g r w \<longleftrightarrow> listed_reader g w r) \<and>
      (\<forall>a r. init_listed g a r \<longrightarrow> label_is (\<lambda>l. SAddr_align (getAddr l) = a) g r))"

lemma label_is_Some: "getEventLabel g e = Some l \<Longrightarrow> label_is P g e = P l"
  by (simp add: label_is_def)

lemma label_is_upd_label [graph_simps]:
  "label_is P (upd_label e f g) x = (if x = e then label_is (\<lambda>l. P (f l)) g e else label_is P g x)"
  by (simp add: label_is_def graph_simps split: option.split)

lemma rf_inv_position: "rf_inv g \<Longrightarrow> getEventLabel g e = Some l \<Longrightarrow> position l = e"
  by (auto simp: rf_inv_def label_is_def dest!: spec [of _ e])

text \<open>What rf changes keep: the labels at each position, up to their rf edges and reader lists.\<close>

definition core :: "EventLabel \<Rightarrow> EventLabel" where
  "core l = l\<lparr>rfs := [], readerList := [], initRfs := []\<rparr>"

definition same_core :: "ExecutionGraph \<Rightarrow> ExecutionGraph \<Rightarrow> bool" where
  "same_core g g' = ((\<forall>e. map_option core (getEventLabel g e) = map_option core (getEventLabel g' e)) \<and>
     coherence g = coherence g' \<and> timestamp g = timestamp g' \<and> recoveryTID g = recoveryTID g')"

lemma core_eqD:
  assumes "core l = core m"
  shows "kind l = kind m" "position l = position m" "access l = access m" "stamp l = stamp m"
    "getAddr l = getAddr m"
proof -
  have "kind (core l) = kind (core m)" "position (core l) = position (core m)"
    "access (core l) = access (core m)" "stamp (core l) = stamp (core m)"
    using assms by simp_all
  then show "kind l = kind m" "position l = position m" "access l = access m" "stamp l = stamp m"
    "getAddr l = getAddr m"
    by (simp_all add: core_def getAddr_def)
qed

lemma core_upd [simp]:
  "core (setRf x l) = core l" "core (removeReader c l) = core l"
  "core (init_removeReader a c l) = core l" "core (l\<lparr>readerList := rs\<rparr>) = core l"
  "core (l\<lparr>initRfs := is\<rparr>) = core l"
  by (cases l; simp add: core_def setRf_def removeReader_def init_removeReader_def)+

lemma same_core_refl [simp]: "same_core g g"
  by (simp add: same_core_def)

lemma same_core_trans: "same_core g h \<Longrightarrow> same_core h k \<Longrightarrow> same_core g k"
  by (simp add: same_core_def)

lemma same_core_upd: "(\<And>l. getEventLabel g e = Some l \<Longrightarrow> core (f l) = core l) \<Longrightarrow> same_core g (upd_label e f g)"
  by (auto simp: same_core_def graph_simps option.map_comp intro!: option.map_cong)

lemma same_core_label_is:
  assumes "same_core g g'" "\<And>l m. core l = core m \<Longrightarrow> P l = P m"
  shows "label_is P g e = label_is P g' e"
proof -
  have c: "map_option core (getEventLabel g e) = map_option core (getEventLabel g' e)"
    using assms(1) by (simp add: same_core_def)
  show ?thesis
  proof (cases "getEventLabel g e")
    case (Some l)
    with c obtain m where m: "getEventLabel g' e = Some m" and "core l = core m"
      by (cases "getEventLabel g' e") auto
    from this(2) have "P l = P m" by (rule assms(2))
    then show ?thesis by (simp add: label_is_def Some m)
  qed (use c in \<open>simp add: label_is_def\<close>)
qed

lemma same_core_fields:
  assumes "same_core g g'"
  shows "label_is (\<lambda>l. P (kind l)) g e = label_is (\<lambda>l. P (kind l)) g' e"
    and "label_is (\<lambda>l. P' (position l)) g e = label_is (\<lambda>l. P' (position l)) g' e"
    and "label_is (\<lambda>l. Q (getAddr l)) g e = label_is (\<lambda>l. Q (getAddr l)) g' e"
  by (rule same_core_label_is [OF assms], drule core_eqD, simp)+

lemma same_core_None: "same_core g g' \<Longrightarrow> getEventLabel g e = None \<longleftrightarrow> getEventLabel g' e = None"
  unfolding same_core_def by (metis option.map_disc_iff)

text \<open>Setting the rf of a read.\<close>

lemma reads_from_setRf:
  assumes "getEventLabel g r = Some l" "isRead (kind l)"
  shows "reads_from (upd_label r (setRf rf) g) x w = (if x = r then rf = Some w else reads_from g x w)"
  using assms by (auto simp: reads_from_def graph_simps setRf_def label_is_def split: option.split)

lemma listed_reader_setRf: "listed_reader (upd_label r (setRf rf) g) w x = listed_reader g w x"
  by (simp add: listed_reader_def init_listed_def graph_simps setRf_def)

text \<open>Detaching a read from one write.\<close>

lemma detach_reader_core: "same_core g (detach_reader l w g)"
  by (auto simp: detach_reader_def removeInitRfToLoc_def intro!: same_core_upd split: option.split)

lemma reads_from_detach: "reads_from (detach_reader l w g) x v = reads_from g x v"
  by (auto simp: detach_reader_def removeInitRfToLoc_def reads_from_def graph_simps removeReader_def
      init_removeReader_def split: option.split)

lemma init_listed_detach:
  "x \<noteq> position l \<Longrightarrow> init_listed (detach_reader l w g) a x = init_listed g a x"
  by (auto simp: detach_reader_def init_listed_def removeInitRfToLoc_def graph_simps removeReader_def
      init_removeReader_def getInit_def label_is_def bucket_def map_of_bucket_upd split: option.split)

lemma isWrite_Init [simp]: "\<not> isWrite EL_Init" "\<not> isRead EL_Init"
  by (simp_all add: kind_defs)

lemma label_is_kindD: "label_is (\<lambda>l. kind l = k) g e \<Longrightarrow> \<exists>l. getEventLabel g e = Some l \<and> kind l = k"
  by (auto simp: label_is_def split: option.splits)

lemma init_listed_removeInit:
  "init_listed (removeInitRfToLoc l g) a x \<longleftrightarrow>
     init_listed g a x \<and> \<not> (a = SAddr_align (getAddr l) \<and> x = position l)"
  by (cases "a = SAddr_align (getAddr l)")
    (auto simp: init_listed_def removeInitRfToLoc_def graph_simps init_removeReader_def getInit_def
      label_is_def split: option.split)

lemma listed_reader_detach:
  assumes init: "label_is (\<lambda>l. kind l = EL_Init) g getInit"
    and w: "label_is (\<lambda>l. isWrite (kind l)) g w \<or> w = getInit"
    and ini: "\<forall>a. init_listed g a (position l) \<longrightarrow> a = SAddr_align (getAddr l)"
  shows "listed_reader (detach_reader l w g) v x \<longleftrightarrow>
     listed_reader g v x \<and> \<not> (v = w \<and> x = position l)"
proof -
  obtain il where il: "getEventLabel g getInit = Some il" "kind il = EL_Init"
    using label_is_kindD [OF init] by blast
  show ?thesis
  proof (cases "w = getInit")
    case True
    have d: "detach_reader l w g = removeInitRfToLoc l g"
      using il True by (simp add: detach_reader_def isInitializer_def)
    have "label_is (\<lambda>k. isWrite (kind k) \<and> x \<in> set (readerList k)) (removeInitRfToLoc l g) v
        = label_is (\<lambda>k. isWrite (kind k) \<and> x \<in> set (readerList k)) g v"
      by (simp add: removeInitRfToLoc_def graph_simps init_removeReader_def)
    then show ?thesis
      unfolding listed_reader_def d init_listed_removeInit using ini True il
      by (auto simp: label_is_def)
  next
    case False
    then obtain wl where wl: "getEventLabel g w = Some wl" "isWrite (kind wl)"
      using w by (auto simp: label_is_def split: option.splits)
    then have d: "detach_reader l w g = upd_label w (removeReader (\<lambda>r. r = position l)) g"
      by (simp add: detach_reader_def)
    have "init_listed (detach_reader l w g) a x = init_listed g a x" for a
      using False unfolding d by (simp add: init_listed_def graph_simps)
    then show ?thesis
      unfolding listed_reader_def using False wl unfolding d
      by (auto simp: graph_simps removeReader_def label_is_def)
  qed
qed

text \<open>Attaching a read to a write that does not list it.\<close>

lemma attach_reader_correct:
  assumes init: "label_is (\<lambda>l. kind l = EL_Init) g getInit"
    and w: "label_is (\<lambda>l. isWrite (kind l)) g w \<or> w = getInit"
    and fresh: "\<not> listed_reader g w (position l)"
  shows "\<exists>g'. attach_reader l w g = Some g' \<and> same_core g g' \<and>
     (\<forall>x v. reads_from g' x v = reads_from g x v) \<and>
     (\<forall>v x. listed_reader g' v x \<longleftrightarrow> listed_reader g v x \<or> v = w \<and> x = position l) \<and>
     (\<forall>a x. init_listed g' a x \<longleftrightarrow> init_listed g a x \<or>
        w = getInit \<and> x = position l \<and> a = SAddr_align (getAddr l))"
proof -
  obtain il where il: "getEventLabel g getInit = Some il" "kind il = EL_Init"
    using label_is_kindD [OF init] by blast
  show ?thesis
  proof (cases "w = getInit")
    case True
    let ?il = "il\<lparr>initRfs := bucket_upd (SAddr_align (getAddr l)) (\<lambda>rs. rs @ [position l]) (initRfs il)\<rparr>"
    have "position l \<notin> set (init_rf_range (label_access g) il (access l))"
      using fresh il True
      by (auto simp: listed_reader_def init_listed_def label_is_def init_rf_range_def)
    then have at: "attach_reader l w g = Some (upd_label getInit (\<lambda>_. ?il) g)"
      using il True
      by (simp add: attach_reader_def addInitRfToLoc_def getInitLabel_def getInit_def [symmetric]
          init_addReader_def isInitializer_def getAddr_def)
    have il': "init_listed (upd_label getInit (\<lambda>_. ?il) g) a x \<longleftrightarrow> init_listed g a x \<or>
        x = position l \<and> a = SAddr_align (getAddr l)" for a x
      using il by (cases "a = SAddr_align (getAddr l)") (auto simp: init_listed_def graph_simps label_is_def)
    show ?thesis
      unfolding at using True il il'
      by (auto simp: reads_from_def listed_reader_def graph_simps label_is_def intro!: same_core_upd)
  next
    case False
    then obtain wl where wl: "getEventLabel g w = Some wl" "isWrite (kind wl)"
      using w by (auto simp: label_is_def split: option.splits)
    have "position l \<notin> set (readerList wl)"
      using fresh wl by (auto simp: listed_reader_def label_is_def)
    then have at: "attach_reader l w g =
        Some (upd_label w (\<lambda>_. wl\<lparr>readerList := readerList wl @ [position l]\<rparr>) g)"
      using wl by (simp add: attach_reader_def addReader_def)
    show ?thesis
      unfolding at using False wl
      by (auto simp: reads_from_def listed_reader_def init_listed_def graph_simps label_is_def
          intro!: same_core_upd)
  qed
qed

text \<open>
  The invariant depends on the labels only through their cores, the rf edges and the lists; so it
  is enough to know how an operation changes those.
\<close>

lemma rf_inv_cong:
  assumes "same_core g g'" "rf_inv g"
    and "\<And>r w. reads_from g' r w \<longleftrightarrow> listed_reader g' w r"
    and "\<And>a r. init_listed g' a r \<Longrightarrow> label_is (\<lambda>l. SAddr_align (getAddr l) = a) g' r"
  shows "rf_inv g'"
proof -
  have p: "label_is (\<lambda>l. position l = e) g e = label_is (\<lambda>l. position l = e) g' e" for e
    by (rule same_core_fields(2) [OF assms(1)])
  have i: "label_is (\<lambda>l. kind l = EL_Init) g getInit = label_is (\<lambda>l. kind l = EL_Init) g' getInit"
    by (rule same_core_fields(1) [OF assms(1)])
  show ?thesis
    unfolding rf_inv_def
  proof (intro conjI allI impI)
    fix e
    have "label_is (\<lambda>l. position l = e) g e \<or> getEventLabel g e = None"
      using assms(2) by (simp add: rf_inv_def)
    then show "label_is (\<lambda>l. position l = e) g' e \<or> getEventLabel g' e = None"
      unfolding p same_core_None [OF assms(1)] .
  next
    show "label_is (\<lambda>l. kind l = EL_Init) g' getInit"
      using assms(2) i by (simp add: rf_inv_def)
  qed (rule assms(3,4), assumption?)+
qed

text \<open>A read of a graph without mixed-size accesses has at most one rf edge.\<close>

definition single_rf :: "ExecutionGraph \<Rightarrow> bool" where
  "single_rf g = (\<forall>e. label_is (\<lambda>l. isRead (kind l) \<longrightarrow> length (rfs l) \<le> 1) g e \<or> getEventLabel g e = None)"

lemma single_rf_getRf:
  assumes "length (rfs l) \<le> 1"
  shows "w \<in> fst ` set (rfs l) \<longleftrightarrow> getRf l = Some w"
  using assms by (cases "rfs l") (auto simp: getRf_def hasRf_def)

text \<open>The graph after the first half of changeRf: new rf set, read detached from its former write.\<close>

definition detached :: "Event option \<Rightarrow> EventLabel \<Rightarrow> ExecutionGraph \<Rightarrow> ExecutionGraph" where
  "detached rf rl g =
     (let g1 = upd_label (position rl) (setRf rf) g
      in case getRf rl of None \<Rightarrow> g1 | Some w \<Rightarrow> detach_reader rl w g1)"

lemma detached_core: "same_core g (detached rf rl g)"
proof -
  let ?g1 = "upd_label (position rl) (setRf rf) g"
  have "same_core g ?g1" by (rule same_core_upd) simp
  moreover have "same_core ?g1 (detached rf rl g)"
    by (simp add: detached_def Let_def detach_reader_core split: option.split)
  ultimately show ?thesis by (rule same_core_trans)
qed

lemma reads_from_detached:
  "getEventLabel g (position rl) = Some rl \<Longrightarrow> isRead (kind rl) \<Longrightarrow>
     reads_from (detached rf rl g) x w =
       (if x = position rl then rf = Some w else reads_from g x w)"
  by (auto simp: detached_def Let_def reads_from_detach reads_from_setRf split: option.split)

lemma listed_detached:
  assumes inv: "rf_inv g" and r: "getEventLabel g (position rl) = Some rl" "isRead (kind rl)"
      "length (rfs rl) \<le> 1"
  shows "(listed_reader (detached rf rl g) w x \<longleftrightarrow> listed_reader g w x \<and> x \<noteq> position rl) \<and>
      (init_listed (detached rf rl g) a x \<longleftrightarrow> init_listed g a x \<and> x \<noteq> position rl)"
proof -
  let ?r = "position rl" and ?g1 = "upd_label (position rl) (setRf rf) g"
  have init: "label_is (\<lambda>l. kind l = EL_Init) g getInit"
    and agree: "\<And>x w. reads_from g x w \<longleftrightarrow> listed_reader g w x"
    and buckets: "\<And>a x. init_listed g a x \<Longrightarrow> label_is (\<lambda>l. SAddr_align (getAddr l) = a) g x"
    using inv by (auto simp: rf_inv_def)
  have bad: "init_listed g a ?r \<Longrightarrow> a = SAddr_align (getAddr rl)" for a
    using buckets [of a ?r] r(1) by (simp add: label_is_def)
  have old: "reads_from g ?r w \<longleftrightarrow> getRf rl = Some w" for w
    using r single_rf_getRf [of rl w] by (simp add: reads_from_def label_is_def)
  have c1: "same_core g ?g1" by (rule same_core_upd) simp
  have il1: "init_listed ?g1 a x = init_listed g a x" for a x
    by (simp add: init_listed_def graph_simps setRf_def)
  show ?thesis
  proof (cases "getRf rl")
    case None
    then have "\<not> listed_reader g v ?r" for v using old agree by simp
    moreover have "listed_reader (detached rf rl g) w x = listed_reader g w x"
      "init_listed (detached rf rl g) a x = init_listed g a x"
      using None il1 by (simp_all add: detached_def listed_reader_setRf)
    ultimately show ?thesis by (metis listed_reader_def)
  next
    case (Some w0)
    then have l0: "listed_reader g w0 ?r" using old agree by simp
    have w0: "label_is (\<lambda>l. isWrite (kind l)) ?g1 w0 \<or> w0 = getInit"
      using l0 same_core_fields(1) [OF c1, of isWrite w0]
      by (auto simp: listed_reader_def label_is_def split: option.splits)
    have i1: "label_is (\<lambda>l. kind l = EL_Init) ?g1 getInit"
      using init same_core_fields(1) [OF c1, of "\<lambda>k. k = EL_Init"] by blast
    have only: "listed_reader g v ?r \<Longrightarrow> v = w0" for v using old agree Some by simp
    have "listed_reader (detached rf rl g) w x \<longleftrightarrow> listed_reader g w x \<and> \<not> (w = w0 \<and> x = ?r)" for w x
      using listed_reader_detach [OF i1 w0, of rl w x] bad il1 Some
      by (simp add: detached_def listed_reader_setRf)
    then have li: "listed_reader (detached rf rl g) w x \<longleftrightarrow> listed_reader g w x \<and> x \<noteq> ?r" for w x
      using only by blast
    have "init_listed (detached rf rl g) a x \<longleftrightarrow> init_listed g a x" if "x \<noteq> ?r"
      using init_listed_detach [of x rl w0 ?g1 a] il1 that Some by (simp add: detached_def)
    moreover have "\<not> init_listed (detached rf rl g) a ?r"
      using li [of getInit ?r] by (auto simp: listed_reader_def)
    ultimately show ?thesis using li by blast
  qed
qed

text \<open>changeRf is the first half, followed by attaching the read to the new store.\<close>

lemma changeRf_detached:
  assumes inv: "rf_inv g" and r: "getEventLabel g r = Some rl" "isRead (kind rl)"
    and s: "label_is (\<lambda>l. isWrite (kind l)) g s \<or> s = getInit \<or> s = getBottom"
  shows "changeRf r s g = (let g2 = detached (if s = getBottom then None else Some s) rl g
     in if s = getBottom then Some g2 else attach_reader rl s g2)"
proof -
  have "\<exists>l. getEventLabel g s = Some l \<and> position l = s" if "s \<noteq> getBottom"
    using s that inv rf_inv_position [OF inv, of s]
    by (auto simp: rf_inv_def label_is_def split: option.splits)
  then show ?thesis
    using r rf_inv_position [OF inv r(1)]
    by (auto simp: changeRf_def Let_def isBottom_def detached_def)
qed

lemma changeRf_correct:
  assumes inv: "rf_inv g" and r: "getEventLabel g r = Some rl" "isRead (kind rl)" "length (rfs rl) \<le> 1"
    and s: "label_is (\<lambda>l. isWrite (kind l)) g s \<or> s = getInit \<or> s = getBottom"
  shows "\<exists>g'. changeRf r s g = Some g' \<and> rf_inv g' \<and> same_core g g' \<and>
     (\<forall>x w. reads_from g' x w \<longleftrightarrow> (if x = r then w = s \<and> s \<noteq> getBottom else reads_from g x w))"
proof -
  have init: "label_is (\<lambda>l. kind l = EL_Init) g getInit"
    and agree: "\<And>x w. reads_from g x w \<longleftrightarrow> listed_reader g w x"
    and buckets: "\<And>a x. init_listed g a x \<Longrightarrow> label_is (\<lambda>l. SAddr_align (getAddr l) = a) g x"
    using inv by (auto simp: rf_inv_def)
  have rp: "position rl = r" using rf_inv_position [OF inv r(1)] .
  define g2 where "g2 = detached (if s = getBottom then None else Some s) rl g"
  have c2: "same_core g g2" unfolding g2_def by (rule detached_core)
  have rf2: "reads_from g2 x w \<longleftrightarrow> (if x = r then w = s \<and> s \<noteq> getBottom else reads_from g x w)" for x w
    using reads_from_detached [of g rl _ x w] r rp by (auto simp: g2_def)
  have lists: "(listed_reader g2 w x \<longleftrightarrow> listed_reader g w x \<and> x \<noteq> r) \<and>
      (init_listed g2 a x \<longleftrightarrow> init_listed g a x \<and> x \<noteq> r)" for w x a
    using listed_detached [OF inv, of rl] r rp by (simp add: g2_def)
  have bk: "label_is (\<lambda>l. SAddr_align (getAddr l) = a) g' x"
    if "same_core g g'" "init_listed g a x" for g' a x
    using buckets [OF that(2)] same_core_fields(3) [OF that(1), of "\<lambda>b. SAddr_align b = a"] by blast
  have chg: "changeRf r s g = (if s = getBottom then Some g2 else attach_reader rl s g2)"
    using changeRf_detached [OF inv r(1,2) s] by (simp add: g2_def Let_def)
  show ?thesis
  proof (cases "s = getBottom")
    case True
    have "rf_inv g2"
      by (rule rf_inv_cong [OF c2 inv]) (use True rf2 lists agree bk [OF c2] in auto)
    then show ?thesis using True chg c2 rf2 by auto
  next
    case False
    have s2: "label_is (\<lambda>l. isWrite (kind l)) g2 s \<or> s = getInit"
      using s False same_core_fields(1) [OF c2, of isWrite s] by blast
    have i2: "label_is (\<lambda>l. kind l = EL_Init) g2 getInit"
      using init same_core_fields(1) [OF c2, of "\<lambda>k. k = EL_Init"] by blast
    obtain g3 where g3: "attach_reader rl s g2 = Some g3" "same_core g2 g3"
      and rf3: "\<And>x v. reads_from g3 x v = reads_from g2 x v"
      and li3: "\<And>v x. listed_reader g3 v x \<longleftrightarrow> listed_reader g2 v x \<or> v = s \<and> x = r"
      and in3: "\<And>a x. init_listed g3 a x \<longleftrightarrow> init_listed g2 a x \<or>
        s = getInit \<and> x = r \<and> a = SAddr_align (getAddr rl)"
      using attach_reader_correct [OF i2 s2, of rl] lists rp by auto
    have c3: "same_core g g3" using c2 g3(2) same_core_trans by blast
    have r3: "label_is (\<lambda>l. SAddr_align (getAddr l) = SAddr_align (getAddr rl)) g3 r"
      using same_core_fields(3) [OF c3, of "\<lambda>b. SAddr_align b = SAddr_align (getAddr rl)" r] r(1)
      by (simp add: label_is_def)
    have "rf_inv g3"
    proof (rule rf_inv_cong [OF c3 inv])
      show "reads_from g3 x w \<longleftrightarrow> listed_reader g3 w x" for x w
        unfolding rf3 li3 rf2 using lists agree False by auto
      show "label_is (\<lambda>l. SAddr_align (getAddr l) = a) g3 x" if "init_listed g3 a x" for a x
        using that r3 bk [OF c3] lists unfolding in3 by auto
    qed
    then show ?thesis using False chg g3(1) c3 rf2 rf3 by auto
  qed
qed

section \<open>Adding a label\<close>

text \<open>A label added at the end of its thread gets the next stamp if it has none.\<close>

definition stamped :: "Stamp \<Rightarrow> EventLabel \<Rightarrow> EventLabel" where
  "stamped s lab = (if hasStamp lab then lab else setStamp s lab)"

lemma stamped_simps [simp]:
  "kind (stamped s l) = kind l" "position (stamped s l) = position l" "rfs (stamped s l) = rfs l"
  "readerList (stamped s l) = readerList l" "initRfs (stamped s l) = initRfs l"
  "access (stamped s l) = access l"
  by (simp_all add: stamped_def setStamp_def)

lemma addLabelToGraph_append:
  assumes p: "position lab = p" "0 \<le> thread p" "nat (thread p) < length (events g)"
    "index p = int (length (events g ! nat (thread p)))"
  shows "\<exists>g'. addLabelToGraph lab g = Some g' \<and> coherence g' = coherence g \<and>
     length (events g') = length (events g) \<and>
     timestamp g' = (if hasStamp lab then timestamp g else timestamp g + 1) \<and>
     (\<forall>e. getEventLabel g' e = (if e = p then Some (stamped (timestamp g) lab) else getEventLabel g e))"
proof -
  let ?t = "nat (thread p)"
  let ?l = "stamped (timestamp g) lab"
  let ?h = "if hasStamp lab then g else g\<lparr>timestamp := timestamp g + 1\<rparr>"
  let ?g = "?h\<lparr>events := (events g)[?t := events g ! ?t @ [?l]]\<rparr>"
  have ge: "getEventLabel ?g e = (if e = p then Some ?l else getEventLabel g e)" for e
  proof (cases "nat (thread e) = ?t \<and> 0 \<le> thread e")
    case True
    then have "thread e = thread p" using p(2) by (simp add: nat_eq_iff2)
    then show ?thesis
      using p by (auto simp: getEventLabel_def containsPos_iff nth_append Event_eq_iff)
  next
    case False
    then have "e \<noteq> p" using p(2) by auto
    then show ?thesis using False by (auto simp: getEventLabel_def containsPos_iff)
  qed
  have "addLabelToGraph lab g = Some ?g"
    using p ge [of p]
    by (auto simp: addLabelToGraph_def Let_def stamped_def nextStamp_def Stamp_inc_def
        Stamp_add_assign_def setStamp_def)
  then show ?thesis using ge by auto
qed

lemma rf_inv_add:
  assumes inv: "rf_inv g" and new: "getEventLabel g p = None"
    and g': "\<forall>e. getEventLabel g' e = (if e = p then Some l else getEventLabel g e)"
    and l: "position l = p" "rfs l = []" "readerList l = []"
  shows "rf_inv g'"
proof -
  have li: "label_is P g' e = (if e = p then P l else label_is P g e)" for P e
    using g' by (simp add: label_is_def)
  have old: "label_is P g p = False" for P using new by (simp add: label_is_def)
  have pi: "p \<noteq> getInit" using inv old by (auto simp: rf_inv_def)
  have rf: "reads_from g' x w = reads_from g x w" for x w
    unfolding reads_from_def li using l(2) old by simp
  have il: "init_listed g' a x = init_listed g a x" for a x
    unfolding init_listed_def li using pi by simp
  have ls: "listed_reader g' w x = listed_reader g w x" for w x
    unfolding listed_reader_def li il using l(3) old by simp
  have "\<not> init_listed g a p" for a
    using inv old [of "\<lambda>l. SAddr_align (getAddr l) = a"] unfolding rf_inv_def by metis
  then show ?thesis
    unfolding rf_inv_def rf ls il li
    using inv l(1) pi g' old by (auto simp: rf_inv_def)
qed

lemma rf_inv_addLabelToGraph:
  assumes "rf_inv g" "position lab = p" "0 \<le> thread p" "nat (thread p) < length (events g)"
    "index p = int (length (events g ! nat (thread p)))" "rfs lab = []" "readerList lab = []"
  shows "\<exists>g'. addLabelToGraph lab g = Some g' \<and> rf_inv g' \<and>
     getEventLabel g' p = Some (stamped (timestamp g) lab)"
proof -
  have "getEventLabel g p = None" using assms(3-5) by (simp add: getEventLabel_def containsPos_iff)
  then show ?thesis
    using addLabelToGraph_append [OF assms(2-5)] rf_inv_add [OF assms(1), of p _ "stamped (timestamp g) lab"]
      assms by auto
qed

lemma ExecutionGraph_new_eq:
  "ExecutionGraph_new = Some \<lparr>events = [[InitLabel\<lparr>stamp := Some 0, calculatedRels := [VSet_empty],
     calculatedViews := [View_empty], prefixView := Some (VC_View View_empty)\<rparr>]],
     timestamp = 1, coherence = [], recoveryTID = -1\<rparr>"
proof -
  have "addLabelToGraph InitLabel \<lparr>events = [[]], timestamp = 0, coherence = [], recoveryTID = -1\<rparr> =
      Some \<lparr>events = [[InitLabel\<lparr>stamp := Some 0\<rparr>]], timestamp = 1, coherence = [], recoveryTID = -1\<rparr>"
    by (simp add: addLabelToGraph_def Let_def InitLabel_def EventLabel_new_def hasStamp_def
        nextStamp_def Stamp_inc_def Stamp_add_assign_def setStamp_def getInit_def getEventLabel_def
        containsPos_iff)
  then show ?thesis
    by (simp add: ExecutionGraph_new_def upd_label_def containsPos_iff)
qed

lemma rf_inv_new:
  "\<exists>g. ExecutionGraph_new = Some g \<and> rf_inv g \<and> length (events g) = 1 \<and> length (events g ! 0) = 1"
proof -
  let ?l = "InitLabel\<lparr>stamp := Some 0, calculatedRels := [VSet_empty],
     calculatedViews := [View_empty], prefixView := Some (VC_View View_empty)\<rparr>"
  let ?g = "\<lparr>events = [[?l]], timestamp = 1, coherence = [], recoveryTID = -1\<rparr>"
  have ge: "getEventLabel ?g e = (if e = getInit then Some ?l else None)" for e
    by (auto simp: getEventLabel_def containsPos_iff getInit_def Event_eq_iff)
  have l: "kind ?l = EL_Init" "position ?l = getInit" "initRfs ?l = []"
    by (simp_all add: InitLabel_def EventLabel_new_def)
  have "rf_inv ?g"
    unfolding rf_inv_def reads_from_def listed_reader_def init_listed_def label_is_def ge
    using l by (simp add: bucket_def)
  then show ?thesis by (simp add: ExecutionGraph_new_eq)
qed

section \<open>Consistency and validate\<close>

text \<open>The invariant gives every check of validate() but the one on atomicity.\<close>

lemma rf_inv_validate_read:
  assumes "rf_inv g" "getEventLabel g e = Some l" "isRead (kind l)"
  shows "validate_read g l"
proof -
  have "label_is (\<lambda>w. isWrite (kind w) \<longrightarrow> position l \<in> set (readerList w)) g (fst p)"
    if "p \<in> set (rfs l)" for p
  proof -
    have "reads_from g e (fst p)" using assms that by (simp add: reads_from_def label_is_def)
    then have "listed_reader g (fst p) e" using assms(1) by (simp add: rf_inv_def)
    then show ?thesis
      using rf_inv_position [OF assms(1,2)] assms(1) 
      by (auto simp: listed_reader_def rf_inv_def label_is_def split: option.splits)
  qed
  moreover have "containsPos g x" if "label_is P g x" for P x
    using that by (auto simp: label_is_def getEventLabel_def split: option.splits if_splits)
  ultimately show ?thesis by (auto simp: validate_read_def)
qed

lemma rf_inv_validate_readers:
  assumes "rf_inv g" "getEventLabel g e = Some l" "isWrite (kind l)" "r \<in> set (readerList l)"
  shows "containsPosNonEmpty g r \<and> label_is (\<lambda>rl. \<exists>p\<in>set (rfs rl). fst p = position l) g r"
proof -
  have "listed_reader g e r" using assms by (simp add: listed_reader_def label_is_def)
  then have "reads_from g r e" using assms(1) by (simp add: rf_inv_def)
  moreover have "\<not> isRead EL_Empty" by (simp add: kind_defs)
  ultimately show ?thesis
    using rf_inv_position [OF assms(1,2)]
    by (force simp: reads_from_def containsPosNonEmpty_def label_is_def split: option.splits)
qed

section \<open>Properties\<close>

text \<open>C11. Changing the rf edge of a read keeps the graph consistent: on a graph whose rf edges and
  reader lists agree, changing the rf of a read to a write, to INIT or to nothing returns, rf edges
  and reader lists agree again, the read now reads from exactly the new store, no other rf edge
  changes, and nothing else of any label, the coherence or the stamps changes.\<close>

theorem changeRf_consistent:
  assumes "rf_inv g" "getReadLabel g r = Some rl" "length (rfs rl) \<le> 1"
    and "label_is (\<lambda>l. isWrite (kind l)) g s \<or> s = getInit \<or> s = getBottom"
  shows "\<exists>g'. changeRf r s g = Some g' \<and> rf_inv g' \<and> same_core g g' \<and>
     (\<forall>x w. reads_from g' x w \<longleftrightarrow> (if x = r then w = s \<and> s \<noteq> getBottom else reads_from g x w))"
proof -
  have "getEventLabel g r = Some rl" "isRead (kind rl)"
    using assms(2) by (auto simp: getReadLabel_def split: Option.bind_splits if_splits)
  then show ?thesis using changeRf_correct [OF assms(1)] assms(3,4) by blast
qed

theorem changeRf_consistent_witness:
  "\<exists>g g'. rf_inv g \<and> changeRf (Event 0 1) getInit g = Some g' \<and> rf_inv g' \<and>
     reads_from g' (Event 0 1) getInit"
proof -
  obtain g0 where g0: "rf_inv g0" "length (events g0) = 1" "length (events g0 ! 0) = 1"
    using rf_inv_new by blast
  let ?a = "\<lparr>acc_addr = 8, acc_size = 4, acc_type = Signed\<rparr>"
  let ?r = "ReadLabel EL_Read (Event 0 1) Acquire ?a None EventDeps_empty"
  have r: "position ?r = Event 0 1" "rfs ?r = []" "readerList ?r = []" "kind ?r = EL_Read"
    by (simp_all add: ReadLabel_def MemAccessLabel_def EventLabel_new_def)
  obtain g where g: "rf_inv g" "getEventLabel g (Event 0 1) = Some (stamped (timestamp g0) ?r)"
    using rf_inv_addLabelToGraph [OF g0(1) r(1)] g0(2,3) r by auto
  have "getReadLabel g (Event 0 1) = Some (stamped (timestamp g0) ?r)"
    using g(2) r(4) by (simp add: getReadLabel_def kind_defs)
  then show ?thesis
    using changeRf_consistent [OF g(1), of "Event 0 1" _ getInit] r g(1)
    by (auto simp: getInit_def getBottom_def)
qed

end
