(* ===== verification/GraphCut.thy ===== *)
theory GraphCut
  imports ExecGraph
begin

text \<open>
  Restricting a graph (getViewFromStamp, removeAfter, cutToStamp and compressStampsAfter of
  src/src/ExecutionGraph.cpp): which events the view of a stamp contains, and that cutting a
  consistent graph leaves exactly the events up to the stamp and the first event of every thread,
  with every pointer of the remaining labels into the remaining graph.
\<close>

section \<open>Well-formed graphs\<close>

text \<open>
  Stamps grow along program order; the first event of a thread is its start; the two location maps
  have the same keys in the same order; a coherence list holds writes of its location.
\<close>

definition thread_stamps :: "EventLabel list \<Rightarrow> bool" where
  "thread_stamps ls = ((\<forall>l\<in>set ls. hasStamp l) \<and> sorted_wrt (\<lambda>l m. the (stamp l) < the (stamp m)) ls)"

definition stamps_po :: "ExecutionGraph \<Rightarrow> bool" where
  "stamps_po g = (\<forall>ls\<in>set (events g). thread_stamps ls)"

definition starts_first :: "ExecutionGraph \<Rightarrow> bool" where
  "starts_first g = (\<forall>ls\<in>set (events g). ls \<noteq> [] \<and> isThreadStart (kind (hd ls)))"

definition locs_tracked :: "ExecutionGraph \<Rightarrow> bool" where
  "locs_tracked g =
     (label_is (\<lambda>ini. map fst (initRfs ini) = map fst (coherence g)) g getInit \<and>
      distinct (map fst (coherence g)) \<and> (\<forall>a\<in>fst ` set (coherence g). SAddr_align a = a))"

definition co_wf :: "ExecutionGraph \<Rightarrow> bool" where
  "co_wf g = (\<forall>(a, ws)\<in>set (coherence g). \<forall>w\<in>set ws.
     label_is (\<lambda>l. isWrite (kind l) \<and> getBucket (getAddr l) = a) g w)"

text \<open>The positions a label points to; in a well-formed graph they are positions of the graph.\<close>

definition label_ptrs :: "EventLabel \<Rightarrow> Event set" where
  "label_ptrs l =
     (if isWrite (kind l) then set (readerList l) else {}) \<union>
     (if isRead (kind l) then fst ` set (rfs l) else {}) \<union>
     (if isMemAccess (kind l) then set_option (allocLab l) else {}) \<union>
     (if kind l = EL_ThreadFinish then set_option (parentJoin l) else {}) \<union>
     (if isFree (kind l) then set_option (aLab l) else {}) \<union>
     (if kind l = EL_Malloc then set_option (freeLab l) \<union> set (accessList l) else {})"

definition ptrs_in :: "ExecutionGraph \<Rightarrow> bool" where
  "ptrs_in g = (\<forall>e l. getEventLabel g e = Some l \<longrightarrow> (\<forall>p\<in>label_ptrs l. containsPos g p))"

definition graph_wf :: "ExecutionGraph \<Rightarrow> bool" where
  "graph_wf g = (rf_inv g \<and> single_rf g \<and> stamps_po g \<and> starts_first g \<and> locs_tracked g \<and> co_wf g \<and>
     ptrs_in g)"

section \<open>The view of a stamp\<close>

lemma last_leq_Some:
  "last_leq s ls n = Some j \<Longrightarrow> j < n \<and> (\<exists>u. stamp (ls ! j) = Some u \<and> u \<le> s) \<and>
     (\<forall>k. j < k \<longrightarrow> k < n \<longrightarrow> (\<forall>u. stamp (ls ! k) = Some u \<longrightarrow> \<not> u \<le> s))"
  by (induction n) (fastforce simp: less_Suc_eq split: option.splits if_splits)+

lemma last_leq_None:
  "last_leq s ls n = None \<Longrightarrow> \<forall>k<n. \<forall>u. stamp (ls ! k) = Some u \<longrightarrow> \<not> u \<le> s"
  by (induction n) (auto simp: less_Suc_eq split: option.splits if_splits)

lemma thread_stamps_nth:
  assumes "thread_stamps ls" "j < length ls"
  obtains u where "stamp (ls ! j) = Some u"
    and "\<forall>k w. k < length ls \<longrightarrow> stamp (ls ! k) = Some w \<longrightarrow> (j < k \<longleftrightarrow> u < w)"
proof -
  have all: "\<exists>u. stamp (ls ! k) = Some u" if "k < length ls" for k
    using assms(1) nth_mem [OF that] by (auto simp: thread_stamps_def hasStamp_def)
  obtain u where u: "stamp (ls ! j) = Some u" using all [OF assms(2)] by blast
  moreover have "j < k \<longleftrightarrow> u < w" if k: "k < length ls" "stamp (ls ! k) = Some w" for k w
  proof -
    have "the (stamp (ls ! i)) < the (stamp (ls ! i'))" if "i < i'" "i' < length ls" for i i'
      using assms(1) sorted_wrt_nth_less [OF _ that] by (auto simp: thread_stamps_def)
    from this [of j k] this [of k j] show ?thesis
      using u k assms(2) by (cases j k rule: linorder_cases) auto
  qed
  ultimately show thesis using that by blast
qed

text \<open>With stamps in program order, the last position found separates the thread.\<close>

lemma last_leq_separates:
  assumes "thread_stamps ls" "j < length ls" "stamp (ls ! j) = Some u"
  shows "(case last_leq s ls (length ls) of None \<Rightarrow> False | Some m \<Rightarrow> j \<le> m) \<longleftrightarrow> u \<le> s"
proof (cases "last_leq s ls (length ls)")
  case None
  then show ?thesis using last_leq_None [OF None] assms by auto
next
  case (Some m)
  obtain v where v: "stamp (ls ! m) = Some v" "v \<le> s" and m: "m < length ls"
    using last_leq_Some [OF Some] by blast
  obtain v' where "stamp (ls ! m) = Some v'"
    and "\<forall>k w. k < length ls \<longrightarrow> stamp (ls ! k) = Some w \<longrightarrow> (m < k \<longleftrightarrow> v' < w)"
    by (rule thread_stamps_nth [OF assms(1) m])
  with v have le: "\<And>k w. k < length ls \<Longrightarrow> stamp (ls ! k) = Some w \<Longrightarrow> m < k \<longleftrightarrow> v < w" by simp
  show ?thesis
  proof (cases "j \<le> m")
    case True
    then have "u \<le> v" using le [OF assms(2,3)] by auto
    then show ?thesis using Some True v(2) by simp
  next
    case False
    then have "m < j" by simp
    then have "\<not> u \<le> s" using last_leq_Some [OF Some] assms(2,3) by blast
    then show ?thesis using Some False by simp
  qed
qed

lemma getViewFromStamp_getMax:
  assumes "0 \<le> t"
  shows "View_getMax (getViewFromStamp g s) t =
     (if nat t < length (events g) then
        case last_leq s (events g ! nat t) (length (events g ! nat t)) of Some j \<Rightarrow> int j | None \<Rightarrow> 0
      else 0)"
proof -
  let ?f = "\<lambda>i v. case last_leq s (events g ! i) (length (events g ! i)) of
      Some j \<Rightarrow> View_setMax v (Event (int i) (int j)) | None \<Rightarrow> v"
  have "View_getMax (fold ?f [0..<n] View_empty) t = (if nat t < n then
        case last_leq s (events g ! nat t) (length (events g ! nat t)) of Some j \<Rightarrow> int j | None \<Rightarrow> 0
      else 0)" for n
  proof (induction n)
    case 0
    show ?case using assms by (simp add: view_simps)
  next
    case (Suc n)
    then show ?case using assms
      by (cases "t = int n") (auto simp: view_simps less_Suc_eq split: option.splits)
  qed
  then show ?thesis by (simp add: getViewFromStamp_def)
qed

lemma getViewFromStamp_inv: "View_inv (getViewFromStamp g s)"
  by (auto simp: View_inv_iff getViewFromStamp_getMax split: option.splits)

lemma getViewFromStamp_contains_iff:
  assumes po: "stamps_po g" and l: "getEventLabel g e = Some l" "stamp l = Some u"
  shows "View_contains (getViewFromStamp g s) e \<longleftrightarrow> u \<le> s \<or> index e = 0"
proof -
  let ?ls = "events g ! nat (thread e)"
  have c: "0 \<le> thread e" "nat (thread e) < length (events g)" "0 \<le> index e" "nat (index e) < length ?ls"
    and le: "l = ?ls ! nat (index e)"
    using l(1) by (auto simp: getEventLabel_Some_iff containsPos_iff)
  have "thread_stamps ?ls" using po c(2) by (simp add: stamps_po_def)
  from last_leq_separates [OF this c(4), of u s] show ?thesis
    using c l(2) le by (auto simp: View_contains_def getViewFromStamp_getMax nat_le_iff split: option.splits)
qed

section \<open>The effect of a cut on the labels\<close>

lemmas prune_steps = prune_write_def prune_read_def prune_access_def prune_finish_def prune_free_def
  prune_malloc_def

lemma prune_step_fields [simp]:
  "kind (prune_write v l) = kind l" "kind (prune_read v l) = kind l" "kind (prune_access v l) = kind l"
  "kind (prune_finish v l) = kind l" "kind (prune_free v l) = kind l" "kind (prune_malloc v l) = kind l"
  "position (prune_write v l) = position l" "position (prune_read v l) = position l"
  "position (prune_access v l) = position l" "position (prune_finish v l) = position l"
  "position (prune_free v l) = position l" "position (prune_malloc v l) = position l"
  "access (prune_write v l) = access l" "access (prune_read v l) = access l"
  "access (prune_access v l) = access l" "access (prune_finish v l) = access l"
  "access (prune_free v l) = access l" "access (prune_malloc v l) = access l"
  "stamp (prune_write v l) = stamp l" "stamp (prune_read v l) = stamp l"
  "stamp (prune_access v l) = stamp l" "stamp (prune_finish v l) = stamp l"
  "stamp (prune_free v l) = stamp l" "stamp (prune_malloc v l) = stamp l"
  "initRfs (prune_write v l) = initRfs l" "initRfs (prune_read v l) = initRfs l"
  "initRfs (prune_access v l) = initRfs l" "initRfs (prune_finish v l) = initRfs l"
  "initRfs (prune_free v l) = initRfs l" "initRfs (prune_malloc v l) = initRfs l"
  by (simp_all add: prune_steps removeReader_def removeAccess_def)

lemma prune_label_fields [simp]:
  "kind (prune_label v l) = kind l" "position (prune_label v l) = position l"
  "access (prune_label v l) = access l" "stamp (prune_label v l) = stamp l"
  "initRfs (prune_label v l) = initRfs l" "getAddr (prune_label v l) = getAddr l"
  by (simp_all add: prune_label_def getAddr_def)

lemma prune_rfs_single: "length rs \<le> 1 \<Longrightarrow> prune_rfs v rs = filter (\<lambda>p. View_contains v (fst p)) rs"
  by (cases rs) (auto simp: prune_rfs_def Let_def)

lemma prune_step_lists:
  "accessList (prune_write v l) = accessList l" "freeLab (prune_write v l) = freeLab l"
  "rfs (prune_write v l) = rfs l" "allocLab (prune_write v l) = allocLab l"
  "parentJoin (prune_write v l) = parentJoin l" "aLab (prune_write v l) = aLab l"
  "readerList (prune_write v l) =
     (if isWrite (kind l) then filter (View_contains v) (readerList l) else readerList l)"
  "accessList (prune_read v l) = accessList l" "freeLab (prune_read v l) = freeLab l"
  "readerList (prune_read v l) = readerList l" "allocLab (prune_read v l) = allocLab l"
  "parentJoin (prune_read v l) = parentJoin l" "aLab (prune_read v l) = aLab l"
  "rfs (prune_read v l) =
     (if isRead (kind l) then prune_rfs v (rfs l) else rfs l)"
  "accessList (prune_access v l) = accessList l" "freeLab (prune_access v l) = freeLab l"
  "readerList (prune_access v l) = readerList l" "rfs (prune_access v l) = rfs l"
  "parentJoin (prune_access v l) = parentJoin l" "aLab (prune_access v l) = aLab l"
  "allocLab (prune_access v l) =
     (if isMemAccess (kind l) then prune_opt v (allocLab l) else allocLab l)"
  "accessList (prune_finish v l) = accessList l" "freeLab (prune_finish v l) = freeLab l"
  "readerList (prune_finish v l) = readerList l" "rfs (prune_finish v l) = rfs l"
  "allocLab (prune_finish v l) = allocLab l" "aLab (prune_finish v l) = aLab l"
  "parentJoin (prune_finish v l) =
     (if kind l = EL_ThreadFinish then prune_opt v (parentJoin l) else parentJoin l)"
  "accessList (prune_free v l) = accessList l" "freeLab (prune_free v l) = freeLab l"
  "readerList (prune_free v l) = readerList l" "rfs (prune_free v l) = rfs l"
  "allocLab (prune_free v l) = allocLab l" "parentJoin (prune_free v l) = parentJoin l"
  "aLab (prune_free v l) =
     (if isFree (kind l) then prune_opt v (aLab l) else aLab l)"
  "readerList (prune_malloc v l) = readerList l" "rfs (prune_malloc v l) = rfs l"
  "allocLab (prune_malloc v l) = allocLab l" "parentJoin (prune_malloc v l) = parentJoin l"
  "aLab (prune_malloc v l) = aLab l"
  "accessList (prune_malloc v l) =
     (if kind l = EL_Malloc then filter (View_contains v) (accessList l) else accessList l)"
  "freeLab (prune_malloc v l) =
     (if kind l = EL_Malloc then prune_opt v (freeLab l) else freeLab l)"
  by (simp_all add: prune_steps removeReader_def removeAccess_def)

lemma prune_label_lists:
  "readerList (prune_label v l) =
     (if isWrite (kind l) then filter (View_contains v) (readerList l) else readerList l)"
  "rfs (prune_label v l) = (if isRead (kind l) then prune_rfs v (rfs l) else rfs l)"
  "allocLab (prune_label v l) = (if isMemAccess (kind l) then prune_opt v (allocLab l) else allocLab l)"
  "parentJoin (prune_label v l) =
     (if kind l = EL_ThreadFinish then prune_opt v (parentJoin l) else parentJoin l)"
  "aLab (prune_label v l) = (if isFree (kind l) then prune_opt v (aLab l) else aLab l)"
  "freeLab (prune_label v l) = (if kind l = EL_Malloc then prune_opt v (freeLab l) else freeLab l)"
  "accessList (prune_label v l) =
     (if kind l = EL_Malloc then filter (View_contains v) (accessList l) else accessList l)"
  by (simp_all add: prune_label_def prune_step_lists)

lemma set_option_prune_opt [simp]: "set_option (prune_opt v p) = {e \<in> set_option p. View_contains v e}"
  by (auto simp: prune_opt_def split: option.splits)

lemma prune_label_ptrs:
  assumes "isRead (kind l) \<Longrightarrow> length (rfs l) \<le> 1"
  shows "label_ptrs (prune_label v l) = {p \<in> label_ptrs l. View_contains v p}"
proof -
  have r: "isRead (kind l) \<Longrightarrow> fst ` set (prune_rfs v (rfs l)) = {e \<in> fst ` set (rfs l). View_contains v e}"
    using assms by (auto simp: prune_rfs_single)
  show ?thesis
    unfolding label_ptrs_def prune_label_lists prune_label_fields
    by (cases "isWrite (kind l)"; cases "isRead (kind l)"; simp add: r; blast)
qed

section \<open>The effect of a cut on the graph\<close>

text \<open>Both location maps are restricted to the kept locations and filtered by the view.\<close>

definition restrict_locs :: "(SAddr \<Rightarrow> bool) \<Rightarrow> View \<Rightarrow> (SAddr \<times> Event list) list \<Rightarrow>
    (SAddr \<times> Event list) list" where
  "restrict_locs keep v m =
     map (\<lambda>p. (fst p, filter (View_contains v) (snd p))) (filter (\<lambda>p. keep (fst p)) m)"

lemma restrict_locs_simps [simp]:
  "restrict_locs keep v [] = []"
  "restrict_locs keep v (p # m) = (if keep (fst p)
     then (fst p, filter (View_contains v) (snd p)) # restrict_locs keep v m else restrict_locs keep v m)"
  "map fst (restrict_locs keep v m) = filter keep (map fst m)"
  by (simp_all add: restrict_locs_def filter_map comp_def)

lemma bucket_restrict_locs:
  "bucket (restrict_locs keep v m) a = (if keep a then filter (View_contains v) (bucket m a) else [])"
  by (induction m) (auto simp: bucket_def)

lemma bucket_upd_skip: "k \<notin> fst ` set m \<Longrightarrow> bucket_upd k f (m @ m') = m @ bucket_upd k f m'"
  by (induction m) auto

lemma remove_after_loop_restrict:
  assumes "map fst rs = map fst ls" "distinct (map fst dn @ map fst ls)"
    "\<forall>a\<in>fst ` set ls. SAddr_align a = a"
  shows "remove_after_loop keep v ls dn rs =
     Some (restrict_locs keep v ls, dn @ restrict_locs keep v rs)"
  using assms
proof (induction keep v ls dn rs rule: remove_after_loop.induct)
  case (3 keep v a ws ls dn r rs)
  obtain ra rws where r: "r = (ra, rws)" by (cases r)
  have a: "ra = a" "SAddr_align a = a" "getBucket a = a" using 3(3,5) r by (simp_all add: getBucket_def)
  show ?case
  proof (cases "keep a")
    case True
    let ?r = "(a, filter (View_contains v) rws)"
    have u: "bucket_upd (SAddr_align a) (filter (View_contains v)) (dn @ r # rs) = dn @ ?r # rs"
      using 3(4) r a by (simp add: bucket_upd_skip)
    have "remove_after_loop keep v ls (dn @ [?r]) rs =
        Some (restrict_locs keep v ls, (dn @ [?r]) @ restrict_locs keep v rs)"
      using 3(2) [of "dn @ ?r # rs" "Suc (length dn)"] 3(3-5) True u a by simp
    then show ?thesis using True u a r by simp
  next
    case False
    then show ?thesis using 3(1,3-5) r a by simp
  qed
qed simp_all

text \<open>Updating the labels of a list of positions, each once.\<close>

lemma fold_upd_label:
  assumes "distinct es"
  shows "getEventLabel (fold (\<lambda>e. upd_label e f) es g) x =
      (if x \<in> set es then map_option f (getEventLabel g x) else getEventLabel g x)"
  using assms by (induction es arbitrary: g) (auto simp: graph_simps)

lemma fold_upd_label_fields [simp]:
  "coherence (fold (\<lambda>e. upd_label e f) es g) = coherence g"
  "timestamp (fold (\<lambda>e. upd_label e f) es g) = timestamp g"
  "recoveryTID (fold (\<lambda>e. upd_label e f) es g) = recoveryTID g"
  "length (events (fold (\<lambda>e. upd_label e f) es g)) = length (events g)"
  "containsPos (fold (\<lambda>e. upd_label e f) es g) x = containsPos g x"
  by (induction es arbitrary: g) simp_all

definition view_events :: "View \<Rightarrow> Event list" where
  "view_events v = [Event (int i) j. i \<leftarrow> [0..<length v], j \<leftarrow> [0 .. View_getMax v (int i)]]"

lemma distinct_view_events: "distinct (view_events v)"
proof -
  have "distinct [Event (int i) j. i \<leftarrow> [0..<n], j \<leftarrow> [0 .. View_getMax v (int i)]]" for n
    by (induction n) (auto simp: distinct_map inj_on_def)
  then show ?thesis by (simp add: view_events_def)
qed

lemma set_view_events:
  "set (view_events v) =
     {e. 0 \<le> thread e \<and> nat (thread e) < length v \<and> 0 \<le> index e \<and> View_contains v e}"
proof -
  have "e \<in> set (view_events v) \<longleftrightarrow>
      0 \<le> thread e \<and> nat (thread e) < length v \<and> 0 \<le> index e \<and> View_contains v e" for e
    by (cases e) (force simp: view_events_def View_contains_def image_iff)
  then show ?thesis by blast
qed

lemma getEventLabel_prune_graph:
  "getEventLabel (prune_graph v g) x =
     (if x \<in> set (view_events v) then map_option (prune_label v) (getEventLabel g x) else getEventLabel g x)"
  unfolding prune_graph_def view_events_def [symmetric]
  by (rule fold_upd_label [OF distinct_view_events])

lemma getEventLabel_cut_threads:
  assumes "View_inv v"
  shows "getEventLabel (cut_threads v g) e = (if View_contains v e then getEventLabel g e else None)"
proof -
  have "0 \<le> View_getMax v (thread e)" if "0 \<le> thread e" using assms that by (simp add: View_inv_iff)
  then show ?thesis
    by (auto simp: getEventLabel_def containsPos_iff cut_threads_def View_contains_def nat_less_iff)
qed

text \<open>What cutToStamp leaves: the labels of the view, pruned, and the restricted location maps.\<close>

definition cut_label :: "(SAddr \<Rightarrow> bool) \<Rightarrow> View \<Rightarrow> Event \<Rightarrow> EventLabel \<Rightarrow> EventLabel" where
  "cut_label keep v e l =
     prune_label v (if e = getInit then l\<lparr>initRfs := restrict_locs keep v (initRfs l)\<rparr> else l)"

definition is_cut :: "(SAddr \<Rightarrow> bool) \<Rightarrow> View \<Rightarrow> ExecutionGraph \<Rightarrow> ExecutionGraph \<Rightarrow> bool" where
  "is_cut keep v g g' =
     (coherence g' = restrict_locs keep v (coherence g) \<and> timestamp g' = timestamp g \<and>
      length (events g') = length (events g) \<and>
      (\<forall>e. getEventLabel g' e =
        (if View_contains v e then map_option (cut_label keep v e) (getEventLabel g e) else None)))"

lemma cut_label_fields [simp]:
  "kind (cut_label keep v e l) = kind l" "position (cut_label keep v e l) = position l"
  "access (cut_label keep v e l) = access l" "stamp (cut_label keep v e l) = stamp l"
  "getAddr (cut_label keep v e l) = getAddr l"
  "initRfs (cut_label keep v e l) = (if e = getInit then restrict_locs keep v (initRfs l) else initRfs l)"
  by (simp_all add: cut_label_def getAddr_def)

lemma cut_label_lists [simp]:
  "readerList (cut_label keep v e l) =
     (if isWrite (kind l) then filter (View_contains v) (readerList l) else readerList l)"
  "rfs (cut_label keep v e l) = (if isRead (kind l) then prune_rfs v (rfs l) else rfs l)"
  by (simp_all add: cut_label_def prune_label_lists)

lemma cut_label_ptrs:
  assumes "isRead (kind l) \<Longrightarrow> length (rfs l) \<le> 1"
  shows "label_ptrs (cut_label keep v e l) = {p \<in> label_ptrs l. View_contains v p}"
proof -
  let ?l = "if e = getInit then l\<lparr>initRfs := restrict_locs keep v (initRfs l)\<rparr> else l"
  have p: "label_ptrs ?l = label_ptrs l" by (simp add: label_ptrs_def)
  have "isRead (kind ?l) \<Longrightarrow> length (rfs ?l) \<le> 1" using assms by (simp split: if_splits)
  from prune_label_ptrs [OF this] show ?thesis unfolding cut_label_def p .
qed

lemma prune_label_start: "isThreadStart (kind l) \<Longrightarrow> prune_label v l = l"
proof -
  assume "isThreadStart (kind l)"
  then have "\<not> isWrite (kind l)" "\<not> isRead (kind l)" "\<not> isMemAccess (kind l)" "kind l \<noteq> EL_ThreadFinish"
    "\<not> isFree (kind l)" "kind l \<noteq> EL_Malloc"
    by (auto simp: kind_defs)
  then show "prune_label v l = l" by (simp add: prune_label_def prune_steps)
qed

lemma starts_first_0:
  assumes "starts_first g" "getEventLabel g e = Some l" "index e = 0"
  shows "isThreadStart (kind l)"
proof -
  have "events g ! nat (thread e) \<in> set (events g)" "l = events g ! nat (thread e) ! 0"
    using assms(2,3) by (auto simp: getEventLabel_Some_iff containsPos_iff)
  then show ?thesis using assms(1) by (auto simp: starts_first_def hd_conv_nth)
qed

lemma in_view_events:
  assumes "containsPos g e" "View_contains v e" "index e \<noteq> 0"
  shows "e \<in> set (view_events v)"
  using assms by (auto simp: set_view_events containsPos_iff View_contains_def View_getMax_def split: if_splits)

lemma kept_buckets_iff:
  assumes "starts_first g" "getEventLabel g e = Some l" "isMemAccess (kind l)" "View_contains v e"
  shows "getBucket (getAddr l) \<in> set (kept_buckets g v)"
proof -
  have "index e \<noteq> 0" using starts_first_0 [OF assms(1,2)] assms(3) kind_disjoint(4) by blast
  then have "e \<in> set (view_events v)"
    using assms(2,4) in_view_events by (auto simp: getEventLabel_Some_iff)
  then obtain i j where "i < length v" "0 \<le> j" "j \<le> View_getMax v (int i)" "e = Event (int i) j"
    by (auto simp: view_events_def)
  then show ?thesis using assms(2,3) by (force simp: kept_buckets_def)
qed

lemma getEventLabel_coherence: "getEventLabel (g\<lparr>coherence := c\<rparr>) e = getEventLabel g e"
  by (simp add: getEventLabel_def containsPos_iff)

lemma cutToStamp_is_cut:
  assumes "graph_wf g" "v = getViewFromStamp g s" "keep = (\<lambda>a. a \<in> set (kept_buckets g v))"
  shows "\<exists>g'. cutToStamp s g = Some g' \<and> is_cut keep v g g'"
proof -
  have wf: "starts_first g" "locs_tracked g" using assms(1) by (simp_all add: graph_wf_def)
  obtain ini where ini: "getEventLabel g getInit = Some ini"
    "map fst (initRfs ini) = map fst (coherence g)"
    using wf(2) by (auto simp: locs_tracked_def label_is_def split: option.splits)
  let ?irfs = "restrict_locs keep v (initRfs ini)"
  let ?g1 = "(upd_label getInit (\<lambda>l. l\<lparr>initRfs := ?irfs\<rparr>) g)\<lparr>coherence := restrict_locs keep v (coherence g)\<rparr>"
  have "removeAfter v g = Some ?g1"
    using ini wf(2) remove_after_loop_restrict [of "initRfs ini" "coherence g" "[]" keep v] assms(3)
    by (simp add: removeAfter_def getInitLabel_def getInit_def [symmetric] locs_tracked_def)
  then have cut: "cutToStamp s g = Some (cut_threads v (prune_graph v ?g1))"
    by (simp add: cutToStamp_def assms(2) [symmetric])
  have ge1: "getEventLabel ?g1 e = (if e = getInit then Some (ini\<lparr>initRfs := ?irfs\<rparr>) else getEventLabel g e)" for e
    using getEventLabel_upd_label [of getInit "\<lambda>l. l\<lparr>initRfs := ?irfs\<rparr>" g e] ini(1)
    by (simp add: getEventLabel_coherence)
  have "getEventLabel (cut_threads v (prune_graph v ?g1)) e =
      (if View_contains v e then map_option (cut_label keep v e) (getEventLabel g e) else None)" for e
  proof (cases "getEventLabel g e")
    case (Some l)
    have "prune_label v l = l \<and> prune_label v (ini\<lparr>initRfs := ?irfs\<rparr>) = ini\<lparr>initRfs := ?irfs\<rparr>"
      if "e \<notin> set (view_events v)" "View_contains v e"
    proof -
      have "index e = 0" using in_view_events that Some by (auto simp: getEventLabel_Some_iff)
      then show ?thesis
        using starts_first_0 [OF wf(1)] ini(1) Some by (simp add: prune_label_start getInit_def)
    qed
    then show ?thesis
      using Some ini(1) unfolding getEventLabel_cut_threads [OF getViewFromStamp_inv [of g s, folded assms(2)]]
        getEventLabel_prune_graph ge1
      by (auto simp: cut_label_def)
  qed (use ini(1) in \<open>auto simp: getEventLabel_cut_threads [OF getViewFromStamp_inv [of g s, folded assms(2)]]
        getEventLabel_prune_graph ge1\<close>)
  then show ?thesis unfolding cut
    by (simp add: is_cut_def) (simp add: cut_threads_def prune_graph_def)
qed

section \<open>Cutting keeps the graph well-formed\<close>

lemma getEventLabel_nat:
  "getEventLabel g (Event (int t) (int i)) =
     (if t < length (events g) \<and> i < length (events g ! t) then Some (events g ! t ! i) else None)"
  by (simp add: getEventLabel_def containsPos_iff)

lemma getEventLabel_natE:
  assumes "getEventLabel g e = Some l"
  obtains t i where "e = Event (int t) (int i)" "t < length (events g)" "i < length (events g ! t)"
    "l = events g ! t ! i"
  using assms that [of "nat (thread e)" "nat (index e)"]
  by (auto simp: getEventLabel_Some_iff containsPos_iff Event_eq_iff)

lemma stamps_po_iff:
  "stamps_po g \<longleftrightarrow> (\<forall>e l. getEventLabel g e = Some l \<longrightarrow> hasStamp l) \<and>
     (\<forall>t i j l m. getEventLabel g (Event (int t) (int i)) = Some l \<longrightarrow>
        getEventLabel g (Event (int t) (int j)) = Some m \<longrightarrow> i < j \<longrightarrow> the (stamp l) < the (stamp m))"
    (is "?L \<longleftrightarrow> ?R1 \<and> ?R2")
proof
  assume po: ?L
  have "hasStamp l" if l: "getEventLabel g e = Some l" for e l
  proof -
    obtain t where "events g ! t \<in> set (events g)" "l \<in> set (events g ! t)"
      using l by (rule getEventLabel_natE) (metis nth_mem)
    then show ?thesis using po by (auto simp: stamps_po_def thread_stamps_def)
  qed
  then have ?R1 by blast
  moreover have "?R2"
    using po by (force simp: stamps_po_def thread_stamps_def getEventLabel_nat sorted_wrt_iff_nth_less split: if_splits)
  ultimately show "?R1 \<and> ?R2" by blast
next
  assume r: "?R1 \<and> ?R2"
  show ?L unfolding stamps_po_def thread_stamps_def
  proof (intro ballI conjI)
    fix ls l assume "ls \<in> set (events g)" "l \<in> set ls"
    then obtain t i where "t < length (events g)" "ls = events g ! t" "i < length ls" "l = ls ! i"
      by (auto simp: in_set_conv_nth)
    then show "hasStamp l" using r getEventLabel_nat [of g t i] by auto
  next
    fix ls assume "ls \<in> set (events g)"
    then obtain t where t: "t < length (events g)" "ls = events g ! t" by (auto simp: in_set_conv_nth)
    show "sorted_wrt (\<lambda>l m. the (stamp l) < the (stamp m)) ls"
      unfolding sorted_wrt_iff_nth_less
    proof (intro allI impI)
      fix i j assume "i < j" "j < length ls"
      then show "the (stamp (ls ! i)) < the (stamp (ls ! j))"
        using r t getEventLabel_nat [of g t i] getEventLabel_nat [of g t j] by simp
    qed
  qed
qed

lemma starts_first_iff:
  "starts_first g \<longleftrightarrow> (\<forall>t<length (events g). label_is (\<lambda>l. isThreadStart (kind l)) g (Event (int t) 0))"
  using getEventLabel_nat [of g _ 0]
  by (fastforce simp: starts_first_def label_is_def all_set_conv_all_nth hd_conv_nth split: if_splits)

lemma is_cut_label_is:
  "is_cut keep v g g' \<Longrightarrow> label_is P g' e \<longleftrightarrow> View_contains v e \<and> label_is (\<lambda>l. P (cut_label keep v e l)) g e"
  by (auto simp: is_cut_def label_is_def split: option.splits)

lemma is_cut_reads_from:
  assumes "is_cut keep v g g'" "single_rf g"
  shows "reads_from g' r w \<longleftrightarrow> View_contains v r \<and> View_contains v w \<and> reads_from g r w"
proof (cases "getEventLabel g r")
  case (Some l)
  then have "isRead (kind l) \<Longrightarrow> length (rfs l) \<le> 1"
    using assms(2) by (auto simp: single_rf_def label_is_def dest!: spec [of _ r])
  then show ?thesis
    unfolding reads_from_def is_cut_label_is [OF assms(1)] using Some
    by (auto simp: label_is_def prune_rfs_single)
qed (use assms(1) in \<open>simp add: reads_from_def label_is_def is_cut_def\<close>)

lemma is_cut_init_listed:
  assumes "is_cut keep v g g'" "View_contains v getInit"
  shows "init_listed g' a r \<longleftrightarrow> keep a \<and> View_contains v r \<and> init_listed g a r"
  unfolding init_listed_def is_cut_label_is [OF assms(1)] using assms(2)
  by (auto simp: label_is_def bucket_restrict_locs split: option.splits)

lemma init_listed_read:
  assumes "rf_inv g" "init_listed g a r"
  obtains l where "getEventLabel g r = Some l" "isRead (kind l)" "SAddr_align (getAddr l) = a"
proof -
  have "reads_from g r getInit" "label_is (\<lambda>l. SAddr_align (getAddr l) = a) g r"
    using assms by (auto simp: rf_inv_def listed_reader_def)
  then show thesis using that by (auto simp: reads_from_def label_is_def split: option.splits)
qed

lemma is_cut_listed_reader:
  assumes "is_cut keep v g g'" "View_contains v getInit" "rf_inv g" "starts_first g"
    "keep = (\<lambda>a. a \<in> set (kept_buckets g v))"
  shows "listed_reader g' w r \<longleftrightarrow> View_contains v r \<and> View_contains v w \<and> listed_reader g w r"
proof -
  have "init_listed g a r \<Longrightarrow> View_contains v r \<Longrightarrow> keep a" for a
    using init_listed_read [OF assms(3), of a r] kept_buckets_iff [OF assms(4), of r _ v] assms(5)
    by (metis getBucket_def kind_subclasses(1))
  then have "(\<exists>a. init_listed g' a r) \<longleftrightarrow> View_contains v r \<and> (\<exists>a. init_listed g a r)"
    unfolding is_cut_init_listed [OF assms(1,2)] by blast
  then show ?thesis
    unfolding listed_reader_def is_cut_label_is [OF assms(1)] using assms(2)
    by (auto simp: label_is_def split: option.splits)
qed

lemma is_cut_containsPos:
  "is_cut keep v g g' \<Longrightarrow> containsPos g' e \<longleftrightarrow> View_contains v e \<and> containsPos g e"
  by (auto simp: is_cut_def getEventLabel_def split: if_splits dest!: spec [of _ e])

lemma is_cut_rf_inv:
  assumes "is_cut keep v g g'" "View_contains v getInit" "rf_inv g" "starts_first g" "single_rf g"
    "keep = (\<lambda>a. a \<in> set (kept_buckets g v))"
  shows "rf_inv g'"
proof -
  have "label_is (\<lambda>l. SAddr_align (getAddr l) = a) g' r" if "init_listed g' a r" for a r
    using that assms(3) unfolding is_cut_init_listed [OF assms(1,2)] is_cut_label_is [OF assms(1)]
    by (auto simp: rf_inv_def)
  moreover have "label_is (\<lambda>l. position l = e) g' e \<or> getEventLabel g' e = None" for e
    using rf_inv_position [OF assms(3), of e] assms(1)
    by (auto simp: is_cut_def label_is_def split: option.splits)
  moreover have "label_is (\<lambda>l. kind l = EL_Init) g' getInit"
    using assms(2,3) unfolding is_cut_label_is [OF assms(1)] by (simp add: rf_inv_def)
  moreover have "reads_from g' r w \<longleftrightarrow> listed_reader g' w r" for r w
    unfolding is_cut_reads_from [OF assms(1,5)] is_cut_listed_reader [OF assms(1-4,6)]
    using assms(3) by (auto simp: rf_inv_def)
  ultimately show ?thesis by (simp add: rf_inv_def)
qed

lemma is_cut_coherence:
  assumes "is_cut keep v g g'" "starts_first g" "co_wf g" "keep = (\<lambda>a. a \<in> set (kept_buckets g v))"
  shows "bucket (coherence g') a = filter (View_contains v) (bucket (coherence g) a)"
proof -
  have "keep a" if w: "w \<in> set (bucket (coherence g) a)" "View_contains v w" for w
  proof -
    obtain ws where "(a, ws) \<in> set (coherence g)" "w \<in> set ws"
      using w(1) map_of_SomeD [of "coherence g" a] by (cases "map_of (coherence g) a") (auto simp: bucket_def)
    then have "label_is (\<lambda>l. isWrite (kind l) \<and> getBucket (getAddr l) = a) g w"
      using assms(3) by (auto simp: co_wf_def)
    then show ?thesis
      using kept_buckets_iff [OF assms(2), of w _ v] w(2) assms(4)
      by (auto simp: label_is_def split: option.splits)
  qed
  then have "\<not> keep a \<Longrightarrow> filter (View_contains v) (bucket (coherence g) a) = []"
    by (auto simp: filter_empty_conv)
  then show ?thesis using assms(1) by (simp add: is_cut_def bucket_restrict_locs)
qed

lemma is_cut_wf:
  assumes cut: "is_cut keep v g g'" and wf: "graph_wf g" and v: "View_inv v"
    and keep: "keep = (\<lambda>a. a \<in> set (kept_buckets g v))"
  shows "graph_wf g'"
proof -
  have starts: "View_contains v (Event t 0)" if "0 \<le> t" for t
    using v that by (simp add: View_contains_def View_inv_iff)
  have g: "rf_inv g" "single_rf g" "stamps_po g" "starts_first g" "locs_tracked g" "co_wf g" "ptrs_in g"
    using wf by (simp_all add: graph_wf_def)
  have one: "isRead (kind l) \<Longrightarrow> length (rfs l) \<le> 1" if "getEventLabel g e = Some l" for e l
    using g(2) that by (auto simp: single_rf_def label_is_def dest!: spec [of _ e])
  have ge: "getEventLabel g' e = Some l' \<longleftrightarrow>
      View_contains v e \<and> (\<exists>l. getEventLabel g e = Some l \<and> l' = cut_label keep v e l)" for e l'
    using cut by (auto simp: is_cut_def)
  have "rf_inv g'" using is_cut_rf_inv [OF cut starts [of 0, folded getInit_def] g(1,4,2) keep] by simp
  moreover have "single_rf g'"
    unfolding single_rf_def is_cut_label_is [OF cut] using one cut
    by (auto simp: is_cut_def label_is_def prune_rfs_single intro: order_trans [OF length_filter_le]
        split: option.splits)
  moreover have "stamps_po g'"
    using g(3) unfolding stamps_po_iff ge by (auto simp: hasStamp_def)
  moreover have "starts_first g'"
    using g(4) cut starts unfolding starts_first_iff is_cut_label_is [OF cut] by (simp add: is_cut_def)
  moreover have "locs_tracked g'"
  proof -
    have co: "map fst (coherence g') = filter keep (map fst (coherence g))" using cut by (simp add: is_cut_def)
    have "fst ` set (coherence g') = {a \<in> fst ` set (coherence g). keep a}"
      using arg_cong [OF co, of set] by simp
    then show ?thesis
      using g(5) starts [of 0, folded getInit_def] co
      unfolding locs_tracked_def is_cut_label_is [OF cut] by (auto simp: label_is_def split: option.splits)
  qed
  moreover have "co_wf g'"
    using g(6) cut unfolding co_wf_def is_cut_label_is [OF cut]
    by (fastforce simp: is_cut_def restrict_locs_def)
  moreover have "ptrs_in g'"
    unfolding ptrs_in_def ge is_cut_containsPos [OF cut]
    using g(7) one by (auto simp: ptrs_in_def cut_label_ptrs)
  ultimately show ?thesis by (simp add: graph_wf_def)
qed

section \<open>Renumbering stamps\<close>

definition above :: "Stamp \<Rightarrow> EventLabel \<Rightarrow> bool" where
  "above st l = (case stamp l of None \<Rightarrow> False | Some s \<Rightarrow> s > st)"

definition renumbered :: "Stamp \<Rightarrow> Stamp \<Rightarrow> EventLabel list \<Rightarrow> EventLabel \<Rightarrow> EventLabel" where
  "renumbered st next before l =
     (if above st l then l\<lparr>stamp := Some (next + word_of_nat (length (filter (above st) before)))\<rparr> else l)"

lemma compress_labels_renumber:
  "compress_labels st next ls =
     (map (\<lambda>i. renumbered st next (take i ls) (ls ! i)) [0..<length ls],
      next + word_of_nat (length (filter (above st) ls)))"
proof (induction ls arbitrary: "next")
  case (Cons l ls)
  have "map (\<lambda>i. renumbered st next (take i (l # ls)) ((l # ls) ! i)) [0..<length (l # ls)] =
      renumbered st next [] l # map (\<lambda>i. renumbered st next (l # take i ls) (ls ! i)) [0..<length ls]"
    by (simp add: map_upt_Suc del: upt_Suc)
  then show ?case
    using Cons
    by (cases "stamp l")
      (simp_all add: renumbered_def above_def Stamp_inc_def Stamp_add_assign_def setStamp_def algebra_simps)
qed simp

lemma compress_threads_renumber:
  assumes "t < length ts" "i < length (ts ! t)"
  shows "fst (compress_threads st next ts) ! t ! i =
     renumbered st next (concat (take t ts) @ take i (ts ! t)) (ts ! t ! i)"
  using assms
proof (induction ts arbitrary: "next" t)
  case (Cons a ts)
  have shift: "renumbered st (next + word_of_nat (length (filter (above st) a))) xs l =
      renumbered st next (a @ xs) l" for xs l
    by (simp add: renumbered_def algebra_simps)
  show ?case
    using Cons by (cases t) (simp_all add: compress_labels_renumber split_def Let_def shift)
qed simp

lemma compress_threads_shape:
  "map length (fst (compress_threads st next ts)) = map length ts \<and>
   snd (compress_threads st next ts) = next + word_of_nat (length (filter (above st) (concat ts)))"
  by (induction ts arbitrary: "next") (simp_all add: compress_labels_renumber split_def algebra_simps)

lemma compressStampsAfter_label:
  "getEventLabel (compressStampsAfter st g) (Event (int t) (int i)) =
     map_option (renumbered st (st + 1) (concat (take t (events g)) @ take i (events g ! t)))
       (getEventLabel g (Event (int t) (int i)))"
proof -
  let ?ts = "fst (compress_threads st (st + 1) (events g))"
  have ev: "events (compressStampsAfter st g) = ?ts"
    by (simp add: compressStampsAfter_def Let_def resetStamp_def Stamp_add_def Stamp_add_assign_def split_def)
  have len: "map length ?ts = map length (events g)" using compress_threads_shape by blast
  then have "length ?ts = length (events g)" using map_eq_imp_length_eq by blast
  moreover have "length (?ts ! t) = length (events g ! t)" if "t < length (events g)"
    using arg_cong [OF len, of "\<lambda>xs. xs ! t"] that calculation by simp
  ultimately show ?thesis
    unfolding getEventLabel_nat ev by (auto simp: compress_threads_renumber)
qed

lemma compressStampsAfter_timestamp:
  "timestamp (compressStampsAfter st g) = st + 1 + word_of_nat (length (filter (above st) (graph_labels g)))"
  by (simp add: compressStampsAfter_def Let_def resetStamp_def Stamp_add_def Stamp_add_assign_def split_def
      compress_threads_shape graph_labels_def)

text \<open>The rank of a label in label order grows strictly over the labels above the stamp.\<close>

lemma rank_less:
  assumes "above st (xs ! i)" "i < j" "j \<le> length xs"
  shows "length (filter (above st) (take i xs)) < length (filter (above st) (take j xs))"
proof -
  have "take j xs = take i xs @ xs ! i # drop (Suc i) (take j xs)"
    using id_take_nth_drop [of i "take j xs"] assms(2,3) by (simp add: min_def)
  then have "length (filter (above st) (take j xs)) =
      length (filter (above st) (take i xs @ xs ! i # drop (Suc i) (take j xs)))" by simp
  then show ?thesis using assms(1) by simp
qed

text \<open>The position of a label in label order.\<close>

definition label_pos :: "ExecutionGraph \<Rightarrow> nat \<Rightarrow> nat \<Rightarrow> nat" where
  "label_pos g t i = length (concat (take t (events g))) + i"

lemma label_pos_take:
  assumes "t < length (events g)" "i < length (events g ! t)"
  shows "take (label_pos g t i) (graph_labels g) = concat (take t (events g)) @ take i (events g ! t)"
    and "graph_labels g ! label_pos g t i = events g ! t ! i"
    and "label_pos g t i < length (graph_labels g)"
proof -
  have "graph_labels g = concat (take t (events g)) @ events g ! t @ concat (drop (Suc t) (events g))"
    using arg_cong [OF id_take_nth_drop [OF assms(1)], of concat] by (simp add: graph_labels_def)
  then show "take (label_pos g t i) (graph_labels g) = concat (take t (events g)) @ take i (events g ! t)"
    "graph_labels g ! label_pos g t i = events g ! t ! i"
    "label_pos g t i < length (graph_labels g)"
    using assms(2) by (simp_all add: label_pos_def nth_append)
qed

lemma label_pos_less:
  assumes "t < t' \<or> t = t' \<and> i < j" "t' < length (events g)" "i < length (events g ! t)"
  shows "label_pos g t i < label_pos g t' j"
proof (cases "t < t'")
  case True
  then have "take t' (events g) = take t (events g) @ events g ! t # drop (Suc t) (take t' (events g))"
    using id_take_nth_drop [of t "take t' (events g)"] assms(2) by (simp add: min_def)
  then have "length (concat (take t' (events g))) =
      length (concat (take t (events g) @ events g ! t # drop (Suc t) (take t' (events g))))" by simp
  then show ?thesis using assms(3) by (simp add: label_pos_def)
qed (use assms in \<open>simp add: label_pos_def\<close>)

definition rank_of :: "Stamp \<Rightarrow> ExecutionGraph \<Rightarrow> nat \<Rightarrow> nat" where
  "rank_of st g n = length (filter (above st) (take n (graph_labels g)))"

lemma rank_of_less:
  "above st (graph_labels g ! n) \<Longrightarrow> n < m \<Longrightarrow> m \<le> length (graph_labels g) \<Longrightarrow> rank_of st g n < rank_of st g m"
  by (simp add: rank_of_def rank_less)

lemma rank_of_le: "rank_of st g n \<le> length (graph_labels g)"
  by (simp add: rank_of_def order_trans [OF length_filter_le])

lemma compress_label_cases:
  assumes "getEventLabel g (Event (int t) (int i)) = Some l"
  shows "getEventLabel (compressStampsAfter st g) (Event (int t) (int i)) =
     Some (if above st l then l\<lparr>stamp := Some (st + 1 + word_of_nat (rank_of st g (label_pos g t i)))\<rparr> else l)"
  using assms unfolding compressStampsAfter_label
  by (auto simp: getEventLabel_nat renumbered_def rank_of_def label_pos_take split: if_splits)

lemma unat_new_stamp:
  assumes "unat (st :: Stamp) + 1 + n < 2 ^ 32" "k \<le> n"
  shows "unat (st + 1 + word_of_nat k) = unat st + 1 + k"
proof -
  have "unat (word_of_nat (unat st + 1 + k) :: Stamp) = unat st + 1 + k"
    using assms by (simp add: unat_of_nat del: of_nat_add of_nat_Suc)
  then show ?thesis by (simp add: algebra_simps)
qed

lemma new_stamp_less:
  assumes "unat st + 1 + length (graph_labels g) < 2 ^ 32" "above st (graph_labels g ! n)" "n < m"
    "m \<le> length (graph_labels g)"
  shows "st + 1 + word_of_nat (rank_of st g n) < st + 1 + (word_of_nat (rank_of st g m) :: Stamp)"
  using rank_of_less [OF assms(2-4)] unat_new_stamp [OF assms(1) rank_of_le [of st g n]]
    unat_new_stamp [OF assms(1) rank_of_le [of st g m]]
  unfolding word_less_nat_alt by linarith

lemma compress_new_stamp:
  assumes "unat st + 1 + length (graph_labels g) < 2 ^ 32" "getEventLabel g e = Some l" "above st l"
  shows "\<exists>u. getEventLabel (compressStampsAfter st g) e = Some (l\<lparr>stamp := Some u\<rparr>) \<and>
      st < u \<and> u < timestamp (compressStampsAfter st g)"
proof -
  obtain t i where e: "e = Event (int t) (int i)" and ti: "t < length (events g)" "i < length (events g ! t)"
    "l = events g ! t ! i" by (rule getEventLabel_natE [OF assms(2)])
  let ?n = "label_pos g t i"
  have n: "above st (graph_labels g ! ?n)" "?n < length (graph_labels g)"
    using label_pos_take(2,3) [OF ti(1,2)] assms(3) ti(3) by simp_all
  have "st + 1 + word_of_nat (rank_of st g ?n) < timestamp (compressStampsAfter st g)"
    using new_stamp_less [OF assms(1) n order_refl]
    by (simp add: compressStampsAfter_timestamp rank_of_def)
  moreover have "st < st + 1 + word_of_nat (rank_of st g ?n)"
    unfolding word_less_nat_alt unat_new_stamp [OF assms(1) rank_of_le] by simp
  ultimately show ?thesis
    using compress_label_cases [of g t i l st] assms(2,3) e
    by (intro exI [of _ "st + 1 + word_of_nat (rank_of st g ?n)"]) simp
qed

lemma compress_distinct:
  assumes "unat st + 1 + length (graph_labels g) < 2 ^ 32" "getEventLabel g e = Some l" "above st l"
    "getEventLabel g f = Some m" "above st m" "e \<noteq> f"
  shows "map_option stamp (getEventLabel (compressStampsAfter st g) e) \<noteq>
     map_option stamp (getEventLabel (compressStampsAfter st g) f)"
proof -
  obtain t i where e: "e = Event (int t) (int i)" and ti: "t < length (events g)" "i < length (events g ! t)"
    "l = events g ! t ! i" by (rule getEventLabel_natE [OF assms(2)])
  obtain t' j where f: "f = Event (int t') (int j)" and tj: "t' < length (events g)" "j < length (events g ! t')"
    "m = events g ! t' ! j" by (rule getEventLabel_natE [OF assms(4)])
  have "label_pos g t i < label_pos g t' j \<or> label_pos g t' j < label_pos g t i"
    using label_pos_less [of t t' i j g] label_pos_less [of t' t j i g] ti tj assms(6) e f
    by (metis linorder_neqE_nat)
  then have "st + 1 + word_of_nat (rank_of st g (label_pos g t i)) \<noteq>
      st + 1 + (word_of_nat (rank_of st g (label_pos g t' j)) :: Stamp)"
    using new_stamp_less [OF assms(1), of "label_pos g t i" "label_pos g t' j"]
      new_stamp_less [OF assms(1), of "label_pos g t' j" "label_pos g t i"]
      label_pos_take [OF ti(1,2)] label_pos_take [OF tj(1,2)] assms(3,5) ti(3) tj(3)
    by (metis less_imp_le_nat less_irrefl)
  then show ?thesis
    using compress_label_cases [of g t i l st] compress_label_cases [of g t' j m st] assms e f by simp
qed

lemma compress_stamps_po:
  assumes "stamps_po g" "unat st + 1 + length (graph_labels g) < 2 ^ 32"
  shows "stamps_po (compressStampsAfter st g)"
  unfolding stamps_po_iff
proof (intro conjI allI impI)
  let ?g = "compressStampsAfter st g"
  have orig: "\<exists>l. getEventLabel g (Event (int t) (int i)) = Some l"
    if "getEventLabel ?g (Event (int t) (int i)) = Some l'" for t i l'
    using that by (auto simp: compressStampsAfter_label)
  fix e l' assume l': "getEventLabel ?g e = Some l'"
  obtain t i where e: "e = Event (int t) (int i)" using l' by (rule getEventLabel_natE)
  obtain l where l: "getEventLabel g e = Some l" using orig l' e by blast
  then have "hasStamp l" using assms(1) by (auto simp: stamps_po_iff)
  then show "hasStamp l'"
    using compress_label_cases [of g t i l st] l l' e by (auto simp: hasStamp_def split: if_splits)
next
  let ?g = "compressStampsAfter st g"
  fix t i j l' m'
  assume lm: "getEventLabel ?g (Event (int t) (int i)) = Some l'"
    "getEventLabel ?g (Event (int t) (int j)) = Some m'" "i < j"
  then obtain l m where l: "getEventLabel g (Event (int t) (int i)) = Some l"
    and m: "getEventLabel g (Event (int t) (int j)) = Some m"
    by (auto simp: compressStampsAfter_label)
  obtain u w where u: "stamp l = Some u" "stamp m = Some w" "u < w"
    using l m lm(3) assms(1) unfolding stamps_po_iff by (metis hasStamp_def option.collapse)
  show "the (stamp l') < the (stamp m')"
  proof (cases "above st l")
    case True
    have ti: "t < length (events g)" "i < length (events g ! t)" "j < length (events g ! t)"
      "l = events g ! t ! i"
      using l m by (auto simp: getEventLabel_nat split: if_splits)
    have "above st m" using True u by (auto simp: above_def)
    then show ?thesis
      using new_stamp_less [OF assms(2), of "label_pos g t i" "label_pos g t j"] True lm l m
        label_pos_take [OF ti(1,2)] label_pos_take(3) [OF ti(1,3)] label_pos_less [of t t i j g] ti(2,4)
        compress_label_cases [OF l, of st] compress_label_cases [OF m, of st] ti(1)
      by auto
  next
    case False
    then have "u \<le> st" and l': "l' = l"
      using u lm(1) compress_label_cases [OF l, of st] by (simp_all add: above_def)
    show ?thesis
    proof (cases "above st m")
      case True
      obtain x where "m' = m\<lparr>stamp := Some x\<rparr>" "st < x"
        using compress_new_stamp [OF assms(2) m True] lm(2) by auto
      then show ?thesis using \<open>u \<le> st\<close> u(1) l' by simp
    qed (use compress_label_cases [OF m, of st] lm(2) u l' in simp)
  qed
qed

section \<open>An example graph\<close>

text \<open>A write and a read of it after the initializer, as the drivers build it.\<close>

definition example_access :: AAccess where
  "example_access = \<lparr>acc_addr = 8, acc_size = 4, acc_type = Signed\<rparr>"

definition example_init :: EventLabel where
  "example_init = InitLabel\<lparr>stamp := Some 0, initRfs := [(8, [])]\<rparr>"

definition example_write :: EventLabel where
  "example_write = (WriteLabel EL_Write (Event 0 1) Release example_access 42 WA_None EventDeps_empty)
     \<lparr>stamp := Some 1, readerList := [Event 0 2]\<rparr>"

definition example_read :: EventLabel where
  "example_read = (ReadLabel EL_Read (Event 0 2) Acquire example_access (Some (Event 0 1)) EventDeps_empty)
     \<lparr>stamp := Some 2\<rparr>"

definition example_graph :: ExecutionGraph where
  "example_graph = \<lparr>events = [[example_init, example_write, example_read]], timestamp = 3,
     coherence = [(8, [Event 0 1])], recoveryTID = -1\<rparr>"

lemma example_label:
  "getEventLabel example_graph e =
     (if e = getInit then Some example_init else if e = Event 0 1 then Some example_write
      else if e = Event 0 2 then Some example_read else None)"
  by (cases e)
    (auto simp: example_graph_def getEventLabel_def containsPos_iff getInit_def nth_Cons' nat_eq_iff2)

lemma example_fields [simp]:
  "kind example_init = EL_Init" "position example_init = getInit" "stamp example_init = Some 0"
  "initRfs example_init = [(8, [])]"
  "kind example_write = EL_Write" "position example_write = Event 0 1" "stamp example_write = Some 1"
  "readerList example_write = [Event 0 2]" "getAddr example_write = 8" "allocLab example_write = None"
  "kind example_read = EL_Read" "position example_read = Event 0 2" "stamp example_read = Some 2"
  "rfs example_read = [(Event 0 1, example_access)]" "getAddr example_read = 8" "allocLab example_read = None"
  by (simp_all add: example_init_def example_write_def example_read_def InitLabel_def WriteLabel_def
      ReadLabel_def MemAccessLabel_def EventLabel_new_def example_access_def getAddr_def)

lemma example_accesses [simp]:
  "access example_read = example_access" "access example_write = example_access"
  by (simp_all add: example_read_def example_write_def ReadLabel_def WriteLabel_def MemAccessLabel_def)

lemma example_overlap [simp]: "AAccess_overlaps example_access example_access"
  by (simp add: AAccess_overlaps_def AAccess_contains_def example_access_def) code_simp

lemma kind_tests [simp]:
  "isWrite EL_Write" "\<not> isRead EL_Write" "isRead EL_Read" "\<not> isWrite EL_Read" "isThreadStart EL_Init"
  "\<not> isFree EL_Write" "\<not> isFree EL_Read" "\<not> isFree EL_Init" "\<not> isMemAccess EL_Init"
  by (simp_all add: kind_defs)

lemma SAddr_align_8 [simp]: "SAddr_align 8 = 8"
  using SAddr_align_iff [of 8] by simp

lemma example_wf: "graph_wf example_graph"
proof -
  have "rf_inv example_graph"
    unfolding rf_inv_def reads_from_def listed_reader_def init_listed_def label_is_def example_label
    by (auto simp: bucket_def getInit_def split: if_splits)
  moreover have "single_rf example_graph"
    by (auto simp: single_rf_def label_is_def example_label)
  moreover have "stamps_po example_graph"
    by (simp add: stamps_po_def thread_stamps_def example_graph_def hasStamp_def)
  moreover have "starts_first example_graph" by (simp add: starts_first_def example_graph_def)
  moreover have "locs_tracked example_graph"
    unfolding locs_tracked_def label_is_def example_label by (simp add: example_graph_def)
  moreover have "co_wf example_graph"
    unfolding co_wf_def label_is_def example_label
    by (simp add: example_graph_def getBucket_def getInit_def)
  moreover have "ptrs_in example_graph"
    unfolding ptrs_in_def example_label
    by (auto simp: label_ptrs_def example_graph_def containsPos_iff split: if_splits)
  ultimately show ?thesis by (simp add: graph_wf_def)
qed

section \<open>Properties\<close>

lemma reads_from_in:
  assumes "rf_inv g" "reads_from g r w"
  shows "containsPos g r \<and> containsPos g w"
proof -
  have "listed_reader g w r" "label_is (\<lambda>l. kind l = EL_Init) g getInit" using assms by (auto simp: rf_inv_def)
  then show ?thesis
    using assms(2) by (auto simp: reads_from_def listed_reader_def label_is_def getEventLabel_def
        split: option.splits if_splits)
qed

lemma getStoresToLoc_in:
  assumes "co_wf g" "w \<in> set (getStoresToLoc g a)"
  shows "containsPos g w"
proof -
  obtain ws where "(getBucket a, ws) \<in> set (coherence g)" "w \<in> set ws"
    using assms(2) map_of_SomeD [of "coherence g" "getBucket a"]
    by (cases "map_of (coherence g) (getBucket a)") (auto simp: bucket_def getStoresToLoc_def)
  then show ?thesis
    using assms(1) by (auto simp: co_wf_def label_is_def getEventLabel_def split: option.splits if_splits)
qed

text \<open>A cut to the view of a stamp, in terms of stamps.\<close>

lemma cut_stamp_containsPos:
  assumes "is_cut keep (getViewFromStamp g s) g g'" "stamps_po g"
  shows "containsPos g' e \<longleftrightarrow> containsPos g e \<and>
     (index e = 0 \<or> label_is (\<lambda>l. \<exists>u. stamp l = Some u \<and> u \<le> s) g e)"
proof (cases "getEventLabel g e")
  case (Some l)
  then have "hasStamp l" using assms(2) unfolding stamps_po_iff by blast
  then obtain u where "stamp l = Some u" by (auto simp: hasStamp_def)
  then show ?thesis
    using getViewFromStamp_contains_iff [OF assms(2) Some, of u s] Some
    unfolding is_cut_containsPos [OF assms(1)] by (auto simp: label_is_def)
qed (auto simp: is_cut_containsPos [OF assms(1)] getEventLabel_def split: if_splits)



text \<open>C34. compressStampsAfter renumbers the stamps above the given one: labels up to the stamp are
  unchanged, the others get distinct stamps between the given stamp and the next stamp of the graph,
  and stamps still grow along program order. The stamps must not exhaust their 32 bits.\<close>

theorem compressStampsAfter_order:
  assumes "stamps_po g" "unat st + 1 + length (graph_labels g) < 2 ^ 32"
  shows "stamps_po (compressStampsAfter st g) \<and>
     (\<forall>e l. getEventLabel g e = Some l \<longrightarrow> \<not> above st l \<longrightarrow> getEventLabel (compressStampsAfter st g) e = Some l) \<and>
     (\<forall>e l. getEventLabel g e = Some l \<longrightarrow> above st l \<longrightarrow>
        (\<exists>u. getEventLabel (compressStampsAfter st g) e = Some (l\<lparr>stamp := Some u\<rparr>) \<and>
           st < u \<and> u < timestamp (compressStampsAfter st g))) \<and>
     (\<forall>e f l m. getEventLabel g e = Some l \<longrightarrow> above st l \<longrightarrow> getEventLabel g f = Some m \<longrightarrow> above st m \<longrightarrow>
        e \<noteq> f \<longrightarrow> map_option stamp (getEventLabel (compressStampsAfter st g) e) \<noteq>
                 map_option stamp (getEventLabel (compressStampsAfter st g) f))"
proof (intro conjI allI impI)
  show "stamps_po (compressStampsAfter st g)"
    using assms by (rule compress_stamps_po)
next
  fix e l assume l: "getEventLabel g e = Some l" and "\<not> above st l"
  moreover obtain t i where "e = Event (int t) (int i)" using l by (rule getEventLabel_natE)
  ultimately show "getEventLabel (compressStampsAfter st g) e = Some l"
    using compress_label_cases [of g t i l st] by simp
next
  fix e l assume l: "getEventLabel g e = Some l" and a: "above st l"
  show "\<exists>u. getEventLabel (compressStampsAfter st g) e = Some (l\<lparr>stamp := Some u\<rparr>) \<and>
      st < u \<and> u < timestamp (compressStampsAfter st g)"
    using compress_new_stamp [OF assms(2) l a] by blast
next
  fix e f l m assume "getEventLabel g e = Some l" "above st l" "getEventLabel g f = Some m" "above st m" "e \<noteq> f"
  then show "map_option stamp (getEventLabel (compressStampsAfter st g) e) \<noteq>
      map_option stamp (getEventLabel (compressStampsAfter st g) f)"
    using compress_distinct [OF assms(2)] by blast
qed

theorem compressStampsAfter_order_witness:
  "stamps_po (compressStampsAfter 1 example_graph) \<and>
   getEventLabel (compressStampsAfter 1 example_graph) (Event 0 1) = Some example_write"
  using compressStampsAfter_order [of example_graph 1] example_wf
  by (simp add: graph_wf_def example_label above_def getInit_def graph_labels_def)
     (simp add: example_graph_def)

end
