(* ===== verification/GraphRemove.thy ===== *)
theory GraphRemove
  imports GraphCut
begin

text \<open>
  Removing the last event of a thread (ExecutionGraph::removeLast of src/src/ExecutionGraph.cpp):
  it keeps rf edges and reader lists in agreement, except that a read of the initializer stays in
  the reader list of the initializer. Also the pruning of rf edges in cutToStamp for reads with
  several of them.
\<close>

section \<open>Operations that do not touch rf edges\<close>

definition rf_fields :: "EventLabel \<Rightarrow> EventLabelKind \<times> Event \<times> (Event \<times> AAccess) list \<times> Event list \<times>
    (SAddr \<times> Event list) list \<times> AAccess" where
  "rf_fields l = (kind l, position l, rfs l, readerList l, initRfs l, access l)"

definition same_rf :: "ExecutionGraph \<Rightarrow> ExecutionGraph \<Rightarrow> bool" where
  "same_rf g g' = (\<forall>e. map_option rf_fields (getEventLabel g e) = map_option rf_fields (getEventLabel g' e))"

lemma same_rf_refl [simp]: "same_rf g g"
  by (simp add: same_rf_def)

lemma same_rf_trans: "same_rf g h \<Longrightarrow> same_rf h k \<Longrightarrow> same_rf g k"
  by (simp add: same_rf_def)

lemma same_rf_upd: "(\<And>l. rf_fields (f l) = rf_fields l) \<Longrightarrow> same_rf g (upd_label e f g)"
  by (auto simp: same_rf_def graph_simps option.map_comp intro!: option.map_cong)

lemma same_rf_label_is:
  assumes "same_rf g g'" "\<And>l m. rf_fields l = rf_fields m \<Longrightarrow> P l = P m"
  shows "label_is P g e = label_is P g' e"
proof (cases "getEventLabel g e")
  case (Some l)
  moreover have "map_option rf_fields (getEventLabel g e) = map_option rf_fields (getEventLabel g' e)"
    using assms(1) by (simp add: same_rf_def)
  ultimately obtain m where m: "getEventLabel g' e = Some m" "rf_fields l = rf_fields m"
    by (cases "getEventLabel g' e") auto
  then show ?thesis using assms(2) [OF m(2)] Some by (simp add: label_is_def)
next
  case None
  then have "getEventLabel g' e = None"
    using assms(1) unfolding same_rf_def by (metis option.map_disc_iff)
  with None show ?thesis by (simp add: label_is_def)
qed

lemma same_rf_rels:
  assumes "same_rf g g'"
  shows "reads_from g r w = reads_from g' r w" "init_listed g a r = init_listed g' a r"
    "listed_reader g w r = listed_reader g' w r"
    "label_is (\<lambda>l. position l = e) g e = label_is (\<lambda>l. position l = e) g' e"
    "label_is (\<lambda>l. kind l = k) g e = label_is (\<lambda>l. kind l = k) g' e"
    "label_is (\<lambda>l. SAddr_align (getAddr l) = a) g e = label_is (\<lambda>l. SAddr_align (getAddr l) = a) g' e"
proof -
  note eq = same_rf_label_is [OF assms]
  show "label_is (\<lambda>l. position l = e) g e = label_is (\<lambda>l. position l = e) g' e"
    "label_is (\<lambda>l. kind l = k) g e = label_is (\<lambda>l. kind l = k) g' e"
    "label_is (\<lambda>l. SAddr_align (getAddr l) = a) g e = label_is (\<lambda>l. SAddr_align (getAddr l) = a) g' e"
    "reads_from g r w = reads_from g' r w"
    by (unfold reads_from_def, (rule eq, simp add: rf_fields_def getAddr_def)+)
  have i: "init_listed g b r = init_listed g' b r" for b
    unfolding init_listed_def by (rule eq) (simp add: rf_fields_def)
  then show "init_listed g a r = init_listed g' a r" .
  show "listed_reader g w r = listed_reader g' w r"
    unfolding listed_reader_def i
    using eq [of "\<lambda>l. isWrite (kind l) \<and> r \<in> set (readerList l)" w] by (simp add: rf_fields_def)
qed

lemma rf_fields_upd [simp]:
  "rf_fields (removeAccess c l) = rf_fields l" "rf_fields (l\<lparr>freeLab := x\<rparr>) = rf_fields l"
  "rf_fields (l\<lparr>aLab := x\<rparr>) = rf_fields l"
  by (simp_all add: rf_fields_def removeAccess_def)

section \<open>The steps of removeLast\<close>

lemma fold_upd_idem:
  assumes "\<And>l. f (f l) = f l"
  shows "getEventLabel (fold (\<lambda>e. upd_label e f) es g) x =
      (if x \<in> set es then map_option f (getEventLabel g x) else getEventLabel g x)"
  by (induction es arbitrary: g) (auto simp: graph_simps option.map_comp assms cong: option.map_cong)

lemma single_rf_label:
  "single_rf g \<Longrightarrow> getEventLabel g e = Some l \<Longrightarrow> isRead (kind l) \<Longrightarrow> length (rfs l) \<le> 1"
  by (auto simp: single_rf_def label_is_def dest!: spec [of _ e])

text \<open>A read disappears from the reader list of its write.\<close>

lemma unlink_read_label:
  assumes "length (rfs lab) \<le> 1"
  shows "getEventLabel (unlink_read lab g) x =
     (if isRead (kind lab) \<and> x \<in> fst ` set (rfs lab) \<and> label_is (\<lambda>l. isWrite (kind l)) g x
      then map_option (removeReader (\<lambda>r. r = position lab)) (getEventLabel g x) else getEventLabel g x)"
  using assms by (cases "rfs lab") (auto simp: unlink_read_def graph_simps)

lemma unlink_read_rels:
  assumes inv: "rf_inv g" and one: "single_rf g" and l: "getEventLabel g p = Some lab"
  shows "reads_from (unlink_read lab g) x w = reads_from g x w"
    "init_listed (unlink_read lab g) a x = init_listed g a x"
    "listed_reader (unlink_read lab g) w x \<longleftrightarrow> listed_reader g w x \<and> \<not> (x = p \<and> w \<noteq> getInit)"
proof -
  have p: "position lab = p" using rf_inv_position [OF inv l] .
  define S where "S = (\<lambda>x. isRead (kind lab) \<and> x \<in> fst ` set (rfs lab) \<and> label_is (\<lambda>l. isWrite (kind l)) g x)"
  have "isRead (kind lab) \<Longrightarrow> length (rfs lab) \<le> 1" using single_rf_label [OF one l] .
  then have ge: "getEventLabel (unlink_read lab g) x =
      (if S x then map_option (removeReader (\<lambda>r. r = p)) (getEventLabel g x) else getEventLabel g x)" for x
    using unlink_read_label [of lab g x] p by (cases "isRead (kind lab)") (auto simp: S_def unlink_read_def)
  have li: "label_is P (unlink_read lab g) x =
      label_is (\<lambda>l. P (if S x then removeReader (\<lambda>r. r = p) l else l)) g x" for P x
    by (simp add: label_is_def ge split: option.split)
  show "reads_from (unlink_read lab g) x w = reads_from g x w"
    by (auto simp: reads_from_def li removeReader_def)
  have i: "init_listed (unlink_read lab g) a x = init_listed g a x" for a
    by (auto simp: init_listed_def li removeReader_def)
  then show "init_listed (unlink_read lab g) a x = init_listed g a x" .
  have "label_is (\<lambda>l. isWrite (kind l) \<and> p \<in> set (readerList l)) g w \<Longrightarrow> S w" for w
  proof -
    assume w: "label_is (\<lambda>l. isWrite (kind l) \<and> p \<in> set (readerList l)) g w"
    then have "reads_from g p w" using inv by (auto simp: rf_inv_def listed_reader_def)
    then show "S w" using w l by (auto simp: S_def reads_from_def label_is_def split: option.splits)
  qed
  then have "label_is (\<lambda>l. isWrite (kind l) \<and> x \<in> set (readerList l)) (unlink_read lab g) w \<longleftrightarrow>
      label_is (\<lambda>l. isWrite (kind l) \<and> x \<in> set (readerList l)) g w \<and> x \<noteq> p" for w
    unfolding li by (auto simp: removeReader_def label_is_def split: option.splits if_splits)
  moreover have "\<not> label_is (\<lambda>l. isWrite (kind l) \<and> x \<in> set (readerList l)) g getInit"
    using inv by (auto simp: rf_inv_def label_is_def split: option.splits)
  ultimately show "listed_reader (unlink_read lab g) w x \<longleftrightarrow> listed_reader g w x \<and> \<not> (x = p \<and> w \<noteq> getInit)"
    unfolding listed_reader_def i by blast
qed

lemma removeReader_fields: "kind (removeReader c l) = kind l" "rfs (removeReader c l) = rfs l"
  by (simp_all add: removeReader_def)

text \<open>The readers of a write read from nothing.\<close>

lemma unlink_write_rels:
  assumes one: "single_rf g" and readers: "isWrite (kind lab) \<Longrightarrow> set (readerList lab) = {r. reads_from g r p}"
    and nw: "\<not> isWrite (kind lab) \<Longrightarrow> \<not> reads_from g x p"
  shows "reads_from (unlink_write lab g) x w \<longleftrightarrow> reads_from g x w \<and> w \<noteq> p"
    "init_listed (unlink_write lab g) a x = init_listed g a x"
    "listed_reader (unlink_write lab g) w x = listed_reader g w x"
proof -
  define S where "S = (\<lambda>x. isWrite (kind lab) \<and> x \<in> set (readerList lab))"
  have ge: "getEventLabel (unlink_write lab g) x =
      (if S x then map_option (setRf None) (getEventLabel g x) else getEventLabel g x)" for x
    by (auto simp: unlink_write_def S_def setRf_def fold_upd_idem)
  have li: "label_is P (unlink_write lab g) x = label_is (\<lambda>l. P (if S x then setRf None l else l)) g x" for P x
    by (simp add: label_is_def ge split: option.split)
  have i: "init_listed (unlink_write lab g) a x = init_listed g a x" for a
    by (auto simp: init_listed_def li setRf_def)
  then show "init_listed (unlink_write lab g) a x = init_listed g a x" .
  show "listed_reader (unlink_write lab g) w x = listed_reader g w x"
    unfolding listed_reader_def i by (auto simp: li setRf_def)
  have uniq: "w = p" if rr: "reads_from g x p" "reads_from g x w"
  proof -
    obtain l where l: "getEventLabel g x = Some l" "isRead (kind l)" "{p, w} \<subseteq> fst ` set (rfs l)"
      using rr by (auto simp: reads_from_def label_is_def split: option.splits)
    then show ?thesis using single_rf_label [OF one l(1,2)] by (cases "rfs l") auto
  qed
  have sx: "S x \<longleftrightarrow> reads_from g x p" using readers nw by (auto simp: S_def)
  have "\<not> S x \<Longrightarrow> reads_from (unlink_write lab g) x w = reads_from g x w"
    "S x \<Longrightarrow> \<not> reads_from (unlink_write lab g) x w"
    unfolding reads_from_def li by (auto simp: setRf_def label_is_def split: option.splits)
  then show "reads_from (unlink_write lab g) x w \<longleftrightarrow> reads_from g x w \<and> w \<noteq> p"
    using sx uniq by blast
qed

text \<open>The other steps touch no rf edge, and the last one drops the label.\<close>

lemma unlink_others_same_rf:
  assumes "isFree (kind lab) \<Longrightarrow> aLab lab \<noteq> None"
  shows "\<exists>g'. unlink_free lab (unlink_access lab g) = Some g' \<and> same_rf g (unlink_malloc lab g')"
proof -
  have "same_rf g (unlink_access lab g)"
    by (auto simp: unlink_access_def intro!: same_rf_upd split: option.split)
  moreover have "\<exists>g'. unlink_free lab h = Some g' \<and> same_rf h g'" for h
    using assms by (cases "aLab lab") (auto simp: unlink_free_def intro!: same_rf_upd)
  moreover have "same_rf g' (unlink_malloc lab g')" for g'
    by (auto simp: unlink_malloc_def intro!: same_rf_upd split: option.split)
  ultimately show ?thesis by (meson same_rf_trans)
qed

lemma getEventLabel_resizeThread:
  assumes "containsPos g p" "index p = int (length (events g ! nat (thread p))) - 1"
  shows "getEventLabel (resizeThread p g) e = (if e = p then None else getEventLabel g e)"
proof (cases "nat (thread e) = nat (thread p) \<and> 0 \<le> thread e")
  case True
  then have "thread e = thread p" using assms(1) by (simp add: containsPos_iff nat_eq_iff2)
  then show ?thesis
    using assms by (auto simp: resizeThread_def getEventLabel_def containsPos_iff Event_eq_iff)
next
  case False
  then have "e \<noteq> p" using assms(1) by (auto simp: containsPos_iff)
  then show ?thesis using False by (auto simp: resizeThread_def getEventLabel_def containsPos_iff)
qed

text \<open>Lengths of threads survive updates of labels.\<close>

definition same_shape :: "ExecutionGraph \<Rightarrow> ExecutionGraph \<Rightarrow> bool" where
  "same_shape g g' = (\<forall>e. (getEventLabel g e = None) = (getEventLabel g' e = None))"

lemma same_shape_length:
  assumes "same_shape g g'" "containsPos g p"
  shows "length (events g ! nat (thread p)) = length (events g' ! nat (thread p))" "containsPos g' p"
proof -
  let ?t = "nat (thread p)"
  have c: "containsPos g e \<longleftrightarrow> containsPos g' e" for e
    using assms(1) by (auto simp: same_shape_def getEventLabel_def split: if_splits dest!: spec [of _ e])
  show "containsPos g' p" using c assms(2) by simp
  have "i < length (events g ! ?t) \<longleftrightarrow> i < length (events g' ! ?t)" for i
    using c [of "Event (thread p) (int i)"] c [of p] assms(2) by (simp add: containsPos_iff)
  then show "length (events g ! ?t) = length (events g' ! ?t)" by (metis linorder_neqE_nat less_irrefl)
qed

lemma same_rf_shape: "same_rf g g' \<Longrightarrow> same_shape g g'"
  unfolding same_rf_def same_shape_def by (metis option.map_disc_iff)

lemma upd_shape: "same_shape g (upd_label e f g)"
  by (simp add: same_shape_def graph_simps)

lemma same_shape_trans: "same_shape g h \<Longrightarrow> same_shape h k \<Longrightarrow> same_shape g k"
  by (simp add: same_shape_def)

lemma fold_shape:
  assumes "\<And>x g. same_shape g (F x g)"
  shows "same_shape g (fold F xs g)"
proof (induction xs arbitrary: g)
  case (Cons x xs)
  then show ?case using assms [of g x] same_shape_trans by fastforce
qed (simp add: same_shape_def)

lemma unlink_shape: "same_shape g (unlink_write lab (unlink_read lab g))"
proof -
  have r: "same_shape g g" for g by (simp add: same_shape_def)
  have "same_shape g (unlink_read lab g)" for g
    unfolding unlink_read_def by (simp add: fold_shape upd_shape r)
  moreover have "same_shape g (unlink_write lab g)" for g
    unfolding unlink_write_def by (simp add: fold_shape upd_shape r)
  ultimately show ?thesis using same_shape_trans by blast
qed

lemma fold_core:
  assumes "\<And>x g. same_core g (F x g)"
  shows "same_core g (fold F xs g)"
proof (induction xs arbitrary: g)
  case (Cons x xs)
  then show ?case using assms [of g x] same_core_trans by fastforce
qed simp

lemma unlink_core: "same_core g (unlink_write lab (unlink_read lab g))"
proof -
  have "same_core g (unlink_read lab g)" for g
    unfolding unlink_read_def by (simp add: fold_core same_core_upd)
  moreover have "same_core g (unlink_write lab g)" for g
    unfolding unlink_write_def by (simp add: fold_core same_core_upd)
  ultimately show ?thesis using same_core_trans by blast
qed

section \<open>removeLast\<close>

text \<open>All rf edges and listings after the unlinking steps.\<close>

lemma unlink_rels:
  assumes inv: "rf_inv g" and one: "single_rf g" and l: "getEventLabel g p = Some lab" "p \<noteq> getInit"
  shows "reads_from (unlink_write lab (unlink_read lab g)) x w \<longleftrightarrow> reads_from g x w \<and> w \<noteq> p"
    "init_listed (unlink_write lab (unlink_read lab g)) a x = init_listed g a x"
    "listed_reader (unlink_write lab (unlink_read lab g)) w x \<longleftrightarrow>
       listed_reader g w x \<and> \<not> (x = p \<and> w \<noteq> getInit)"
proof -
  let ?h = "unlink_read lab g"
  note r = unlink_read_rels [OF inv one l(1)]
  have rl: "reads_from g x p \<longleftrightarrow> isWrite (kind lab) \<and> x \<in> set (readerList lab)" for x
    using inv l by (auto simp: rf_inv_def listed_reader_def label_is_def)
  have "single_rf ?h"
  proof -
    have "isRead (kind lab) \<Longrightarrow> length (rfs lab) \<le> 1" using single_rf_label [OF one l(1)] .
    then have "getEventLabel ?h e = getEventLabel g e \<or>
        getEventLabel ?h e = map_option (removeReader (\<lambda>r. r = position lab)) (getEventLabel g e)" for e
      using unlink_read_label [of lab g e] by (cases "isRead (kind lab)") (auto simp: unlink_read_def)
    then show ?thesis
      using one unfolding single_rf_def label_is_def
      by (metis (no_types, lifting) option.case_eq_if option.map_disc_iff option.map_sel
          removeReader_fields)
  qed
  then have w: "reads_from (unlink_write lab ?h) x w \<longleftrightarrow> reads_from ?h x w \<and> w \<noteq> p"
    "init_listed (unlink_write lab ?h) a x = init_listed ?h a x"
    "listed_reader (unlink_write lab ?h) w x = listed_reader ?h w x" for x w a
    using unlink_write_rels(1) [of ?h lab p x w] unlink_write_rels(2) [of ?h lab p x a]
      unlink_write_rels(3) [of ?h lab p x w] rl r(1) by auto
  show "reads_from (unlink_write lab ?h) x w \<longleftrightarrow> reads_from g x w \<and> w \<noteq> p"
    "init_listed (unlink_write lab ?h) a x = init_listed g a x"
    "listed_reader (unlink_write lab ?h) w x \<longleftrightarrow> listed_reader g w x \<and> \<not> (x = p \<and> w \<noteq> getInit)"
    unfolding w r by simp_all
qed

lemma removeLast_steps:
  assumes inv: "rf_inv g" and l: "getLastThreadLabel g t = Some lab"
    and free: "isFree (kind lab) \<Longrightarrow> aLab lab \<noteq> None"
  shows "\<exists>k. removeLast t g = Some (resizeThread (position lab) k) \<and>
     same_rf (unlink_write lab (unlink_read lab g)) k \<and>
     (\<forall>e. getEventLabel (resizeThread (position lab) k) e =
        (if e = position lab then None else getEventLabel k e))"
proof -
  let ?h = "unlink_write lab (unlink_read lab g)"
  obtain g' where g': "unlink_free lab (unlink_access lab ?h) = Some g'" and
    same: "same_rf ?h (unlink_malloc lab g')"
    using unlink_others_same_rf [OF free, of ?h] by blast
  let ?p = "position lab" and ?k = "unlink_malloc lab g'"
  have lp: "getEventLabel g (getLastThreadEvent g t) = Some lab" using l by (simp add: getLastThreadLabel_def)
  then have p: "?p = getLastThreadEvent g t" using rf_inv_position [OF inv] by blast
  then have c: "containsPos g ?p" using lp by (simp add: getEventLabel_Some_iff)
  have sh: "same_shape g ?k" using unlink_shape same_rf_shape [OF same] same_shape_trans by blast
  have "index ?p = int (length (events ?k ! nat (thread ?p))) - 1"
    using same_shape_length(1) [OF sh c] c unfolding p
    by (auto simp: getLastThreadEvent_def getThreadSize_def containsPos_iff split: if_splits)
  then have "getEventLabel (resizeThread ?p ?k) e = (if e = ?p then None else getEventLabel ?k e)" for e
    using getEventLabel_resizeThread same_shape_length(2) [OF sh c] by blast
  moreover have "removeLast t g = Some (resizeThread ?p ?k)" using l g' by (simp add: removeLast_def)
  ultimately show ?thesis using same by blast
qed



section \<open>Readers of the initializer, and reads with several rf edges\<close>

definition init_reader :: EventLabel where
  "init_reader = (ReadLabel EL_Read (Event 0 1) Acquire example_access (Some getInit) EventDeps_empty)
     \<lparr>stamp := Some 1\<rparr>"

definition init_reader_graph :: ExecutionGraph where
  "init_reader_graph =
     \<lparr>events = [[InitLabel\<lparr>stamp := Some 0, initRfs := [(8, [Event 0 1])]\<rparr>, init_reader]],
      timestamp = 2, coherence = [(8, [])], recoveryTID = -1\<rparr>"

text \<open>Removing a read of the initializer leaves it in the reader list of the initializer: there is a
  consistent graph from which removeLast removes the last event of a thread and after which the
  initializer still lists the removed event as a reader.\<close>

theorem removeLast_init_reader_dangles:
  "rf_inv init_reader_graph \<and>
   (\<exists>g'. removeLast 0 init_reader_graph = Some g' \<and> \<not> containsPos g' (Event 0 1) \<and>
      init_listed g' 8 (Event 0 1))"
proof
  let ?i = "InitLabel\<lparr>stamp := Some 0, initRfs := [(8, [Event 0 1])]\<rparr>"
  have ge: "getEventLabel init_reader_graph e =
     (if e = getInit then Some ?i else if e = Event 0 1 then Some init_reader else None)" for e
    by (cases e)
      (auto simp: init_reader_graph_def getEventLabel_def containsPos_iff getInit_def nth_Cons' nat_eq_iff2)
  have f: "kind ?i = EL_Init" "position ?i = getInit" "kind init_reader = EL_Read"
    "position init_reader = Event 0 1" "rfs init_reader = [(getInit, example_access)]"
    "getAddr init_reader = 8" "allocLab init_reader = None"
    by (simp_all add: InitLabel_def EventLabel_new_def init_reader_def ReadLabel_def MemAccessLabel_def
        example_access_def getAddr_def)
  show "rf_inv init_reader_graph"
    unfolding rf_inv_def reads_from_def listed_reader_def init_listed_def label_is_def ge
    using f by (auto simp: bucket_def getInit_def split: if_splits)
  have "getLastThreadLabel init_reader_graph 0 = Some init_reader"
    by (simp add: getLastThreadLabel_def getLastThreadEvent_def getThreadSize_def ge getInit_def)
      (simp add: init_reader_graph_def)
  moreover have "label_is (\<lambda>l. isWrite (kind l)) init_reader_graph getInit = False"
    using f by (simp add: label_is_def ge)
  ultimately have "removeLast 0 init_reader_graph = Some (resizeThread (Event 0 1) init_reader_graph)"
    using f by (simp add: removeLast_def unlink_read_def unlink_write_def unlink_access_def unlink_free_def
        unlink_malloc_def)
  moreover have "getEventLabel (resizeThread (Event 0 1) init_reader_graph) getInit = Some ?i"
    by (simp add: resizeThread_def init_reader_graph_def getEventLabel_def containsPos_iff getInit_def)
  moreover have "\<not> containsPos (resizeThread (Event 0 1) init_reader_graph) (Event 0 1)"
    by (simp add: resizeThread_def init_reader_graph_def containsPos_iff)
  ultimately show "\<exists>g'. removeLast 0 init_reader_graph = Some g' \<and> \<not> containsPos g' (Event 0 1) \<and>
      init_listed g' 8 (Event 0 1)"
    by (simp add: init_listed_def label_is_def bucket_def)
qed

text \<open>cutToStamp prunes the rf edges of a read while iterating over them and can skip one: of three
  edges the first two of which lead outside the view, the second is kept.\<close>

theorem prune_rfs_skips_edge:
  "prune_rfs [1] [(Event 1 5, a), (Event 1 6, b), (Event 0 1, c)] = [(Event 1 6, b), (Event 0 1, c)] \<and>
   \<not> View_contains [1] (Event 1 6)"
  by (simp add: prune_rfs_def Let_def View_contains_def View_getMax_def numeral_eq_Suc)

end
