(* ===== verification/GraphIters.thy ===== *)
theory GraphIters
  imports ExecGraph
begin

text \<open>
  Iteration over execution graphs (src/src/GraphIterators.hpp): the iterator over all labels, the
  program-order ranges built from it, and the ranges over coherence, reads-from, from-reads, thread
  creation and join, same location, allocation and deallocation. An iterator is the pair of a thread
  and a position in it; a reverse iterator is the same over the reversed threads. A function that
  returns a label returns None for a null pointer.
\<close>

section \<open>The label iterator\<close>

type_synonym LabelIterator = "nat \<times> nat"

text \<open>advanceThread: skip finished threads; at the last one only the thread part moves.\<close>

function advanceThread :: "'a list list \<Rightarrow> LabelIterator \<Rightarrow> LabelIterator" where
  "advanceThread ts (t, i) =
     (if t < length ts \<and> i = length (ts ! t)
      then if Suc t = length ts then (Suc t, i) else advanceThread ts (Suc t, 0)
      else (t, i))"
  by pat_completeness auto

termination by (relation "measure (\<lambda>(ts, t, i). length ts - t)") auto

declare advanceThread.simps [simp del]

definition label_begin :: "'a list list \<Rightarrow> LabelIterator" where
  "label_begin ts = (if ts \<noteq> [] then advanceThread ts (0, 0) else (0, 0))"

definition label_end :: "'a list list \<Rightarrow> LabelIterator" where
  "label_end ts = (length ts, 0)"

text \<open>The iterator at a position; for a reverse iterator the position counts from the other end.\<close>

definition iter_at :: "'a list list \<Rightarrow> int \<Rightarrow> int \<Rightarrow> LabelIterator" where
  "iter_at ts t i = advanceThread ts (nat t, nat i)"

definition rthreads :: "'a list list \<Rightarrow> 'a list list" where
  "rthreads ts = rev (map rev ts)"

definition riter_at :: "'a list list \<Rightarrow> int \<Rightarrow> int \<Rightarrow> LabelIterator" where
  "riter_at ts t i =
     advanceThread (rthreads ts)
       (nat (int (length ts) - t - 1), nat (int (length (ts ! nat t)) - i - 1))"

definition iter_deref :: "'a list list \<Rightarrow> LabelIterator \<Rightarrow> 'a option" where
  "iter_deref ts it =
     (if fst it < length ts \<and> snd it < length (ts ! fst it) then Some (ts ! fst it ! snd it) else None)"

definition iter_eq :: "'a list list \<Rightarrow> LabelIterator \<Rightarrow> LabelIterator \<Rightarrow> bool" where
  "iter_eq ts a b = (fst a = fst b \<and> (fst a = length ts \<or> snd a = snd b))"

definition iter_next :: "'a list list \<Rightarrow> LabelIterator \<Rightarrow> LabelIterator" where
  "iter_next ts it = advanceThread ts (fst it, Suc (snd it))"

text \<open>The loop of operator--; stepping back from the first label is undefined, None.\<close>

function iter_retreat :: "'a list list \<Rightarrow> LabelIterator \<Rightarrow> LabelIterator option" where
  "iter_retreat ts (t, i) =
     (if t = length ts \<or> i = 0
      then (case t of 0 \<Rightarrow> None | Suc t' \<Rightarrow>
              if t' < length ts then iter_retreat ts (t', length (ts ! t')) else None)
      else Some (t, i - 1))"
  by pat_completeness auto

termination by (relation "measure (\<lambda>(ts, t, i). t)") auto

declare iter_retreat.simps [simp del]

text \<open>The elements between two iterators. Fuel bounds the number of steps; too little is None.\<close>

fun iter_range :: "nat \<Rightarrow> 'a list list \<Rightarrow> LabelIterator \<Rightarrow> LabelIterator \<Rightarrow> 'a list option" where
  "iter_range 0 ts it e = None"
| "iter_range (Suc n) ts it e =
     (if iter_eq ts it e then Some []
      else do { x \<leftarrow> iter_deref ts it; xs \<leftarrow> iter_range n ts (iter_next ts it) e; Some (x # xs) })"

definition iter_fuel :: "'a list list \<Rightarrow> nat" where
  "iter_fuel ts = Suc (length (concat ts))"

definition labels_range :: "'a list list \<Rightarrow> 'a list option" where
  "labels_range ts = iter_range (iter_fuel ts) ts (label_begin ts) (label_end ts)"

section \<open>Program order\<close>

definition po_succ_begin :: "ExecutionGraph \<Rightarrow> Event \<Rightarrow> LabelIterator" where
  "po_succ_begin g e = iter_at (events g) (thread (Event_next e)) (index (Event_next e))"

definition po_succ_end :: "ExecutionGraph \<Rightarrow> Event \<Rightarrow> LabelIterator" where
  "po_succ_end g e =
     (if e = getLastThreadEvent g (thread e) then po_succ_begin g e
      else let l = Event_next (getLastThreadEvent g (thread e)) in iter_at (events g) (thread l) (index l))"

definition po_succs :: "ExecutionGraph \<Rightarrow> Event \<Rightarrow> EventLabel list option" where
  "po_succs g e = iter_range (iter_fuel (events g)) (events g) (po_succ_begin g e) (po_succ_end g e)"

definition po_imm_succ :: "ExecutionGraph \<Rightarrow> EventLabel \<Rightarrow> EventLabel option" where
  "po_imm_succ g lab = getNextLabel g (position lab)"

definition po_pred_begin :: "ExecutionGraph \<Rightarrow> Event \<Rightarrow> LabelIterator" where
  "po_pred_begin g e = riter_at (events g) (thread (Event_prev e)) (index (Event_prev e))"

definition po_pred_end :: "ExecutionGraph \<Rightarrow> Event \<Rightarrow> LabelIterator" where
  "po_pred_end g e =
     (if e = getFirstThreadEvent (thread e) then po_pred_begin g e
      else let f = Event_prev (getFirstThreadEvent (thread e)) in riter_at (events g) (thread f) (index f))"

definition po_preds :: "ExecutionGraph \<Rightarrow> Event \<Rightarrow> EventLabel list option" where
  "po_preds g e =
     iter_range (iter_fuel (events g)) (rthreads (events g)) (po_pred_begin g e) (po_pred_end g e)"

definition po_imm_pred :: "ExecutionGraph \<Rightarrow> EventLabel \<Rightarrow> EventLabel option" where
  "po_imm_pred g lab = getPreviousLabel g (position lab)"

text \<open>The dependency ranges of PPO_ITERATOR.\<close>

definition data_preds :: "EventLabel \<Rightarrow> Event list" where "data_preds lab = data_dep (deps lab)"
definition addr_preds :: "EventLabel \<Rightarrow> Event list" where "addr_preds lab = addr_dep (deps lab)"
definition ctrl_preds :: "EventLabel \<Rightarrow> Event list" where "ctrl_preds lab = ctrl_dep (deps lab)"

section \<open>Locations\<close>

definition hasLocation :: "EventLabel \<Rightarrow> bool" where
  "hasLocation lab = (isMemAccess (kind lab) \<or> kind lab = EL_CLFlush)"

definition getLocation :: "EventLabel \<Rightarrow> SAddr" where
  "getLocation lab =
     (if isMemAccess (kind lab) then getAddr lab else if kind lab = EL_CLFlush then flushAddr lab else 0)"

definition LocationFilter :: "SAddr \<Rightarrow> EventLabel \<Rightarrow> bool" where
  "LocationFilter a sLab = (isMemAccess (kind sLab) \<and> getAddr sLab = a)"

definition poloc_succs :: "ExecutionGraph \<Rightarrow> Event \<Rightarrow> EventLabel list option" where
  "poloc_succs g e =
     do { lab \<leftarrow> getEventLabel g e;
          if hasLocation lab then map_option (filter (LocationFilter (getLocation lab))) (po_succs g e)
          else Some [] }"

definition poloc_imm_succs :: "ExecutionGraph \<Rightarrow> Event \<Rightarrow> EventLabel list option" where
  "poloc_imm_succs g e = map_option (take 1) (poloc_succs g e)"

definition poloc_preds :: "ExecutionGraph \<Rightarrow> Event \<Rightarrow> EventLabel list option" where
  "poloc_preds g e =
     do { lab \<leftarrow> getEventLabel g e;
          if hasLocation lab then map_option (filter (LocationFilter (getLocation lab))) (po_preds g e)
          else Some [] }"

definition poloc_imm_preds :: "ExecutionGraph \<Rightarrow> Event \<Rightarrow> EventLabel list option" where
  "poloc_imm_preds g e = map_option (take 1) (poloc_preds g e)"

definition IDAndLocFilter :: "SAddr \<Rightarrow> Event \<Rightarrow> EventLabel \<Rightarrow> bool" where
  "IDAndLocFilter a pos sLab =
     (if isMemAccess (kind sLab) then position sLab \<noteq> pos \<and> getAddr sLab = a
      else if kind sLab = EL_Malloc then position sLab \<noteq> pos \<and> malloc_contains sLab a
      else if isFree (kind sLab) then position sLab \<noteq> pos \<and> free_contains sLab a
      else False)"

definition samelocs :: "ExecutionGraph \<Rightarrow> EventLabel \<Rightarrow> EventLabel list" where
  "samelocs g lab =
     (if hasLocation lab then filter (IDAndLocFilter (getLocation lab) (position lab)) (graph_labels g)
      else [])"

section \<open>Coherence, reads-from and from-reads\<close>

definition iter_stores :: "ExecutionGraph \<Rightarrow> AAccess \<Rightarrow> Event list" where "iter_stores g a = co_range g a"
definition iter_rstores :: "ExecutionGraph \<Rightarrow> AAccess \<Rightarrow> Event list" where
  "iter_rstores g a = rev (co_range g a)"

definition iter_co_succs :: "ExecutionGraph \<Rightarrow> EventLabel \<Rightarrow> Event list" where
  "iter_co_succs g lab = (if isWrite (kind lab) then co_succ g lab (access lab) else [])"

definition iter_co_imm_succ :: "ExecutionGraph \<Rightarrow> EventLabel \<Rightarrow> Event option" where
  "iter_co_imm_succ g lab = (if isWrite (kind lab) then co_imm_succ g lab else None)"

definition iter_co_preds :: "ExecutionGraph \<Rightarrow> EventLabel \<Rightarrow> Event list" where
  "iter_co_preds g lab = (if isWrite (kind lab) then co_pred g lab else [])"

definition iter_co_imm_pred :: "ExecutionGraph \<Rightarrow> EventLabel \<Rightarrow> Event option" where
  "iter_co_imm_pred g lab = (if isWrite (kind lab) then co_imm_pred g lab else None)"

definition rf_succs :: "EventLabel \<Rightarrow> Event list" where
  "rf_succs lab = (if isWrite (kind lab) then readerList lab else [])"

definition rf_pred :: "ExecutionGraph \<Rightarrow> EventLabel \<Rightarrow> EventLabel option" where
  "rf_pred g lab =
     (if \<not> isRead (kind lab) \<or> \<not> hasRf lab then None else do { w \<leftarrow> getRf lab; getEventLabel g w })"

definition rfe_pred :: "ExecutionGraph \<Rightarrow> EventLabel \<Rightarrow> EventLabel option" where
  "rfe_pred g lab =
     (if isRead (kind lab) \<and> readsExt lab then do { w \<leftarrow> getRf lab; getEventLabel g w } else None)"

definition rfi_pred :: "ExecutionGraph \<Rightarrow> EventLabel \<Rightarrow> EventLabel option" where
  "rfi_pred g lab =
     (if isRead (kind lab) \<and> readsInt lab then do { w \<leftarrow> getRf lab; getEventLabel g w } else None)"

definition iter_fr_succs :: "ExecutionGraph \<Rightarrow> EventLabel \<Rightarrow> Event list option" where
  "iter_fr_succs g lab = (if isRead (kind lab) then fr_succ g lab else Some [])"

definition iter_fr_imm_succ :: "ExecutionGraph \<Rightarrow> EventLabel \<Rightarrow> Event option option" where
  "iter_fr_imm_succ g lab = (if isRead (kind lab) then fr_imm_succ g lab else Some None)"

definition iter_fr_imm_preds :: "ExecutionGraph \<Rightarrow> EventLabel \<Rightarrow> Event list" where
  "iter_fr_imm_preds g lab = (if isWrite (kind lab) then fr_imm_pred g lab else [])"

section \<open>Threads and allocations\<close>

definition tc_succ :: "ExecutionGraph \<Rightarrow> EventLabel \<Rightarrow> EventLabel option" where
  "tc_succ g lab =
     (if kind lab = EL_ThreadCreate then getFirstThreadLabel g (ti_id (childInfo lab)) else None)"

definition tc_pred :: "ExecutionGraph \<Rightarrow> EventLabel \<Rightarrow> EventLabel option" where
  "tc_pred g lab =
     (if isThreadStart (kind lab)
      then do { c \<leftarrow> getEventLabel g (parentCreate lab); if kind c = EL_ThreadCreate then Some c else None }
      else None)"

definition tj_succ :: "ExecutionGraph \<Rightarrow> EventLabel \<Rightarrow> EventLabel option" where
  "tj_succ g lab =
     (if kind lab = EL_ThreadFinish then do { j \<leftarrow> parentJoin lab; getEventLabel g j } else None)"

text \<open>The child of a join is given as an unsigned number and read as a signed thread id.\<close>

definition tj_pred :: "ExecutionGraph \<Rightarrow> EventLabel \<Rightarrow> EventLabel option" where
  "tj_pred g lab =
     (if kind lab = EL_ThreadJoin
      then do { l \<leftarrow> getLastThreadLabel g (sint (childId lab));
                if kind l = EL_ThreadFinish then Some l else None }
      else None)"

definition alloc_succs :: "EventLabel \<Rightarrow> Event list" where
  "alloc_succs lab = (if kind lab = EL_Malloc then accessList lab else [])"

definition alloc_pred :: "ExecutionGraph \<Rightarrow> EventLabel \<Rightarrow> EventLabel option" where
  "alloc_pred g lab =
     (if isMemAccess (kind lab) then do { a \<leftarrow> allocLab lab; getEventLabel g a } else None)"

definition free_succ :: "ExecutionGraph \<Rightarrow> EventLabel \<Rightarrow> EventLabel option" where
  "free_succ g lab = (if kind lab = EL_Malloc then do { d \<leftarrow> freeLab lab; getEventLabel g d } else None)"

definition free_pred :: "ExecutionGraph \<Rightarrow> EventLabel \<Rightarrow> EventLabel option" where
  "free_pred g lab = (if isFree (kind lab) then do { a \<leftarrow> aLab lab; getEventLabel g a } else None)"

section \<open>What the iterator visits\<close>

text \<open>The elements still to come, and the positions an iterator can stand at.\<close>

definition iter_valid :: "'a list list \<Rightarrow> LabelIterator \<Rightarrow> bool" where
  "iter_valid ts it = (fst it = length ts \<or> fst it < length ts \<and> snd it < length (ts ! fst it))"

definition iter_rest :: "'a list list \<Rightarrow> LabelIterator \<Rightarrow> 'a list" where
  "iter_rest ts it =
     (if fst it < length ts then drop (snd it) (ts ! fst it) @ concat (drop (Suc (fst it)) ts) else [])"

lemma concat_drop_nth: "t < length ts \<Longrightarrow> concat (drop t ts) = ts ! t @ concat (drop (Suc t) ts)"
  by (simp add: Cons_nth_drop_Suc [symmetric])

lemma advanceThread_rest:
  "fst it \<le> length ts \<Longrightarrow> (fst it < length ts \<Longrightarrow> snd it \<le> length (ts ! fst it)) \<Longrightarrow>
     iter_valid ts (advanceThread ts it) \<and> iter_rest ts (advanceThread ts it) = iter_rest ts it"
proof (induction ts it rule: advanceThread.induct)
  case (1 ts t i)
  show ?case
  proof (cases "t < length ts \<and> i = length (ts ! t)")
    case True
    then have r: "iter_rest ts (t, i) = concat (drop (Suc t) ts)" by (simp add: iter_rest_def)
    show ?thesis
    proof (cases "Suc t = length ts")
      case True': True
      then show ?thesis
        using True r by (simp add: advanceThread.simps iter_valid_def) (simp add: iter_rest_def)
    next
      case False
      then have "Suc t < length ts" using True by simp
      then have "iter_rest ts (Suc t, 0) = iter_rest ts (t, i)"
        using r concat_drop_nth [of "Suc t" ts] by (simp add: iter_rest_def)
      then show ?thesis using 1(1) [OF True False] False True by (simp add: advanceThread.simps [of ts t])
    qed
  next
    case False
    then have "advanceThread ts (t, i) = (t, i)" using advanceThread.simps [of ts t i] by (simp only: if_False)
    then show ?thesis using 1(2,3) False by (auto simp: iter_valid_def le_less)
  qed
qed

lemma iter_rest_less:
  assumes "iter_valid ts a" "fst a < fst b" "fst b \<le> length ts"
  shows "length (iter_rest ts b) < length (iter_rest ts a)"
proof -
  have a: "snd a < length (ts ! fst a)" "fst a < length ts" using assms by (auto simp: iter_valid_def)
  have "drop (Suc (fst a)) ts = take (fst b - Suc (fst a)) (drop (Suc (fst a)) ts) @ drop (fst b) ts"
    using assms(2) append_take_drop_id [of "fst b - Suc (fst a)" "drop (Suc (fst a)) ts"] by simp
  then have "length (concat (drop (fst b) ts)) \<le> length (concat (drop (Suc (fst a)) ts))"
    by (metis concat_append le_add2 length_append)
  moreover have "length (iter_rest ts b) \<le> length (concat (drop (fst b) ts))"
    using concat_drop_nth [of "fst b" ts] by (simp add: iter_rest_def)
  ultimately show ?thesis using a by (simp add: iter_rest_def)
qed

lemma iter_eq_rest:
  assumes "iter_valid ts a" "iter_valid ts b"
  shows "iter_eq ts a b \<longleftrightarrow> length (iter_rest ts a) = length (iter_rest ts b)"
proof (cases "fst a" "fst b" rule: linorder_cases)
  case less
  then show ?thesis
    using iter_rest_less [OF assms(1), of b] assms(2) by (auto simp: iter_eq_def iter_valid_def)
next
  case greater
  then show ?thesis
    using iter_rest_less [OF assms(2), of a] assms(1) by (auto simp: iter_eq_def iter_valid_def)
next
  case equal
  then show ?thesis using assms by (auto simp: iter_eq_def iter_valid_def iter_rest_def)
qed

lemma iter_step:
  assumes "iter_valid ts a" "iter_rest ts a = x # xs"
  shows "iter_deref ts a = Some x" "iter_valid ts (iter_next ts a)" "iter_rest ts (iter_next ts a) = xs"
proof -
  have a: "fst a < length ts" "snd a < length (ts ! fst a)"
    using assms by (auto simp: iter_valid_def iter_rest_def split: if_splits)
  then have d: "drop (snd a) (ts ! fst a) = ts ! fst a ! snd a # drop (Suc (snd a)) (ts ! fst a)"
    by (simp add: Cons_nth_drop_Suc)
  show "iter_deref ts a = Some x" using assms(2) a d by (simp add: iter_rest_def iter_deref_def)
  have "iter_rest ts (fst a, Suc (snd a)) = xs" using assms(2) a d by (simp add: iter_rest_def)
  then show "iter_valid ts (iter_next ts a)" "iter_rest ts (iter_next ts a) = xs"
    using advanceThread_rest [of "(fst a, Suc (snd a))" ts] a by (simp_all add: iter_next_def)
qed

lemma iter_range_rest:
  assumes "iter_valid ts a" "iter_valid ts b" "iter_rest ts a = xs @ iter_rest ts b" "length xs < n"
  shows "iter_range n ts a b = Some xs"
  using assms
proof (induction xs arbitrary: a n)
  case Nil
  then show ?case by (cases n) (simp_all add: iter_eq_rest)
next
  case (Cons x xs)
  then obtain m where n: "n = Suc m" by (cases n) auto
  have "\<not> iter_eq ts a b" using Cons.prems by (simp add: iter_eq_rest)
  moreover note iter_step [OF Cons.prems(1), of x "xs @ iter_rest ts b"]
  ultimately show ?case using Cons.IH [of "iter_next ts a" m] Cons.prems n by simp
qed

lemma labels_range_concat: "labels_range ts = Some (concat ts)"
proof (cases "ts = []")
  case False
  then have "iter_valid ts (label_begin ts)" "iter_rest ts (label_begin ts) = concat ts"
    using advanceThread_rest [of "(0, 0)" ts] concat_drop_nth [of 0 ts]
    by (simp_all add: label_begin_def iter_rest_def)
  then show ?thesis
    using iter_range_rest [of ts "label_begin ts" "label_end ts" "concat ts" "iter_fuel ts"]
    by (simp add: labels_range_def label_end_def iter_fuel_def iter_valid_def iter_rest_def)
qed (simp add: labels_range_def iter_fuel_def label_begin_def label_end_def iter_eq_def)

lemma concat_rthreads: "concat (rthreads ts) = rev (concat ts)"
  by (simp add: rthreads_def rev_concat rev_map)

lemma rthreads_nth: "t < length ts \<Longrightarrow> rthreads ts ! (length ts - Suc t) = rev (ts ! t)"
  by (simp add: rthreads_def rev_nth)

lemma length_drop_concat:
  assumes "t < length ts"
  shows "length (drop i (ts ! t)) < iter_fuel ts"
proof -
  have "concat ts = concat (take t ts) @ ts ! t @ concat (drop (Suc t) ts)"
    using concat_drop_nth [OF assms] append_take_drop_id [of t ts] by (metis concat_append)
  then have "length (ts ! t) \<le> length (concat ts)" by (metis le_add1 le_add2 le_trans length_append)
  then show ?thesis by (simp add: iter_fuel_def)
qed

text \<open>The range of an iterator from a position to the end of its thread.\<close>

lemma iter_range_thread:
  assumes "t < length ts" "i \<le> length (ts ! t)"
  shows "iter_range (iter_fuel ts) ts (advanceThread ts (t, i)) (advanceThread ts (t, length (ts ! t))) =
     Some (drop i (ts ! t))"
  using advanceThread_rest [of "(t, i)" ts] advanceThread_rest [of "(t, length (ts ! t))" ts] assms
    iter_range_rest [of ts "advanceThread ts (t, i)" "advanceThread ts (t, length (ts ! t))"
      "drop i (ts ! t)" "iter_fuel ts"] length_drop_concat [OF assms(1), of i]
  by (simp add: iter_rest_def)

lemma po_succs_drop:
  assumes "containsPos g e"
  shows "po_succs g e = Some (drop (Suc (nat (index e))) (events g ! nat (thread e)))"
proof -
  let ?t = "nat (thread e)" and ?i = "Suc (nat (index e))"
  have c: "?t < length (events g)" "?i \<le> length (events g ! ?t)" "0 \<le> thread e" "0 \<le> index e"
    using assms by (auto simp: containsPos_iff)
  have b: "po_succ_begin g e = advanceThread (events g) (?t, ?i)"
    using c by (simp add: po_succ_begin_def iter_at_def Event_next_def nat_add_distrib)
  have s: "getLastThreadEvent g (thread e) = Event (thread e) (int (length (events g ! ?t)) - 1)"
    using c by (simp add: getLastThreadEvent_def getThreadSize_def)
  have "po_succ_end g e = advanceThread (events g) (?t, length (events g ! ?t))"
  proof (cases "e = getLastThreadEvent g (thread e)")
    case True
    then have "index e = int (length (events g ! ?t)) - 1" by (metis s Event.sel(2))
    then have "?i = length (events g ! ?t)" using c by simp
    then show ?thesis using True b by (simp add: po_succ_end_def)
  next
    case False
    then show ?thesis unfolding po_succ_end_def s by (simp add: iter_at_def Event_next_def)
  qed
  then show ?thesis using iter_range_thread [OF c(1,2)] b by (simp add: po_succs_def)
qed

lemma po_preds_take:
  assumes "containsPos g e"
  shows "po_preds g e = Some (rev (take (nat (index e)) (events g ! nat (thread e))))"
proof -
  let ?t = "nat (thread e)" and ?i = "nat (index e)" and ?R = "rthreads (events g)"
  let ?u = "length (events g) - Suc ?t" and ?n = "length (events g ! ?t)"
  have c: "?t < length (events g)" "?i < ?n" "0 \<le> thread e" "0 \<le> index e"
    using assms by (auto simp: containsPos_iff)
  have u: "?u < length ?R" "?R ! ?u = rev (events g ! ?t)"
    using c rthreads_nth [of ?t "events g"] by (simp_all add: rthreads_def)
  have at: "riter_at (events g) (thread e) j = advanceThread ?R (?u, nat (int ?n - j - 1))" for j
    using c(1,3) by (simp add: riter_at_def nat_diff_distrib' nat_add_distrib algebra_simps)
  have b: "po_pred_begin g e = advanceThread ?R (?u, ?n - ?i)"
    using c(4) at [of "index e - 1"] by (simp add: po_pred_begin_def Event_prev_def nat_diff_distrib')
  have "po_pred_end g e = advanceThread ?R (?u, ?n)"
  proof (cases "e = getFirstThreadEvent (thread e)")
    case True
    then have "index e = 0" by (metis getFirstThreadEvent_def Event.sel(2))
    then show ?thesis using True b by (simp add: po_pred_end_def)
  next
    case False
    then show ?thesis using at [of "- 1"] by (simp add: po_pred_end_def getFirstThreadEvent_def Event_prev_def)
  qed
  moreover have "iter_fuel (events g) = iter_fuel ?R" by (simp add: iter_fuel_def concat_rthreads)
  ultimately show ?thesis
    using iter_range_thread [of ?u ?R "?n - ?i"] u b c(2) by (simp add: po_preds_def rev_take)
qed

text \<open>Stepping back undoes stepping forward.\<close>

lemma iter_retreat_advance:
  "fst it < length ts \<Longrightarrow> snd it \<le> length (ts ! fst it) \<Longrightarrow>
     iter_retreat ts (advanceThread ts it) = iter_retreat ts it"
proof (induction ts it rule: advanceThread.induct)
  case (1 ts t i)
  show ?case
  proof (cases "i = length (ts ! t)")
    case True
    have back_end: "iter_retreat ts (Suc t, j) = iter_retreat ts (t, i)" if "Suc t = length ts \<or> j = 0" for j
      using that 1(2) True by (simp add: iter_retreat.simps [of ts "Suc t"])
    show ?thesis
      using 1 True back_end advanceThread.simps [of ts t i]
      by (cases "Suc t = length ts") (simp_all add: Suc_lessI)
  next
    case False
    then show ?thesis using advanceThread.simps [of ts t i] by simp
  qed
qed

section \<open>Properties\<close>

text \<open>C29. The iterators visit what they should: from begin to end the label iterator visits all labels,
  thread by thread, the reverse one visits them in the opposite order, stepping back undoes
  stepping forward, and the program-order ranges of an event are the rest of its thread after it
  and, in reverse, the part before it. Every walk ends.\<close>

theorem label_iteration:
  assumes "containsPos g e"
  shows "labels_range (events g) = Some (graph_labels g) \<and>
     labels_range (rthreads (events g)) = Some (rev (graph_labels g)) \<and>
     iter_retreat (events g) (iter_next (events g) (nat (thread e), nat (index e))) =
       Some (nat (thread e), nat (index e)) \<and>
     po_succs g e = Some (drop (Suc (nat (index e))) (events g ! nat (thread e))) \<and>
     po_preds g e = Some (rev (take (nat (index e)) (events g ! nat (thread e))))"
proof -
  let ?t = "nat (thread e)" and ?i = "nat (index e)"
  have c: "?t < length (events g)" "?i < length (events g ! ?t)" using assms by (auto simp: containsPos_iff)
  then have "iter_retreat (events g) (iter_next (events g) (?t, ?i)) = Some (?t, ?i)"
    using iter_retreat_advance [of "(?t, Suc ?i)" "events g"]
    by (simp add: iter_next_def iter_retreat.simps [of "events g" ?t])
  then show ?thesis
    using assms by (simp add: labels_range_concat graph_labels_def concat_rthreads po_succs_drop po_preds_take)
qed

theorem label_iteration_witness:
  "\<exists>g. ExecutionGraph_new = Some g \<and> labels_range (events g) = Some (graph_labels g) \<and>
     po_succs g getInit = Some [] \<and> po_preds g getInit = Some []"
proof -
  obtain g where g: "ExecutionGraph_new = Some g" "length (events g) = 1" "length (events g ! 0) = 1"
    using rf_inv_new by blast
  have "containsPos g getInit" using g by (simp add: containsPos_iff getInit_def)
  from label_iteration [OF this] show ?thesis using g by (auto simp: getInit_def)
qed

end
