(* ===== verification/RAViews.thy ===== *)
theory RAViews
  imports GraphIters GraphCut
begin

text \<open>
  The view calculations of the RA driver (src/src/RADriver.cpp): the depth-first searches
  visitCalc0_0 to visitCalc0_6 and visitCalc1_0 to visitCalc1_2, which compute the happens-before
  and the causal-prefix view of a label from the stored views of its predecessors. All these
  functions have one shape: mark the label as visited in the status vector of the function, maybe
  add the view and position of the label to the result, then for each guarded predecessor call the
  function of the target state unless its status vector has the predecessor already. So each of
  them is given by the list of its guarded calls and by what it adds, and one recursion runs them;
  the status vectors are the list of (state, stamp) pairs that are not unseen any more. Reading the
  stamp of a label without one is None, and so is running out of fuel, which bounds the depth of
  the recursion; the fuel used exceeds the number of (state, stamp) pairs.
\<close>

section \<open>The search\<close>

type_synonym Node = "nat \<times> EventLabel"
type_synonym Visited = "(nat \<times> Stamp) list"

definition call_if :: "bool \<Rightarrow> 'a option \<Rightarrow> ('a \<Rightarrow> bool) \<Rightarrow> nat \<Rightarrow> (nat \<times> 'a) list" where
  "call_if guard p cond q =
     (if guard then (case p of Some pLab \<Rightarrow> if cond pLab then [(q, pLab)] else [] | None \<Rightarrow> []) else [])"

function (sequential)
  visitCalc :: "(nat \<Rightarrow> EventLabel \<Rightarrow> Node list) \<Rightarrow> (nat \<Rightarrow> EventLabel \<Rightarrow> View \<Rightarrow> View) \<Rightarrow> nat \<Rightarrow>
    nat \<Rightarrow> EventLabel \<Rightarrow> Visited \<times> View \<Rightarrow> (Visited \<times> View) option"
and
  visitCalls :: "(nat \<Rightarrow> EventLabel \<Rightarrow> Node list) \<Rightarrow> (nat \<Rightarrow> EventLabel \<Rightarrow> View \<Rightarrow> View) \<Rightarrow> nat \<Rightarrow>
    Node list \<Rightarrow> Visited \<times> View \<Rightarrow> (Visited \<times> View) option"
where
  "visitCalc calls add 0 q lab st = None"
| "visitCalc calls add (Suc n) q lab (vis, calcRes) =
     do { s \<leftarrow> getStamp lab;
          visitCalls calls add n (calls q lab) ((q, s) # vis, add q lab calcRes) }"
| "visitCalls calls add n [] st = Some st"
| "visitCalls calls add n ((q, pLab) # cs) (vis, calcRes) =
     do { s \<leftarrow> getStamp pLab;
          st \<leftarrow> (if (q, s) \<notin> set vis then visitCalc calls add n q pLab (vis, calcRes)
                else Some (vis, calcRes));
          visitCalls calls add n cs st }"
  by pat_completeness auto

termination
  by (relation "measures [\<lambda>x. case x of Inl (_, _, n, _) \<Rightarrow> n | Inr (_, _, n, _) \<Rightarrow> n,
        \<lambda>x. case x of Inl _ \<Rightarrow> 0 | Inr (_, _, _, cs, _) \<Rightarrow> Suc (length cs)]") auto

section \<open>Happens-before: visitCalc0\<close>

definition isRMWPart :: "ExecutionGraph \<Rightarrow> EventLabel \<Rightarrow> bool" where
  "isRMWPart g pLab =
     ((isRead (kind pLab) \<and> isRMWLoad g pLab) \<or> (isWrite (kind pLab) \<and> isRMWStore pLab))"

definition visitCalc0_0 :: "ExecutionGraph \<Rightarrow> EventLabel \<Rightarrow> Node list" where
  "visitCalc0_0 g lab =
     call_if True (tc_pred g lab) (\<lambda>_. True) 2 @
     call_if True (tj_pred g lab) (\<lambda>_. True) 2"

definition visitCalc0_1 :: "ExecutionGraph \<Rightarrow> EventLabel \<Rightarrow> Node list" where
  "visitCalc0_1 g lab =
     call_if True (po_imm_pred g lab) isAtLeastAcquire 4 @
     call_if True (po_imm_pred g lab) (\<lambda>_. True) 0 @
     call_if (isAtLeastAcquire lab \<and> isFence (kind lab)) (po_imm_pred g lab) (\<lambda>_. True) 6 @
     call_if (isAtLeastAcquire lab \<and> kind lab = EL_ThreadJoin) (po_imm_pred g lab) (\<lambda>_. True) 6 @
     call_if (isAtLeastAcquire lab \<and> isThreadStart (kind lab)) (po_imm_pred g lab) (\<lambda>_. True) 6"

definition visitCalc0_2 :: "ExecutionGraph \<Rightarrow> EventLabel \<Rightarrow> Node list" where
  "visitCalc0_2 g lab = []"

definition visitCalc0_3 :: "ExecutionGraph \<Rightarrow> EventLabel \<Rightarrow> Node list" where
  "visitCalc0_3 g lab =
     call_if True (po_imm_pred g lab) (\<lambda>pLab. isAtLeastRelease pLab \<and> isFence (kind pLab)) 2 @
     call_if True (po_imm_pred g lab) (\<lambda>pLab. isAtLeastRelease pLab \<and> kind pLab = EL_ThreadCreate) 2 @
     call_if True (po_imm_pred g lab) (\<lambda>pLab. isAtLeastRelease pLab \<and> kind pLab = EL_ThreadFinish) 2 @
     call_if True (po_imm_pred g lab) (\<lambda>_. True) 3"

definition visitCalc0_4 :: "ExecutionGraph \<Rightarrow> EventLabel \<Rightarrow> Node list" where
  "visitCalc0_4 g lab =
     call_if True (rf_pred g lab) isAtLeastRelease 2 @
     call_if True (rf_pred g lab) (\<lambda>_. True) 3 @
     call_if True (rf_pred g lab) (\<lambda>pLab. isWrite (kind pLab) \<and> isRMWPart g pLab) 5"

definition visitCalc0_5 :: "ExecutionGraph \<Rightarrow> EventLabel \<Rightarrow> Node list" where
  "visitCalc0_5 g lab =
     call_if True (po_imm_pred g lab) (\<lambda>pLab. isRead (kind pLab) \<and> isRMWPart g pLab) 4"

definition visitCalc0_6 :: "ExecutionGraph \<Rightarrow> EventLabel \<Rightarrow> Node list" where
  "visitCalc0_6 g lab =
     call_if True (rf_pred g lab) isAtLeastRelease 2 @
     call_if True (rf_pred g lab) (\<lambda>_. True) 3 @
     call_if True (rf_pred g lab) (\<lambda>pLab. isWrite (kind pLab) \<and> isRMWPart g pLab) 5 @
     call_if True (po_imm_pred g lab) (\<lambda>_. True) 6"

definition calls0 :: "ExecutionGraph \<Rightarrow> nat \<Rightarrow> EventLabel \<Rightarrow> Node list" where
  "calls0 g q lab =
     (if q = 0 then visitCalc0_0 g lab else if q = 1 then visitCalc0_1 g lab
      else if q = 2 then visitCalc0_2 g lab else if q = 3 then visitCalc0_3 g lab
      else if q = 4 then visitCalc0_4 g lab else if q = 5 then visitCalc0_5 g lab
      else if q = 6 then visitCalc0_6 g lab else [])"

text \<open>States 0 and 2 add the stored view of the label and its position to the result.\<close>

definition addView :: "nat \<Rightarrow> nat \<Rightarrow> EventLabel \<Rightarrow> View \<Rightarrow> View" where
  "addView i q lab calcRes =
     (if q = 0 \<or> q = 2 then View_updateIdx (View_update calcRes (label_view lab i)) (position lab)
      else calcRes)"

definition calculate0 :: "ExecutionGraph \<Rightarrow> EventLabel \<Rightarrow> View option" where
  "calculate0 g lab =
     map_option snd (visitCalc (calls0 g) (addView 0) (Suc (7 * length (graph_labels g))) 1 lab
       ([], View_updateIdx View_empty (Event_prev (position lab))))"

section \<open>Causal prefix: visitCalc1\<close>

definition visitCalc1_0 :: "ExecutionGraph \<Rightarrow> EventLabel \<Rightarrow> Node list" where
  "visitCalc1_0 g lab =
     call_if True (tc_pred g lab) (\<lambda>_. True) 2 @
     call_if True (tj_pred g lab) (\<lambda>_. True) 2 @
     call_if True (rf_pred g lab) (\<lambda>_. True) 2"

definition visitCalc1_1 :: "ExecutionGraph \<Rightarrow> EventLabel \<Rightarrow> Node list" where
  "visitCalc1_1 g lab = call_if True (po_imm_pred g lab) (\<lambda>_. True) 0"

definition visitCalc1_2 :: "ExecutionGraph \<Rightarrow> EventLabel \<Rightarrow> Node list" where
  "visitCalc1_2 g lab = []"

definition calls1 :: "ExecutionGraph \<Rightarrow> nat \<Rightarrow> EventLabel \<Rightarrow> Node list" where
  "calls1 g q lab =
     (if q = 0 then visitCalc1_0 g lab else if q = 1 then visitCalc1_1 g lab
      else if q = 2 then visitCalc1_2 g lab else [])"

definition calculate1 :: "ExecutionGraph \<Rightarrow> EventLabel \<Rightarrow> View option" where
  "calculate1 g lab =
     map_option snd (visitCalc (calls1 g) (addView 1) (Suc (7 * length (graph_labels g))) 1 lab
       ([], View_updateIdx View_empty (Event_prev (position lab))))"

section \<open>Setting the views of a label\<close>

text \<open>
  The causal prefix including the label, by the stored prefix views. A missing prefix view is a null
  dereference, and a clock of the other kind aborts.
\<close>

definition getPrefixView :: "EventLabel \<Rightarrow> View option" where
  "getPrefixView l = do { c \<leftarrow> prefixView l; case c of VC_View w \<Rightarrow> Some w | VC_DepView _ \<Rightarrow> None }"

definition updatePrefix :: "ExecutionGraph \<Rightarrow> View \<Rightarrow> Event \<Rightarrow> View option" where
  "updatePrefix g v e = do { l \<leftarrow> getEventLabel g e; w \<leftarrow> getPrefixView l; Some (View_update v w) }"

definition calcPPoRfBefore :: "ExecutionGraph \<Rightarrow> EventLabel \<Rightarrow> View option" where
  "calcPPoRfBefore g lab =
     (let pporf = View_updateIdx View_empty (position lab) in
      if index (position lab) = 0 then Some pporf
      else do { pLab \<leftarrow> getPreviousLabel g (position lab);
                w \<leftarrow> getPrefixView pLab;
                let pporf = View_update pporf w in
                do { pporf \<leftarrow> (if isRead (kind pLab) then try_fold (updatePrefix g) (map fst (rfs pLab)) pporf
                              else Some pporf);
                     pporf \<leftarrow> (if isThreadStart (kind pLab) then updatePrefix g pporf (parentCreate pLab)
                              else Some pporf);
                     (if kind pLab = EL_ThreadJoin
                      then updatePrefix g pporf (getLastThreadEvent g (sint (childId pLab)))
                      else Some pporf) } })"

definition calculatePrefixView :: "ExecutionGraph \<Rightarrow> EventLabel \<Rightarrow> VectorClock option" where
  "calculatePrefixView g lab = map_option VC_View (calcPPoRfBefore g lab)"

text \<open>The members saved and views are empty between calls: they are moved from after each use.\<close>

definition calculateViews :: "ExecutionGraph \<Rightarrow> EventLabel \<Rightarrow> View list option" where
  "calculateViews g lab = do { v0 \<leftarrow> calculate0 g lab; v1 \<leftarrow> calculate1 g lab; Some [v0, v1] }"

definition updateMMViews :: "Event \<Rightarrow> ExecutionGraph \<Rightarrow> ExecutionGraph option" where
  "updateMMViews e g =
     do { lab \<leftarrow> getEventLabel g e;
          let g = upd_label e (\<lambda>l. l\<lparr>calculatedRels := []\<rparr>) g in
          do { lab \<leftarrow> getEventLabel g e;
               vs \<leftarrow> calculateViews g lab;
               let g = upd_label e (\<lambda>l. l\<lparr>calculatedViews := vs\<rparr>) g in
               do { lab \<leftarrow> getEventLabel g e;
                    p \<leftarrow> calculatePrefixView g lab;
                    Some (upd_label e (\<lambda>l. l\<lparr>prefixView := Some p\<rparr>) g) } } }"

section \<open>Correctness of the search\<close>

text \<open>The nodes a search can call, directly or not.\<close>

inductive search_reach :: "(nat \<Rightarrow> EventLabel \<Rightarrow> Node list) \<Rightarrow> Node \<Rightarrow> Node \<Rightarrow> bool" for calls a where
  reach_refl: "search_reach calls a a"
| reach_step: "search_reach calls a b \<Longrightarrow> c \<in> set (calls (fst b) (snd b)) \<Longrightarrow> search_reach calls a c"

lemma search_reach_call: "c \<in> set (calls (fst a) (snd a)) \<Longrightarrow> search_reach calls c w \<Longrightarrow> search_reach calls a w"
  by (rotate_tac, induction rule: search_reach.induct) (auto intro: search_reach.intros)

definition node_key :: "Node \<Rightarrow> nat \<times> Stamp" where
  "node_key w = (fst w, the (stamp (snd w)))"

text \<open>
  What the searches share: a way to run a node that adds a known set of events to a view, for the
  nodes that are fine. A set of fine nodes that have stamps and is closed under calls is a domain.
\<close>

locale label_search =
  fixes calls :: "nat \<Rightarrow> EventLabel \<Rightarrow> Node list"
    and add :: "nat \<Rightarrow> EventLabel \<Rightarrow> View \<Rightarrow> View"
    and adds :: "nat \<Rightarrow> EventLabel \<Rightarrow> Event \<Rightarrow> bool"
    and fine :: "Node \<Rightarrow> bool"
  assumes add_inv: "fine (q, l) \<Longrightarrow> View_inv v \<Longrightarrow> View_inv (add q l v)"
    and add_contains: "fine (q, l) \<Longrightarrow> View_inv v \<Longrightarrow> pos_event x \<Longrightarrow>
      View_contains (add q l v) x \<longleftrightarrow> View_contains v x \<or> adds q l x"
begin

definition domain :: "Node set \<Rightarrow> bool" where
  "domain N = (\<forall>w\<in>N. fine w \<and> stamp (snd w) \<noteq> None \<and> set (calls (fst w) (snd w)) \<subseteq> N)"

definition calls_in :: "Node set \<Rightarrow> Visited \<Rightarrow> bool" where
  "calls_in W vis = (\<forall>w\<in>W. node_key ` set (calls (fst w) (snd w)) \<subseteq> set vis)"

lemma calls_in_mono: "calls_in W vis \<Longrightarrow> set vis \<subseteq> set vis' \<Longrightarrow> calls_in W vis'"
  unfolding calls_in_def by (meson order_trans)

lemma calls_in_sets [simp]:
  "calls_in {} vis" "calls_in (W \<union> W') vis \<longleftrightarrow> calls_in W vis \<and> calls_in W' vis"
  "calls_in (insert w W) vis \<longleftrightarrow> node_key ` set (calls (fst w) (snd w)) \<subseteq> set vis \<and> calls_in W vis"
  unfolding calls_in_def by blast+

definition visited_by :: "Node set \<Rightarrow> Node set \<Rightarrow> Visited \<Rightarrow> View \<Rightarrow> Visited \<Rightarrow> View \<Rightarrow> bool" where
  "visited_by N W vis v vis' v' =
     (W \<subseteq> N \<and> set vis' = set vis \<union> node_key ` W \<and> View_inv v' \<and>
      (\<forall>x. pos_event x \<longrightarrow> View_contains v' x \<longleftrightarrow> View_contains v x \<or> (\<exists>w\<in>W. adds (fst w) (snd w) x)) \<and>
      calls_in W vis')"

lemma visited_by_trans:
  assumes a: "visited_by N W vis v vis1 v1" and b: "visited_by N W' vis1 v1 vis2 v2"
  shows "visited_by N (W \<union> W') vis v vis2 v2"
proof -
  have "set vis1 \<subseteq> set vis2" using b by (simp add: visited_by_def)
  then have "calls_in W vis2" using a calls_in_mono by (auto simp: visited_by_def)
  moreover have "View_contains v2 x \<longleftrightarrow> View_contains v x \<or> (\<exists>w\<in>W \<union> W'. adds (fst w) (snd w) x)"
    if "pos_event x" for x using a b that by (auto simp: visited_by_def)
  ultimately show ?thesis using a b by (simp add: visited_by_def image_Un Un_assoc)
qed

text \<open>A finished search has visited a set of reachable nodes whose calls are all visited.\<close>

definition calc_ok :: "Node set \<Rightarrow> nat \<Rightarrow> bool" where
  "calc_ok N n = (\<forall>q lab vis v vis' v'. visitCalc calls add n q lab (vis, v) = Some (vis', v') \<longrightarrow>
      (q, lab) \<in> N \<longrightarrow> View_inv v \<longrightarrow>
      (\<exists>W. (q, lab) \<in> W \<and> visited_by N W vis v vis' v' \<and> (\<forall>w\<in>W. search_reach calls (q, lab) w)))"

lemma calls_partial:
  assumes n: "calc_ok N n" and N: "domain N"
  shows "visitCalls calls add n cs (vis, v) = Some (vis', v') \<Longrightarrow> set cs \<subseteq> N \<Longrightarrow> View_inv v \<Longrightarrow>
      \<exists>W. visited_by N W vis v vis' v' \<and> node_key ` set cs \<subseteq> set vis' \<and>
        (\<forall>w\<in>W. \<exists>c\<in>set cs. search_reach calls c w)"
proof (induction cs arbitrary: vis v)
  case Nil
  then show ?case by (intro exI [of _ "{}"]) (simp add: visited_by_def)
next
  case (Cons c cs)
  obtain q l where c: "c = (q, l)" by (cases c)
  obtain s where s: "stamp l = Some s" using N Cons.prems(2) c by (auto simp: domain_def)
  have key: "node_key c = (q, s)" using s c by (simp add: node_key_def)
  obtain vis1 v1 where one: "(if (q, s) \<notin> set vis then visitCalc calls add n q l (vis, v) else Some (vis, v)) =
      Some (vis1, v1)" and rest: "visitCalls calls add n cs (vis1, v1) = Some (vis', v')"
    using Cons.prems(1) c s by (auto simp: getStamp_def split: Option.bind_splits)
  obtain W1 where W1: "visited_by N W1 vis v vis1 v1" "node_key c \<in> set vis1"
    "\<forall>w\<in>W1. search_reach calls c w"
  proof (cases "(q, s) \<in> set vis")
    case True
    then show thesis
      using that [of "{}"] one key Cons.prems(3) by (simp add: visited_by_def)
  next
    case False
    then obtain W where W: "(q, l) \<in> W" "visited_by N W vis v vis1 v1"
      "\<forall>w\<in>W. search_reach calls (q, l) w"
      using n [unfolded calc_ok_def, rule_format, of q l vis v vis1 v1] one Cons.prems(2,3) c by auto
    then have "node_key c \<in> set vis1" using c by (auto simp: visited_by_def)
    then show thesis using that W c by blast
  qed
  then have "View_inv v1" by (simp add: visited_by_def)
  then obtain W2 where W2: "visited_by N W2 vis1 v1 vis' v'" "node_key ` set cs \<subseteq> set vis'"
    "\<forall>w\<in>W2. \<exists>c\<in>set cs. search_reach calls c w"
    using Cons.IH [OF rest] Cons.prems(2) by auto
  moreover have "node_key c \<in> set vis'" using W1(2) W2(1) by (auto simp: visited_by_def)
  ultimately show ?case using visited_by_trans [OF W1(1) W2(1)] W1(3) by (intro exI [of _ "W1 \<union> W2"]) auto
qed

lemma calc_partial:
  assumes N: "domain N"
  shows "calc_ok N n"
proof (induction n)
  case (Suc n)
  show ?case
    unfolding calc_ok_def
  proof (intro allI impI)
    fix q lab vis v vis' v'
    assume run: "visitCalc calls add (Suc n) q lab (vis, v) = Some (vis', v')" and
      w: "(q, lab) \<in> N" and v: "View_inv v"
    obtain s where s: "stamp lab = Some s" using N w by (auto simp: domain_def)
    have f: "fine (q, lab)" "set (calls q lab) \<subseteq> N"
      using N [unfolded domain_def, rule_format, OF w] by simp_all
    from run s have "visitCalls calls add n (calls q lab) ((q, s) # vis, add q lab v) = Some (vis', v')"
      by (simp add: getStamp_def)
    from calls_partial [OF Suc N this f(2) add_inv [OF f(1) v]]
    obtain W where W: "visited_by N W ((q, s) # vis) (add q lab v) vis' v'"
      "node_key ` set (calls q lab) \<subseteq> set vis'" "\<forall>w\<in>W. \<exists>c\<in>set (calls q lab). search_reach calls c w"
      by blast
    have key: "node_key (q, lab) = (q, s)" using s by (simp add: node_key_def)
    have "visited_by N (insert (q, lab) W) vis v vis' v'"
      using W(1,2) w key add_contains [OF f(1) v] by (auto simp: visited_by_def)
    moreover have "\<forall>w\<in>insert (q, lab) W. search_reach calls (q, lab) w"
      using W(3) search_reach_call [of _ calls "(q, lab)"] reach_refl [of calls "(q, lab)"] by auto
    ultimately show "\<exists>W. (q, lab) \<in> W \<and> visited_by N W vis v vis' v' \<and>
        (\<forall>w\<in>W. search_reach calls (q, lab) w)" by blast
  qed
qed (simp add: calc_ok_def)

text \<open>Enough fuel: one unit per pair of a state and a stamp not visited yet.\<close>

lemma calls_total:
  assumes N: "domain N" "finite N"
    and n: "\<And>q l vis v. (q, l) \<in> N \<Longrightarrow> node_key (q, l) \<notin> set vis \<Longrightarrow> View_inv v \<Longrightarrow>
        card (node_key ` N - set vis) \<le> n \<Longrightarrow> \<exists>st. visitCalc calls add n q l (vis, v) = Some st"
  shows "set cs \<subseteq> N \<Longrightarrow> View_inv v \<Longrightarrow> card (node_key ` N - set vis) \<le> n \<Longrightarrow>
      \<exists>st. visitCalls calls add n cs (vis, v) = Some st"
proof (induction cs arbitrary: vis v)
  case (Cons c cs)
  obtain q l where c: "c = (q, l)" by (cases c)
  obtain s where s: "stamp l = Some s" using N Cons.prems(1) c by (auto simp: domain_def)
  have key: "node_key (q, l) = (q, s)" using s by (simp add: node_key_def)
  have "\<exists>vis1 v1. (if (q, s) \<notin> set vis then visitCalc calls add n q l (vis, v) else Some (vis, v)) =
      Some (vis1, v1) \<and> set vis \<subseteq> set vis1 \<and> View_inv v1"
  proof (cases "(q, s) \<in> set vis")
    case False
    then obtain vis1 v1 where run: "visitCalc calls add n q l (vis, v) = Some (vis1, v1)"
      using n [of q l vis v] Cons.prems c key by auto
    then obtain W where "visited_by N W vis v vis1 v1"
      using calc_partial [OF N(1), of n, unfolded calc_ok_def, rule_format, OF run] Cons.prems c by auto
    then show ?thesis using False run by (auto simp: visited_by_def)
  qed (use Cons.prems in simp)
  then obtain vis1 v1 where one: "(if (q, s) \<notin> set vis then visitCalc calls add n q l (vis, v)
      else Some (vis, v)) = Some (vis1, v1)" "set vis \<subseteq> set vis1" "View_inv v1" by blast
  have "card (node_key ` N - set vis1) \<le> card (node_key ` N - set vis)"
    using one(2) N(2) by (intro card_mono) auto
  then have "\<exists>st. visitCalls calls add n cs (vis1, v1) = Some st"
    using Cons.IH [of v1 vis1] Cons.prems one(3) by auto
  then show ?case using one(1) s c by (auto simp: getStamp_def)
qed simp

lemma calc_total:
  assumes N: "domain N" "finite N"
  shows "(q, l) \<in> N \<Longrightarrow> node_key (q, l) \<notin> set vis \<Longrightarrow> View_inv v \<Longrightarrow>
      card (node_key ` N - set vis) \<le> n \<Longrightarrow> \<exists>st. visitCalc calls add n q l (vis, v) = Some st"
proof (induction n arbitrary: q l vis v)
  case 0
  then have "node_key ` N - set vis = {}" using N(2) by simp
  then show ?case using 0 by auto
next
  case (Suc n)
  obtain s where s: "stamp l = Some s" using N Suc.prems(1) by (auto simp: domain_def)
  have f: "fine (q, l)" "set (calls q l) \<subseteq> N"
    using N(1) [unfolded domain_def, rule_format, OF Suc.prems(1)] by simp_all
  have key: "node_key (q, l) = (q, s)" using s by (simp add: node_key_def)
  have "(q, s) \<in> node_key ` N - set vis" using imageI [OF Suc.prems(1), of node_key] Suc.prems(2) key by simp
  moreover have "node_key ` N - set ((q, s) # vis) = (node_key ` N - set vis) - {(q, s)}" by auto
  ultimately have "card (node_key ` N - set ((q, s) # vis)) \<le> n"
    using card_Diff_singleton [of "(q, s)" "node_key ` N - set vis"] Suc.prems(4) by simp
  then have "\<exists>st. visitCalls calls add n (calls q l) ((q, s) # vis, add q l v) = Some st"
    using calls_total [OF N Suc.IH f(2) add_inv [OF f(1) Suc.prems(3)]] by blast
  then show ?case using s by (simp add: getStamp_def)
qed

text \<open>
  A search from a node of a finite domain with unique stamps returns the view together with what
  all reachable nodes add.
\<close>

lemma search_exact:
  assumes N: "domain N" "finite N" "inj_on node_key N" and w: "(q, l) \<in> N" and v: "View_inv v"
    and n: "card N \<le> n"
  shows "\<exists>vis' v'. visitCalc calls add n q l ([], v) = Some (vis', v') \<and> View_inv v' \<and>
     (\<forall>x. pos_event x \<longrightarrow> View_contains v' x \<longleftrightarrow>
        View_contains v x \<or> (\<exists>b. search_reach calls (q, l) b \<and> adds (fst b) (snd b) x))"
proof -
  have "card (node_key ` N) \<le> n" using n card_image_le [OF N(2), of node_key] by simp
  then obtain vis' v' where run: "visitCalc calls add n q l ([], v) = Some (vis', v')"
    using calc_total [OF N(1,2) w, of "[]" v n] v by auto
  then obtain W where W: "(q, l) \<in> W" "visited_by N W [] v vis' v'" "\<forall>b\<in>W. search_reach calls (q, l) b"
    using calc_partial [OF N(1), of n, unfolded calc_ok_def, rule_format, OF run w v] by blast
  have "b \<in> W" if "search_reach calls (q, l) b" for b
    using that
  proof (induction rule: search_reach.induct)
    case (reach_step b c)
    have in_N: "W \<subseteq> N" and vis: "set vis' = node_key ` W" "calls_in W vis'"
      using W(2) by (simp_all add: visited_by_def)
    have "node_key c \<in> node_key ` W"
      using vis reach_step.hyps(2) reach_step.IH unfolding calls_in_def by blast
    moreover have "c \<in> N"
      using in_N reach_step.hyps(2) reach_step.IH N(1) unfolding domain_def by blast
    ultimately show ?case using N(3) in_N by (metis imageE inj_onD subsetD)
  qed (rule W(1))
  then show ?thesis using run W(2,3) by (fastforce simp: visited_by_def)
qed

end

section \<open>The two view calculations are searches\<close>

definition view_fine :: "nat \<Rightarrow> Node \<Rightarrow> bool" where
  "view_fine i w = (pos_event (position (snd w)) \<and> View_inv (label_view (snd w) i))"

definition view_adds :: "nat \<Rightarrow> nat \<Rightarrow> EventLabel \<Rightarrow> Event \<Rightarrow> bool" where
  "view_adds i q lab x =
     ((q = 0 \<or> q = 2) \<and> (View_contains (label_view lab i) x \<or> Event_leq x (position lab)))"

lemma addView_search: "label_search (addView i) (view_adds i) (view_fine i)"
proof
  fix q l v assume "view_fine i (q, l)" "View_inv v"
  then show "View_inv (addView i q l v)" by (simp add: view_fine_def addView_def pos_event_def)
next
  fix q l v x assume "view_fine i (q, l)" "View_inv v" "pos_event x"
  then show "View_contains (addView i q l v) x \<longleftrightarrow> View_contains v x \<or> view_adds i q l x"
    by (auto simp: view_fine_def addView_def view_adds_def view_simps)
qed

interpretation calc0: label_search "calls0 g" "addView 0" "view_adds 0" "view_fine 0" for g
  by (rule addView_search)

interpretation calc1: label_search "calls1 g" "addView 1" "view_adds 1" "view_fine 1" for g
  by (rule addView_search)

text \<open>Graphs the searches run on: labels have distinct stamps, and positions and views are proper.\<close>

definition stamps_distinct :: "ExecutionGraph \<Rightarrow> bool" where
  "stamps_distinct g = ((\<forall>l\<in>set (graph_labels g). stamp l \<noteq> None) \<and> inj_on stamp (set (graph_labels g)))"

definition views_fine :: "nat \<Rightarrow> ExecutionGraph \<Rightarrow> bool" where
  "views_fine i g = (\<forall>l\<in>set (graph_labels g). pos_event (position l) \<and> View_inv (label_view l i))"

definition search_nodes :: "ExecutionGraph \<Rightarrow> Node set" where
  "search_nodes g = {..<7} \<times> set (graph_labels g)"

lemma concat_nth_mem: "t < length xss \<Longrightarrow> i < length (xss ! t) \<Longrightarrow> xss ! t ! i \<in> set (concat xss)"
  by (metis UN_I nth_mem set_concat)

lemma getEventLabel_in:
  assumes "getEventLabel g e = Some l"
  shows "l \<in> set (graph_labels g)"
proof -
  have "containsPos g e" "l = events g ! nat (thread e) ! nat (index e)"
    using assms by (simp_all add: getEventLabel_Some_iff)
  then show ?thesis by (simp add: graph_labels_def containsPos_iff concat_nth_mem del: set_concat)
qed

lemma preds_in:
  "po_imm_pred g l = Some p \<Longrightarrow> p \<in> set (graph_labels g)"
  "rf_pred g l = Some p \<Longrightarrow> p \<in> set (graph_labels g)"
  "tc_pred g l = Some p \<Longrightarrow> p \<in> set (graph_labels g)"
  "tj_pred g l = Some p \<Longrightarrow> p \<in> set (graph_labels g)"
  by (auto simp: po_imm_pred_def getPreviousLabel_def rf_pred_def tc_pred_def tj_pred_def
      getLastThreadLabel_def getEventLabel_in split: if_splits Option.bind_splits)

lemma set_call_if: "w \<in> set (call_if c p P q) \<longleftrightarrow> c \<and> fst w = q \<and> p = Some (snd w) \<and> P (snd w)"
proof (cases p)
  case None
  then have "call_if c p P q = []" by (simp add: call_if_def)
  then show ?thesis using None by simp
next
  case (Some l)
  then have "call_if c p P q = (if c \<and> P l then [(q, l)] else [])" by (simp add: call_if_def)
  then show ?thesis using Some by (cases w) auto
qed

lemmas calls0_defs = calls0_def visitCalc0_0_def visitCalc0_1_def visitCalc0_2_def visitCalc0_3_def
  visitCalc0_4_def visitCalc0_5_def visitCalc0_6_def

lemmas calls1_defs = calls1_def visitCalc1_0_def visitCalc1_1_def visitCalc1_2_def

lemma calls_closed: "set (calls0 g q l) \<subseteq> search_nodes g" "set (calls1 g q l) \<subseteq> search_nodes g"
  by (auto simp: calls0_defs calls1_defs set_call_if search_nodes_def preds_in split: if_splits)

lemma search_nodes_facts:
  assumes "stamps_distinct g"
  shows "finite (search_nodes g)" "inj_on node_key (search_nodes g)"
    "card (search_nodes g) \<le> Suc (7 * length (graph_labels g))"
    "w \<in> search_nodes g \<Longrightarrow> stamp (snd w) \<noteq> None"
proof -
  show "finite (search_nodes g)" by (simp add: search_nodes_def)
  show "inj_on node_key (search_nodes g)"
  proof (rule inj_onI)
    fix a b assume *: "a \<in> search_nodes g" "b \<in> search_nodes g" "node_key a = node_key b"
    then have "stamp (snd a) = stamp (snd b)"
      using assms by (intro option.expand) (auto simp: search_nodes_def stamps_distinct_def node_key_def)
    then have "snd a = snd b"
      using assms * by (intro inj_onD [of stamp "set (graph_labels g)"]) (auto simp: search_nodes_def stamps_distinct_def)
    then show "a = b" using *(3) by (simp add: node_key_def prod_eq_iff)
  qed
  have "card (search_nodes g) = 7 * card (set (graph_labels g))"
    by (simp add: search_nodes_def card_cartesian_product)
  also have "\<dots> \<le> 7 * length (graph_labels g)" by (simp add: card_length)
  finally show "card (search_nodes g) \<le> Suc (7 * length (graph_labels g))" by simp
  show "w \<in> search_nodes g \<Longrightarrow> stamp (snd w) \<noteq> None"
    using assms by (auto simp: search_nodes_def stamps_distinct_def)
qed

text \<open>The starting view of both calculations: the part of the thread before the label.\<close>

lemma start_view:
  assumes "pos_event e"
  shows "View_inv (View_updateIdx View_empty (Event_prev e))"
    and "pos_event x \<Longrightarrow> 0 < index x \<Longrightarrow>
      View_contains (View_updateIdx View_empty (Event_prev e)) x \<longleftrightarrow> thread x = thread e \<and> index x < index e"
proof -
  have e: "View_inv View_empty" by (simp add: View_inv_iff view_simps)
  show "View_inv (View_updateIdx View_empty (Event_prev e))"
    using assms e by (auto simp: View_inv_iff view_simps pos_event_def Event_prev_def)
  show "pos_event x \<Longrightarrow> 0 < index x \<Longrightarrow>
      View_contains (View_updateIdx View_empty (Event_prev e)) x \<longleftrightarrow> thread x = thread e \<and> index x < index e"
    using assms by (auto simp: View_contains_def view_simps pos_event_def Event_prev_def)
qed

section \<open>Direct sources of a view\<close>

text \<open>
  A label is a direct source of the view of another if the search from the other adds it. The view
  is then the transitive closure of the direct sources, provided the stored views of the direct
  sources are. Events of index 0 are in every view.
\<close>

definition view_exact :: "(EventLabel \<Rightarrow> EventLabel \<Rightarrow> bool) \<Rightarrow> EventLabel \<Rightarrow> View \<Rightarrow> bool" where
  "view_exact src l v = (View_inv v \<and> (\<forall>x. pos_event x \<longrightarrow> 0 < index x \<longrightarrow>
     (View_contains v x \<longleftrightarrow> (\<exists>m. src\<^sup>+\<^sup>+ l m \<and> position m = x))))"

definition labels_placed :: "ExecutionGraph \<Rightarrow> bool" where
  "labels_placed g = (\<forall>e l. getEventLabel g e = Some l \<longrightarrow> position l = e)"

definition po_step :: "ExecutionGraph \<Rightarrow> EventLabel \<Rightarrow> EventLabel \<Rightarrow> bool" where
  "po_step g l p = (po_imm_pred g l = Some p)"

lemma placed_in:
  assumes "labels_placed g" "l \<in> set (graph_labels g)"
  shows "getEventLabel g (position l) = Some l"
proof -
  obtain t j where "t < length (events g)" "j < length (events g ! t)" "l = events g ! t ! j"
    using assms(2) by (auto simp: graph_labels_def in_set_conv_nth)
  then have "getEventLabel g (Event (int t) (int j)) = Some l"
    by (simp add: getEventLabel_Some_iff containsPos_iff)
  then show ?thesis using assms(1) by (auto simp: labels_placed_def)
qed

locale view_search =
  fixes i :: nat and calls :: "ExecutionGraph \<Rightarrow> nat \<Rightarrow> EventLabel \<Rightarrow> Node list"
    and src :: "ExecutionGraph \<Rightarrow> EventLabel \<Rightarrow> EventLabel \<Rightarrow> bool"
  assumes calls_in: "set (calls g q l) \<subseteq> search_nodes g"
    and src_reach: "q = 0 \<or> q = 2 \<Longrightarrow> search_reach (calls g) (1, l) (q, m) \<Longrightarrow> src g l m"
    and reach_src: "src g l m \<Longrightarrow> \<exists>q. (q = 0 \<or> q = 2) \<and> search_reach (calls g) (1, l) (q, m)"
    and po_src: "po_step g l p \<Longrightarrow> src g l p"
begin

lemma runs:
  assumes g: "stamps_distinct g" "views_fine i g" and l: "l \<in> set (graph_labels g)"
  shows "\<exists>vis' v'. visitCalc (calls g) (addView i) (Suc (7 * length (graph_labels g))) 1 l
       ([], View_updateIdx View_empty (Event_prev (position l))) = Some (vis', v') \<and> View_inv v' \<and>
     (\<forall>x. pos_event x \<longrightarrow> View_contains v' x \<longleftrightarrow>
        View_contains (View_updateIdx View_empty (Event_prev (position l))) x \<or>
        (\<exists>b. search_reach (calls g) (1, l) b \<and> view_adds i (fst b) (snd b) x))"
proof (rule label_search.search_exact [OF addView_search])
  show "label_search.domain (calls g) (view_fine i) (search_nodes g)"
    using g calls_in search_nodes_facts(4) [OF g(1)]
    unfolding label_search.domain_def [OF addView_search]
    by (auto simp: view_fine_def views_fine_def search_nodes_def)
  show "finite (search_nodes g)" "inj_on node_key (search_nodes g)"
    "card (search_nodes g) \<le> Suc (7 * length (graph_labels g))"
    using search_nodes_facts [OF g(1)] by simp_all
  show "(1, l) \<in> search_nodes g" using l by (simp add: search_nodes_def)
  show "View_inv (View_updateIdx View_empty (Event_prev (position l)))"
    using g(2) l start_view(1) by (simp add: views_fine_def)
qed

lemma po_before:
  assumes g: "labels_placed g"
  shows "getEventLabel g (Event t (j + int n + 1)) = Some l \<Longrightarrow> 0 \<le> j \<Longrightarrow>
     \<exists>m. (src g)\<^sup>+\<^sup>+ l m \<and> position m = Event t j"
proof (induction n arbitrary: l)
  case 0
  then have "position l = Event t (j + 1)" using g by (simp add: labels_placed_def)
  moreover have "containsPos g (Event t j)" using 0 by (auto simp: getEventLabel_Some_iff containsPos_iff)
  ultimately obtain m where "po_step g l m" "getEventLabel g (Event t j) = Some m"
    using 0(2) by (auto simp: po_step_def po_imm_pred_def getPreviousLabel_def Event_prev_def getEventLabel_def)
  then have "(src g)\<^sup>+\<^sup>+ l m" "position m = Event t j"
    using g po_src by (simp_all add: labels_placed_def tranclp.r_into_trancl)
  then show ?case by blast
next
  case (Suc n)
  have "position l = Event t (j + int (Suc n) + 1)" using g Suc.prems by (simp add: labels_placed_def)
  moreover have "containsPos g (Event t (j + int n + 1))"
    using Suc.prems by (auto simp: getEventLabel_Some_iff containsPos_iff)
  moreover have "Event_prev (Event t (j + int (Suc n) + 1)) = Event t (j + int n + 1)" by (simp add: Event_prev_def)
  ultimately obtain p where p: "po_step g l p" "getEventLabel g (Event t (j + int n + 1)) = Some p"
    using Suc.prems(2)
    by (simp add: po_step_def po_imm_pred_def getPreviousLabel_def getEventLabel_def del: of_nat_Suc)
  then obtain m where "(src g)\<^sup>+\<^sup>+ p m" "position m = Event t j" using Suc by blast
  then show ?case using po_src [OF p(1)] tranclp_into_tranclp2 by metis
qed

lemma po_less:
  assumes g: "labels_placed g" and l: "getEventLabel g (position l) = Some l"
    and x: "pos_event x" "thread x = thread (position l)" "index x < index (position l)"
  shows "\<exists>m. (src g)\<^sup>+\<^sup>+ l m \<and> position m = x"
proof -
  define n where "n = nat (index (position l) - index x - 1)"
  have "position l = Event (thread x) (index x + int n + 1)"
    using x by (cases "position l") (simp add: n_def)
  then show ?thesis using po_before [OF g, of "thread x" "index x" n l] l x(1) by (cases x) (auto simp: pos_event_def)
qed

lemma reach_in: "search_reach (calls g) a b \<Longrightarrow> b = a \<or> b \<in> search_nodes g"
  by (induction rule: search_reach.induct) (use calls_in in blast)+

lemma src_in: "src g l m \<Longrightarrow> m \<in> set (graph_labels g)"
  using reach_src [of g l m] reach_in [of g "(1, l)" "(_, m)"] by (fastforce simp: search_nodes_def)

text \<open>The calculated view is exact if the stored views of the direct sources are.\<close>

lemma calculates:
  assumes g: "stamps_distinct g" "views_fine i g" "labels_placed g" and l: "l \<in> set (graph_labels g)"
    and stored: "\<And>m. src g l m \<Longrightarrow> view_exact (src g) m (label_view m i)"
  shows "\<exists>v. map_option snd (visitCalc (calls g) (addView i) (Suc (7 * length (graph_labels g))) 1 l
       ([], View_updateIdx View_empty (Event_prev (position l)))) = Some v \<and> view_exact (src g) l v"
proof -
  obtain vis v where v: "visitCalc (calls g) (addView i) (Suc (7 * length (graph_labels g))) 1 l
       ([], View_updateIdx View_empty (Event_prev (position l))) = Some (vis, v)" "View_inv v"
     "\<And>x. pos_event x \<Longrightarrow> View_contains v x \<longleftrightarrow>
        View_contains (View_updateIdx View_empty (Event_prev (position l))) x \<or>
        (\<exists>b. search_reach (calls g) (1, l) b \<and> view_adds i (fst b) (snd b) x)"
    using runs [OF g(1,2) l] by blast
  have pos: "pos_event (position m)" "getEventLabel g (position m) = Some m" if "m \<in> set (graph_labels g)" for m
    using that g placed_in by (auto simp: views_fine_def)
  have "View_contains v x \<longleftrightarrow> (\<exists>m. (src g)\<^sup>+\<^sup>+ l m \<and> position m = x)" if x: "pos_event x" "0 < index x" for x
  proof
    assume "View_contains v x"
    then consider "thread x = thread (position l)" "index x < index (position l)"
      | b where "search_reach (calls g) (1, l) b" "view_adds i (fst b) (snd b) x"
      using v(3) x start_view(2) pos l by blast
    then show "\<exists>m. (src g)\<^sup>+\<^sup>+ l m \<and> position m = x"
    proof cases
      case 1
      then show ?thesis using po_less g(3) pos l x by blast
    next
      case 2
      then have b: "src g l (snd b)" "View_contains (label_view (snd b) i) x \<or> Event_leq x (position (snd b))"
        using src_reach [of "fst b" g l "snd b"] by (auto simp: view_adds_def)
      then have "(src g)\<^sup>+\<^sup>+ (snd b) m \<and> position m = x \<Longrightarrow> ?thesis" for m
        using tranclp_into_tranclp2 by metis
      moreover have "position (snd b) = x \<Longrightarrow> ?thesis" using b(1) by blast
      moreover have "position (snd b) = x \<or> (\<exists>m. (src g)\<^sup>+\<^sup>+ (snd b) m \<and> position m = x)"
        using b stored [OF b(1)] po_less [OF g(3) pos(2) [OF src_in [OF b(1)]] x(1)] x
        by (force simp: view_exact_def Event_leq_def Event_eq_iff)
      ultimately show ?thesis by blast
    qed
  next
    assume "\<exists>m. (src g)\<^sup>+\<^sup>+ l m \<and> position m = x"
    then obtain m k where m: "src g l k" "k = m \<or> (src g)\<^sup>+\<^sup>+ k m" "position m = x"
      by (metis tranclpD rtranclpD)
    then obtain q where q: "q = 0 \<or> q = 2" "search_reach (calls g) (1, l) (q, k)" using reach_src by blast
    have "View_contains (label_view k i) x \<or> Event_leq x (position k)"
      using m stored [OF m(1)] x by (auto simp: view_exact_def Event_leq_def)
    then have "view_adds i q k x" using q by (auto simp: view_adds_def)
    then show "View_contains v x" using q v(3) x by fastforce
  qed
  then show ?thesis using v(1,2) by (auto simp: view_exact_def)
qed

end

section \<open>Causal prefix\<close>

definition cross_pred :: "ExecutionGraph \<Rightarrow> EventLabel \<Rightarrow> EventLabel \<Rightarrow> bool" where
  "cross_pred g p m = (tc_pred g p = Some m \<or> tj_pred g p = Some m)"

definition porf_source :: "ExecutionGraph \<Rightarrow> EventLabel \<Rightarrow> EventLabel \<Rightarrow> bool" where
  "porf_source g l m =
     (\<exists>p. po_step g l p \<and> (m = p \<or> cross_pred g p m \<or> rf_pred g p = Some m))"

lemma reach1:
  "search_reach (calls1 g) (1, l) b \<Longrightarrow>
     b = (1, l) \<or> (\<exists>p. po_step g l p \<and> (b = (0, p) \<or>
       (\<exists>m. b = (2, m) \<and> (cross_pred g p m \<or> rf_pred g p = Some m))))"
  by (induction rule: search_reach.induct)
    (auto simp: calls1_defs set_call_if po_step_def cross_pred_def)

interpretation view1: view_search 1 calls1 porf_source
proof
  fix g q l show "set (calls1 g q l) \<subseteq> search_nodes g" by (rule calls_closed)
next
  fix q g l m assume "q = 0 \<or> q = (2::nat)" "search_reach (calls1 g) (1, l) (q, m)"
  then show "porf_source g l m" using reach1 [of g l "(q, m)"] by (auto simp: porf_source_def)
next
  fix g l m assume "porf_source g l m"
  then obtain p where p: "po_step g l p" "m = p \<or> cross_pred g p m \<or> rf_pred g p = Some m"
    by (auto simp: porf_source_def)
  then have *: "search_reach (calls1 g) (1, l) (0, p)"
    by (intro reach_step [OF reach_refl]) (auto simp: calls1_defs set_call_if po_step_def)
  moreover have "search_reach (calls1 g) (1, l) (2, m)" if "m \<noteq> p"
    using that p(2) by (intro reach_step [OF *]) (auto simp: calls1_defs set_call_if cross_pred_def)
  ultimately show "\<exists>q. (q = 0 \<or> q = 2) \<and> search_reach (calls1 g) (1, l) (q, m)" by metis
qed (auto simp: porf_source_def)

section \<open>Happens-before\<close>

text \<open>
  Release sequences: a read follows back from the write it reads, if this is the write of an
  atomic update, to the read of that update.
\<close>

definition rmw_step :: "ExecutionGraph \<Rightarrow> EventLabel \<Rightarrow> EventLabel \<Rightarrow> bool" where
  "rmw_step g r r' = (\<exists>w. rf_pred g r = Some w \<and> isWrite (kind w) \<and> isRMWPart g w \<and>
     po_step g w r' \<and> isRead (kind r') \<and> isRMWPart g r')"

definition release_head :: "ExecutionGraph \<Rightarrow> EventLabel \<Rightarrow> EventLabel \<Rightarrow> bool" where
  "release_head g w m = (m = w \<and> isAtLeastRelease w \<or>
     (po_step g)\<^sup>+\<^sup>+ w m \<and> isAtLeastRelease m \<and>
       (isFence (kind m) \<or> kind m = EL_ThreadCreate \<or> kind m = EL_ThreadFinish))"

definition synchronizes :: "ExecutionGraph \<Rightarrow> EventLabel \<Rightarrow> EventLabel \<Rightarrow> bool" where
  "synchronizes g r m = (\<exists>u w. (rmw_step g)\<^sup>*\<^sup>* r u \<and> rf_pred g u = Some w \<and> release_head g w m)"

definition acquire_fence :: "EventLabel \<Rightarrow> bool" where
  "acquire_fence l = (isAtLeastAcquire l \<and>
     (isFence (kind l) \<or> kind l = EL_ThreadJoin \<or> isThreadStart (kind l)))"

text \<open>The labels whose reads-from edges the view of a label takes into account.\<close>

definition acquired_by :: "ExecutionGraph \<Rightarrow> EventLabel \<Rightarrow> EventLabel \<Rightarrow> bool" where
  "acquired_by g l r = (\<exists>p. po_step g l p \<and>
     (isAtLeastAcquire p \<and> r = p \<or> acquire_fence l \<and> (po_step g)\<^sup>*\<^sup>* p r))"

definition hb_source :: "ExecutionGraph \<Rightarrow> EventLabel \<Rightarrow> EventLabel \<Rightarrow> bool" where
  "hb_source g l m = ((\<exists>p. po_step g l p \<and> (m = p \<or> cross_pred g p m)) \<or>
     (\<exists>r. acquired_by g l r \<and> synchronizes g r m))"

text \<open>What each state of the search stands for.\<close>

definition state_of :: "ExecutionGraph \<Rightarrow> EventLabel \<Rightarrow> nat \<Rightarrow> EventLabel \<Rightarrow> bool" where
  "state_of g l q b =
     (if q = 0 then po_step g l b
      else if q = 1 then b = l
      else if q = 2 then hb_source g l b
      else if q = 3 then (\<exists>r u w. acquired_by g l r \<and> (rmw_step g)\<^sup>*\<^sup>* r u \<and> rf_pred g u = Some w \<and>
        (po_step g)\<^sup>*\<^sup>* w b)
      else if q = 4 then (\<exists>r. acquired_by g l r \<and> (rmw_step g)\<^sup>*\<^sup>* r b)
      else if q = 5 then (\<exists>r u. acquired_by g l r \<and> (rmw_step g)\<^sup>*\<^sup>* r u \<and> rf_pred g u = Some b \<and>
        isWrite (kind b) \<and> isRMWPart g b)
      else if q = 6 then acquire_fence l \<and> (\<exists>p. po_step g l p \<and> (po_step g)\<^sup>*\<^sup>* p b)
      else False)"

lemma state_of_acquired:
  "state_of g l 6 b \<Longrightarrow> acquired_by g l b"
  "isAtLeastAcquire p \<Longrightarrow> po_step g l p \<Longrightarrow> acquired_by g l p"
  by (auto simp: state_of_def acquired_by_def)

lemma sync_intro:
  assumes "acquired_by g l r" "(rmw_step g)\<^sup>*\<^sup>* r u" "rf_pred g u = Some w" "release_head g w m"
  shows "hb_source g l m"
  using assms by (auto simp: hb_source_def synchronizes_def)

lemma state_of_call:
  assumes b: "state_of g l q b" and c: "(q', c) \<in> set (calls0 g q b)"
  shows "state_of g l q' c"
proof -
  note ex = rtranclp.rtrancl_into_rtrancl rtranclp.rtrancl_refl
  consider "q = 0" | "q = 1" | "q = 2" | "q = 3" | "q = 4" | "q = 5" | "q = 6"
    using c by (auto simp: calls0_def split: if_splits)
  then show ?thesis
  proof cases
    case 1
    then show ?thesis using b c
      by (auto simp: state_of_def calls0_defs set_call_if hb_source_def cross_pred_def)
  next
    case 2
    then have "b = l" using b by (simp add: state_of_def)
    then show ?thesis
      using 2 c state_of_acquired(2) [of c g l]
      by (auto simp: state_of_def calls0_defs set_call_if acquire_fence_def po_step_def)
  next
    case 3
    then show ?thesis using c by (simp add: calls0_defs)
  next
    case 4
    then obtain r u w where s: "acquired_by g l r" "(rmw_step g)\<^sup>*\<^sup>* r u" "rf_pred g u = Some w"
      "(po_step g)\<^sup>*\<^sup>* w b" using b by (auto simp: state_of_def)
    have "po_step g b c" using 4 c by (auto simp: calls0_defs set_call_if po_step_def)
    then have po: "(po_step g)\<^sup>+\<^sup>+ w c" "(po_step g)\<^sup>*\<^sup>* w c" using s(4) by simp_all
    have "q' = 3 \<or> q' = 2 \<and> release_head g w c"
      using 4 c po by (auto simp: calls0_defs set_call_if release_head_def)
    then show ?thesis using s po(2) sync_intro [OF s(1-3)] by (auto simp: state_of_def)
  next
    case 5
    then obtain r where s: "acquired_by g l r" "(rmw_step g)\<^sup>*\<^sup>* r b" using b by (auto simp: state_of_def)
    then show ?thesis
      using 5 c sync_intro [OF s, of c c] by (auto simp: state_of_def calls0_defs set_call_if release_head_def)
  next
    case 6
    then obtain r u where s: "acquired_by g l r" "(rmw_step g)\<^sup>*\<^sup>* r u" "rf_pred g u = Some b"
      "isWrite (kind b)" "isRMWPart g b" using b by (auto simp: state_of_def)
    have "q' = 4" "rmw_step g u c" using 6 c s by (auto simp: calls0_defs set_call_if rmw_step_def po_step_def)
    then show ?thesis using s(1) ex(1) [OF s(2)] by (auto simp: state_of_def)
  next
    case 7
    then have a: "acquired_by g l b" using b state_of_acquired by blast
    consider "q' = 6" "po_step g b c" | "q' \<noteq> 6" using 7 c by (auto simp: calls0_defs set_call_if po_step_def)
    then show ?thesis
    proof cases
      case 1
      then show ?thesis using b 7 ex(1) [of "po_step g" _ b c] by (auto simp: state_of_def)
    next
      case 2
      then show ?thesis
        using 7 a c sync_intro [OF a ex(2), of c c]
        by (auto simp: state_of_def calls0_defs set_call_if release_head_def)
    qed
  qed
qed

lemma reach0: "search_reach (calls0 g) (1, l) b \<Longrightarrow> state_of g l (fst b) (snd b)"
proof (induction rule: search_reach.induct)
  case reach_refl
  then show ?case by (simp add: state_of_def)
next
  case (reach_step b c)
  then show ?case using state_of_call [of g l "fst b" "snd b" "fst c" "snd c"] by simp
qed

text \<open>Conversely, every state is reached.\<close>

lemma call0:
  "search_reach (calls0 g) a (q, b) \<Longrightarrow> (q', c) \<in> set (calls0 g q b) \<Longrightarrow> search_reach (calls0 g) a (q', c)"
  using reach_step [of "calls0 g" a "(q, b)" "(q', c)"] by simp

lemma reach_acquired:
  assumes "acquired_by g l r"
  shows "\<exists>q. (q = 4 \<or> q = 6) \<and> search_reach (calls0 g) (1, l) (q, r)"
proof -
  obtain p where p: "po_step g l p" "isAtLeastAcquire p \<and> r = p \<or> acquire_fence l \<and> (po_step g)\<^sup>*\<^sup>* p r"
    using assms by (auto simp: acquired_by_def)
  have "search_reach (calls0 g) (1, l) (6, r)" if "acquire_fence l" "(po_step g)\<^sup>*\<^sup>* p r"
    using that(2)
  proof (induction rule: rtranclp_induct)
    case base
    show ?case
      using p(1) that(1) by (intro call0 [OF reach_refl])
        (auto simp: calls0_defs set_call_if po_step_def acquire_fence_def)
  next
    case (step y z)
    then show ?case by (intro call0 [OF step.IH]) (auto simp: calls0_defs set_call_if po_step_def)
  qed
  moreover have "search_reach (calls0 g) (1, l) (4, p)" if "isAtLeastAcquire p"
    using p(1) that by (intro call0 [OF reach_refl]) (auto simp: calls0_defs set_call_if po_step_def)
  ultimately show ?thesis using p(2) by blast
qed

lemma reach_rmw:
  assumes "acquired_by g l r" and "(rmw_step g)\<^sup>*\<^sup>* r u"
  shows "\<exists>q. (q = 4 \<or> q = 6) \<and> search_reach (calls0 g) (1, l) (q, u)"
  using assms(2)
proof (induction rule: rtranclp_induct)
  case base
  show ?case using assms(1) by (rule reach_acquired)
next
  case (step u v)
  obtain q where q: "q = 4 \<or> q = 6" "search_reach (calls0 g) (1, l) (q, u)" using step.IH by blast
  obtain w where w: "rf_pred g u = Some w" "isWrite (kind w)" "isRMWPart g w" "po_step g w v"
    "isRead (kind v)" "isRMWPart g v" using step.hyps(2) unfolding rmw_step_def by (elim exE conjE)
  have 5: "search_reach (calls0 g) (1, l) (5, w)"
    using q(1) w by (intro call0 [OF q(2)]) (auto simp: calls0_defs set_call_if)
  have "search_reach (calls0 g) (1, l) (4, v)"
    using w by (intro call0 [OF 5]) (auto simp: calls0_defs set_call_if po_step_def)
  then show ?case by blast
qed

lemma tranclp_unfold_right: "r\<^sup>+\<^sup>+ a b \<longleftrightarrow> (\<exists>c. r\<^sup>*\<^sup>* a c \<and> r c b)"
  by (metis rtranclp_into_tranclp1 tranclp.cases tranclp_into_rtranclp rtranclp.rtrancl_refl)

lemma reach_sync:
  assumes "acquired_by g l r" "synchronizes g r m"
  shows "search_reach (calls0 g) (1, l) (2, m)"
proof -
  obtain u w where u: "(rmw_step g)\<^sup>*\<^sup>* r u" "rf_pred g u = Some w" "release_head g w m"
    using assms(2) by (auto simp: synchronizes_def)
  then obtain q where q: "q = 4 \<or> q = 6" "search_reach (calls0 g) (1, l) (q, u)"
    using reach_rmw assms(1) by blast
  have 3: "search_reach (calls0 g) (1, l) (3, y)" if "(po_step g)\<^sup>*\<^sup>* w y" for y
    using that
  proof (induction rule: rtranclp_induct)
    case base
    show ?case using q(1) u(2) by (intro call0 [OF q(2)]) (auto simp: calls0_defs set_call_if)
  next
    case (step y z)
    then show ?case by (intro call0 [OF step.IH]) (auto simp: calls0_defs set_call_if po_step_def)
  qed
  show ?thesis
  proof (cases "m = w \<and> isAtLeastRelease w")
    case True
    then show ?thesis using q(1) u(2) by (intro call0 [OF q(2)]) (auto simp: calls0_defs set_call_if)
  next
    case False
    then have "(po_step g)\<^sup>+\<^sup>+ w m" using u(3) by (auto simp: release_head_def)
    then obtain y where y: "(po_step g)\<^sup>*\<^sup>* w y" "po_step g y m" by (metis tranclp_unfold_right)
    then show ?thesis
      using False u(3) by (intro call0 [OF 3 [OF y(1)]])
        (auto simp: calls0_defs set_call_if po_step_def release_head_def)
  qed
qed

interpretation view0: view_search 0 calls0 hb_source
proof
  fix g q l show "set (calls0 g q l) \<subseteq> search_nodes g" by (rule calls_closed)
next
  fix q g l m assume "q = 0 \<or> q = (2::nat)" "search_reach (calls0 g) (1, l) (q, m)"
  then show "hb_source g l m"
    using reach0 [of g l "(q, m)"] by (auto simp: state_of_def hb_source_def)
next
  fix g l m assume m: "hb_source g l m"
  have *: "search_reach (calls0 g) (1, l) (0, p)" if "po_step g l p" for p
    using that by (intro call0 [OF reach_refl]) (auto simp: calls0_defs set_call_if po_step_def)
  have "search_reach (calls0 g) (1, l) (2, m)" if "po_step g l p" "cross_pred g p m" for p
    using that by (intro call0 [OF *]) (auto simp: calls0_defs set_call_if cross_pred_def)
  then show "\<exists>q. (q = 0 \<or> q = 2) \<and> search_reach (calls0 g) (1, l) (q, m)"
    using m * reach_sync by (auto simp: hb_source_def)
qed (auto simp: hb_source_def)

section \<open>Properties\<close>

definition hb_before :: "ExecutionGraph \<Rightarrow> EventLabel \<Rightarrow> EventLabel \<Rightarrow> bool" where
  "hb_before g l m = (hb_source g)\<^sup>+\<^sup>+ l m"

definition porf_step :: "ExecutionGraph \<Rightarrow> EventLabel \<Rightarrow> EventLabel \<Rightarrow> bool" where
  "porf_step g l m = (po_step g l m \<or> cross_pred g l m \<or> rf_pred g l = Some m)"

definition porf_before :: "ExecutionGraph \<Rightarrow> EventLabel \<Rightarrow> EventLabel \<Rightarrow> bool" where
  "porf_before g l m = (\<exists>p. po_step g l p \<and> (porf_step g)\<^sup>*\<^sup>* p m)"

text \<open>A view holds exactly the events of a set of labels, apart from those of index 0.\<close>

definition view_of :: "(EventLabel \<Rightarrow> bool) \<Rightarrow> View \<Rightarrow> bool" where
  "view_of P v = (View_inv v \<and> (\<forall>x. pos_event x \<longrightarrow> 0 < index x \<longrightarrow>
     (View_contains v x \<longleftrightarrow> (\<exists>m. P m \<and> position m = x))))"

definition views_ready :: "nat \<Rightarrow> ExecutionGraph \<Rightarrow> bool" where
  "views_ready i g = (stamps_distinct g \<and> views_fine i g \<and> labels_placed g)"

lemma view_exact_of: "view_exact src l v = view_of (src\<^sup>+\<^sup>+ l) v"
  by (simp add: view_exact_def view_of_def)

definition rf_sources :: "ExecutionGraph \<Rightarrow> bool" where
  "rf_sources g = (\<forall>l\<in>set (graph_labels g). \<forall>w. rf_pred g l = Some w \<longrightarrow> isWrite (kind w) \<or> kind w = EL_Init \<and> tc_pred g w = None)"

lemma cross_end:
  assumes "rf_sources g" "po_step g k p" "cross_pred g p m \<or> rf_pred g p = Some m"
  shows "\<not> cross_pred g m n \<and> rf_pred g m \<noteq> Some n"
proof -
  have "kind m = EL_ThreadCreate \<or> kind m = EL_ThreadFinish \<or> isWrite (kind m) \<or>
      kind m = EL_Init \<and> tc_pred g m = None"
    using assms(1,3) preds_in(1) [OF assms(2) [unfolded po_step_def]]
    by (auto simp: rf_sources_def cross_pred_def tc_pred_def tj_pred_def
        split: if_splits Option.bind_splits)
  then show ?thesis
    using kind_disjoint(1) [of "kind m"] kind_disjoint(4) [of "kind m"]
    by (auto simp: cross_pred_def tc_pred_def tj_pred_def rf_pred_def kind_defs split: if_splits)
qed

lemma porf_before_iff:
  assumes "rf_sources g"
  shows "porf_before g l m \<longleftrightarrow> (porf_source g)\<^sup>+\<^sup>+ l m"
proof
  assume "porf_before g l m"
  then obtain p where p: "po_step g l p" "(porf_step g)\<^sup>*\<^sup>* p m" by (auto simp: porf_before_def)
  from p(2) show "(porf_source g)\<^sup>+\<^sup>+ l m"
  proof (induction rule: rtranclp_induct)
    case base
    show ?case using p(1) by (intro tranclp.r_into_trancl) (auto simp: porf_source_def)
  next
    case (step m n)
    obtain k where k: "(porf_source g)\<^sup>*\<^sup>* l k" "porf_source g k m" using step.IH tranclp_unfold_right by metis
    have "porf_source g m n \<or> porf_source g k n"
      using step.hyps(2) k(2) cross_end [OF assms, of k _ m n] by (auto simp: porf_step_def porf_source_def)
    then show ?case using k(1) step.IH tranclp.trancl_into_trancl rtranclp_into_tranclp1 by metis
  qed
next
  assume "(porf_source g)\<^sup>+\<^sup>+ l m"
  then show "porf_before g l m"
  proof (induction rule: tranclp_induct)
    case (base m)
    then obtain p where "po_step g l p" "m = p \<or> porf_step g p m"
      by (auto simp: porf_source_def porf_step_def)
    then show ?case unfolding porf_before_def by (metis rtranclp.rtrancl_refl r_into_rtranclp)
  next
    case (step m n)
    have "(porf_step g)\<^sup>*\<^sup>* m n"
      using step.hyps(2) unfolding porf_source_def porf_step_def
      by (auto intro: converse_rtranclp_into_rtranclp)
    then show ?case using step.IH rtranclp_trans unfolding porf_before_def by metis
  qed
qed

text \<open>
  C1. The happens-before view of a label: if the labels that happen before it have their
  happens-before views stored, then calculate0 returns, and its view holds exactly the events that
  happen before the label by program order, thread creation and join, and synchronisation of release
  and acquire accesses and fences through release sequences.
\<close>

theorem calculate0_happens_before:
  assumes "views_ready 0 g" "l \<in> set (graph_labels g)"
    and "\<forall>m. hb_before g l m \<longrightarrow> view_of (hb_before g m) (label_view m 0)"
  shows "\<exists>v. calculate0 g l = Some v \<and> view_of (hb_before g l) v"
proof -
  have "view_exact (hb_source g) m (label_view m 0)" if "hb_source g l m" for m
    using that assms(3) by (auto simp: hb_before_def [abs_def] view_exact_of)
  then show ?thesis
    using view0.calculates [of g l] assms(1,2)
    by (simp add: calculate0_def views_ready_def view_exact_of hb_before_def [abs_def])
qed

text \<open>
  C5. The causal-prefix view of a label: if the labels in its causal prefix have their prefix views
  stored, then calculate1 returns, and its view holds exactly the events from which the predecessor
  of the label can be reached by program order, reads-from, thread creation and join.
\<close>

theorem calculate1_causal_prefix:
  assumes "views_ready 1 g" "l \<in> set (graph_labels g)" "rf_sources g"
    and "\<forall>m. porf_before g l m \<longrightarrow> view_of (porf_before g m) (label_view m 1)"
  shows "\<exists>v. calculate1 g l = Some v \<and> view_of (porf_before g l) v"
proof -
  have "view_exact (porf_source g) m (label_view m 1)" if "porf_source g l m" for m
    using that assms(4) porf_before_iff [OF assms(3), abs_def] by (auto simp: view_exact_of)
  then show ?thesis
    using view1.calculates [of g l] assms(1,2)
    by (simp add: calculate1_def views_ready_def view_exact_of porf_before_iff [OF assms(3), abs_def])
qed

text \<open>The example graph has one thread: the initialiser, a write and a read of it.\<close>

lemma example_preds:
  "po_imm_pred example_graph example_init = None" "po_imm_pred example_graph example_write = Some example_init"
  "po_imm_pred example_graph example_read = Some example_write"
  by (simp_all add: po_imm_pred_def getPreviousLabel_def example_label getInit_def Event_prev_def)

lemma example_kinds [simp]:
  "\<not> isThreadStart EL_Write" "\<not> isThreadStart EL_Read" "\<not> isFence EL_Read" "\<not> isFence EL_Write"
  "\<not> isRead EL_Init"
  by (simp_all add: kind_defs)

lemma example_parent [simp]: "parentCreate example_init = getInit"
  by (simp add: example_init_def InitLabel_def)

lemma example_orderings [simp]: "\<not> isAtLeastAcquire example_write"
  by (simp add: example_write_def WriteLabel_def MemAccessLabel_def EventLabel_new_def isAtLeastAcquire_def)

lemma example_steps:
  "po_step example_graph example_init m \<longleftrightarrow> False"
  "po_step example_graph example_write m \<longleftrightarrow> m = example_init"
  "po_step example_graph example_read m \<longleftrightarrow> m = example_write"
  "cross_pred example_graph example_init m \<longleftrightarrow> False" "cross_pred example_graph example_write m \<longleftrightarrow> False"
  "rf_pred example_graph example_init = None" "rf_pred example_graph example_write = None"
  by (auto simp: po_step_def example_preds cross_pred_def tc_pred_def tj_pred_def rf_pred_def example_label
      getInit_def split: if_splits)

lemma example_sources:
  "src = hb_source \<or> src = porf_source \<Longrightarrow> src example_graph example_init m \<longleftrightarrow> False"
  "src = hb_source \<or> src = porf_source \<Longrightarrow> src example_graph example_write m \<longleftrightarrow> m = example_init"
  "src = hb_source \<or> src = porf_source \<Longrightarrow> src example_graph example_read m \<longleftrightarrow> m = example_write"
proof -
  have s: "\<not> synchronizes example_graph example_init m"
    unfolding synchronizes_def
    by (metis converse_rtranclpE example_steps(6) option.distinct(1) rmw_step_def)
  have a: "acquired_by example_graph example_write r \<longleftrightarrow> isAtLeastAcquire example_init \<and> r = example_init"
    "\<not> acquired_by example_graph example_init r" "\<not> acquired_by example_graph example_read r" for r
    by (auto simp: acquired_by_def example_steps acquire_fence_def)
  show "src = hb_source \<or> src = porf_source \<Longrightarrow> src example_graph example_init m \<longleftrightarrow> False"
    "src = hb_source \<or> src = porf_source \<Longrightarrow> src example_graph example_write m \<longleftrightarrow> m = example_init"
    "src = hb_source \<or> src = porf_source \<Longrightarrow> src example_graph example_read m \<longleftrightarrow> m = example_write"
    by (auto simp: hb_source_def porf_source_def example_steps a s)
qed

lemma example_closure:
  assumes "src = hb_source \<or> src = porf_source"
  shows "(src example_graph)\<^sup>+\<^sup>+ example_init = (\<lambda>m. False)"
    "(src example_graph)\<^sup>+\<^sup>+ example_write = (\<lambda>m. m = example_init)"
    "(src example_graph)\<^sup>+\<^sup>+ example_read = (\<lambda>m. m = example_write \<or> m = example_init)"
proof -
  note s = example_sources [OF assms]
  have 1: "\<not> (src example_graph)\<^sup>+\<^sup>+ example_init m" for m using s(1) by (metis tranclpD)
  have 2: "(src example_graph)\<^sup>+\<^sup>+ example_write m \<longleftrightarrow> m = example_init" for m
    using s(2) 1 by (metis rtranclpD tranclpD tranclp.r_into_trancl)
  have "(src example_graph)\<^sup>+\<^sup>+ example_read m \<longleftrightarrow> m = example_write \<or> m = example_init" for m
    using s(3) 2 by (metis rtranclpD tranclpD tranclp.r_into_trancl tranclp_into_tranclp2)
  with 1 2 show "(src example_graph)\<^sup>+\<^sup>+ example_init = (\<lambda>m. False)"
    "(src example_graph)\<^sup>+\<^sup>+ example_write = (\<lambda>m. m = example_init)"
    "(src example_graph)\<^sup>+\<^sup>+ example_read = (\<lambda>m. m = example_write \<or> m = example_init)" by auto
qed

lemma example_labels: "set (graph_labels example_graph) = {example_init, example_write, example_read}"
  by (simp add: graph_labels_def example_graph_def)

lemma example_view [simp]:
  "label_view example_init i = View_empty" "label_view example_write i = View_empty"
  "label_view example_read i = View_empty"
  by (simp_all add: label_view_def example_init_def example_write_def example_read_def InitLabel_def WriteLabel_def
      ReadLabel_def MemAccessLabel_def EventLabel_new_def)

lemma example_ready: "views_ready i example_graph"
proof -
  have "View_inv View_empty" by (simp add: View_inv_iff view_simps)
  then have "views_fine i example_graph" by (simp add: views_fine_def example_labels pos_event_def getInit_def)
  moreover have "stamps_distinct example_graph" by (simp add: stamps_distinct_def example_labels inj_on_def)
  moreover have "labels_placed example_graph" by (simp add: labels_placed_def example_label)
  ultimately show ?thesis by (simp add: views_ready_def)
qed

lemma example_stored:
  "view_of (\<lambda>m. False) View_empty" "view_of (\<lambda>m. m = example_init) View_empty"
  by (auto simp: view_of_def View_inv_iff view_simps View_contains_def pos_event_def getInit_def)

theorem calculate0_happens_before_witness:
  "\<exists>v. calculate0 example_graph example_read = Some v \<and>
     view_of (\<lambda>m. m = example_write \<or> m = example_init) v"
proof -
  have c: "hb_before example_graph l = (hb_source example_graph)\<^sup>+\<^sup>+ l" for l by (rule ext) (rule hb_before_def)
  have "\<forall>m. hb_before example_graph example_read m \<longrightarrow>
      view_of (hb_before example_graph m) (label_view m 0)"
    using example_stored by (auto simp: c example_closure)
  then show ?thesis
    using calculate0_happens_before [of example_graph example_read] example_ready
    by (simp add: example_labels c example_closure)
qed

theorem calculate1_causal_prefix_witness:
  "\<exists>v. calculate1 example_graph example_read = Some v \<and>
     view_of (\<lambda>m. m = example_write \<or> m = example_init) v"
proof -
  have rf: "rf_sources example_graph"
    by (auto simp: rf_sources_def rf_pred_def getRf_def tc_pred_def example_labels example_label getInit_def
        split: if_splits)
  have c: "porf_before example_graph l = (porf_source example_graph)\<^sup>+\<^sup>+ l" for l
    by (rule ext) (rule porf_before_iff [OF rf])
  have "\<forall>m. porf_before example_graph example_read m \<longrightarrow>
      view_of (porf_before example_graph m) (label_view m 1)"
    using example_stored by (auto simp: c example_closure)
  then show ?thesis
    using calculate1_causal_prefix [of example_graph example_read] example_ready rf
    by (simp add: example_labels c example_closure)
qed

end
