(* ===== verification/RARaces.thy ===== *)
theory RARaces
  imports RAViews VSets
begin

text \<open>
  The error checks of the RA driver (src/src/RADriver.cpp): checkRace0 to checkRace7 and their
  visitors, checkErrors and checkWarnings, with the hazard-pointer test of src/src/GenMCDriver.cpp.
  As for the views, the status vectors are the list of the (state, stamp) pairs seen so far. A
  visitor that returns false leaves the racy label in a member; here it returns it as an Inl.
  Aborts (BUG_ON) and labels without stamps are None.
\<close>

section \<open>Verification errors\<close>

datatype VerificationError =
  VE_OK | VE_Safety | VE_Recovery | VE_Liveness | VE_RaceNotAtomic | VE_WWRace | VE_RaceFreeMalloc |
  VE_FreeNonMalloc | VE_DoubleFree | VE_Allocation | VE_InvalidAccessBegin | VE_UninitializedMem |
  VE_AccessNonMalloc | VE_AccessFreed | VE_InvalidAccessEnd | VE_InvalidCreate | VE_InvalidJoin |
  VE_InvalidUnlock | VE_InvalidBInit | VE_InvalidRecoveryCall | VE_InvalidTruncate | VE_Annotation |
  VE_MixedSize | VE_SystemError

definition all_errors :: "VerificationError list" where
  "all_errors = [VE_OK, VE_Safety, VE_Recovery, VE_Liveness, VE_RaceNotAtomic, VE_WWRace, VE_RaceFreeMalloc,
     VE_FreeNonMalloc, VE_DoubleFree, VE_Allocation, VE_InvalidAccessBegin, VE_UninitializedMem,
     VE_AccessNonMalloc, VE_AccessFreed, VE_InvalidAccessEnd, VE_InvalidCreate, VE_InvalidJoin,
     VE_InvalidUnlock, VE_InvalidBInit, VE_InvalidRecoveryCall, VE_InvalidTruncate, VE_Annotation,
     VE_MixedSize, VE_SystemError]"

fun position_in :: "'a list \<Rightarrow> 'a \<Rightarrow> nat" where
  "position_in [] x = 0"
| "position_in (y # ys) x = (if x = y then 0 else Suc (position_in ys x))"

definition error_idx :: "VerificationError \<Rightarrow> nat" where
  "error_idx e = position_in all_errors e"

lemma error_idx_inject: "error_idx a = error_idx b \<longleftrightarrow> a = b"
proof -
  have "all_errors ! error_idx e = e" for e by (cases e) (simp_all add: error_idx_def all_errors_def)
  then show ?thesis by metis
qed

instantiation VerificationError :: linorder
begin

definition less_VerificationError :: "VerificationError \<Rightarrow> VerificationError \<Rightarrow> bool" where
  "a < b \<longleftrightarrow> error_idx a < error_idx b"

definition less_eq_VerificationError :: "VerificationError \<Rightarrow> VerificationError \<Rightarrow> bool" where
  "a \<le> b \<longleftrightarrow> error_idx a \<le> error_idx b"

instance
  by standard (auto simp: less_VerificationError_def less_eq_VerificationError_def error_idx_inject)

end

definition isHardError :: "VerificationError \<Rightarrow> bool" where
  "isHardError err = (err \<noteq> VE_OK \<and> err \<noteq> VE_WWRace)"

section \<open>Visiting\<close>

definition opt_list :: "'a option \<Rightarrow> 'a list" where
  "opt_list p = (case p of None \<Rightarrow> [] | Some l \<Rightarrow> [l])"

text \<open>A loop over labels that visits the ones that pass a test and are unseen in a state.\<close>

fun visit_all :: "(EventLabel \<Rightarrow> Visited \<Rightarrow> (EventLabel + Visited) option) \<Rightarrow> nat \<Rightarrow>
    (EventLabel \<Rightarrow> bool option) \<Rightarrow> EventLabel list \<Rightarrow> Visited \<Rightarrow> (EventLabel + Visited) option" where
  "visit_all f q cond [] vis = Some (Inr vis)"
| "visit_all f q cond (pLab # ls) vis =
     do { c \<leftarrow> cond pLab;
          if c then
            do { s \<leftarrow> getStamp pLab;
                 r \<leftarrow> (if (q, s) \<notin> set vis then f pLab vis else Some (Inr vis));
                 (case r of Inl lab \<Rightarrow> Some (Inl lab) | Inr vis \<Rightarrow> visit_all f q cond ls vis) }
          else visit_all f q cond ls vis }"

definition and_then :: "(EventLabel + Visited) option \<Rightarrow> (Visited \<Rightarrow> (EventLabel + Visited) option) \<Rightarrow>
    (EventLabel + Visited) option" where
  "and_then r f = do { x \<leftarrow> r; case x of Inl lab \<Rightarrow> Some (Inl lab) | Inr vis \<Rightarrow> f vis }"

definition entered :: "nat \<Rightarrow> EventLabel \<Rightarrow> Visited \<Rightarrow> (Visited \<Rightarrow> 'a option) \<Rightarrow> 'a option" where
  "entered q lab vis f = do { s \<leftarrow> getStamp lab; f ((q, s) # vis) }"

text \<open>The accepting visitors: a label outside the view is racy.\<close>

definition outside_view :: "View \<Rightarrow> EventLabel \<Rightarrow> Visited \<Rightarrow> (EventLabel + Visited) option" where
  "outside_view v lab vis =
     entered 0 lab vis (\<lambda>vis. if \<not> View_contains v (position lab) then Some (Inl lab) else Some (Inr vis))"

definition racy_of :: "(EventLabel + Visited) option \<Rightarrow> EventLabel option option" where
  "racy_of r = map_option (\<lambda>x. case x of Inl lab \<Rightarrow> Some lab | Inr _ \<Rightarrow> None) r"

definition passes :: "(EventLabel \<Rightarrow> bool) \<Rightarrow> EventLabel \<Rightarrow> bool option" where
  "passes P l = Some (P l)"

definition labels_at :: "ExecutionGraph \<Rightarrow> Event list \<Rightarrow> EventLabel list option" where
  "labels_at g es = those (map (getEventLabel g) es)"

text \<open>A free that is not a retirement.\<close>

definition isPlainFree :: "EventLabel \<Rightarrow> bool" where
  "isPlainFree l = (isFree (kind l) \<and> kind l \<noteq> EL_HpRetire)"

section \<open>Allocation races\<close>

definition visitRaceLHS0_0 :: "View \<Rightarrow> EventLabel \<Rightarrow> Visited \<Rightarrow> (EventLabel + Visited) option" where
  "visitRaceLHS0_0 v lab vis = outside_view v lab vis"

definition visitRaceLHS0_1 :: "ExecutionGraph \<Rightarrow> View \<Rightarrow> EventLabel \<Rightarrow> Visited \<Rightarrow> (EventLabel + Visited) option" where
  "visitRaceLHS0_1 g v lab vis =
     entered 1 lab vis (visit_all (visitRaceLHS0_0 v) 0 (passes (\<lambda>_. True)) (opt_list (alloc_pred g lab)))"

definition checkRace0 :: "ExecutionGraph \<Rightarrow> EventLabel \<Rightarrow> EventLabel option option" where
  "checkRace0 g lab = racy_of (visitRaceLHS0_1 g (label_view lab 0) lab [])"

section \<open>Double frees\<close>

text \<open>
  These visitors fill the vector of accepted stamps, and the check picks the lowest accepted stamp
  that the other vector, which nothing fills, does not have.
\<close>

fun accept_all :: "(EventLabel \<Rightarrow> Visited \<times> Stamp list \<Rightarrow> (Visited \<times> Stamp list) option) \<Rightarrow> nat \<Rightarrow>
    (EventLabel \<Rightarrow> bool) \<Rightarrow> EventLabel list \<Rightarrow> Visited \<times> Stamp list \<Rightarrow> (Visited \<times> Stamp list) option" where
  "accept_all f q cond [] st = Some st"
| "accept_all f q cond (pLab # ls) st =
     (if cond pLab then
        do { s \<leftarrow> getStamp pLab;
             st \<leftarrow> (if (q, s) \<notin> set (fst st) then f pLab st else Some st);
             accept_all f q cond ls st }
      else accept_all f q cond ls st)"

definition enter :: "nat \<Rightarrow> EventLabel \<Rightarrow> Visited \<times> Stamp list \<Rightarrow> (Visited \<times> Stamp list) option" where
  "enter q lab st = do { s \<leftarrow> getStamp lab; Some ((q, s) # fst st, snd st) }"

definition accept :: "EventLabel \<Rightarrow> Visited \<times> Stamp list \<Rightarrow> (Visited \<times> Stamp list) option" where
  "accept lab st = do { s \<leftarrow> getStamp lab; Some ((0, s) # fst st, s # snd st) }"

definition accepted_label :: "ExecutionGraph \<Rightarrow> Stamp list \<Rightarrow> EventLabel option option" where
  "accepted_label g lhsAccept =
     (case lhsAccept of [] \<Rightarrow> Some None
      | s # ss \<Rightarrow> map_option Some (find (\<lambda>l. stamp l = Some (fold min ss s)) (graph_labels g)))"

definition visitRaceLHS1_0 :: "EventLabel \<Rightarrow> Visited \<times> Stamp list \<Rightarrow> (Visited \<times> Stamp list) option" where
  "visitRaceLHS1_0 lab st = accept lab st"

definition visitRaceLHS1_1 :: "ExecutionGraph \<Rightarrow> EventLabel \<Rightarrow> Visited \<times> Stamp list \<Rightarrow>
    (Visited \<times> Stamp list) option" where
  "visitRaceLHS1_1 g lab st =
     do { st \<leftarrow> enter 1 lab st;
          st \<leftarrow> (if isPlainFree lab then accept_all visitRaceLHS1_0 0 isPlainFree (samelocs g lab) st else Some st);
          st \<leftarrow> (if isPlainFree lab then accept_all visitRaceLHS1_0 0 (\<lambda>p. kind p = EL_HpRetire) (samelocs g lab) st
                else Some st);
          st \<leftarrow> (if kind lab = EL_HpRetire then accept_all visitRaceLHS1_0 0 isPlainFree (samelocs g lab) st
                else Some st);
          (if kind lab = EL_HpRetire then accept_all visitRaceLHS1_0 0 (\<lambda>p. kind p = EL_HpRetire) (samelocs g lab) st
           else Some st) }"

definition checkRace1 :: "ExecutionGraph \<Rightarrow> EventLabel \<Rightarrow> EventLabel option option" where
  "checkRace1 g lab = do { st \<leftarrow> visitRaceLHS1_1 g lab ([], []); accepted_label g (snd st) }"

section \<open>Races between accesses and frees\<close>

definition visitRaceLHS2_0 :: "View \<Rightarrow> EventLabel \<Rightarrow> Visited \<Rightarrow> (EventLabel + Visited) option" where
  "visitRaceLHS2_0 v lab vis = outside_view v lab vis"

definition visitRaceLHS2_1 :: "ExecutionGraph \<Rightarrow> View \<Rightarrow> EventLabel \<Rightarrow> Visited \<Rightarrow> (EventLabel + Visited) option" where
  "visitRaceLHS2_1 g v lab vis =
     entered 1 lab vis (\<lambda>vis. do { ls \<leftarrow> labels_at g (alloc_succs lab);
       visit_all (visitRaceLHS2_0 v) 0 (passes (\<lambda>_. True)) ls vis })"

definition visitRaceLHS2_2 :: "ExecutionGraph \<Rightarrow> View \<Rightarrow> EventLabel \<Rightarrow> Visited \<Rightarrow> (EventLabel + Visited) option" where
  "visitRaceLHS2_2 g v lab vis =
     entered 2 lab vis (\<lambda>vis.
       if isPlainFree lab then
         and_then (visit_all (visitRaceLHS2_1 g v) 1 (passes (\<lambda>_. True)) (opt_list (free_pred g lab)) vis)
           (visit_all (visitRaceLHS2_0 v) 0 (passes (\<lambda>_. True)) (opt_list (free_pred g lab)))
       else Some (Inr vis))"

definition checkRace2 :: "ExecutionGraph \<Rightarrow> EventLabel \<Rightarrow> EventLabel option option" where
  "checkRace2 g lab = racy_of (visitRaceLHS2_2 g (label_view lab 0) lab [])"

definition visitRaceLHS3_0 :: "EventLabel \<Rightarrow> Visited \<times> Stamp list \<Rightarrow> (Visited \<times> Stamp list) option" where
  "visitRaceLHS3_0 lab st = accept lab st"

definition visitRaceLHS3_1 :: "ExecutionGraph \<Rightarrow> EventLabel \<Rightarrow> Visited \<times> Stamp list \<Rightarrow>
    (Visited \<times> Stamp list) option" where
  "visitRaceLHS3_1 g lab st =
     do { st \<leftarrow> enter 1 lab st; accept_all visitRaceLHS3_0 0 isPlainFree (opt_list (free_succ g lab)) st }"

definition visitRaceLHS3_2 :: "ExecutionGraph \<Rightarrow> EventLabel \<Rightarrow> Visited \<times> Stamp list \<Rightarrow>
    (Visited \<times> Stamp list) option" where
  "visitRaceLHS3_2 g lab st =
     do { st \<leftarrow> enter 2 lab st; accept_all (visitRaceLHS3_1 g) 1 (\<lambda>_. True) (opt_list (alloc_pred g lab)) st }"

definition checkRace3 :: "ExecutionGraph \<Rightarrow> EventLabel \<Rightarrow> EventLabel option option" where
  "checkRace3 g lab = do { st \<leftarrow> visitRaceLHS3_2 g lab ([], []); accepted_label g (snd st) }"

section \<open>Races with retirements\<close>

text \<open>
  isHazptrProtected: the last protection of the allocation before the access, unless the hazard
  pointer is used again in between. A static address or a missing allocation aborts.
\<close>

definition hp_overwritten :: "ExecutionGraph \<Rightarrow> EventLabel \<Rightarrow> EventLabel \<Rightarrow> bool" where
  "hp_overwritten g pLab mLab =
     list_ex (\<lambda>j. label_is (\<lambda>oLab. kind oLab = EL_HpProtect \<and> hpAddr oLab = hpAddr pLab) g
         (Event (getThread mLab) j))
       [getIndex pLab + 1 .. getIndex mLab - 1]"

definition isHazptrProtected :: "ExecutionGraph \<Rightarrow> EventLabel \<Rightarrow> bool option" where
  "isHazptrProtected g mLab =
     (if \<not> isDynamic (getAddr mLab) then None
      else do { a \<leftarrow> allocLab mLab;
                aLab \<leftarrow> getEventLabel g a;
                (case getPreviousLabelST g (position mLab)
                   (\<lambda>lab. kind lab = EL_HpProtect \<and> malloc_contains aLab (protAddr lab)) of
                   None \<Rightarrow> Some False
                 | Some pLab \<Rightarrow> Some (\<not> hp_overwritten g pLab mLab)) })"

definition unprotected :: "ExecutionGraph \<Rightarrow> EventLabel \<Rightarrow> bool option" where
  "unprotected g pLab =
     (if isMemAccess (kind pLab) \<and> isDynamic (getAddr pLab) then map_option Not (isHazptrProtected g pLab)
      else Some False)"

definition visitRaceLHS4_0 :: "View \<Rightarrow> EventLabel \<Rightarrow> Visited \<Rightarrow> (EventLabel + Visited) option" where
  "visitRaceLHS4_0 v lab vis = outside_view v lab vis"

definition visitRaceLHS4_1 :: "ExecutionGraph \<Rightarrow> View \<Rightarrow> EventLabel \<Rightarrow> Visited \<Rightarrow> (EventLabel + Visited) option" where
  "visitRaceLHS4_1 g v lab vis =
     entered 1 lab vis (\<lambda>vis. do { ls \<leftarrow> labels_at g (alloc_succs lab);
       visit_all (visitRaceLHS4_0 v) 0 (unprotected g) ls vis })"

definition visitRaceLHS4_2 :: "ExecutionGraph \<Rightarrow> View \<Rightarrow> EventLabel \<Rightarrow> Visited \<Rightarrow> (EventLabel + Visited) option" where
  "visitRaceLHS4_2 g v lab vis =
     entered 2 lab vis (\<lambda>vis.
       if kind lab = EL_HpRetire then
         and_then (visit_all (visitRaceLHS4_1 g v) 1 (passes (\<lambda>_. True)) (opt_list (free_pred g lab)) vis)
           (visit_all (visitRaceLHS4_0 v) 0 (unprotected g) (opt_list (free_pred g lab)))
       else Some (Inr vis))"

definition checkRace4 :: "ExecutionGraph \<Rightarrow> EventLabel \<Rightarrow> EventLabel option option" where
  "checkRace4 g lab = racy_of (visitRaceLHS4_2 g (label_view lab 0) lab [])"

definition visitRaceLHS5_0 :: "EventLabel \<Rightarrow> Visited \<times> Stamp list \<Rightarrow> (Visited \<times> Stamp list) option" where
  "visitRaceLHS5_0 lab st = accept lab st"

definition visitRaceLHS5_1 :: "ExecutionGraph \<Rightarrow> EventLabel \<Rightarrow> Visited \<times> Stamp list \<Rightarrow>
    (Visited \<times> Stamp list) option" where
  "visitRaceLHS5_1 g lab st =
     do { st \<leftarrow> enter 1 lab st;
          accept_all visitRaceLHS5_0 0 (\<lambda>p. kind p = EL_HpRetire) (opt_list (free_succ g lab)) st }"

definition visitRaceLHS5_2 :: "ExecutionGraph \<Rightarrow> EventLabel \<Rightarrow> Visited \<times> Stamp list \<Rightarrow>
    (Visited \<times> Stamp list) option" where
  "visitRaceLHS5_2 g lab st =
     do { st \<leftarrow> enter 2 lab st;
          c \<leftarrow> unprotected g lab;
          (if c then accept_all (visitRaceLHS5_1 g) 1 (\<lambda>_. True) (opt_list (alloc_pred g lab)) st else Some st) }"

definition checkRace5 :: "ExecutionGraph \<Rightarrow> EventLabel \<Rightarrow> EventLabel option option" where
  "checkRace5 g lab = do { st \<leftarrow> visitRaceLHS5_2 g lab ([], []); accepted_label g (snd st) }"

section \<open>Data races\<close>

definition visitRaceLHS6_0 :: "View \<Rightarrow> EventLabel \<Rightarrow> Visited \<Rightarrow> (EventLabel + Visited) option" where
  "visitRaceLHS6_0 v lab vis = outside_view v lab vis"

definition race_loop :: "ExecutionGraph \<Rightarrow> (EventLabel \<Rightarrow> Visited \<Rightarrow> (EventLabel + Visited) option) \<Rightarrow>
    EventLabel \<Rightarrow> bool \<Rightarrow> (EventLabel \<Rightarrow> bool) \<Rightarrow> Visited \<Rightarrow> (EventLabel + Visited) option" where
  "race_loop g f lab guard P vis =
     (if guard then visit_all f 0 (passes P) (samelocs g lab) vis else Some (Inr vis))"

definition visitRaceLHS6_1 :: "ExecutionGraph \<Rightarrow> View \<Rightarrow> EventLabel \<Rightarrow> Visited \<Rightarrow> (EventLabel + Visited) option" where
  "visitRaceLHS6_1 g v lab vis =
     entered 1 lab vis (\<lambda>vis.
       let loop = race_loop g (visitRaceLHS6_0 v) lab;
           na = isNotAtomic lab; w = isWrite (kind lab); r = isRead (kind lab) in
       and_then (and_then (and_then (and_then (and_then
         (loop (na \<and> w) (\<lambda>p. isWrite (kind p)) vis)
         (loop (na \<and> w) (\<lambda>p. isRead (kind p))))
         (loop (na \<and> r) (\<lambda>p. isWrite (kind p))))
         (loop w (\<lambda>p. isNotAtomic p \<and> isWrite (kind p))))
         (loop w (\<lambda>p. isNotAtomic p \<and> isRead (kind p))))
         (loop r (\<lambda>p. isNotAtomic p \<and> isWrite (kind p))))"

definition checkRace6 :: "ExecutionGraph \<Rightarrow> EventLabel \<Rightarrow> EventLabel option option" where
  "checkRace6 g lab = racy_of (visitRaceLHS6_1 g (label_view lab 0) lab [])"

text \<open>Write-write races, by the causal prefix.\<close>

definition visitRaceLHS7_0 :: "View \<Rightarrow> EventLabel \<Rightarrow> Visited \<Rightarrow> (EventLabel + Visited) option" where
  "visitRaceLHS7_0 v lab vis = outside_view v lab vis"

definition visitRaceLHS7_1 :: "ExecutionGraph \<Rightarrow> View \<Rightarrow> EventLabel \<Rightarrow> Visited \<Rightarrow> (EventLabel + Visited) option" where
  "visitRaceLHS7_1 g v lab vis =
     entered 1 lab vis (race_loop g (visitRaceLHS7_0 v) lab (isWrite (kind lab)) (\<lambda>p. isWrite (kind p)))"

definition checkRace7 :: "ExecutionGraph \<Rightarrow> EventLabel \<Rightarrow> EventLabel option option" where
  "checkRace7 g lab = racy_of (visitRaceLHS7_1 g (label_view lab 1) lab [])"

section \<open>Errors and warnings\<close>

text \<open>The checks run in order, and the first racy label decides the error.\<close>

fun first_race :: "((ExecutionGraph \<Rightarrow> EventLabel \<Rightarrow> EventLabel option option) \<times> VerificationError) list \<Rightarrow>
    ExecutionGraph \<Rightarrow> EventLabel \<Rightarrow> (VerificationError \<times> EventLabel option) option" where
  "first_race [] g lab = Some (VE_OK, None)"
| "first_race ((check, err) # cs) g lab =
     do { r \<leftarrow> check g lab; case r of Some race \<Rightarrow> Some (err, Some race) | None \<Rightarrow> first_race cs g lab }"

definition checkErrors :: "ExecutionGraph \<Rightarrow> EventLabel \<Rightarrow> (VerificationError \<times> EventLabel option) option" where
  "checkErrors g lab =
     first_race [(checkRace0, VE_AccessNonMalloc), (checkRace1, VE_DoubleFree), (checkRace2, VE_AccessFreed),
       (checkRace3, VE_AccessFreed), (checkRace4, VE_AccessFreed), (checkRace5, VE_AccessFreed),
       (checkRace6, VE_RaceNotAtomic)] g lab"

definition checkWarnings :: "ExecutionGraph \<Rightarrow> EventLabel \<Rightarrow> VerificationError VSet \<Rightarrow> EventLabel list \<Rightarrow>
    (VerificationError list \<times> EventLabel list) option" where
  "checkWarnings g lab seenWarnings racyLabs =
     (if VSet_count seenWarnings VE_WWRace = 0
      then do { r \<leftarrow> checkRace7 g lab;
                case r of Some race \<Rightarrow> Some ([VE_WWRace], racyLabs @ [race]) | None \<Rightarrow> Some ([], racyLabs) }
      else Some ([], racyLabs))"

section \<open>Outcomes of visits\<close>

text \<open>
  The visited accepting labels are in the view; and a visit of a set of targets either returns a
  target outside the view, or all targets are in the view.
\<close>

definition vis_ok :: "ExecutionGraph \<Rightarrow> View \<Rightarrow> Visited \<Rightarrow> bool" where
  "vis_ok g v vis = (\<forall>l\<in>set (graph_labels g). \<forall>s. stamp l = Some s \<longrightarrow> (0, s) \<in> set vis \<longrightarrow>
     View_contains v (position l))"

definition outcome :: "ExecutionGraph \<Rightarrow> View \<Rightarrow> (EventLabel \<Rightarrow> bool) \<Rightarrow> (EventLabel + Visited) option \<Rightarrow> bool" where
  "outcome g v T r =
     (case r of None \<Rightarrow> False
      | Some (Inl m) \<Rightarrow> T m \<and> \<not> View_contains v (position m)
      | Some (Inr vis) \<Rightarrow> (\<forall>m. T m \<longrightarrow> View_contains v (position m)) \<and> vis_ok g v vis)"

definition race_exact :: "View \<Rightarrow> (EventLabel \<Rightarrow> bool) \<Rightarrow> EventLabel option option \<Rightarrow> bool" where
  "race_exact v T r =
     (case r of None \<Rightarrow> False
      | Some None \<Rightarrow> \<forall>m. T m \<longrightarrow> View_contains v (position m)
      | Some (Some m) \<Rightarrow> T m \<and> \<not> View_contains v (position m))"

lemma stamp_of: "stamps_distinct g \<Longrightarrow> l \<in> set (graph_labels g) \<Longrightarrow> \<exists>s. stamp l = Some s"
  by (auto simp: stamps_distinct_def)

lemma in_opt_list: "m \<in> set (opt_list p) \<longleftrightarrow> p = Some m"
  by (auto simp: opt_list_def split: option.splits)

lemma vis_ok_simps [simp]: "vis_ok g v []" "q \<noteq> 0 \<Longrightarrow> vis_ok g v ((q, s) # vis) = vis_ok g v vis"
  by (simp_all add: vis_ok_def)

lemma outcome_empty [simp]: "outcome g v (\<lambda>m. False) (Some (Inr vis)) = vis_ok g v vis"
  by (simp add: outcome_def)

lemma racy_of_outcome: "outcome g v T r \<Longrightarrow> race_exact v T (racy_of r)"
  by (auto simp: outcome_def race_exact_def racy_of_def split: option.splits sum.splits)

lemma and_then_outcome:
  assumes "outcome g v T r" "\<And>vis. vis_ok g v vis \<Longrightarrow> outcome g v T' (f vis)"
  shows "outcome g v (\<lambda>m. T m \<or> T' m) (and_then r f)"
proof (cases r)
  case (Some x)
  show ?thesis
  proof (cases x)
    case (Inr vis)
    then have "vis_ok g v vis" "\<forall>m. T m \<longrightarrow> View_contains v (position m)"
      using assms(1) Some by (simp_all add: outcome_def)
    then show ?thesis
      using assms(2) [of vis] Some Inr by (auto simp: outcome_def and_then_def split: option.splits sum.splits)
  qed (use assms(1) Some in \<open>simp add: outcome_def and_then_def\<close>)
qed (use assms in \<open>simp add: outcome_def\<close>)

lemma entered_outcome:
  assumes "stamps_distinct g" "lab \<in> set (graph_labels g)" "\<And>s. outcome g v T (f ((q, s) # vis))"
  shows "outcome g v T (entered q lab vis f)"
  using assms by (auto simp: entered_def getStamp_def stamps_distinct_def)

lemma outside_view_outcome:
  assumes g: "stamps_distinct g" and l: "l \<in> set (graph_labels g)" and vis: "vis_ok g v vis"
  shows "outcome g v (\<lambda>m. m = l) (outside_view v l vis)"
proof -
  obtain s where s: "stamp l = Some s" using g l by (auto simp: stamps_distinct_def)
  have "m = l" if "m \<in> set (graph_labels g)" "stamp m = Some s" for m
    using that g l s by (auto simp: stamps_distinct_def inj_on_def)
  then show ?thesis
    using s vis by (auto simp: outside_view_def entered_def getStamp_def outcome_def vis_ok_def)
qed

lemma visit_all_outcome:
  assumes g: "stamps_distinct g"
  shows "set ls \<subseteq> set (graph_labels g) \<Longrightarrow> \<forall>l\<in>set ls. cond l = Some (P l) \<Longrightarrow> vis_ok g v vis \<Longrightarrow>
     outcome g v (\<lambda>m. m \<in> set ls \<and> P m) (visit_all (outside_view v) 0 cond ls vis)"
proof (induction ls arbitrary: vis)
  case (Cons l ls)
  obtain s where s: "stamp l = Some s" using g Cons.prems(1) by (auto simp: stamps_distinct_def)
  have l: "l \<in> set (graph_labels g)" "set ls \<subseteq> set (graph_labels g)" "cond l = Some (P l)"
    "\<forall>l\<in>set ls. cond l = Some (P l)" using Cons.prems by auto
  note IH = Cons.IH [OF l(2,4)]
  consider "\<not> P l" | "P l" "(0, s) \<in> set vis" | "P l" "(0, s) \<notin> set vis" by blast
  then show ?case
  proof cases
    case 1
    then have "(\<lambda>m. m \<in> set (l # ls) \<and> P m) = (\<lambda>m. m \<in> set ls \<and> P m)" by auto
    then show ?thesis using IH [OF Cons.prems(3)] 1 l by simp
  next
    case 2
    then have "View_contains v (position l)" using Cons.prems(3) l(1) s by (auto simp: vis_ok_def)
    then show ?thesis
      using IH [OF Cons.prems(3)] 2 l s
      by (auto simp: getStamp_def outcome_def split: option.splits sum.splits)
  next
    case 3
    then have *: "visit_all (outside_view v) 0 cond (l # ls) vis =
        and_then (outside_view v l vis) (visit_all (outside_view v) 0 cond ls)"
      using l s by (simp add: getStamp_def and_then_def)
    have "(\<lambda>m. m \<in> set (l # ls) \<and> P m) = (\<lambda>m. m = l \<or> m \<in> set ls \<and> P m)" using 3 by auto
    then show ?thesis
      using and_then_outcome [OF outside_view_outcome [OF g l(1) Cons.prems(3)] IH] * by simp
  qed
qed (simp add: outcome_def)

lemma race_loop_outcome:
  assumes "stamps_distinct g" "vis_ok g v vis"
  shows "outcome g v (\<lambda>m. guard \<and> m \<in> set (samelocs g lab) \<and> P m)
     (race_loop g (outside_view v) lab guard P vis)"
  using assms visit_all_outcome [OF assms(1), of "samelocs g lab" "passes P" P v vis]
  by (auto simp: race_loop_def passes_def samelocs_def)

lemma outcome_cong:
  assumes "outcome g v T r" "\<And>m. T m \<longleftrightarrow> T' m"
  shows "outcome g v T' r"
proof -
  have "T = T'" using assms(2) by (rule ext)
  then show ?thesis using assms(1) by simp
qed

section \<open>What each check decides\<close>

definition data_race_pair :: "ExecutionGraph \<Rightarrow> EventLabel \<Rightarrow> EventLabel \<Rightarrow> bool" where
  "data_race_pair g lab m =
     (m \<in> set (graph_labels g) \<and> position m \<noteq> position lab \<and> getAddr m = getAddr lab \<and>
      (isRead (kind lab) \<or> isWrite (kind lab)) \<and> (isRead (kind m) \<or> isWrite (kind m)) \<and>
      (isWrite (kind lab) \<or> isWrite (kind m)) \<and> (isNotAtomic lab \<or> isNotAtomic m))"

lemma in_samelocs:
  assumes "isRead (kind lab) \<or> isWrite (kind lab)" "isRead (kind m) \<or> isWrite (kind m)"
  shows "m \<in> set (samelocs g lab) \<longleftrightarrow>
    m \<in> set (graph_labels g) \<and> position m \<noteq> position lab \<and> getAddr m = getAddr lab"
  using assms by (auto simp: samelocs_def hasLocation_def getLocation_def IDAndLocFilter_def)

lemma race_pair_cases:
  "data_race_pair g lab m \<longleftrightarrow>
     ((((((isNotAtomic lab \<and> isWrite (kind lab)) \<and> m \<in> set (samelocs g lab) \<and> isWrite (kind m) \<or>
     (isNotAtomic lab \<and> isWrite (kind lab)) \<and> m \<in> set (samelocs g lab) \<and> isRead (kind m)) \<or>
     (isNotAtomic lab \<and> isRead (kind lab)) \<and> m \<in> set (samelocs g lab) \<and> isWrite (kind m)) \<or>
     isWrite (kind lab) \<and> m \<in> set (samelocs g lab) \<and> isNotAtomic m \<and> isWrite (kind m)) \<or>
     isWrite (kind lab) \<and> m \<in> set (samelocs g lab) \<and> isNotAtomic m \<and> isRead (kind m)) \<or>
     isRead (kind lab) \<and> m \<in> set (samelocs g lab) \<and> isNotAtomic m \<and> isWrite (kind m))"
proof (cases "(isRead (kind lab) \<or> isWrite (kind lab)) \<and> (isRead (kind m) \<or> isWrite (kind m))")
  case True
  then show ?thesis unfolding data_race_pair_def in_samelocs [OF True [THEN conjunct1] True [THEN conjunct2]] by argo
next
  case False
  then show ?thesis unfolding data_race_pair_def by argo
qed

lemma checkRace6_exact:
  assumes g: "stamps_distinct g" and l: "lab \<in> set (graph_labels g)"
  shows "race_exact (label_view lab 0) (data_race_pair g lab) (checkRace6 g lab)"
proof -
  have f: "visitRaceLHS6_0 v = outside_view v" for v by (rule ext)+ (rule visitRaceLHS6_0_def)
  have "outcome g v (data_race_pair g lab) (visitRaceLHS6_1 g v lab [])" for v
    unfolding visitRaceLHS6_1_def f Let_def
    by (rule entered_outcome [OF g l], rule outcome_cong [OF _ race_pair_cases [symmetric]])
      (intro and_then_outcome race_loop_outcome g; simp)
  then show ?thesis unfolding checkRace6_def by (rule racy_of_outcome)
qed

text \<open>The accesses that an allocation has recorded, and the hypotheses on the pointers of a graph.\<close>

definition accesses_of :: "ExecutionGraph \<Rightarrow> EventLabel \<Rightarrow> EventLabel \<Rightarrow> bool" where
  "accesses_of g a m = (\<exists>e\<in>set (alloc_succs a). getEventLabel g e = Some m)"

definition allocs_linked :: "ExecutionGraph \<Rightarrow> bool" where
  "allocs_linked g = ((\<forall>l\<in>set (graph_labels g). \<forall>e\<in>set (alloc_succs l). containsPos g e) \<and>
     (\<forall>l\<in>set (graph_labels g). isMemAccess (kind l) \<longrightarrow> isDynamic (getAddr l) \<longrightarrow> alloc_pred g l \<noteq> None))"

lemma other_preds_in:
  "alloc_pred g l = Some p \<Longrightarrow> p \<in> set (graph_labels g)"
  "free_pred g l = Some p \<Longrightarrow> p \<in> set (graph_labels g)"
  "free_succ g l = Some p \<Longrightarrow> p \<in> set (graph_labels g)"
  by (auto simp: alloc_pred_def free_pred_def free_succ_def getEventLabel_in split: if_splits Option.bind_splits)

lemma labels_at_accesses:
  assumes "allocs_linked g" "a \<in> set (graph_labels g)"
  obtains ls where "labels_at g (alloc_succs a) = Some ls" "set ls \<subseteq> set (graph_labels g)"
    "\<And>m. m \<in> set ls \<longleftrightarrow> accesses_of g a m"
proof -
  define f where "f e = the (getEventLabel g e)" for e
  have f: "getEventLabel g e = Some (f e)" if "e \<in> set (alloc_succs a)" for e
    using that assms by (auto simp: allocs_linked_def f_def getEventLabel_def)
  have "\<forall>e\<in>set es. getEventLabel g e = Some (f e) \<Longrightarrow> labels_at g es = Some (map f es)" for es
    unfolding labels_at_def by (induction es) auto
  then have "labels_at g (alloc_succs a) = Some (map f (alloc_succs a))" using f by blast
  then show thesis
    using that [of "map f (alloc_succs a)"] f getEventLabel_in by (auto simp: accesses_of_def)
qed

lemma unprotected_total:
  assumes "allocs_linked g" "m \<in> set (graph_labels g)"
  shows "\<exists>c. unprotected g m = Some c"
proof (cases "isMemAccess (kind m) \<and> isDynamic (getAddr m)")
  case True
  then have "alloc_pred g m \<noteq> None" using assms unfolding allocs_linked_def by blast
  then obtain a al where "allocLab m = Some a" "getEventLabel g a = Some al"
    by (auto simp: alloc_pred_def split: if_splits Option.bind_splits)
  then show ?thesis using True by (auto simp: unprotected_def isHazptrProtected_def split: option.split)
qed (auto simp: unprotected_def)

text \<open>A visit of at most one label, in a state nothing was visited in.\<close>

lemma visit_one_outcome:
  assumes g: "stamps_distinct g" and new: "\<forall>s. (q, s) \<notin> set vis" and vis: "vis_ok g v vis"
    and p: "\<And>a. p = Some a \<Longrightarrow> a \<in> set (graph_labels g)"
    and f: "\<And>a. p = Some a \<Longrightarrow> outcome g v (T a) (f a vis)"
  shows "outcome g v (\<lambda>m. \<exists>a. p = Some a \<and> T a m) (visit_all f q (passes (\<lambda>_. True)) (opt_list p) vis)"
proof (cases p)
  case (Some a)
  then obtain s where "stamp a = Some s" using p stamp_of [OF g] by blast
  then show ?thesis
    using f [OF Some] new Some by (auto simp: opt_list_def passes_def getStamp_def outcome_def
        split: option.splits sum.splits)
qed (use vis in \<open>simp add: opt_list_def\<close>)

lemma checkRace0_exact:
  assumes g: "stamps_distinct g" and l: "lab \<in> set (graph_labels g)"
  shows "race_exact (label_view lab 0) (\<lambda>m. alloc_pred g lab = Some m) (checkRace0 g lab)"
proof -
  have f: "visitRaceLHS0_0 v = outside_view v" for v by (rule ext)+ (rule visitRaceLHS0_0_def)
  have "outcome g v (\<lambda>m. alloc_pred g lab = Some m) (visitRaceLHS0_1 g v lab [])" for v
    unfolding visitRaceLHS0_1_def f
    by (rule entered_outcome [OF g l], rule outcome_cong [OF visit_one_outcome [where T = "\<lambda>a m. m = a"]])
      (use g other_preds_in(1) outside_view_outcome in auto)
  then show ?thesis unfolding checkRace0_def by (rule racy_of_outcome)
qed

text \<open>The two checks of frees differ in the labels they accept.\<close>

lemma free_visit_outcome:
  assumes g: "stamps_distinct g" "allocs_linked g" and l: "lab \<in> set (graph_labels g)"
    and cond: "\<And>m. m \<in> set (graph_labels g) \<Longrightarrow> cond m = Some (P m)"
    and f: "\<And>a vis. f a vis = entered 1 a vis (\<lambda>vis. do { ls \<leftarrow> labels_at g (alloc_succs a);
       visit_all (outside_view v) 0 cond ls vis })"
  shows "outcome g v (\<lambda>m. \<exists>a. free_pred g lab = Some a \<and> (m = a \<or> accesses_of g a m) \<and> P m)
    (entered 2 lab [] (\<lambda>vis. and_then (visit_all f 1 (passes (\<lambda>_. True)) (opt_list (free_pred g lab)) vis)
           (visit_all (outside_view v) 0 cond (opt_list (free_pred g lab)))))"
proof (rule entered_outcome [OF g(1) l], rule outcome_cong [OF and_then_outcome [OF visit_one_outcome]])
  fix s a assume a: "free_pred g lab = Some a"
  then have a_in: "a \<in> set (graph_labels g)" by (rule other_preds_in)
  obtain ls where ls: "labels_at g (alloc_succs a) = Some ls" "set ls \<subseteq> set (graph_labels g)"
    "\<And>m. m \<in> set ls \<longleftrightarrow> accesses_of g a m" using labels_at_accesses [OF g(2) a_in] by metis
  show "outcome g v (\<lambda>m. accesses_of g a m \<and> P m) (f a [(2, s)])"
    unfolding f ls(1)
  proof (rule entered_outcome [OF g(1) a_in])
    fix s'
    show "outcome g v (\<lambda>m. accesses_of g a m \<and> P m)
        (Some ls \<bind> (\<lambda>ls. visit_all (outside_view v) 0 cond ls [(1, s'), (2, s)]))"
      using visit_all_outcome [OF g(1) ls(2), of cond P v "[(1, s'), (2, s)]"] cond ls(2,3) by auto
  qed
next
  fix vis assume "vis_ok g v vis"
  then show "outcome g v (\<lambda>m. m \<in> set (opt_list (free_pred g lab)) \<and> P m)
      (visit_all (outside_view v) 0 cond (opt_list (free_pred g lab)) vis)"
    using other_preds_in(2) [of g lab] cond
    by (intro visit_all_outcome [OF g(1)]) (auto simp: in_opt_list)
qed (use g other_preds_in(2) in \<open>auto simp: in_opt_list\<close>)

definition freed_before :: "ExecutionGraph \<Rightarrow> EventLabel \<Rightarrow> EventLabel \<Rightarrow> bool" where
  "freed_before g lab m = (isPlainFree lab \<and> (\<exists>a. free_pred g lab = Some a \<and> (m = a \<or> accesses_of g a m)))"

lemma checkRace2_exact:
  assumes g: "stamps_distinct g" "allocs_linked g" and l: "lab \<in> set (graph_labels g)"
  shows "race_exact (label_view lab 0) (freed_before g lab) (checkRace2 g lab)"
proof -
  have f: "visitRaceLHS2_0 v = outside_view v" for v by (rule ext)+ (rule visitRaceLHS2_0_def)
  have "outcome g v (freed_before g lab) (visitRaceLHS2_2 g v lab [])" for v
  proof (cases "isPlainFree lab")
    case True
    then have "freed_before g lab = (\<lambda>m. \<exists>a. free_pred g lab = Some a \<and> (m = a \<or> accesses_of g a m) \<and> True)"
      by (auto simp: freed_before_def)
    then show ?thesis
      unfolding visitRaceLHS2_2_def f if_P [OF True]
      by (simp only:) (rule free_visit_outcome [OF g l, of "passes (\<lambda>_. True)" "\<lambda>_. True"],
        simp_all add: passes_def visitRaceLHS2_1_def f)
  next
    case False
    then show ?thesis
      using l g(1) by (auto simp: visitRaceLHS2_2_def freed_before_def [abs_def] entered_def getStamp_def stamps_distinct_def)
  qed
  then show ?thesis unfolding checkRace2_def by (rule racy_of_outcome)
qed

definition retired_before :: "ExecutionGraph \<Rightarrow> EventLabel \<Rightarrow> EventLabel \<Rightarrow> bool" where
  "retired_before g lab m = (kind lab = EL_HpRetire \<and> (\<exists>a. free_pred g lab = Some a \<and>
     (m = a \<or> accesses_of g a m) \<and> unprotected g m = Some True))"

lemma checkRace4_exact:
  assumes g: "stamps_distinct g" "allocs_linked g" and l: "lab \<in> set (graph_labels g)"
  shows "race_exact (label_view lab 0) (retired_before g lab) (checkRace4 g lab)"
proof -
  have f: "visitRaceLHS4_0 v = outside_view v" for v by (rule ext)+ (rule visitRaceLHS4_0_def)
  have u: "unprotected g m = Some (unprotected g m = Some True)" if "m \<in> set (graph_labels g)" for m
    using unprotected_total [OF g(2) that] by auto
  have "outcome g v (retired_before g lab) (visitRaceLHS4_2 g v lab [])" for v
  proof (cases "kind lab = EL_HpRetire")
    case True
    then have "retired_before g lab = (\<lambda>m. \<exists>a. free_pred g lab = Some a \<and> (m = a \<or> accesses_of g a m) \<and>
        unprotected g m = Some True)" by (auto simp: retired_before_def)
    then show ?thesis
      unfolding visitRaceLHS4_2_def f if_P [OF True]
      by (simp only:) (rule free_visit_outcome [OF g l u], simp_all add: visitRaceLHS4_1_def f)
  next
    case False
    then show ?thesis
      using l g(1) by (auto simp: visitRaceLHS4_2_def retired_before_def [abs_def] entered_def getStamp_def stamps_distinct_def)
  qed
  then show ?thesis unfolding checkRace4_def by (rule racy_of_outcome)
qed

text \<open>The checks of accesses: the label that frees or retires the allocation, if there is one.\<close>

lemma accepted_one:
  assumes "stamps_distinct g" "m \<in> set (graph_labels g)" "stamp m = Some s"
  shows "accepted_label g [s] = Some (Some m)"
proof -
  have "find (\<lambda>l. stamp l = Some s) (graph_labels g) \<noteq> None"
    using assms by (auto simp: find_None_iff)
  then obtain x where x: "find (\<lambda>l. stamp l = Some s) (graph_labels g) = Some x" by blast
  then have "x \<in> set (graph_labels g)" "stamp x = Some s" by (auto simp: find_Some_iff)
  then have "x = m" using assms by (auto simp: stamps_distinct_def inj_on_def)
  then show ?thesis using x by (simp add: accepted_label_def)
qed

definition freed_by :: "ExecutionGraph \<Rightarrow> (EventLabel \<Rightarrow> bool) \<Rightarrow> EventLabel \<Rightarrow> EventLabel option" where
  "freed_by g P lab =
     do { a \<leftarrow> alloc_pred g lab; f \<leftarrow> free_succ g a; if P f then Some f else None }"

lemma accept_free:
  assumes g: "stamps_distinct g" and l: "lab \<in> set (graph_labels g)"
    and f0: "\<And>l st. f0 l st = accept l st"
    and f1: "\<And>l st. f1 l st = do { st \<leftarrow> enter 1 l st; accept_all f0 0 P (opt_list (free_succ g l)) st }"
  shows "do { st \<leftarrow> enter 2 lab ([], []);
      st \<leftarrow> accept_all f1 1 (\<lambda>_. True) (opt_list (alloc_pred g lab)) st; accepted_label g (snd st) } =
    Some (freed_by g P lab)"
proof -
  obtain s where s: "stamp lab = Some s" using g l by (auto simp: stamps_distinct_def)
  have e: "accepted_label g [] = Some None" by (simp add: accepted_label_def)
  show ?thesis
  proof (cases "alloc_pred g lab")
    case None
    then show ?thesis using s e by (simp add: enter_def getStamp_def opt_list_def freed_by_def)
  next
    case (Some a)
    then obtain sa where sa: "stamp a = Some sa" using stamp_of [OF g other_preds_in(1)] by blast
    show ?thesis
    proof (cases "free_succ g a")
      case None
      then show ?thesis
        using s sa e Some by (simp add: enter_def getStamp_def opt_list_def freed_by_def f1)
    next
      case (Some m)
      then have m: "m \<in> set (graph_labels g)" by (rule other_preds_in)
      then obtain sm where sm: "stamp m = Some sm" using g by (auto simp: stamps_distinct_def)
      show ?thesis
        using s sa sm e \<open>alloc_pred g lab = Some a\<close> Some accepted_one [OF g m sm]
        by (simp add: enter_def getStamp_def opt_list_def freed_by_def f1 f0 accept_def)
    qed
  qed
qed

lemma checkRace3_exact:
  assumes "stamps_distinct g" "lab \<in> set (graph_labels g)"
  shows "checkRace3 g lab = Some (freed_by g isPlainFree lab)"
  using accept_free [OF assms, of visitRaceLHS3_0 "visitRaceLHS3_1 g" isPlainFree]
  by (simp add: checkRace3_def visitRaceLHS3_2_def visitRaceLHS3_1_def visitRaceLHS3_0_def)

lemma checkRace5_exact:
  assumes "stamps_distinct g" "allocs_linked g" "lab \<in> set (graph_labels g)"
  shows "checkRace5 g lab =
    Some (if unprotected g lab = Some True then freed_by g (\<lambda>m. kind m = EL_HpRetire) lab else None)"
proof -
  obtain c where c: "unprotected g lab = Some c" using unprotected_total assms by blast
  obtain s where "stamp lab = Some s" using assms by (auto simp: stamps_distinct_def)
  then show ?thesis
    using c accept_free [OF assms(1,3), of visitRaceLHS5_0 "visitRaceLHS5_1 g" "\<lambda>m. kind m = EL_HpRetire"]
    by (auto simp: checkRace5_def visitRaceLHS5_2_def visitRaceLHS5_1_def visitRaceLHS5_0_def enter_def
        getStamp_def accepted_label_def)
qed

text \<open>A free has no location for the purpose of the range it would iterate over.\<close>

lemma free_samelocs: "isFree (kind lab) \<Longrightarrow> samelocs g lab = []"
  using kind_disjoint(5) [of "kind lab"] by (auto simp: samelocs_def hasLocation_def kind_defs)

lemma checkRace1_never:
  assumes "stamps_distinct g" "lab \<in> set (graph_labels g)"
  shows "checkRace1 g lab = Some None"
proof -
  obtain s where s: "stamp lab = Some s" using assms by (auto simp: stamps_distinct_def)
  have "kind lab = EL_HpRetire \<Longrightarrow> isFree (kind lab)" by (simp add: kind_defs)
  then have "samelocs g lab = []" if "isPlainFree lab \<or> kind lab = EL_HpRetire"
    using that free_samelocs by (auto simp: isPlainFree_def)
  then show ?thesis
    using s by (auto simp: checkRace1_def visitRaceLHS1_1_def enter_def getStamp_def accepted_label_def)
qed

section \<open>An example\<close>

text \<open>Two threads access a static variable, one writes and the other reads, not atomically.\<close>

definition race_access :: AAccess where
  "race_access = \<lparr>acc_addr = staticMask, acc_size = 4, acc_type = Signed\<rparr>"

definition race_write :: EventLabel where
  "race_write = (WriteLabel EL_Write (Event 0 1) NotAtomic race_access 42 WA_None EventDeps_empty)
     \<lparr>stamp := Some 1, readerList := [Event 1 1]\<rparr>"

definition race_start :: EventLabel where
  "race_start = (ThreadStartLabel (Event 1 0) Acquire getInit ThreadInfo_default (-1))\<lparr>stamp := Some 2\<rparr>"

definition race_read :: EventLabel where
  "race_read = (ReadLabel EL_Read (Event 1 1) NotAtomic race_access (Some (Event 0 1)) EventDeps_empty)
     \<lparr>stamp := Some 3\<rparr>"

definition race_graph :: ExecutionGraph where
  "race_graph = \<lparr>events = [[example_init, race_write], [race_start, race_read]], timestamp = 4,
     coherence = [(staticMask, [Event 0 1])], recoveryTID = -1\<rparr>"

lemma race_label:
  "getEventLabel race_graph e =
     (if e = getInit then Some example_init else if e = Event 0 1 then Some race_write
      else if e = Event 1 0 then Some race_start else if e = Event 1 1 then Some race_read else None)"
  by (cases e)
    (auto simp: race_graph_def getEventLabel_def containsPos_iff getInit_def nth_Cons' nat_eq_iff2)

lemma race_labels: "set (graph_labels race_graph) = {example_init, race_write, race_start, race_read}"
  by (auto simp: graph_labels_def race_graph_def)

lemmas race_label_defs = race_write_def race_start_def race_read_def WriteLabel_def ReadLabel_def
  ThreadStartLabel_def MemAccessLabel_def EventLabel_new_def race_access_def

lemma race_fields [simp]:
  "kind race_write = EL_Write" "position race_write = Event 0 1" "stamp race_write = Some 1"
  "getAddr race_write = staticMask" "allocLab race_write = None"
  "kind race_start = EL_ThreadStart" "position race_start = Event 1 0" "stamp race_start = Some 2"
  "parentCreate race_start = getInit"
  "kind race_read = EL_Read" "position race_read = Event 1 1" "stamp race_read = Some 3"
  "getAddr race_read = staticMask" "allocLab race_read = None" "isNotAtomic race_read"
  by (simp_all add: race_label_defs getAddr_def isNotAtomic_def)

lemma race_views [simp]:
  "label_view race_write i = View_empty" "label_view race_start i = View_empty"
  "label_view race_read i = View_empty"
  by (simp_all add: label_view_def race_label_defs)

lemma race_static [simp]: "\<not> isDynamic staticMask"
  by (simp add: isDynamic_def isStatic_def staticMask_def)

lemma start_kind [simp]: "isThreadStart EL_ThreadStart" "\<not> isRead EL_ThreadStart" "\<not> isMemAccess EL_ThreadStart"
  by (simp_all add: kind_defs)

lemma race_ready: "views_ready i race_graph" and race_linked: "allocs_linked race_graph"
proof -
  have "View_inv View_empty" by (simp add: View_inv_iff view_simps)
  then have "views_fine i race_graph" by (simp add: views_fine_def race_labels pos_event_def getInit_def)
  moreover have "stamps_distinct race_graph" by (simp add: stamps_distinct_def race_labels inj_on_def)
  moreover have "labels_placed race_graph" by (simp add: labels_placed_def race_label)
  ultimately show "views_ready i race_graph" by (simp add: views_ready_def)
  show "allocs_linked race_graph" by (simp add: allocs_linked_def race_labels alloc_succs_def)
qed

lemma race_pair: "data_race_pair race_graph race_read race_write"
  by (simp add: data_race_pair_def race_labels)

text \<open>Only the start of its thread happens before the read.\<close>

lemma race_sources:
  "hb_source race_graph race_start m \<longleftrightarrow> False"
  "hb_source race_graph race_read m \<longleftrightarrow> m = race_start"
proof -
  have po: "po_step race_graph race_start p \<longleftrightarrow> False" "po_step race_graph race_read p \<longleftrightarrow> p = race_start" for p
    by (auto simp: po_step_def po_imm_pred_def getPreviousLabel_def race_label Event_prev_def getInit_def)
  have cross: "cross_pred race_graph race_start p \<longleftrightarrow> False" for p
    by (simp add: cross_pred_def tc_pred_def tj_pred_def race_label)
  have rf: "rf_pred race_graph race_start = None" by (simp add: rf_pred_def)
  then have "\<not> synchronizes race_graph race_start m"
    unfolding synchronizes_def by (metis converse_rtranclpE option.distinct(1) rmw_step_def)
  then show "hb_source race_graph race_start m \<longleftrightarrow> False" "hb_source race_graph race_read m \<longleftrightarrow> m = race_start"
    by (auto simp: hb_source_def po cross acquired_by_def acquire_fence_def)
qed

lemma race_hb: "hb_before race_graph race_read m \<longleftrightarrow> m = race_start"
  unfolding hb_before_def using race_sources by (metis rtranclpD tranclpD tranclp.r_into_trancl)

lemma race_view: "view_of (hb_before race_graph race_read) View_empty"
  by (auto simp: view_of_def race_hb View_inv_iff view_simps View_contains_def pos_event_def)

section \<open>Properties\<close>

text \<open>A race of one of the forms the driver looks for, in the order of the checks.\<close>

definition unordered :: "EventLabel \<Rightarrow> (EventLabel \<Rightarrow> bool) \<Rightarrow> bool" where
  "unordered lab T = (\<exists>m. T m \<and> \<not> View_contains (label_view lab 0) (position m))"

definition error_spec :: "ExecutionGraph \<Rightarrow> EventLabel \<Rightarrow> VerificationError" where
  "error_spec g lab =
     (if unordered lab (\<lambda>m. alloc_pred g lab = Some m) then VE_AccessNonMalloc
      else if unordered lab (freed_before g lab) \<or> freed_by g isPlainFree lab \<noteq> None \<or>
        unordered lab (retired_before g lab) \<or>
        (unprotected g lab = Some True \<and> freed_by g (\<lambda>m. kind m = EL_HpRetire) lab \<noteq> None) then VE_AccessFreed
      else if unordered lab (data_race_pair g lab) then VE_RaceNotAtomic
      else VE_OK)"

lemma race_exact_unordered:
  "race_exact (label_view lab 0) T r \<Longrightarrow>
     \<exists>x. r = Some x \<and> (x \<noteq> None \<longleftrightarrow> unordered lab T)"
  by (auto simp: race_exact_def unordered_def split: option.splits)

lemma first_race_Cons:
  "check g lab = Some x \<Longrightarrow>
     first_race ((check, err) # cs) g lab = (if x = None then first_race cs g lab else Some (err, x))"
  by (simp split: option.split)



text \<open>
  C6. A data race is reported exactly between conflicting accesses that happens-before leaves
  unordered: with the happens-before view of the label stored, the check returns a label that forms
  a data race with it and does not happen before it, or there is no such label.
\<close>

theorem checkRace6_data_race:
  assumes "views_ready 0 g" "lab \<in> set (graph_labels g)"
    and "\<forall>m\<in>set (graph_labels g). isMemAccess (kind m) \<longrightarrow> 0 < index (position m)"
    and "view_of (hb_before g lab) (label_view lab 0)"
  shows "\<exists>r. checkRace6 g lab = Some r \<and>
     (case r of None \<Rightarrow> \<forall>m. data_race_pair g lab m \<longrightarrow> hb_before g lab m
      | Some m \<Rightarrow> data_race_pair g lab m \<and> \<not> hb_before g lab m)"
proof -
  have hb: "View_contains (label_view lab 0) (position m) \<longleftrightarrow> hb_before g lab m" if "data_race_pair g lab m" for m
  proof -
    have m: "m \<in> set (graph_labels g)" "isMemAccess (kind m)" using that by (auto simp: data_race_pair_def)
    then have "View_contains (label_view lab 0) (position m) \<longleftrightarrow> (\<exists>m'. hb_before g lab m' \<and> position m' = position m)"
      using assms(1,3,4) by (simp add: view_of_def views_ready_def views_fine_def)
    moreover have "m' = m" if "hb_before g lab m'" "position m' = position m" for m'
    proof -
      have "m' \<in> set (graph_labels g)"
        using that(1) view0.src_in unfolding hb_before_def by (auto elim: tranclp.cases)
      then show ?thesis using placed_in m(1) that(2) assms(1) by (metis option.inject views_ready_def)
    qed
    ultimately show ?thesis by blast
  qed
  have "race_exact (label_view lab 0) (data_race_pair g lab) (checkRace6 g lab)"
    using checkRace6_exact assms(1,2) by (simp add: views_ready_def)
  then show ?thesis using hb by (auto simp: race_exact_def split: option.splits)
qed

theorem checkRace6_data_race_witness:
  "\<exists>m. checkRace6 race_graph race_read = Some (Some m) \<and> data_race_pair race_graph race_read m \<and>
     \<not> hb_before race_graph race_read m"
proof -
  have "\<not> hb_before race_graph race_read race_write" by (auto simp: race_hb dest: arg_cong [of _ _ kind])
  then show ?thesis
    using checkRace6_data_race [of race_graph race_read] race_ready race_view race_pair
    by (auto simp: race_labels split: option.splits)
qed

text \<open>
  The check for double frees never reports one: the labels at the location of a free are
  computed only for memory accesses and flushes.
\<close>

theorem checkRace1_vacuous:
  assumes "stamps_distinct g" "lab \<in> set (graph_labels g)"
  shows "checkRace1 g lab = Some None"
  using assms by (rule checkRace1_never)

theorem checkRace1_vacuous_witness: "checkRace1 race_graph race_read = Some None"
  using checkRace1_vacuous [of race_graph race_read] race_ready by (simp add: views_ready_def race_labels)

text \<open>
  A warning for a write-write race is given at most once per kind of warning, and exactly if a
  write to the same location is not in the causal prefix of the new write.
\<close>

theorem checkWarnings_exact:
  assumes "stamps_distinct g" "lab \<in> set (graph_labels g)" "VSet_inv seen"
  shows "\<exists>racy. checkWarnings g lab seen ls =
     Some (if VE_WWRace \<notin> set seen \<and> isWrite (kind lab) \<and>
            (\<exists>m\<in>set (samelocs g lab). isWrite (kind m) \<and> \<not> View_contains (label_view lab 1) (position m))
           then ([VE_WWRace], ls @ [racy]) else ([], ls))"
proof -
  have f: "visitRaceLHS7_0 v = outside_view v" for v by (rule ext)+ (rule visitRaceLHS7_0_def)
  have "outcome g v (\<lambda>m. isWrite (kind lab) \<and> m \<in> set (samelocs g lab) \<and> isWrite (kind m))
      (visitRaceLHS7_1 g v lab [])" for v
    unfolding visitRaceLHS7_1_def f
    by (rule entered_outcome [OF assms(1,2)], rule race_loop_outcome) (simp_all add: assms)
  then have "race_exact (label_view lab 1) (\<lambda>m. isWrite (kind lab) \<and> m \<in> set (samelocs g lab) \<and> isWrite (kind m))
      (checkRace7 g lab)" unfolding checkRace7_def by (rule racy_of_outcome)
  then show ?thesis
    using VSet_count_iff [OF assms(3), of VE_WWRace]
    by (auto simp: checkWarnings_def race_exact_def split: option.splits)
qed

theorem checkWarnings_exact_witness: "checkWarnings race_graph race_read [] [] = Some ([], [])"
  using checkWarnings_exact [of race_graph race_read "[]" "[]"] race_ready
  by (simp add: views_ready_def race_labels VSet_inv_def)

end
