(* ===== verification/RACoherence.thy ===== *)
theory RACoherence
  imports RARaces "HOL-Library.Sublist"
begin

text \<open>
  The coherence options of the RA driver (src/src/RADriver.cpp): the stores a read may read from,
  the reads a write may revisit, and the places of a write in coherence order. An iterator into a
  coherence list is the part of the list from it on; a label that is missing and an abort are None.
  The driver does not track dependencies; the flag of the mixed-size mode is an argument.
\<close>

definition isDepTracking :: bool where "isDepTracking = False"

definition isWriteRfBefore :: "ExecutionGraph \<Rightarrow> Event \<Rightarrow> Event \<Rightarrow> AAccess \<Rightarrow> bool option" where
  "isWriteRfBefore g a b acc =
     do { bLab \<leftarrow> getEventLabel g b;
          if View_contains (label_view bLab 0) a then Some True
          else do { wLab \<leftarrow> getEventLabel g a;
                    BUG_ON (\<not> isWrite (kind wLab));
                    Some (list_ex (\<lambda>r. label_is (\<lambda>rLab. AAccess_overlaps (access rLab) acc) g r \<and>
                      View_contains (label_view bLab 0) r) (readerList wLab)) } }"

definition isHbOptRfBefore :: "ExecutionGraph \<Rightarrow> Event \<Rightarrow> Event \<Rightarrow> AAccess \<Rightarrow> bool option" where
  "isHbOptRfBefore g e write acc =
     do { sLab \<leftarrow> getEventLabel g write;
          BUG_ON (\<not> isWrite (kind sLab));
          Some (View_contains (label_view sLab 0) e \<or>
            list_ex (label_is (\<lambda>rLab. AAccess_overlaps (access rLab) acc \<and> View_contains (label_view rLab 0) e) g)
              (readerList sLab)) }"

definition splitLocMOBefore :: "ExecutionGraph \<Rightarrow> EventLabel \<Rightarrow> Event list option" where
  "splitLocMOBefore g mLab =
     do { rit \<leftarrow> find_opt (\<lambda>w. isWriteRfBefore g w (position mLab) (access mLab)) (rev (co_range g (access mLab)));
          (case rit of None \<Rightarrow> Some (co_range g (access mLab))
           | Some w \<Rightarrow> do { wLab \<leftarrow> getEventLabel g w; Some (co_succ g wLab (access mLab)) }) }"

definition splitLocMOAfterHb :: "ExecutionGraph \<Rightarrow> EventLabel \<Rightarrow> Event list option" where
  "splitLocMOAfterHb g rLab =
     (if list_ex (label_is (\<lambda>l. View_contains (label_view l 0) (position rLab)) g) (getInitRfsAtLoc g (access rLab))
      then Some (co_range g (access rLab))
      else do { it \<leftarrow> find_suffix (\<lambda>w. isHbOptRfBefore g (position rLab) w (access rLab)) (co_range g (access rLab));
                (case it of [] \<Rightarrow> Some []
                 | w # ws \<Rightarrow> do { wLab \<leftarrow> getEventLabel g w;
                     Some (if View_contains (label_view wLab 0) (position rLab) then w # ws else ws) }) })"

definition splitLocMOAfter :: "ExecutionGraph \<Rightarrow> EventLabel \<Rightarrow> Event list option" where
  "splitLocMOAfter g sLab =
     find_suffix (\<lambda>w. isHbOptRfBefore g (position sLab) w (access sLab)) (co_range g (access sLab))"

text \<open>The stores between two iterators: the part of the first before the second.\<close>

definition between :: "Event list \<Rightarrow> Event list \<Rightarrow> Event list" where
  "between begIt endIt = take (length begIt - length endIt) begIt"

definition getCoherentStores :: "bool \<Rightarrow> ExecutionGraph \<Rightarrow> EventLabel \<Rightarrow> Event list option" where
  "getCoherentStores mixer g rLab =
     (let stores = co_range g (access rLab) in
      if mixer then Some (getInit # stores)
      else do { begIt \<leftarrow> splitLocMOBefore g rLab;
                let first = (if length begIt = length stores then getInit
                             else stores ! (length stores - length begIt - 1)) in
                do { endIt \<leftarrow> (if isDepTracking then splitLocMOAfterHb g rLab else Some []);
                     Some (first # between begIt endIt) } })"

definition readers_of :: "ExecutionGraph \<Rightarrow> Event \<Rightarrow> Event list" where
  "readers_of g w = (case getEventLabel g w of None \<Rightarrow> [] | Some wLab \<Rightarrow> readerList wLab)"

definition getMOOptRfAfter :: "ExecutionGraph \<Rightarrow> EventLabel \<Rightarrow> Event list" where
  "getMOOptRfAfter g sLab =
     (let ws = co_succ g sLab (access sLab) in ws @ concat (map (readers_of g) ws))"

definition getMOInvOptRfAfter :: "ExecutionGraph \<Rightarrow> EventLabel \<Rightarrow> Event list" where
  "getMOInvOptRfAfter g sLab =
     (let ws = co_pred g sLab in
      ws @ concat (map (readers_of g) ws) @ getInitRfsAtLoc g (access sLab))"

definition not_overwritten :: "ExecutionGraph \<Rightarrow> Event list \<Rightarrow> Event \<Rightarrow> bool option" where
  "not_overwritten g optRfs e =
     do { eLab \<leftarrow> getEventLabel g e; Some (\<not> list_ex (View_contains (label_view eLab 0)) optRfs) }"

definition not_inverted :: "ExecutionGraph \<Rightarrow> VectorClock \<Rightarrow> Event list \<Rightarrow> Event \<Rightarrow> bool option" where
  "not_inverted g pporf moInvOptRfs e =
     do { eLab \<leftarrow> getEventLabel g e;
          s \<leftarrow> getStamp eLab;
          v \<leftarrow> VectorClock_update (VC_View (getViewFromStamp g s)) pporf;
          Some (\<not> list_ex (\<lambda>ev. VectorClock_contains v ev \<and>
            label_is (\<lambda>l. View_contains (label_view l 0) e) g ev) moInvOptRfs) }"

definition getCoherentRevisits :: "bool \<Rightarrow> ExecutionGraph \<Rightarrow> EventLabel \<Rightarrow> VectorClock \<Rightarrow> Event list option" where
  "getCoherentRevisits mixer g sLab pporf =
     do { ls \<leftarrow> getRevisitable g sLab pporf;
          if \<not> isDepTracking \<and> isCoMaximal g (access sLab) (position sLab) then Some ls
          else if mixer then Some ls
          else do { ls \<leftarrow> filter_opt (not_overwritten g (getMOOptRfAfter g sLab)) ls;
                    if \<not> isDepTracking then Some ls
                    else do { l \<leftarrow> getEventLabel g (position sLab);
                              let ls = filter (\<lambda>e. \<not> View_contains (label_view l 0) e) ls in
                              filter_opt (not_inverted g pporf (getMOInvOptRfAfter g sLab)) ls } } }"

text \<open>The range of places: the two iterators it lies between.\<close>

definition getCoherentPlacings :: "ExecutionGraph \<Rightarrow> EventLabel \<Rightarrow> (Event list \<times> Event list) option" where
  "getCoherentPlacings g wLab =
     (if isRMWStore wLab then
        do { rLab \<leftarrow> getPreviousLabel g (position wLab);
             BUG_ON (\<not> isRead (kind rLab));
             rf \<leftarrow> getRf rLab;
             rfLab \<leftarrow> getEventLabel g rf;
             let it = (if isWrite (kind rfLab) then co_succ g rfLab (access rfLab) else co_range g (access wLab)) in
             Some (it, it) }
      else do { rangeBegin \<leftarrow> splitLocMOBefore g wLab;
                rangeEnd \<leftarrow> (if isDepTracking then splitLocMOAfter g wLab else Some []);
                Some (rangeBegin, rangeEnd) })"

section \<open>Searching with total predicates\<close>

lemma find_split:
  assumes "find Q xs = Some w"
  obtains us vs where "xs = us @ w # vs" "Q w" "\<forall>u\<in>set us. \<not> Q u"
  using assms
proof (induction xs arbitrary: thesis)
  case (Cons x xs)
  show ?case
  proof (cases "Q x")
    case True
    then show ?thesis using Cons.prems(1) [of "[]" xs] Cons.prems(2) by simp
  next
    case False
    then have "find Q xs = Some w" using Cons.prems(2) by simp
    then obtain us vs where s: "xs = us @ w # vs" "Q w" "\<forall>u\<in>set us. \<not> Q u" using Cons.IH by blast
    then show ?thesis using Cons.prems(1) [of "x # us" vs] False by simp
  qed
qed simp

lemma split_unique_suffix:
  assumes "us @ w # vs = xs @ ys" "P w" "\<forall>v\<in>set vs. \<not> P v"
  shows "length ys \<le> length vs \<longleftrightarrow> (\<forall>y\<in>set ys. \<not> P y)"
proof (cases "length ys \<le> length vs")
  case True
  have "length us + Suc (length vs) = length xs + length ys" using arg_cong [OF assms(1), of length] by simp
  then have "length us < length xs" using True by simp
  then have "ys = drop (length xs - Suc (length us)) vs"
    using arg_cong [OF assms(1), of "drop (length xs)"] by (simp add: drop_Cons')
  then show ?thesis using assms(3) True by (auto dest: in_set_dropD)
next
  case False
  have "length us + Suc (length vs) = length xs + length ys" using arg_cong [OF assms(1), of length] by simp
  then have "length xs \<le> length us" using False by simp
  then have "ys = drop (length xs) us @ w # vs"
    using arg_cong [OF assms(1), of "drop (length xs)"] by simp
  then show ?thesis using assms(2) False by auto
qed

section \<open>Coherence lists\<close>

text \<open>Coherence lists hold each write of their location once.\<close>

definition co_ready :: "ExecutionGraph \<Rightarrow> bool" where
  "co_ready g = (co_wf g \<and> labels_placed g \<and> (\<forall>(a, ws)\<in>set (coherence g). distinct ws))"

lemma stores_facts:
  assumes "co_ready g"
  shows "distinct (getStoresToLoc g a)"
    and "w \<in> set (getStoresToLoc g a) \<Longrightarrow> \<exists>l. getEventLabel g w = Some l \<and> isWrite (kind l) \<and>
      position l = w \<and> getStoresToLoc g (getAddr l) = getStoresToLoc g a"
proof -
  have b: "getStoresToLoc g a = [] \<or> (getBucket a, getStoresToLoc g a) \<in> set (coherence g)"
    by (auto simp: getStoresToLoc_def bucket_def map_of_SomeD split: option.splits)
  then show "distinct (getStoresToLoc g a)" using assms by (auto simp: co_ready_def)
  assume w: "w \<in> set (getStoresToLoc g a)"
  then have "label_is (\<lambda>l. isWrite (kind l) \<and> getBucket (getAddr l) = getBucket a) g w"
    using b assms unfolding co_ready_def co_wf_def by fastforce
  then show "\<exists>l. getEventLabel g w = Some l \<and> isWrite (kind l) \<and>
      position l = w \<and> getStoresToLoc g (getAddr l) = getStoresToLoc g a"
    using assms by (auto simp: label_is_def co_ready_def labels_placed_def getStoresToLoc_def split: option.splits)
qed

lemma distinct_co_range: "co_ready g \<Longrightarrow> distinct (co_range g a)"
  using stores_facts(1) by (auto simp: co_range_def overlap_filter_def)

lemma in_co_range: "w \<in> set (co_range g a) \<Longrightarrow> w \<in> set (getStoresToLoc g (acc_addr a))"
  by (auto simp: co_range_def overlap_filter_def)

text \<open>The successors of a store are what follows it in the range.\<close>

lemma co_succ_suffix:
  assumes g: "co_ready g" and w: "co_range g a = us @ w # vs" and l: "getEventLabel g w = Some l"
  shows "co_succ g l a = vs"
proof -
  define S where "S = getStoresToLoc g (acc_addr a)"
  define F where "F = overlap_filter g a"
  have "w \<in> set S" using w in_co_range [of w g a] by (simp add: S_def)
  then have pos: "position l = w" "getStoresToLoc g (getAddr l) = S"
    using stores_facts(2) [OF g, of w "acc_addr a"] l by (auto simp: S_def)
  obtain xs ys where S: "S = xs @ w # ys" "w \<notin> set xs" using split_list_first [OF \<open>w \<in> set S\<close>] by blast
  have ov: "F (w # zs) = w # F zs" for zs
  proof -
    have "w \<in> set (co_range g a)" using w by simp
    then show ?thesis by (simp add: F_def co_range_def overlap_filter_def)
  qed
  have "F xs @ w # F ys = us @ w # vs"
    using w S(1) ov by (simp add: co_range_def S_def F_def overlap_filter_def)
  moreover have "distinct S" using stores_facts(1) [OF g] by (simp add: S_def)
  then have "w \<notin> set (F xs)" "w \<notin> set (F ys)" using S by (auto simp: F_def overlap_filter_def)
  ultimately have "F ys = vs" by (simp add: append_Cons_eq_iff)
  moreover have "dropWhile (\<lambda>x. x \<noteq> w) S = w # ys" using S by (simp add: dropWhile_append3 dropWhile_append)
  ultimately show ?thesis using pos ov by (simp add: co_succ_def F_def)
qed

section \<open>What the driver offers\<close>

text \<open>A store is (rf?;hb)-before a label if the view of the label has it or an overlapping reader of it.\<close>

definition seen_by :: "ExecutionGraph \<Rightarrow> EventLabel \<Rightarrow> Event \<Rightarrow> bool" where
  "seen_by g l w = (View_contains (label_view l 0) w \<or>
     (\<exists>r\<in>set (readers_of g w). label_is (\<lambda>rLab. AAccess_overlaps (access rLab) (access l)) g r \<and>
        View_contains (label_view l 0) r))"

lemma isWriteRfBefore_seen:
  assumes "co_ready g" "getEventLabel g (position l) = Some l" "w \<in> set (co_range g (access l))"
  shows "isWriteRfBefore g w (position l) (access l) = Some (seen_by g l w)"
proof -
  obtain wl where "getEventLabel g w = Some wl" "isWrite (kind wl)"
    using stores_facts(2) [OF assms(1) in_co_range [OF assms(3)]] by blast
  then show ?thesis
    using assms(2) by (auto simp: isWriteRfBefore_def seen_by_def readers_of_def BUG_ON_def list_ex_iff)
qed

lemma splitLocMOBefore_cases:
  assumes g: "co_ready g" and l: "getEventLabel g (position l) = Some l"
  obtains (unseen) "splitLocMOBefore g l = Some (co_range g (access l))"
      "\<forall>w\<in>set (co_range g (access l)). \<not> seen_by g l w"
    | (seen) us w vs where "splitLocMOBefore g l = Some vs" "co_range g (access l) = us @ w # vs"
      "seen_by g l w" "\<forall>v\<in>set vs. \<not> seen_by g l v"
proof -
  define cs where "cs = co_range g (access l)"
  have f: "find_opt (\<lambda>w. isWriteRfBefore g w (position l) (access l)) (rev cs) = Some (find (seen_by g l) (rev cs))"
    using isWriteRfBefore_seen [OF g l] by (intro find_opt_total) (simp add: cs_def)
  show thesis
  proof (cases "find (seen_by g l) (rev cs)")
    case None
    then have "splitLocMOBefore g l = Some cs" using f by (simp add: splitLocMOBefore_def cs_def)
    moreover have "\<forall>w\<in>set cs. \<not> seen_by g l w" using None by (simp add: find_None_iff)
    ultimately show ?thesis using unseen cs_def by simp
  next
    case (Some w)
    obtain us vs where s: "rev cs = us @ w # vs" "seen_by g l w" "\<forall>u\<in>set us. \<not> seen_by g l u"
      using find_split [OF Some] by blast
    then have cs: "cs = rev vs @ w # rev us" by (metis rev_append rev.simps(2) rev_rev_ident append_assoc append_Cons append_Nil)
    then have "w \<in> set cs" by simp
    then obtain wl where "getEventLabel g w = Some wl" using stores_facts(2) [OF g in_co_range] cs_def by blast
    moreover from this have "co_succ g wl (access l) = rev us" using co_succ_suffix [OF g, of "access l"] cs cs_def by simp
    ultimately have "splitLocMOBefore g l = Some (rev us)"
      using f Some by (simp add: splitLocMOBefore_def cs_def)
    then show ?thesis using seen [of "rev us" "rev vs" w] cs s cs_def by simp
  qed
qed

section \<open>Examples\<close>

lemma example_ready_co: "co_ready example_graph"
  using example_wf by (auto simp: co_ready_def graph_wf_def labels_placed_def example_label)
    (simp add: example_graph_def)

lemma example_range [simp]: "co_range example_graph example_access = [Event 0 1]"
  by (simp add: co_range_def overlap_filter_def getStoresToLoc_def getBucket_def bucket_def label_access_def example_label getInit_def)
    (simp add: example_graph_def example_access_def)

section \<open>Properties\<close>





lemma revisitable_in:
  assumes "getRevisitable g s pporf = Some ls" "e \<in> set ls"
  shows "\<exists>l. getEventLabel g e = Some l"
  using assms by (auto simp: getRevisitable_def Let_def revisitable_loads_def label_is_def
      split: Option.bind_splits if_splits option.splits)

lemma co_maximal_succ:
  assumes g: "co_ready g" and s: "getEventLabel g (position s) = Some s"
    and max: "isCoMaximal g (access s) (position s)"
  shows "co_succ g s (access s) = []"
proof (cases "co_range g (access s) = []")
  case True
  then have "overlap_filter g (access s) (getStoresToLoc g (getAddr s)) = []"
    by (simp add: co_range_def getAddr_def)
  then have "overlap_filter g (access s) (dropWhile P (getStoresToLoc g (getAddr s))) = []" for P
    by (auto simp: overlap_filter_def filter_empty_conv dest: set_dropWhileD)
  then show ?thesis by (simp add: co_succ_def)
next
  case False
  then have "co_range g (access s) = butlast (co_range g (access s)) @ position s # []"
    using max by (auto simp: isCoMaximal_def isLocEmpty_def split: if_splits)
  then show ?thesis using co_succ_suffix [OF g _ s] by blast
qed



end
