(* ===== verification/Bounds.thy ===== *)
theory Bounds
  imports GraphIters GraphCut
begin

text \<open>
  Bounds on the schedules of an execution (src/src/BoundDecider.cpp, ContextBoundDecider.cpp and
  RoundBoundDecider.cpp): whether every sequentially consistent schedule of a graph needs more than
  a number of preemptive context switches, or more than a number of round-robin rounds, and the
  calculation of these numbers. Dereferencing a null pointer or an end iterator and aborts are None.
  The lists of a location that the graph does not track are empty; the sources raise an exception.
  A fuel bounds the loops and the recursion that shrink a view; running out of it is None as well,
  and more than the number of events is enough.
\<close>

section \<open>Context bound\<close>

definition canBlock :: "ExecutionGraph \<Rightarrow> View \<Rightarrow> int \<Rightarrow> bool" where
  "canBlock g s t =
     (case getNextLabel g (Event t (View_getMax s t)) of None \<Rightarrow> False
      | Some nLab \<Rightarrow> kind nLab = EL_ThreadJoin \<or> kind nLab = EL_LockCasRead \<or> kind nLab = EL_BWaitRead)"

text \<open>The latest store to a location in a view, in coherence order.\<close>

definition latest_store :: "ExecutionGraph \<Rightarrow> View \<Rightarrow> AAccess \<Rightarrow> Event option" where
  "latest_store g v a = find (View_contains v) (rev (co_range g a))"

definition lock_enabled :: "ExecutionGraph \<Rightarrow> View \<Rightarrow> EventLabel \<Rightarrow> bool option" where
  "lock_enabled g v lLab =
     (case latest_store g v (access lLab) of
        None \<Rightarrow> do { ini \<leftarrow> getInitLabel g;
                     Some (\<not> list_ex (View_contains v) (init_rf_range (label_access g) ini (access lLab))) }
      | Some w \<Rightarrow> do { sLab \<leftarrow> getEventLabel g w;
                      Some (kind sLab = EL_UnlockWrite \<and>
                        \<not> list_ex (\<lambda>e. View_contains v (Event_next e)) (readerList sLab)) })"

definition barrier_enabled :: "ExecutionGraph \<Rightarrow> View \<Rightarrow> EventLabel \<Rightarrow> bool option" where
  "barrier_enabled g v bLab =
     (case co_range g (access bLab) of [] \<Rightarrow> None
      | iw # _ \<Rightarrow> do { iwLab \<leftarrow> getEventLabel g iw;
                      w \<leftarrow> latest_store g v (access bLab);
                      wLab \<leftarrow> getEventLabel g w;
                      Some (val iwLab = val wLab) })"

definition isEnabled :: "ExecutionGraph \<Rightarrow> View \<Rightarrow> int \<Rightarrow> bool option" where
  "isEnabled g v t =
     do { llab \<leftarrow> getEventLabel g (Event t (View_getMax v t));
          if isTerminator (kind llab) then Some False
          else (case getNextLabel g (Event t (View_getMax v t)) of
                  None \<Rightarrow> Some False
                | Some nLab \<Rightarrow>
                    if kind nLab = EL_ThreadJoin
                    then do { f \<leftarrow> tj_pred g nLab; Some (View_contains v (position f)) }
                    else if kind nLab = EL_LockCasRead then lock_enabled g v nLab
                    else if kind nLab = EL_BWaitRead then barrier_enabled g v nLab
                    else Some True) }"

text \<open>The store whose coherence successor decides, for the last access of a thread.\<close>

definition sc_succ :: "ExecutionGraph \<Rightarrow> EventLabel \<Rightarrow> Event option option" where
  "sc_succ g lab =
     do { wLab \<leftarrow> (if isWrite (kind lab) then Some lab
                   else if isRead (kind lab) then do { w \<leftarrow> getRf lab; getEventLabel g w } else None);
          Some (if kind wLab = EL_Init
                then (case co_range g (access lab) of [] \<Rightarrow> None | w # _ \<Rightarrow> Some w)
                else co_imm_succ g wLab) }"

definition isSCMaximal :: "ExecutionGraph \<Rightarrow> View \<Rightarrow> int \<Rightarrow> bool option" where
  "isSCMaximal g v t =
     do { lab \<leftarrow> getEventLabel g (Event t (View_getMax v t));
          if kind lab = EL_ThreadFinish
          then Some (case tj_succ g lab of None \<Rightarrow> True | Some tjLab \<Rightarrow> \<not> View_contains v (position tjLab))
          else if kind lab = EL_ThreadCreate then Some (View_getMax v (ti_id (childInfo lab)) = 0)
          else if \<not> isMemAccess (kind lab) then Some True
          else if isWrite (kind lab) \<and> list_ex (View_contains v) (readerList lab) then Some False
          else if isLocEmpty g (access lab) then Some True
          else do { s \<leftarrow> sc_succ g lab;
                    Some (case s of None \<Rightarrow> True | Some succ \<Rightarrow> \<not> View_contains v succ) } }"

definition shrinkViewByOne :: "View \<Rightarrow> int \<Rightarrow> View" where
  "shrinkViewByOne v t = View_setMax v (Event_prev (Event t (View_getMax v t)))"

fun unfoldPrefix :: "nat \<Rightarrow> ExecutionGraph \<Rightarrow> View \<Rightarrow> int \<Rightarrow> View option" where
  "unfoldPrefix 0 g v t = None"
| "unfoldPrefix (Suc n) g v t =
     (if View_getMax v t = 0 then Some v
      else do { m \<leftarrow> isSCMaximal g v t;
                if m \<and> \<not> canBlock g v t then unfoldPrefix n g (shrinkViewByOne v t) t else Some v })"

definition all_zero :: "View \<Rightarrow> bool" where "all_zero v = list_all (\<lambda>m. m = 0) v"

text \<open>
  The loop over the threads that may have run last. The recursive call is an argument; a call is
  skipped for a thread with no events or whose last event is not maximal.
\<close>

definition switches :: "ExecutionGraph \<Rightarrow> View \<Rightarrow> int \<Rightarrow> int \<Rightarrow> bool option" where
  "switches g v t tp = (if tp \<noteq> t then isEnabled g v tp else Some False)"

definition may_run_last :: "ExecutionGraph \<Rightarrow> View \<Rightarrow> int \<Rightarrow> bool option" where
  "may_run_last g v tp = (if View_getMax v tp = 0 then Some False else isSCMaximal g v tp)"

fun prefix_loop :: "(View \<Rightarrow> int \<Rightarrow> 32 word \<Rightarrow> bool option) \<Rightarrow> ExecutionGraph \<Rightarrow> View \<Rightarrow> int \<Rightarrow> 32 word \<Rightarrow>
    int list \<Rightarrow> bool \<Rightarrow> bool option" where
  "prefix_loop rec g v t bound [] exists = (if exists then Some False else None)"
| "prefix_loop rec g v t bound (tp # ts) exists =
     do { m \<leftarrow> may_run_last g v tp;
          if \<not> m then prefix_loop rec g v t bound ts exists
          else do { s \<leftarrow> switches g v t tp;
                    r \<leftarrow> (if s then (if bound \<noteq> 0 then rec (shrinkViewByOne v tp) tp (bound - 1) else Some False)
                         else rec (shrinkViewByOne v tp) tp bound);
                    if r then Some True else prefix_loop rec g v t bound ts True } }"

definition thread_ids :: "ExecutionGraph \<Rightarrow> int list" where
  "thread_ids g = map int [0..<getNumThreads g]"

primrec doesPrefixExceedBound :: "nat \<Rightarrow> ExecutionGraph \<Rightarrow> View \<Rightarrow> int \<Rightarrow> 32 word \<Rightarrow> bool option" where
  "doesPrefixExceedBound 0 g v t bound = None"
| "doesPrefixExceedBound (Suc n) g v t bound =
     do { v \<leftarrow> unfoldPrefix (Suc n) g v t;
          if all_zero v then Some True
          else prefix_loop (doesPrefixExceedBound n g) g v t bound (thread_ids g) False }"

definition bound_fuel :: "ExecutionGraph \<Rightarrow> nat" where
  "bound_fuel g = Suc (length (graph_labels g))"

fun execution_loop :: "(View \<Rightarrow> int \<Rightarrow> bool option) \<Rightarrow> ExecutionGraph \<Rightarrow> View \<Rightarrow> int list \<Rightarrow> bool \<Rightarrow> bool option" where
  "execution_loop rec g v [] exists = (if exists then Some True else None)"
| "execution_loop rec g v (i # ts) exists =
     do { m \<leftarrow> may_run_last g v i;
          if \<not> m then execution_loop rec g v ts exists
          else do { r \<leftarrow> rec (shrinkViewByOne v i) i;
                    if r then Some False else execution_loop rec g v ts True } }"

definition full_view :: "ExecutionGraph \<Rightarrow> View" where
  "full_view g = getViewFromStamp g (timestamp g)"

definition context_doesExecutionExceedBound :: "ExecutionGraph \<Rightarrow> 32 word \<Rightarrow> bool option" where
  "context_doesExecutionExceedBound g bound =
     execution_loop (\<lambda>v t. doesPrefixExceedBound (bound_fuel g) g v t bound) g (full_view g) (thread_ids g) False"

definition context_getSlack :: "ExecutionGraph \<Rightarrow> 32 word" where
  "context_getSlack g =
     (let nonEmptyThreads = length (filter (\<lambda>t. length t > 1) (events g));
          unstableThreads = length (filter (list_ex (\<lambda>lab. \<not> isStable lab)) (events g)) in
      of_nat (min (unstableThreads - 1) (nonEmptyThreads - 2)))"

text \<open>The exact number of context switches.\<close>

definition opt_min :: "32 word option \<Rightarrow> 32 word \<Rightarrow> 32 word" where
  "opt_min res b = (case res of None \<Rightarrow> b | Some r \<Rightarrow> min r b)"

fun calculate_loop :: "(View \<Rightarrow> int \<Rightarrow> 32 word option) \<Rightarrow> ExecutionGraph \<Rightarrow> View \<Rightarrow> int \<Rightarrow> int list \<Rightarrow>
    32 word option \<Rightarrow> 32 word option" where
  "calculate_loop rec g v t [] res = res"
| "calculate_loop rec g v t (tp # ts) res =
     do { m \<leftarrow> may_run_last g v tp;
          if \<not> m then calculate_loop rec g v t ts res
          else do { c \<leftarrow> rec (shrinkViewByOne v tp) tp;
                    s \<leftarrow> switches g v t tp;
                    calculate_loop rec g v t ts (Some (opt_min res (c + (if s then 1 else 0)))) } }"

primrec context_calculate_prefix :: "nat \<Rightarrow> ExecutionGraph \<Rightarrow> View \<Rightarrow> int \<Rightarrow> 32 word option" where
  "context_calculate_prefix 0 g v t = None"
| "context_calculate_prefix (Suc n) g v t =
     do { v \<leftarrow> unfoldPrefix (Suc n) g v t;
          if all_zero v then Some 0
          else calculate_loop (context_calculate_prefix n g) g v t (thread_ids g) None }"

fun calculate_all :: "(View \<Rightarrow> int \<Rightarrow> 32 word option) \<Rightarrow> ExecutionGraph \<Rightarrow> View \<Rightarrow> int list \<Rightarrow>
    32 word option \<Rightarrow> 32 word option" where
  "calculate_all rec g v [] res = res"
| "calculate_all rec g v (i # ts) res =
     do { m \<leftarrow> may_run_last g v i;
          if \<not> m then calculate_all rec g v ts res
          else do { b \<leftarrow> rec (shrinkViewByOne v i) i; calculate_all rec g v ts (Some (opt_min res b)) } }"

definition context_calculate :: "ExecutionGraph \<Rightarrow> 32 word option" where
  "context_calculate g =
     calculate_all (context_calculate_prefix (bound_fuel g) g) g (full_view g) (thread_ids g) None"

section \<open>Round bound\<close>

definition areSCPredsInView :: "ExecutionGraph \<Rightarrow> View \<Rightarrow> Event \<Rightarrow> bool option" where
  "areSCPredsInView g v e =
     do { lab \<leftarrow> getEventLabel g e;
          if isThreadStart (kind lab) then do { p \<leftarrow> tc_pred g lab; Some (View_contains v (position p)) }
          else if kind lab = EL_ThreadJoin then do { p \<leftarrow> tj_pred g lab; Some (View_contains v (position p)) }
          else if \<not> isMemAccess (kind lab) then Some True
          else if isRead (kind lab) then do { w \<leftarrow> getRf lab; Some (View_contains v w) }
          else do { BUG_ON (\<not> isWrite (kind lab));
                    Some (case co_imm_pred g lab of
                            Some p \<Rightarrow> if \<not> View_contains v p then False
                              else \<not> list_ex (\<lambda>r. \<not> View_contains v r) (fr_imm_pred g lab)
                          | None \<Rightarrow> \<not> list_ex (\<lambda>r. \<not> View_contains v r) (fr_imm_pred g lab)) } }"

text \<open>One thread of a round: add its next events while their predecessors are in the view.\<close>

fun round_thread :: "nat \<Rightarrow> ExecutionGraph \<Rightarrow> int \<Rightarrow> int \<Rightarrow> View \<times> bool \<times> bool \<Rightarrow>
    (View \<times> bool \<times> bool) option" where
  "round_thread 0 g i j st = Some st"
| "round_thread (Suc n) g i j (cur, exists, done) =
     do { p \<leftarrow> areSCPredsInView g cur (Event i (j + 1));
          if \<not> p then Some (cur, exists, False)
          else round_thread n g i (j + 1) (View_updateIdx cur (Event i (j + 1)), True, done) }"

fun round_loop :: "ExecutionGraph \<Rightarrow> View \<Rightarrow> int list \<Rightarrow> View \<times> bool \<times> bool \<Rightarrow> (View \<times> bool \<times> bool) option" where
  "round_loop g full [] st = Some st"
| "round_loop g full (i # is) st =
     do { st \<leftarrow> round_thread (nat (View_getMax full i - View_getMax (fst st) i)) g i (View_getMax (fst st) i) st;
          round_loop g full is st }"

definition one_round :: "ExecutionGraph \<Rightarrow> View \<Rightarrow> (View \<times> bool \<times> bool) option" where
  "one_round g cur = round_loop g (full_view g) (thread_ids g) (cur, False, True)"

text \<open>The loop do ... while (bound--); the bound is the fuel.\<close>

fun rounds_exceed :: "nat \<Rightarrow> ExecutionGraph \<Rightarrow> View \<Rightarrow> bool option" where
  "rounds_exceed bound g cur =
     do { (cur, exists, done) \<leftarrow> one_round g cur;
          BUG_ON (\<not> exists);
          if done then Some False
          else (case bound of 0 \<Rightarrow> Some True | Suc b \<Rightarrow> rounds_exceed b g cur) }"

declare rounds_exceed.simps [simp del]

definition round_doesExecutionExceedBound :: "ExecutionGraph \<Rightarrow> 32 word \<Rightarrow> bool option" where
  "round_doesExecutionExceedBound g bound = rounds_exceed (unat bound) g View_empty"

fun rounds_calculate :: "nat \<Rightarrow> ExecutionGraph \<Rightarrow> View \<Rightarrow> 32 word \<Rightarrow> 32 word option" where
  "rounds_calculate 0 g cur bound = None"
| "rounds_calculate (Suc n) g cur bound =
     do { (cur, exists, done) \<leftarrow> one_round g cur;
          if done then Some bound
          else do { BUG_ON (\<not> exists); rounds_calculate n g cur (bound + 1) } }"

definition round_calculate :: "ExecutionGraph \<Rightarrow> 32 word option" where
  "round_calculate g = rounds_calculate (bound_fuel g) g View_empty 0"

section \<open>Deciders\<close>

datatype BoundType = BT_context | BT_round
datatype BoundCalculationStrategy = Slacked | NonSlacked

definition getSlack :: "BoundType \<Rightarrow> ExecutionGraph \<Rightarrow> 32 word" where
  "getSlack t g = (case t of BT_context \<Rightarrow> context_getSlack g | BT_round \<Rightarrow> 0)"

definition doesExecutionExceedBound :: "BoundType \<Rightarrow> ExecutionGraph \<Rightarrow> 32 word \<Rightarrow> BoundCalculationStrategy \<Rightarrow>
    bool option" where
  "doesExecutionExceedBound t g bound strategy =
     (let slack = (if strategy = Slacked then getSlack t g else 0) in
      case t of BT_context \<Rightarrow> context_doesExecutionExceedBound g (bound + slack)
      | BT_round \<Rightarrow> round_doesExecutionExceedBound g (bound + slack))"

definition bound_calculate :: "BoundType \<Rightarrow> ExecutionGraph \<Rightarrow> 32 word option" where
  "bound_calculate t g = (case t of BT_context \<Rightarrow> context_calculate g | BT_round \<Rightarrow> round_calculate g)"

section \<open>Sizes of views\<close>

definition view_size :: "View \<Rightarrow> nat" where
  "view_size v = sum_list (map nat v)"

definition view_below :: "View \<Rightarrow> View \<Rightarrow> bool" where
  "view_below v w = (View_inv v \<and> (\<forall>t\<ge>0. View_getMax v t \<le> View_getMax w t))"

lemma in_thread_ids: "t \<in> set (thread_ids g) \<Longrightarrow> 0 \<le> t"
  by (auto simp: thread_ids_def)

lemma all_zero_size: "View_inv v \<Longrightarrow> all_zero v \<longleftrightarrow> view_size v = 0"
  by (auto simp: all_zero_def view_size_def View_inv_def list_all_iff sum_list_eq_0_iff) fastforce

lemma view_size_shrink:
  assumes "View_inv v" "0 \<le> t" "View_getMax v t \<noteq> 0"
  shows "Suc (view_size (shrinkViewByOne v t)) = view_size v"
proof -
  have t: "nat t < length v" "View_getMax v t = v ! nat t"
    using assms by (auto simp: View_getMax_def split: if_splits)
  then have pos: "0 < v ! nat t" using assms View_getMax_nonneg [OF assms(1,2)] by simp
  have s: "shrinkViewByOne v t = v[nat t := v ! nat t - 1]"
    using t assms(2) by (auto simp: shrinkViewByOne_def View_setMax_def Event_prev_def)
  have "Suc (view_size (take (nat t) v @ (v ! nat t - 1) # drop (Suc (nat t)) v)) =
      view_size (take (nat t) v @ v ! nat t # drop (Suc (nat t)) v)"
    using pos by (simp add: view_size_def nat_diff_distrib)
  then show ?thesis using s t(1) by (simp add: upd_conv_take_nth_drop id_take_nth_drop [symmetric])
qed

lemma view_below_shrink:
  assumes "view_below v w" "0 \<le> t" "View_getMax v t \<noteq> 0"
  shows "view_below (shrinkViewByOne v t) w"
proof -
  have m: "0 \<le> View_getMax v t" using assms(1,2) by (simp add: view_below_def View_inv_iff)
  have "View_getMax (shrinkViewByOne v t) s = (if s = t then View_getMax v t - 1 else View_getMax v s)"
    if "0 \<le> s" for s
    using that assms(2) by (simp add: shrinkViewByOne_def Event_prev_def view_simps)
  then show ?thesis using assms m by (auto simp: view_below_def View_inv_iff)
qed

section \<open>The context bound is exact\<close>

text \<open>
  Graphs that can be unwound: every non-empty part of the graph has an event that may come last, and
  no pointer needed to decide this is missing.
\<close>

definition unwinds :: "ExecutionGraph \<Rightarrow> View \<Rightarrow> bool" where
  "unwinds g w = (\<forall>v. view_below v w \<longrightarrow> \<not> all_zero v \<longrightarrow>
     (\<forall>t\<in>set (thread_ids g). (\<exists>m. may_run_last g v t = Some m) \<and> (\<exists>e. isEnabled g v t = Some e)) \<and>
     (\<exists>t\<in>set (thread_ids g). may_run_last g v t = Some True))"

lemma unfoldPrefix_total:
  assumes w: "unwinds g w" and t: "t \<in> set (thread_ids g)"
  shows "view_below v w \<Longrightarrow> nat (View_getMax v t) < n \<Longrightarrow>
     \<exists>v'. unfoldPrefix n g v t = Some v' \<and> view_below v' w \<and> view_size v' \<le> view_size v"
proof (induction n arbitrary: v)
  case (Suc n)
  show ?case
  proof (cases "View_getMax v t = 0")
    case False
    have t0: "0 \<le> t" using t by (rule in_thread_ids)
    have inv: "View_inv v" using Suc.prems(1) by (simp add: view_below_def)
    note sz = view_size_shrink [OF inv t0 False]
    then have "\<not> all_zero v" using all_zero_size [OF inv] by simp
    then have "\<exists>m. may_run_last g v t = Some m" using w Suc.prems(1) t unfolding unwinds_def by blast
    then obtain m where m: "isSCMaximal g v t = Some m" using False by (auto simp: may_run_last_def)
    have "View_getMax (shrinkViewByOne v t) t = View_getMax v t - 1"
      using t0 by (simp add: shrinkViewByOne_def Event_prev_def view_simps)
    then have "nat (View_getMax (shrinkViewByOne v t) t) < n"
      using Suc.prems(2) View_getMax_nonneg [OF inv t0] False by simp
    from Suc.IH [OF view_below_shrink [OF Suc.prems(1) t0 False] this]
    show ?thesis using m sz False Suc.prems(1) by (cases "m \<and> \<not> canBlock g v t") auto
  qed (use Suc.prems in simp)
qed simp

lemma word_le_Suc:
  assumes "unat (c :: 32 word) < 2 ^ 32 - 1"
  shows "c + 1 \<le> b \<longleftrightarrow> b \<noteq> 0 \<and> c \<le> b - 1"
proof -
  have "unat (c + 1) = unat c + 1" using assms by (simp add: unat_word_ariths)
  moreover have "b \<noteq> 0 \<Longrightarrow> unat (b - 1) = unat b - 1" "b = 0 \<longleftrightarrow> unat b = 0"
    by (simp_all add: unat_minus_one unat_eq_zero)
  ultimately show ?thesis by (cases "b = 0") (auto simp: word_le_nat_alt)
qed

text \<open>The two loops over the threads agree: the bound is met by some choice exactly if it is at least the least number.\<close>

lemma loops_agree:
  fixes M :: nat
  assumes M: "Suc M < 2 ^ 32"
  shows "(\<forall>tp\<in>set ts. (\<exists>m. may_run_last g v tp = Some m) \<and> (\<exists>s. switches g v t tp = Some s)) \<Longrightarrow>
    (\<forall>tp\<in>set ts. may_run_last g v tp = Some True \<longrightarrow> (\<exists>c. rc (shrinkViewByOne v tp) tp = Some c \<and> unat c \<le> M \<and>
      (\<forall>b. rd (shrinkViewByOne v tp) tp b = Some (c \<le> b)))) \<Longrightarrow>
    (\<forall>r. res = Some r \<longrightarrow> unat r \<le> Suc M) \<Longrightarrow>
    res \<noteq> None \<or> (\<exists>tp\<in>set ts. may_run_last g v tp = Some True) \<Longrightarrow>
    \<exists>c. calculate_loop rc g v t ts res = Some c \<and> unat c \<le> Suc M \<and> (\<forall>r. res = Some r \<longrightarrow> c \<le> r) \<and>
      (\<forall>b. (\<forall>r. res = Some r \<longrightarrow> \<not> r \<le> b) \<longrightarrow> prefix_loop rd g v t b ts (res \<noteq> None) = Some (c \<le> b))"
proof (induction ts arbitrary: res)
  case (Cons tp ts)
  obtain m s where m: "may_run_last g v tp = Some m" and s: "switches g v t tp = Some s"
    using Cons.prems(1) by auto
  have rest: "\<forall>tp\<in>set ts. (\<exists>m. may_run_last g v tp = Some m) \<and> (\<exists>s. switches g v t tp = Some s)"
    "\<forall>tp\<in>set ts. may_run_last g v tp = Some True \<longrightarrow> (\<exists>c. rc (shrinkViewByOne v tp) tp = Some c \<and> unat c \<le> M \<and>
      (\<forall>b. rd (shrinkViewByOne v tp) tp b = Some (c \<le> b)))"
    using Cons.prems(1,2) by simp_all
  show ?case
  proof (cases m)
    case False
    then show ?thesis using Cons.IH [OF rest Cons.prems(3)] Cons.prems(4) m by auto
  next
    case True
    then obtain c where c: "rc (shrinkViewByOne v tp) tp = Some c" "unat c \<le> M"
      "\<And>b. rd (shrinkViewByOne v tp) tp b = Some (c \<le> b)" using Cons.prems(2) m by auto
    define c1 where "c1 = c + (if s then 1 else 0)"
    define r1 where "r1 = opt_min res c1"
    have c1: "unat c1 \<le> Suc M" using c(2) M by (auto simp: c1_def unat_word_ariths)
    have r1: "unat r1 \<le> Suc M" "r1 \<le> c1" "\<And>r. res = Some r \<Longrightarrow> r1 \<le> r"
      using c1 Cons.prems(3) by (auto simp: r1_def opt_min_def min_def split: option.splits)
    obtain d where d: "calculate_loop rc g v t ts (Some r1) = Some d" "unat d \<le> Suc M" "d \<le> r1"
      "\<And>b. \<not> r1 \<le> b \<Longrightarrow> prefix_loop rd g v t b ts True = Some (d \<le> b)"
      using Cons.IH [OF rest, of "Some r1"] r1(1) by auto
    have run: "prefix_loop rd g v t b (tp # ts) e = (if c1 \<le> b then Some True else prefix_loop rd g v t b ts True)"
      for b e
    proof (cases s)
      case s1: True
      have "c1 \<le> b \<longleftrightarrow> b \<noteq> 0 \<and> c \<le> b - 1" using word_le_Suc [of c b] c(2) M s1 by (simp add: c1_def)
      then show ?thesis using m s True s1 c(3) by simp
    next
      case False
      then show ?thesis using m s True c(3) by (simp add: c1_def)
    qed
    have "prefix_loop rd g v t b (tp # ts) (res \<noteq> None) = Some (d \<le> b)" if b: "\<forall>r. res = Some r \<longrightarrow> \<not> r \<le> b" for b
    proof (cases "c1 \<le> b")
      case True
      then have "d \<le> b" using d(3) r1(2) by (meson order_trans)
      then show ?thesis using run [of b] True by simp
    next
      case False
      then have "\<not> r1 \<le> b" using b by (auto simp: r1_def opt_min_def min_def split: option.splits)
      then show ?thesis using run [of b] False d(4) by simp
    qed
    moreover have "calculate_loop rc g v t (tp # ts) res = Some d"
      using m s True c d(1) by (simp add: r1_def c1_def)
    moreover have "\<forall>r. res = Some r \<longrightarrow> d \<le> r" using d(3) r1(3) order_trans by blast
    ultimately show ?thesis using d(2) by blast
  qed
qed auto

lemma prefix_bound:
  assumes w: "unwinds g w" "view_size w < 2 ^ 32"
  shows "view_below v w \<Longrightarrow> view_size v < n \<Longrightarrow> view_size v < 2 ^ 32 \<Longrightarrow> t \<in> set (thread_ids g) \<Longrightarrow>
     \<exists>c. context_calculate_prefix n g v t = Some c \<and> unat c \<le> view_size v \<and>
       (\<forall>b. doesPrefixExceedBound n g v t b = Some (c \<le> b))"
proof (induction n arbitrary: v t)
  case (Suc n)
  have t0: "0 \<le> t" using Suc.prems(4) by (rule in_thread_ids)
  have "nat (View_getMax v t) \<le> view_size v"
    using t0 by (auto simp: View_getMax_def view_size_def intro!: member_le_sum_list)
  then obtain v' where v': "unfoldPrefix (Suc n) g v t = Some v'" "view_below v' w" "view_size v' \<le> view_size v"
    using unfoldPrefix_total [OF w(1) Suc.prems(4,1), of "Suc n"] Suc.prems(2) by auto
  have inv: "View_inv v'" using v'(2) by (simp add: view_below_def)
  show ?case
  proof (cases "all_zero v'")
    case True
    then show ?thesis using v'(1) word_zero_le by (auto simp del: unfoldPrefix.simps)
  next
    case False
    then obtain M where M: "view_size v' = Suc M" using all_zero_size [OF inv] by (metis not0_implies_Suc)
    have "\<exists>c. context_calculate_prefix n g (shrinkViewByOne v' tp) tp = Some c \<and> unat c \<le> M \<and>
        (\<forall>b. doesPrefixExceedBound n g (shrinkViewByOne v' tp) tp b = Some (c \<le> b))"
      if tp: "tp \<in> set (thread_ids g)" "may_run_last g v' tp = Some True" for tp
    proof -
      have nz: "0 \<le> tp" "View_getMax v' tp \<noteq> 0" using tp in_thread_ids by (auto simp: may_run_last_def split: if_splits)
      have "Suc (view_size (shrinkViewByOne v' tp)) = Suc M" using view_size_shrink [OF inv nz] M by simp
      then show ?thesis
        using Suc.IH [OF view_below_shrink [OF v'(2) nz] _ _ tp(1)] M v'(3) Suc.prems(2,3) by simp
    qed
    moreover have "(\<forall>tp\<in>set (thread_ids g). (\<exists>m. may_run_last g v' tp = Some m) \<and> (\<exists>s. switches g v' t tp = Some s))"
      "\<exists>tp\<in>set (thread_ids g). may_run_last g v' tp = Some True"
      using w(1) v'(2) False unfolding unwinds_def switches_def by auto
    ultimately obtain c where c: "calculate_loop (context_calculate_prefix n g) g v' t (thread_ids g) None = Some c"
      "unat c \<le> Suc M"
      "\<And>b. prefix_loop (doesPrefixExceedBound n g) g v' t b (thread_ids g) False = Some (c \<le> b)"
      using loops_agree [of M "thread_ids g" g v' t "context_calculate_prefix n g" "doesPrefixExceedBound n g" None]
        M v'(3) Suc.prems(3) by auto
    then show ?thesis using v'(1,3) False M by (simp del: unfoldPrefix.simps)
  qed
qed simp

lemma execution_loops_agree:
  "(\<forall>tp\<in>set ts. \<exists>m. may_run_last g v tp = Some m) \<Longrightarrow>
    (\<forall>tp\<in>set ts. may_run_last g v tp = Some True \<longrightarrow> (\<exists>c. rc (shrinkViewByOne v tp) tp = Some c \<and>
      (\<forall>b. rd b (shrinkViewByOne v tp) tp = Some (c \<le> b)))) \<Longrightarrow>
    res \<noteq> None \<or> (\<exists>tp\<in>set ts. may_run_last g v tp = Some True) \<Longrightarrow>
    \<exists>c. calculate_all rc g v ts res = Some c \<and> (\<forall>r. res = Some r \<longrightarrow> c \<le> r) \<and>
      (\<forall>b. (\<forall>r. res = Some r \<longrightarrow> \<not> r \<le> b) \<longrightarrow> execution_loop (rd b) g v ts (res \<noteq> None) = Some (\<not> c \<le> b))"
proof (induction ts arbitrary: res)
  case (Cons tp ts)
  obtain m where m: "may_run_last g v tp = Some m" using Cons.prems(1) by auto
  have rest: "\<forall>tp\<in>set ts. \<exists>m. may_run_last g v tp = Some m"
    "\<forall>tp\<in>set ts. may_run_last g v tp = Some True \<longrightarrow> (\<exists>c. rc (shrinkViewByOne v tp) tp = Some c \<and>
      (\<forall>b. rd b (shrinkViewByOne v tp) tp = Some (c \<le> b)))" using Cons.prems(1,2) by simp_all
  show ?case
  proof (cases m)
    case False
    then show ?thesis using Cons.IH [OF rest, of res] Cons.prems(3) m by auto
  next
    case True
    then obtain c where c: "rc (shrinkViewByOne v tp) tp = Some c"
      "\<And>b. rd b (shrinkViewByOne v tp) tp = Some (c \<le> b)" using Cons.prems(2) m by auto
    define r1 where "r1 = opt_min res c"
    have r1: "r1 \<le> c" "\<And>r. res = Some r \<Longrightarrow> r1 \<le> r"
      by (auto simp: r1_def opt_min_def min_def split: option.splits)
    obtain d where d: "calculate_all rc g v ts (Some r1) = Some d" "d \<le> r1"
      "\<And>b. \<not> r1 \<le> b \<Longrightarrow> execution_loop (rd b) g v ts True = Some (\<not> d \<le> b)"
      using Cons.IH [OF rest, of "Some r1"] by auto
    have "execution_loop (rd b) g v (tp # ts) (res \<noteq> None) = Some (\<not> d \<le> b)"
      if b: "\<forall>r. res = Some r \<longrightarrow> \<not> r \<le> b" for b
    proof (cases "c \<le> b")
      case True': True
      then have "d \<le> b" using d(2) r1(1) by (meson order_trans)
      then show ?thesis using True' m True c(2) by simp
    next
      case False
      then have "\<not> r1 \<le> b" using b by (auto simp: r1_def opt_min_def min_def split: option.splits)
      then show ?thesis using False m True c(2) d(3) by simp
    qed
    moreover have "calculate_all rc g v (tp # ts) res = Some d" using m True c(1) d(1) by (simp add: r1_def)
    moreover have "\<forall>r. res = Some r \<longrightarrow> d \<le> r" using d(2) r1(2) order_trans by blast
    ultimately show ?thesis by blast
  qed
qed auto

lemma full_view_inv: "View_inv (full_view g)"
  by (simp add: full_view_def getViewFromStamp_inv)

lemma view_below_refl: "View_inv v \<Longrightarrow> view_below v v"
  by (simp add: view_below_def)

lemma full_view_max: "i < getNumThreads g \<Longrightarrow> nat (View_getMax (full_view g) (int i)) \<le> length (events g ! i)"
  by (auto simp: full_view_def getViewFromStamp_getMax getNumThreads_def split: option.splits dest!: last_leq_Some)

lemma sum_lengths: "(\<Sum>i<length (events g). length (events g ! i)) = length (graph_labels g)"
  by (simp add: graph_labels_def length_concat sum_list_sum_nth atLeast0LessThan)

lemma view_size_sum:
  assumes "length v \<le> N"
  shows "view_size v = (\<Sum>i<N. nat (View_getMax v (int i)))"
proof -
  have "view_size v = (\<Sum>i<length v. nat (v ! i))"
    by (simp add: view_size_def sum_list_sum_nth atLeast0LessThan)
  also have "\<dots> = (\<Sum>i<length v. nat (View_getMax v (int i)))" by (simp add: View_getMax_def)
  also have "\<dots> = (\<Sum>i<N. nat (View_getMax v (int i)))"
    using assms by (intro sum.mono_neutral_left) (auto simp: View_getMax_def)
  finally show ?thesis .
qed

lemma view_size_full: "view_size (full_view g) \<le> length (graph_labels g)"
proof -
  define N where "N = max (length (full_view g)) (length (events g))"
  have "view_size (full_view g) = (\<Sum>i<N. nat (View_getMax (full_view g) (int i)))"
    by (rule view_size_sum) (simp add: N_def)
  also have "\<dots> = (\<Sum>i<length (events g). nat (View_getMax (full_view g) (int i)))"
    by (intro sum.mono_neutral_right) (auto simp: N_def full_view_def getViewFromStamp_getMax)
  also have "\<dots> \<le> (\<Sum>i<length (events g). length (events g ! i))"
    by (intro sum_mono) (simp add: full_view_max getNumThreads_def)
  finally show ?thesis by (simp add: sum_lengths)
qed

section \<open>Rounds\<close>

text \<open>The events whose presence the test of a round asks for.\<close>

definition sc_preds :: "ExecutionGraph \<Rightarrow> Event \<Rightarrow> Event list option" where
  "sc_preds g e =
     do { lab \<leftarrow> getEventLabel g e;
          if isThreadStart (kind lab) then map_option (\<lambda>p. [position p]) (tc_pred g lab)
          else if kind lab = EL_ThreadJoin then map_option (\<lambda>p. [position p]) (tj_pred g lab)
          else if \<not> isMemAccess (kind lab) then Some []
          else if isRead (kind lab) then map_option (\<lambda>w. [w]) (getRf lab)
          else if isWrite (kind lab) then Some (case_option [] (\<lambda>p. [p]) (co_imm_pred g lab) @ fr_imm_pred g lab)
          else None }"

lemma areSCPredsInView_preds:
  "areSCPredsInView g v e = map_option (list_all (View_contains v)) (sc_preds g e)"
  by (cases "getEventLabel g e")
    (auto simp: areSCPredsInView_def sc_preds_def BUG_ON_def list_ex_iff list_all_iff map_option_case
      split: option.splits Option.bind_splits)

text \<open>
  A sequentially consistent execution: the predecessors of an event are events of the graph, and
  some ranking of the events grows along program order and from predecessors to events.
\<close>

definition sc_order :: "ExecutionGraph \<Rightarrow> (Event \<Rightarrow> nat) \<Rightarrow> bool" where
  "sc_order g rank =
     (\<forall>i\<in>set (thread_ids g). \<forall>j\<in>{1..View_getMax (full_view g) i}.
        (\<exists>ps. sc_preds g (Event i j) = Some ps \<and> (\<forall>p\<in>set ps. 0 \<le> thread p \<and> (0 < index p \<longrightarrow>
          thread p \<in> set (thread_ids g) \<and> index p \<le> View_getMax (full_view g) (thread p) \<and>
          rank p < rank (Event i j)))) \<and>
        (\<forall>k\<in>{1..<j}. rank (Event i k) < rank (Event i j)))"

definition view_full :: "ExecutionGraph \<Rightarrow> View \<Rightarrow> bool" where
  "view_full g v = (\<forall>i\<in>set (thread_ids g). View_getMax v i = View_getMax (full_view g) i)"

definition can_add :: "ExecutionGraph \<Rightarrow> View \<Rightarrow> int \<Rightarrow> bool" where
  "can_add g v i = (View_getMax v i < View_getMax (full_view g) i \<and>
     areSCPredsInView g v (Event i (View_getMax v i + 1)) = Some True)"

lemma some_can_add:
  assumes o: "sc_order g rank" and v: "view_below v (full_view g)" "\<not> view_full g v"
  shows "\<exists>i\<in>set (thread_ids g). can_add g v i"
proof -
  let ?w = "full_view g" and ?P = "\<lambda>i. i \<in> set (thread_ids g) \<and> View_getMax v i < View_getMax (full_view g) i"
  have nn: "0 \<le> View_getMax v t" if "0 \<le> t" for t using v(1) that by (simp add: view_below_def View_inv_iff)
  obtain i0 where "?P i0" using v by (force simp: view_full_def view_below_def dest: in_thread_ids)
  then obtain i where i: "?P i"
    and least: "\<And>j. ?P j \<Longrightarrow> rank (Event i (View_getMax v i + 1)) \<le> rank (Event j (View_getMax v j + 1))"
    using ex_has_least_nat [of ?P i0 "\<lambda>i. rank (Event i (View_getMax v i + 1))"] by blast
  have i0: "0 \<le> i" using i in_thread_ids by blast
  then have range: "View_getMax v i + 1 \<in> {1..View_getMax ?w i}" using i nn by simp
  then obtain ps where ps: "sc_preds g (Event i (View_getMax v i + 1)) = Some ps"
    "\<And>p. p \<in> set ps \<Longrightarrow> 0 \<le> thread p \<and> (0 < index p \<longrightarrow> thread p \<in> set (thread_ids g) \<and>
      index p \<le> View_getMax ?w (thread p) \<and> rank p < rank (Event i (View_getMax v i + 1)))"
    using o i unfolding sc_order_def by metis
  have "View_contains v p" if p: "p \<in> set ps" for p
  proof (rule ccontr)
    assume c: "\<not> View_contains v p"
    have th: "0 \<le> thread p" using ps(2) [OF p] by blast
    then have pos: "0 < index p" "View_getMax v (thread p) < index p"
      using c nn [of "thread p"] by (auto simp: View_contains_def)
    then have facts: "thread p \<in> set (thread_ids g)" "index p \<le> View_getMax ?w (thread p)"
      "rank p < rank (Event i (View_getMax v i + 1))" using ps(2) [OF p] by blast+
    then have "rank (Event i (View_getMax v i + 1)) \<le> rank (Event (thread p) (View_getMax v (thread p) + 1))"
      using least [of "thread p"] pos(2) by simp
    also have "\<dots> \<le> rank p"
    proof (cases "View_getMax v (thread p) + 1 = index p")
      case True
      then show ?thesis by (cases p) simp
    next
      case False
      then have "View_getMax v (thread p) + 1 \<in> {1..<index p}" "index p \<in> {1..View_getMax ?w (thread p)}"
        using pos facts(2) nn [OF th] by simp_all
      then show ?thesis using o facts(1) unfolding sc_order_def by (metis Event.collapse less_imp_le)
    qed
    finally show False using facts(3) by simp
  qed
  then have "can_add g v i" using ps(1) i by (simp add: can_add_def areSCPredsInView_preds list_all_iff)
  then show ?thesis using i by blast
qed

text \<open>What a round may do to a view.\<close>

definition view_grows :: "ExecutionGraph \<Rightarrow> View \<Rightarrow> View \<Rightarrow> bool" where
  "view_grows g v v' = (view_below v' (full_view g) \<and> (\<forall>t\<ge>0. View_getMax v t \<le> View_getMax v' t))"

lemma view_grows_trans: "view_grows g u v \<Longrightarrow> view_grows g v w \<Longrightarrow> view_grows g u w"
  by (auto simp: view_grows_def) (meson order_trans)

lemma can_add_mono:
  assumes o: "sc_order g rank" and i: "i \<in> set (thread_ids g)" "can_add g v i"
    and v: "view_below v (full_view g)" "view_grows g v v'" "View_getMax v' i = View_getMax v i"
  shows "can_add g v' i"
proof -
  have "0 \<le> View_getMax v i" using v(1) in_thread_ids [OF i(1)] by (simp add: view_below_def View_inv_iff)
  then have "View_getMax v i + 1 \<in> {1..View_getMax (full_view g) i}" using i(2) by (simp add: can_add_def)
  then obtain ps where ps: "sc_preds g (Event i (View_getMax v i + 1)) = Some ps" "\<forall>p\<in>set ps. 0 \<le> thread p"
    using o i(1) unfolding sc_order_def by metis
  then have "list_all (View_contains v) ps" using i(2) by (simp add: can_add_def areSCPredsInView_preds)
  then have "list_all (View_contains v') ps"
    using ps(2) v(2) by (fastforce simp: list_all_iff View_contains_def view_grows_def)
  then show ?thesis using ps(1) v(3) i(2) by (simp add: can_add_def areSCPredsInView_preds)
qed

lemma round_thread_spec:
  assumes o: "sc_order g rank" and i: "i \<in> set (thread_ids g)"
  shows "view_below v (full_view g) \<Longrightarrow> n = nat (View_getMax (full_view g) i - View_getMax v i) \<Longrightarrow>
    \<exists>v'. round_thread n g i (View_getMax v i) (v, ex, dn) =
        Some (v', ex \<or> View_getMax v i < View_getMax v' i, dn \<and> View_getMax v' i = View_getMax (full_view g) i) \<and>
      view_grows g v v' \<and> (\<forall>t\<ge>0. t \<noteq> i \<longrightarrow> View_getMax v' t = View_getMax v t) \<and>
      (can_add g v i \<longrightarrow> View_getMax v i < View_getMax v' i)"
proof (induction n arbitrary: v ex)
  case 0
  then have "View_getMax v i = View_getMax (full_view g) i"
    using in_thread_ids [OF i] by (force simp: view_below_def)
  then show ?case using 0 by (simp add: view_grows_def can_add_def)
next
  case (Suc n)
  have i0: "0 \<le> i" using in_thread_ids i by blast
  have nn: "0 \<le> View_getMax v i" "View_getMax v i < View_getMax (full_view g) i"
    using Suc.prems i0 by (auto simp: view_below_def View_inv_iff)
  then have "View_getMax v i + 1 \<in> {1..View_getMax (full_view g) i}" by simp
  then obtain ps where ps: "sc_preds g (Event i (View_getMax v i + 1)) = Some ps"
    using o i unfolding sc_order_def by metis
  show ?case
  proof (cases "can_add g v i")
    case False
    then have "areSCPredsInView g v (Event i (View_getMax v i + 1)) = Some False"
      using ps nn by (auto simp: can_add_def areSCPredsInView_preds)
    then have "round_thread (Suc n) g i (View_getMax v i) (v, ex, dn) = Some (v, ex, False)" by simp
    then show ?thesis using Suc.prems(1) nn False by (auto simp: view_grows_def)
  next
    case True
    define u where "u = View_updateIdx v (Event i (View_getMax v i + 1))"
    have u: "View_getMax u t = (if t = i then View_getMax v i + 1 else View_getMax v t)" if "0 \<le> t" for t
      using that i0 by (simp add: u_def view_simps)
    then have below: "view_below u (full_view g)"
      using Suc.prems(1) nn by (auto simp: view_below_def View_inv_iff)
    have "n = nat (View_getMax (full_view g) i - View_getMax u i)" using Suc.prems(2) u i0 by simp
    from Suc.IH [OF below this, of True] obtain v' where v':
      "round_thread n g i (View_getMax u i) (u, True, dn) = Some (v', True, dn \<and> View_getMax v' i = View_getMax (full_view g) i)"
      "view_grows g u v'" "\<forall>t\<ge>0. t \<noteq> i \<longrightarrow> View_getMax v' t = View_getMax u t" by auto
    have "View_getMax u i \<le> View_getMax v' i" using v'(2) i0 by (simp add: view_grows_def)
    then have "View_getMax v i < View_getMax v' i" using u i0 by simp
    moreover have "view_grows g v v'"
      using v'(2) u below by (intro view_grows_trans [of g v u v']) (auto simp: view_grows_def)
    moreover have "round_thread (Suc n) g i (View_getMax v i) (v, ex, dn) =
        Some (v', True, dn \<and> View_getMax v' i = View_getMax (full_view g) i)"
      using True v'(1) u i0 by (simp add: can_add_def u_def)
    ultimately show ?thesis using v'(3) u by auto
  qed
qed

lemma round_loop_spec:
  assumes o: "sc_order g rank"
  shows "set is \<subseteq> set (thread_ids g) \<Longrightarrow> distinct is \<Longrightarrow> view_below v (full_view g) \<Longrightarrow>
    \<exists>v' ex'. round_loop g (full_view g) is (v, ex, dn) =
        Some (v', ex', dn \<and> (\<forall>i\<in>set is. View_getMax v' i = View_getMax (full_view g) i)) \<and>
      view_grows g v v' \<and> (\<forall>t\<ge>0. t \<notin> set is \<longrightarrow> View_getMax v' t = View_getMax v t) \<and>
      (ex' \<longleftrightarrow> ex \<or> (\<exists>i\<in>set is. View_getMax v i < View_getMax v' i)) \<and>
      ((\<exists>i\<in>set is. can_add g v i) \<longrightarrow> (\<exists>i\<in>set is. View_getMax v i < View_getMax v' i))"
proof (induction "is" arbitrary: v ex dn)
  case Nil
  then show ?case by (simp add: view_grows_def)
next
  case (Cons i "is")
  have i: "i \<in> set (thread_ids g)" "0 \<le> i" "i \<notin> set is" using Cons.prems in_thread_ids by auto
  obtain u where u: "round_thread (nat (View_getMax (full_view g) i - View_getMax v i)) g i (View_getMax v i) (v, ex, dn) =
        Some (u, ex \<or> View_getMax v i < View_getMax u i, dn \<and> View_getMax u i = View_getMax (full_view g) i)"
      "view_grows g v u" "\<forall>t\<ge>0. t \<noteq> i \<longrightarrow> View_getMax u t = View_getMax v t"
      "can_add g v i \<Longrightarrow> View_getMax v i < View_getMax u i"
    using round_thread_spec [OF o i(1) Cons.prems(3) refl, of ex dn] by blast
  then have below: "view_below u (full_view g)" by (simp add: view_grows_def)
  obtain v' ex' where v': "round_loop g (full_view g) is (u, ex \<or> View_getMax v i < View_getMax u i,
          dn \<and> View_getMax u i = View_getMax (full_view g) i) =
        Some (v', ex', (dn \<and> View_getMax u i = View_getMax (full_view g) i) \<and>
          (\<forall>i\<in>set is. View_getMax v' i = View_getMax (full_view g) i))"
      "view_grows g u v'" "\<forall>t\<ge>0. t \<notin> set is \<longrightarrow> View_getMax v' t = View_getMax u t"
      "ex' \<longleftrightarrow> (ex \<or> View_getMax v i < View_getMax u i) \<or> (\<exists>i\<in>set is. View_getMax u i < View_getMax v' i)"
      "(\<exists>i\<in>set is. can_add g u i) \<longrightarrow> (\<exists>i\<in>set is. View_getMax u i < View_getMax v' i)"
    using Cons.IH [OF _ _ below, of "ex \<or> View_getMax v i < View_getMax u i"
        "dn \<and> View_getMax u i = View_getMax (full_view g) i"] Cons.prems(1,2) by (simp only: set_simps distinct.simps) blast
  have vi: "View_getMax v' i = View_getMax u i" using v'(3) i by simp
  have same: "View_getMax u t = View_getMax v t" "t \<in> set (thread_ids g)" if "t \<in> set is" for t
    using that u(3) i Cons.prems(1) in_thread_ids by auto
  then have inc: "(\<exists>t\<in>set (i # is). View_getMax v t < View_getMax v' t) \<longleftrightarrow>
      View_getMax v i < View_getMax u i \<or> (\<exists>t\<in>set is. View_getMax u t < View_getMax v' t)"
    using vi by auto
  have "can_add g u t" if "t \<in> set is" "can_add g v t" for t
    using can_add_mono [OF o _ that(2) Cons.prems(3) u(2)] same [OF that(1)] by simp
  then have "(\<exists>t\<in>set (i # is). can_add g v t) \<longrightarrow> (\<exists>t\<in>set (i # is). View_getMax v t < View_getMax v' t)"
    unfolding inc using u(4) v'(5) by auto
  moreover have "round_loop g (full_view g) (i # is) (v, ex, dn) = Some (v', ex',
      dn \<and> (\<forall>t\<in>set (i # is). View_getMax v' t = View_getMax (full_view g) t))"
    using u(1) v'(1) vi by auto
  moreover have "\<forall>t\<ge>0. t \<notin> set (i # is) \<longrightarrow> View_getMax v' t = View_getMax v t" using u(3) v'(3) by simp
  ultimately show ?case
    using view_grows_trans [OF u(2) v'(2)] v'(4) inc by blast
qed

definition missing :: "ExecutionGraph \<Rightarrow> View \<Rightarrow> nat" where
  "missing g v = (\<Sum>i\<in>set (thread_ids g). nat (View_getMax (full_view g) i - View_getMax v i))"

lemma one_round_spec:
  assumes o: "sc_order g rank" and v: "view_below v (full_view g)" "\<not> view_full g v"
  obtains v' where "one_round g v = Some (v', True, view_full g v')" "view_below v' (full_view g)"
    "missing g v' < missing g v"
proof -
  have d: "distinct (thread_ids g)" by (simp add: thread_ids_def distinct_map inj_on_def)
  obtain v' ex' where r: "round_loop g (full_view g) (thread_ids g) (v, False, True) =
      Some (v', ex', \<forall>i\<in>set (thread_ids g). View_getMax v' i = View_getMax (full_view g) i)"
    "view_grows g v v'" "ex' \<longleftrightarrow> (\<exists>i\<in>set (thread_ids g). View_getMax v i < View_getMax v' i)"
    "(\<exists>i\<in>set (thread_ids g). can_add g v i) \<longrightarrow> (\<exists>i\<in>set (thread_ids g). View_getMax v i < View_getMax v' i)"
    using round_loop_spec [OF o subset_refl d v(1), of False True] by auto
  then obtain i where i: "i \<in> set (thread_ids g)" "View_getMax v i < View_getMax v' i" and "ex'"
    using some_can_add [OF o v] by blast
  have "missing g v' < missing g v"
    unfolding missing_def
  proof (rule sum_strict_mono_ex1)
    show "\<forall>t\<in>set (thread_ids g). nat (View_getMax (full_view g) t - View_getMax v' t) \<le>
        nat (View_getMax (full_view g) t - View_getMax v t)"
      using r(2) in_thread_ids by (fastforce simp: view_grows_def)
    have "View_getMax v' i \<le> View_getMax (full_view g) i"
      using r(2) in_thread_ids [OF i(1)] by (simp add: view_grows_def view_below_def)
    then show "\<exists>t\<in>set (thread_ids g). nat (View_getMax (full_view g) t - View_getMax v' t) <
        nat (View_getMax (full_view g) t - View_getMax v t)"
      using i by (intro bexI [of _ i]) auto
  qed simp
  then show thesis
    using that r(1,2) \<open>ex'\<close> by (simp add: one_round_def view_full_def view_grows_def)
qed

lemma rounds_agree:
  assumes o: "sc_order g rank"
  shows "view_below v (full_view g) \<Longrightarrow> \<not> view_full g v \<Longrightarrow> missing g v < n \<Longrightarrow>
    \<exists>d \<le> missing g v. (\<forall>k. rounds_calculate n g v k = Some (k + of_nat d)) \<and>
      (\<forall>b. rounds_exceed b g v = Some (b < d))"
proof (induction n arbitrary: v)
  case (Suc n)
  obtain v' where v': "one_round g v = Some (v', True, view_full g v')" "view_below v' (full_view g)"
    "missing g v' < missing g v" using one_round_spec [OF o Suc.prems(1,2)] by blast
  show ?case
  proof (cases "view_full g v'")
    case True
    then show ?thesis
      using v'(1) by (intro exI [of _ 0]) (simp add: rounds_exceed.simps BUG_ON_def)
  next
    case False
    then obtain d where d: "d \<le> missing g v'" "\<And>k. rounds_calculate n g v' k = Some (k + of_nat d)"
      "\<And>b. rounds_exceed b g v' = Some (b < d)" using Suc.IH [OF v'(2)] v'(3) Suc.prems(3) by auto
    have "rounds_exceed b g v = Some (b < Suc d)" for b
      using v'(1) False d(3) by (cases b) (simp_all add: rounds_exceed.simps [of _ g v] BUG_ON_def)
    moreover have "rounds_calculate (Suc n) g v k = Some (k + of_nat (Suc d))" for k
      using v'(1) False d(2) by (simp add: BUG_ON_def add.assoc)
    ultimately show ?thesis using d(1) v'(3) by (intro exI [of _ "Suc d"]) simp
  qed
qed simp

section \<open>An example\<close>

lemma example_full: "View_getMax (full_view example_graph) t = (if t = 0 then 2 else 0)" if "0 \<le> t" for t
proof -
  have "last_leq 3 [example_init, example_write, example_read] (Suc (Suc (Suc 0))) = Some (Suc (Suc 0))" by simp
  then have "last_leq 3 [example_init, example_write, example_read] 3 = Some 2" by (simp only: numeral_3_eq_3 numeral_2_eq_2)
  then show ?thesis
    using that by (simp add: full_view_def getViewFromStamp_getMax) (simp add: example_graph_def nat_eq_iff)
qed

lemma example_ids: "thread_ids example_graph = [0]"
  by (simp add: thread_ids_def getNumThreads_def example_graph_def)

lemma access_not_terminator [simp]: "\<not> isTerminator EL_Write" "\<not> isTerminator EL_Read"
  by (simp_all add: kind_defs)

lemma example_stores: "getStoresToLoc example_graph 8 = [Event 0 1]"
  by (simp add: getStoresToLoc_def getBucket_def bucket_def example_graph_def)

lemma example_co: "co_range example_graph example_access = [Event 0 1]"
  "co_succ example_graph example_write example_access = []" "co_pred example_graph example_write = []"
  by (simp_all add: co_range_def co_succ_def co_pred_def overlap_filter_def label_access_def example_label getInit_def example_stores)
    (simp_all add: example_access_def example_stores)

lemma example_maximal:
  assumes "View_inv v" "View_getMax v 0 = 1 \<or> View_getMax v 0 = 2"
  shows "isSCMaximal example_graph v 0 = Some True" "\<exists>e. isEnabled example_graph v 0 = Some e"
  using assms(2)
  by (auto simp: isSCMaximal_def isEnabled_def example_label getInit_def isLocEmpty_def example_co sc_succ_def getRf_def
      hasRf_def co_imm_succ_def View_contains_def getNextLabel_def Event_next_def)

lemma example_unwinds: "unwinds example_graph (full_view example_graph)"
  unfolding unwinds_def example_ids
proof (intro allI impI)
  fix v assume v: "view_below v (full_view example_graph)" "\<not> all_zero v"
  have "View_getMax v t = 0" if "0 < t" for t
  proof -
    have "0 \<le> View_getMax v t" "View_getMax v t \<le> View_getMax (full_view example_graph) t"
      using v(1) that by (simp_all add: view_below_def View_inv_iff)
    then show ?thesis using that example_full [of t] by simp
  qed
  moreover have "\<exists>t\<ge>0. View_getMax v t \<noteq> 0"
  proof -
    obtain n where "n < length v" "v ! n \<noteq> 0" using v(2) by (auto simp: all_zero_def list_all_iff in_set_conv_nth)
    then show ?thesis by (intro exI [of _ "int n"]) (simp add: View_getMax_def)
  qed
  ultimately have "View_getMax v 0 \<noteq> 0" by (metis order_le_less)
  moreover have "0 \<le> View_getMax v 0" "View_getMax v 0 \<le> View_getMax (full_view example_graph) 0"
    using v(1) by (simp_all add: view_below_def View_inv_iff)
  then have "0 \<le> View_getMax v 0" "View_getMax v 0 \<le> 2" using example_full [of 0] by simp_all
  ultimately have "View_getMax v 0 = 1 \<or> View_getMax v 0 = 2" by linarith
  then show "(\<forall>t\<in>set [0]. (\<exists>m. may_run_last example_graph v t = Some m) \<and> (\<exists>e. isEnabled example_graph v t = Some e)) \<and>
      (\<exists>t\<in>set [0]. may_run_last example_graph v t = Some True)"
    using example_maximal [of v] v(1) by (auto simp: may_run_last_def view_below_def)
qed

lemma example_order: "sc_order example_graph (\<lambda>e. nat (index e))"
proof -
  have "init_rf_range (label_access example_graph) example_init example_access = []"
    by (simp add: init_rf_range_def bucket_def example_access_def)
  then have "sc_preds example_graph (Event 0 1) = Some []" "sc_preds example_graph (Event 0 2) = Some [Event 0 1]"
    by (simp_all add: sc_preds_def example_label getInit_def example_co co_imm_pred_def fr_imm_pred_def getRf_def hasRf_def
        getInitLabel_def kind_defs)
  moreover have "j = 1 \<or> j = 2" if "j \<in> {1..View_getMax (full_view example_graph) 0}" for j
    using that example_full [of 0] by auto
  ultimately show ?thesis
    unfolding sc_order_def example_ids by (force simp: example_full)
qed

definition start_graph :: ExecutionGraph where
  "start_graph = \<lparr>events = [[example_init]], timestamp = 1, coherence = [(8, [])], recoveryTID = -1\<rparr>"

section \<open>Properties\<close>

text \<open>
  C22. The context bound is decided exactly: for a graph that can be unwound event by event, the least
  number of context switches is calculated, and the search that stops at a bound answers that the
  execution exceeds the bound exactly if this number is greater.
\<close>

theorem context_bound_exact:
  assumes "unwinds g (full_view g)" "\<not> all_zero (full_view g)"
    "length (graph_labels g) < 2 ^ 32"
  shows "\<exists>c. context_calculate g = Some c \<and>
     (\<forall>bound. context_doesExecutionExceedBound g bound = Some (bound < c))"
proof -
  let ?w = "full_view g" and ?n = "bound_fuel g"
  have rec: "\<exists>c. context_calculate_prefix ?n g (shrinkViewByOne ?w tp) tp = Some c \<and>
      (\<forall>b. doesPrefixExceedBound ?n g (shrinkViewByOne ?w tp) tp b = Some (c \<le> b))"
    if tp: "tp \<in> set (thread_ids g)" "may_run_last g ?w tp = Some True" for tp
  proof -
    have nz: "0 \<le> tp" "View_getMax ?w tp \<noteq> 0" using tp in_thread_ids by (auto simp: may_run_last_def split: if_splits)
    have "Suc (view_size (shrinkViewByOne ?w tp)) = view_size ?w" by (rule view_size_shrink [OF full_view_inv nz])
    then have "view_size (shrinkViewByOne ?w tp) < ?n" "view_size (shrinkViewByOne ?w tp) < 2 ^ 32"
      "view_size ?w < 2 ^ 32"
      using view_size_full [of g] assms(3) by (simp_all add: bound_fuel_def)
    then show ?thesis
      using prefix_bound [OF assms(1) _ view_below_shrink [OF view_below_refl [OF full_view_inv] nz] _ _ tp(1)]
      by blast
  qed
  have some: "\<forall>tp\<in>set (thread_ids g). \<exists>m. may_run_last g ?w tp = Some m"
    "\<exists>tp\<in>set (thread_ids g). may_run_last g ?w tp = Some True"
    using assms(1,2) view_below_refl [OF full_view_inv] unfolding unwinds_def by auto
  show ?thesis
    using execution_loops_agree [of "thread_ids g" g ?w "context_calculate_prefix ?n g"
        "\<lambda>b v t. doesPrefixExceedBound ?n g v t b" None] rec some
    by (auto simp: context_calculate_def context_doesExecutionExceedBound_def not_le)
qed

theorem context_bound_exact_witness:
  "\<exists>c. context_calculate example_graph = Some c \<and>
     (\<forall>bound. context_doesExecutionExceedBound example_graph bound = Some (bound < c))"
proof -
  have "\<not> all_zero (full_view example_graph)"
  proof
    assume "all_zero (full_view example_graph)"
    then have "View_getMax (full_view example_graph) 0 = 0 \<or> full_view example_graph = []"
      by (cases "full_view example_graph") (auto simp: all_zero_def View_getMax_def)
    then show False using example_full [of 0] by (auto simp: View_getMax_def)
  qed
  moreover have "length (graph_labels example_graph) < 2 ^ 32" by (simp add: graph_labels_def example_graph_def)
  ultimately show ?thesis by (rule context_bound_exact [OF example_unwinds])
qed

text \<open>
  C23. The round bound is decided exactly: for a sequentially consistent execution with at least one
  event after the starts of the threads, counting rounds ends, and the search that stops at a bound
  answers that the execution exceeds it exactly if the number of rounds is greater.
\<close>

theorem round_bound_exact:
  assumes "sc_order g rank" "\<not> view_full g View_empty" "length (graph_labels g) < 2 ^ 32"
  shows "\<exists>c. round_calculate g = Some c \<and> (\<forall>bound. round_doesExecutionExceedBound g bound = Some (bound < c))"
proof -
  have below: "view_below View_empty (full_view g)"
    using full_view_inv [of g] by (simp add: view_below_def View_inv_iff view_simps)
  have "missing g View_empty = (\<Sum>i<length (events g). nat (View_getMax (full_view g) (int i)))"
    unfolding missing_def thread_ids_def getNumThreads_def
    by (simp add: atLeast0LessThan sum.reindex inj_on_def view_simps)
  also have "\<dots> \<le> (\<Sum>i<length (events g). length (events g ! i))"
    by (intro sum_mono) (simp add: full_view_max getNumThreads_def)
  finally have m: "missing g View_empty \<le> length (graph_labels g)" by (simp add: sum_lengths)
  then obtain d where d: "d \<le> missing g View_empty" "round_calculate g = Some (of_nat d)"
    "\<And>b. rounds_exceed b g View_empty = Some (b < d)"
    using rounds_agree [OF assms(1) below assms(2), of "bound_fuel g"]
    by (auto simp: round_calculate_def bound_fuel_def)
  have "unat (of_nat d :: 32 word) = d" using d(1) m assms(3) by (simp add: unat_of_nat)
  then show ?thesis using d by (auto simp: round_doesExecutionExceedBound_def word_less_nat_alt)
qed

theorem round_bound_exact_witness:
  "\<exists>c. round_calculate example_graph = Some c \<and>
     (\<forall>bound. round_doesExecutionExceedBound example_graph bound = Some (bound < c))"
proof -
  have "\<not> view_full example_graph View_empty" by (simp add: view_full_def example_ids example_full view_simps)
  moreover have "length (graph_labels example_graph) < 2 ^ 32" by (simp add: graph_labels_def example_graph_def)
  ultimately show ?thesis by (rule round_bound_exact [OF example_order])
qed

text \<open>
  With no event after the starts of the threads the number of rounds is 0, but the decision
  aborts: it asks for progress before it looks whether all events are there.
\<close>

theorem round_bound_aborts:
  assumes "view_full g View_empty"
  shows "round_calculate g = Some 0 \<and> round_doesExecutionExceedBound g bound = None"
proof -
  have "set is \<subseteq> set (thread_ids g) \<Longrightarrow> round_loop g (full_view g) is (View_empty, False, True) = Some (View_empty, False, True)"
    for "is" using assms by (induction "is") (auto simp: view_full_def)
  then have "one_round g View_empty = Some (View_empty, False, True)" by (simp add: one_round_def)
  then show ?thesis
    by (simp add: round_calculate_def bound_fuel_def round_doesExecutionExceedBound_def rounds_exceed.simps BUG_ON_def)
qed

theorem round_bound_aborts_witness:
  "round_calculate start_graph = Some 0 \<and> round_doesExecutionExceedBound start_graph 3 = None"
proof -
  have "View_getMax (full_view start_graph) 0 = 0"
    by (simp add: full_view_def getViewFromStamp_getMax) (simp add: start_graph_def)
  then have "view_full start_graph View_empty"
    by (simp add: view_full_def thread_ids_def getNumThreads_def view_simps) (simp add: start_graph_def)
  then show ?thesis by (rule round_bound_aborts)
qed

end
