(* ===== verification/Symmetry.thy ===== *)
theory Symmetry
  imports RACoherence
begin

text \<open>
  Symmetry reduction (src/src/GenMCDriver.cpp): the links between threads spawned with the same
  function and argument, the test whether two such threads have matching program-order prefixes,
  the test whether an execution is the representative of its class, and the pruning of the stores
  that a read may read from. A link is the thread id the first label of a thread stores, or -1.
  A missing label and an abort are None. Following the links is a loop whose length the links
  determine: a fuel bounds it, and running out of fuel is None.
\<close>

section \<open>Links between symmetric threads\<close>

definition getSymmPredTid :: "ExecutionGraph \<Rightarrow> int \<Rightarrow> int option" where
  "getSymmPredTid g tid = do { l \<leftarrow> getFirstThreadLabel g tid; Some (symmetricTid l) }"

definition getSymmSuccTid :: "ExecutionGraph \<Rightarrow> int \<Rightarrow> int option" where
  "getSymmSuccTid g tid =
     do { i \<leftarrow> find_opt (\<lambda>i. do { p \<leftarrow> getSymmPredTid g i; Some (p = tid) })
                [tid + 1 .. int (getNumThreads g) - 1];
          Some (case i of None \<Rightarrow> -1 | Some i \<Rightarrow> i) }"

text \<open>The loops that collect the threads reached by a link function.\<close>

fun symm_chain :: "nat \<Rightarrow> (int \<Rightarrow> int option) \<Rightarrow> int \<Rightarrow> int list option" where
  "symm_chain 0 link t = None"
| "symm_chain (Suc n) link t =
     do { s \<leftarrow> link t;
          if s = -1 then Some [] else do { ss \<leftarrow> symm_chain n link s; Some (s # ss) } }"

definition symm_preds :: "ExecutionGraph \<Rightarrow> int \<Rightarrow> int list option" where
  "symm_preds g t = symm_chain (Suc (getNumThreads g)) (getSymmPredTid g) t"

definition symm_succs :: "ExecutionGraph \<Rightarrow> int \<Rightarrow> int list option" where
  "symm_succs g t = symm_chain (Suc (getNumThreads g)) (getSymmSuccTid g) t"

section \<open>Matching prefixes\<close>

text \<open>Whether two labels of symmetric threads match: the body of the loop, without its returns.\<close>

definition rfs_internal :: "int \<Rightarrow> EventLabel \<Rightarrow> int \<Rightarrow> EventLabel \<Rightarrow> bool" where
  "rfs_internal tid labA t labB =
     (list_all (\<lambda>p. thread (fst p) = tid) (rfs labA) \<and> list_all (\<lambda>p. thread (fst p) = t) (rfs labB) \<and>
      list_all2 (\<lambda>p q. index (fst p) = index (fst q)) (rfs labA) (rfs labB))"

definition symm_match :: "int \<Rightarrow> EventLabel \<Rightarrow> int \<Rightarrow> EventLabel \<Rightarrow> bool" where
  "symm_match tid labA t labB =
     (if kind labA \<noteq> kind labB then False
      else if isRead (kind labA) \<and> rfs_internal tid labA t labB then True
      else if isRead (kind labA) \<and> rfs labA \<noteq> rfs labB then False
      else if isWrite (kind labA) \<and> \<not> isLocal labA then False
      else True)"

fun symm_prefix_loop :: "ExecutionGraph \<Rightarrow> int \<Rightarrow> int \<Rightarrow> int \<Rightarrow> int list \<Rightarrow> int option" where
  "symm_prefix_loop g tid t limit [] = Some limit"
| "symm_prefix_loop g tid t limit (j # js) =
     do { labA \<leftarrow> getEventLabel g (Event tid j);
          labB \<leftarrow> getEventLabel g (Event t j);
          if symm_match tid labA t labB then symm_prefix_loop g tid t limit js else Some (j - 1) }"

definition calcLargestSymmPrefixBeforeSR :: "ExecutionGraph \<Rightarrow> int \<Rightarrow> Event \<Rightarrow> int option" where
  "calcLargestSymmPrefixBeforeSR g tid pos =
     (if tid < 0 \<or> tid \<ge> int (getNumThreads g) then Some (-1)
      else let limit = min (index pos) (int (getThreadSize g tid) - 1)
           in symm_prefix_loop g tid (thread pos) limit [0 .. limit - 1])"

definition sharePrefixSR :: "ExecutionGraph \<Rightarrow> int \<Rightarrow> Event \<Rightarrow> bool option" where
  "sharePrefixSR g tid pos =
     do { i \<leftarrow> calcLargestSymmPrefixBeforeSR g tid pos; Some (i = index pos) }"

section \<open>Representative executions\<close>

text \<open>Whether a store or one of its readers is the given event.\<close>

definition store_or_reader :: "ExecutionGraph \<Rightarrow> Event \<Rightarrow> Event \<Rightarrow> bool" where
  "store_or_reader g symmPos s = (s = symmPos \<or> list_ex (\<lambda>r. r = symmPos) (readers_of g s))"

definition isEcoBefore :: "ExecutionGraph \<Rightarrow> EventLabel \<Rightarrow> int \<Rightarrow> bool option" where
  "isEcoBefore g lab tid =
     (if \<not> isMemAccess (kind lab) then Some False
      else let symmPos = Event tid (getIndex lab) in
        if isWrite (kind lab) \<and> list_ex (store_or_reader g symmPos) (co_succ g lab (access lab)) then Some True
        else do { ws \<leftarrow> iter_fr_succs g lab; Some (list_ex (store_or_reader g symmPos) ws) })"

definition isEcoSymmetric :: "ExecutionGraph \<Rightarrow> EventLabel \<Rightarrow> int \<Rightarrow> bool option" where
  "isEcoSymmetric g lab tid =
     do { symmLab \<leftarrow> getEventLabel g (Event tid (getIndex lab));
          if isRead (kind lab) then do { BUG_ON (\<not> isRead (kind symmLab)); Some (rfs lab = rfs symmLab) }
          else do { BUG_ON (\<not> isWrite (kind lab));
                    Some (co_imm_succ g lab =
                      (if isWrite (kind symmLab) then Some (Event tid (getIndex lab)) else None)) } }"

definition isPredSymmetryOK_at :: "ExecutionGraph \<Rightarrow> EventLabel \<Rightarrow> int \<Rightarrow> bool option" where
  "isPredSymmetryOK_at g lab symm =
     do { BUG_ON (symm = -1);
          b \<leftarrow> sharePrefixSR g symm (position lab);
          if \<not> b \<or> \<not> containsPos g (Event symm (getIndex lab)) then Some True
          else do { symmLab \<leftarrow> getEventLabel g (Event symm (getIndex lab));
                    if kind symmLab \<noteq> kind lab then Some True
                    else do { e \<leftarrow> isEcoBefore g lab symm; Some (\<not> e) } } }"

definition isPredSymmetryOK :: "ExecutionGraph \<Rightarrow> EventLabel \<Rightarrow> bool option" where
  "isPredSymmetryOK g lab =
     do { preds \<leftarrow> symm_preds g (getThread lab); all_opt (isPredSymmetryOK_at g lab) preds }"

definition isSuccSymmetryOK_at :: "ExecutionGraph \<Rightarrow> EventLabel \<Rightarrow> int \<Rightarrow> bool option" where
  "isSuccSymmetryOK_at g lab symm =
     do { BUG_ON (symm = -1);
          b \<leftarrow> sharePrefixSR g symm (position lab);
          if \<not> b \<or> \<not> containsPos g (Event symm (getIndex lab)) then Some True
          else do { symmLab \<leftarrow> getEventLabel g (Event symm (getIndex lab));
                    if kind symmLab \<noteq> kind lab then Some True
                    else do { e \<leftarrow> isEcoBefore g symmLab (getThread lab); Some (\<not> e) } } }"

definition isSuccSymmetryOK :: "ExecutionGraph \<Rightarrow> EventLabel \<Rightarrow> bool option" where
  "isSuccSymmetryOK g lab =
     do { succs \<leftarrow> symm_succs g (getThread lab); all_opt (isSuccSymmetryOK_at g lab) succs }"

definition isSymmetryOK :: "ExecutionGraph \<Rightarrow> EventLabel \<Rightarrow> bool option" where
  "isSymmetryOK g lab =
     do { b \<leftarrow> isPredSymmetryOK g lab; if b then isSuccSymmetryOK g lab else Some False }"

section \<open>Prefix views\<close>

text \<open>The getter of the driver calculates a missing prefix view and stores it in the label.\<close>

definition driver_getPrefixView :: "Event \<Rightarrow> ExecutionGraph \<Rightarrow> (VectorClock \<times> ExecutionGraph) option" where
  "driver_getPrefixView e g =
     do { lab \<leftarrow> getEventLabel g e;
          (case prefixView lab of
             Some v \<Rightarrow> Some (v, g)
           | None \<Rightarrow> do { v \<leftarrow> calculatePrefixView g lab;
                          Some (v, upd_label e (\<lambda>l. l\<lparr>prefixView := Some v\<rparr>) g) }) }"

definition updateFromPrefix :: "Event \<Rightarrow> ExecutionGraph \<Rightarrow> Event \<Rightarrow> ExecutionGraph option" where
  "updateFromPrefix e g p =
     do { (w, g) \<leftarrow> driver_getPrefixView p g;
          lab \<leftarrow> getEventLabel g e;
          v \<leftarrow> prefixView lab;
          v' \<leftarrow> VectorClock_update v w;
          Some (upd_label e (\<lambda>l. l\<lparr>prefixView := Some v'\<rparr>) g) }"

definition updatePrefixWithSymmetriesSR :: "Event \<Rightarrow> ExecutionGraph \<Rightarrow> ExecutionGraph option" where
  "updatePrefixWithSymmetriesSR e g =
     do { t \<leftarrow> getSymmPredTid g (thread e);
          if t = -1 then Some g
          else do { si \<leftarrow> calcLargestSymmPrefixBeforeSR g t e;
                    symmLab \<leftarrow> getEventLabel g (Event t si);
                    g \<leftarrow> updateFromPrefix e g (Event t si);
                    if isRead (kind symmLab) then try_fold (updateFromPrefix e) (map fst (rfs symmLab)) g
                    else Some g } }"

section \<open>Pruning the stores of a read\<close>

text \<open>The test of the sizes is the one of the source: it compares the size of a label with itself.\<close>

definition filterSymmetricStoresSR :: "bool \<Rightarrow> ExecutionGraph \<Rightarrow> EventLabel \<Rightarrow> Event list \<Rightarrow> Event list option" where
  "filterSymmetricStoresSR mixer g rLab stores =
     do { t \<leftarrow> getSymmPredTid g (getThread rLab);
          if t = -1 then Some stores
          else do { b \<leftarrow> sharePrefixSR g t (position rLab);
                    if \<not> b then Some stores
                    else do { lab \<leftarrow> getEventLabel g (Event t (getIndex rLab));
                              if \<not> isRead (kind lab) \<or> getAddr lab \<noteq> getAddr rLab \<or> getSize lab \<noteq> getSize lab
                              then Some stores
                              else if \<not> isRMWLoad g lab then Some stores
                              else do { BUG_ON mixer;
                                        rf \<leftarrow> getRf lab;
                                        Some (filter (\<lambda>s. s \<noteq> rf) stores) } } } }"

section \<open>Finding the symmetric thread of a new one\<close>

fun no_access :: "ExecutionGraph \<Rightarrow> int \<Rightarrow> int list \<Rightarrow> bool option" where
  "no_access g t [] = Some True"
| "no_access g t (j # js) =
     do { l \<leftarrow> getEventLabel g (Event t j); if isMemAccess (kind l) then Some False else no_access g t js }"

definition isSymmetricToSR :: "ExecutionGraph \<Rightarrow> int \<Rightarrow> Event \<Rightarrow> ThreadInfo \<Rightarrow> bool option" where
  "isSymmetricToSR g candidate parent info =
     do { l \<leftarrow> getFirstThreadLabel g candidate;
          let cParent = parentCreate l; cInfo = threadInfo l in
          if ti_id cInfo = ti_id info \<or> ti_parentId cInfo \<noteq> ti_parentId info \<or>
             ti_funId cInfo \<noteq> ti_funId info \<or> ti_arg cInfo \<noteq> ti_arg info
          then Some False
          else no_access g (thread parent)
                 [min (index parent) (index cParent) .. max (index parent) (index cParent) - 1] }"

definition getSymmetricTidSR :: "bool \<Rightarrow> ExecutionGraph \<Rightarrow> Event \<Rightarrow> ThreadInfo \<Rightarrow> int option" where
  "getSymmetricTidSR symmetryReduction g tc info =
     (if \<not> symmetryReduction then Some (-1)
      else if ti_symmId info \<noteq> -1 then Some (ti_symmId info)
      else do { i \<leftarrow> find_opt (\<lambda>i. isSymmetricToSR g i tc info) (rev [1 .. ti_id info - 1]);
                Some (case i of None \<Rightarrow> -1 | Some i \<Rightarrow> i) })"

section \<open>What the definitions compute\<close>

lemma find_opt_first:
  "find_opt P xs = Some (Some x) \<Longrightarrow>
     \<exists>us vs. xs = us @ x # vs \<and> P x = Some True \<and> (\<forall>u\<in>set us. P u = Some False)"
proof (induction xs)
  case (Cons y ys)
  then obtain b where b: "P y = Some b" by (cases "P y") auto
  show ?case
  proof (cases b)
    case True
    then show ?thesis using Cons.prems b by (intro exI [of _ "[]"] exI [of _ ys]) simp
  next
    case False
    then obtain us vs where "ys = us @ x # vs" "P x = Some True" "\<forall>u\<in>set us. P u = Some False"
      using Cons b by auto
    then show ?thesis using b False by (intro exI [of _ "y # us"] exI [of _ vs]) simp
  qed
qed simp

lemma find_opt_rev_upto:
  assumes "find_opt P (rev [a .. b]) = Some (Some x)"
  shows "a \<le> x" "x \<le> b" "P x = Some True" "\<forall>k. x < k \<longrightarrow> k \<le> b \<longrightarrow> P k = Some False"
proof -
  obtain us vs where s: "rev [a .. b] = us @ x # vs" "P x = Some True" "\<forall>u\<in>set us. P u = Some False"
    using find_opt_first [OF assms] by blast
  then have e: "[a .. b] = rev vs @ x # rev us"
    by (metis rev_append rev.simps(2) rev_rev_ident append_assoc append_Cons append_Nil)
  have "x \<in> set [a .. b]" using e by (metis in_set_conv_decomp)
  then show "a \<le> x" "x \<le> b" by simp_all
  show "P x = Some True" by (rule s(2))
  have "sorted [a .. b]" by simp
  then have v: "\<forall>v\<in>set vs. v \<le> x" using e by (simp add: sorted_append)
  show "\<forall>k. x < k \<longrightarrow> k \<le> b \<longrightarrow> P k = Some False"
  proof (intro allI impI)
    fix k assume "x < k" "k \<le> b"
    then have "k \<in> set [a .. b]" using \<open>a \<le> x\<close> by simp
    then have "k \<in> set us" using e v \<open>x < k\<close> by auto
    then show "P k = Some False" using s(3) by blast
  qed
qed

text \<open>Following links that decrease a measure ends, and reaches the transitive closure.\<close>

lemma symm_chain_reaches:
  assumes "\<forall>t\<in>D. \<exists>s. link t = Some s \<and> (s = -1 \<or> s \<in> D \<and> m s < (m t :: nat))"
    and "t \<in> D" "m t < n"
  shows "\<exists>ss. symm_chain n link t = Some ss \<and>
     set ss = {s. (\<lambda>a b. link a = Some b \<and> b \<noteq> -1)\<^sup>+\<^sup>+ t s}"
  using assms(2,3)
proof (induction n arbitrary: t)
  case (Suc n)
  define R where "R = (\<lambda>a b. link a = Some b \<and> b \<noteq> -1)"
  obtain s where s: "link t = Some s" "s = -1 \<or> s \<in> D \<and> m s < m t" using assms(1) Suc.prems(1) by blast
  show ?case
  proof (cases "s = -1")
    case True
    then have "\<not> R\<^sup>+\<^sup>+ t u" for u using s(1) by (auto simp: R_def dest: tranclpD)
    then show ?thesis using s(1) True by (simp add: R_def)
  next
    case False
    then obtain ss where ss: "symm_chain n link s = Some ss" "set ss = {u. R\<^sup>+\<^sup>+ s u}"
      using Suc.IH [of s] Suc.prems(2) s(2) by (auto simp: R_def)
    have r: "R t u \<longleftrightarrow> u = s" for u using s(1) False by (auto simp: R_def)
    then have "R\<^sup>+\<^sup>+ t u \<longleftrightarrow> u = s \<or> R\<^sup>+\<^sup>+ s u" for u
      by (metis tranclp.r_into_trancl tranclp_into_tranclp2 converse_tranclpE)
    then show ?thesis using s(1) False ss by (auto simp: R_def)
  qed
qed simp

section \<open>Links\<close>

text \<open>The link between two threads; links lead to smaller threads, and a thread is the link of at most one.\<close>

definition symm_link :: "ExecutionGraph \<Rightarrow> int \<Rightarrow> int \<Rightarrow> bool" where
  "symm_link g s t = (getSymmPredTid g t = Some s \<and> s \<noteq> -1)"

definition symm_links :: "ExecutionGraph \<Rightarrow> bool" where
  "symm_links g =
     ((\<forall>t. 0 \<le> t \<and> t < int (getNumThreads g) \<longrightarrow>
         (\<exists>p. getSymmPredTid g t = Some p \<and> (p = -1 \<or> 0 \<le> p \<and> p < t))) \<and>
      (\<forall>s t u. symm_link g s t \<and> symm_link g s u \<longrightarrow> t = u))"

lemma symm_link_range:
  assumes "symm_links g" "symm_link g s t"
  shows "0 \<le> s" "s < t" "t < int (getNumThreads g)"
proof -
  have "containsPos g (Event t 0)"
    using assms(2) by (auto simp: symm_link_def getSymmPredTid_def getFirstThreadLabel_def
        getFirstThreadEvent_def getEventLabel_def split: bind_splits if_splits)
  then have t: "0 \<le> t" "t < int (getNumThreads g)" by (auto simp: containsPos_def)
  then show "t < int (getNumThreads g)" by simp
  obtain p where "getSymmPredTid g t = Some p" "p = -1 \<or> 0 \<le> p \<and> p < t"
    using assms(1) t unfolding symm_links_def by blast
  then show "0 \<le> s" "s < t" using assms(2) by (auto simp: symm_link_def)
qed

lemma getSymmSuccTid_link:
  assumes g: "symm_links g" and t: "0 \<le> t"
  shows "\<exists>s. getSymmSuccTid g t = Some s \<and> (s = -1 \<or> t < s \<and> s < int (getNumThreads g)) \<and>
     (\<forall>u. symm_link g t u \<longleftrightarrow> u = s \<and> s \<noteq> -1)"
proof -
  define Q where "Q i = (getSymmPredTid g i = Some t)" for i
  let ?xs = "[t + 1 .. int (getNumThreads g) - 1]"
  have "\<exists>p. getSymmPredTid g i = Some p" if "i \<in> set ?xs" for i
  proof -
    have "0 \<le> i \<and> i < int (getNumThreads g)" using t that by simp
    then show ?thesis using g unfolding symm_links_def by blast
  qed
  then have "find_opt (\<lambda>i. do { p \<leftarrow> getSymmPredTid g i; Some (p = t) }) ?xs = Some (find Q ?xs)"
    by (intro find_opt_total) (force simp: Q_def)
  then have s: "getSymmSuccTid g t = Some (case find Q ?xs of None \<Rightarrow> -1 | Some i \<Rightarrow> i)"
    by (simp add: getSymmSuccTid_def)
  have link: "symm_link g t u \<longleftrightarrow> u \<in> set ?xs \<and> Q u" for u
    using symm_link_range [OF g, of t u] t by (auto simp: symm_link_def Q_def)
  show ?thesis
  proof (cases "find Q ?xs")
    case None
    then have "\<forall>x\<in>set ?xs. \<not> Q x" by (simp add: find_None_iff)
    then have "\<not> symm_link g t u" for u using link by blast
    then show ?thesis using s None by simp
  next
    case (Some i)
    then have "i \<in> set ?xs" "Q i" by (auto simp: find_Some_iff in_set_conv_nth)
    then have i: "symm_link g t i" "t < i" "i < int (getNumThreads g)" using link by auto
    then have "symm_link g t u \<longleftrightarrow> u = i" for u using g unfolding symm_links_def by blast
    then show ?thesis using s Some i t by simp
  qed
qed

lemma symm_preds_reach:
  assumes g: "symm_links g" and t: "0 \<le> t" "t < int (getNumThreads g)"
  shows "\<exists>ss. symm_preds g t = Some ss \<and> set ss = {s. (symm_link g)\<^sup>+\<^sup>+ s t}"
proof -
  have "\<forall>t\<in>{0..<int (getNumThreads g)}. \<exists>s. getSymmPredTid g t = Some s \<and>
      (s = -1 \<or> s \<in> {0..<int (getNumThreads g)} \<and> nat s < nat t)"
  proof
    fix t assume t: "t \<in> {0..<int (getNumThreads g)}"
    then obtain p where "getSymmPredTid g t = Some p" "p = -1 \<or> 0 \<le> p \<and> p < t"
      using g unfolding symm_links_def by auto
    then show "\<exists>s. getSymmPredTid g t = Some s \<and> (s = -1 \<or> s \<in> {0..<int (getNumThreads g)} \<and> nat s < nat t)"
      using t by auto
  qed
  note reach = symm_chain_reaches [OF this, of t "Suc (getNumThreads g)", folded symm_preds_def]
  have "\<exists>ss. symm_preds g t = Some ss \<and> set ss = {s. (\<lambda>a b. symm_link g b a)\<^sup>+\<^sup>+ t s}"
    unfolding symm_link_def using reach t by simp
  moreover have "(\<lambda>a b. symm_link g b a)\<^sup>+\<^sup>+ t s \<longleftrightarrow> (symm_link g)\<^sup>+\<^sup>+ s t" for s
    using tranclp_converseI [of "symm_link g" t s] tranclp_converseD [of "symm_link g" t s]
    by (auto simp: conversep_iff [abs_def])
  ultimately show ?thesis by simp
qed

lemma symm_succs_reach:
  assumes g: "symm_links g" and t: "0 \<le> t" "t < int (getNumThreads g)"
  shows "\<exists>ss. symm_succs g t = Some ss \<and> set ss = {s. (symm_link g)\<^sup>+\<^sup>+ t s}"
proof -
  let ?n = "int (getNumThreads g)"
  have "\<forall>t\<in>{0..<?n}. \<exists>s. getSymmSuccTid g t = Some s \<and> (s = -1 \<or> s \<in> {0..<?n} \<and> nat (?n - s) < nat (?n - t))"
  proof
    fix t assume t: "t \<in> {0..<?n}"
    then obtain s where "getSymmSuccTid g t = Some s" "s = -1 \<or> t < s \<and> s < ?n"
      using getSymmSuccTid_link [OF g, of t] by auto
    then show "\<exists>s. getSymmSuccTid g t = Some s \<and> (s = -1 \<or> s \<in> {0..<?n} \<and> nat (?n - s) < nat (?n - t))"
      using t by auto
  qed
  note reach = symm_chain_reaches [OF this, of t "Suc (getNumThreads g)", folded symm_succs_def]
  have "\<exists>ss. symm_succs g t = Some ss \<and>
      set ss = {s. (\<lambda>a b. getSymmSuccTid g a = Some b \<and> b \<noteq> -1)\<^sup>+\<^sup>+ t s}"
    by (rule reach) (use t in simp_all)
  then obtain ss where ss: "symm_succs g t = Some ss"
      "set ss = {s. (\<lambda>a b. getSymmSuccTid g a = Some b \<and> b \<noteq> -1)\<^sup>+\<^sup>+ t s}"
    by (elim exE conjE)
  have eq: "getSymmSuccTid g a = Some b \<and> b \<noteq> -1 \<longleftrightarrow> symm_link g a b" if a: "0 \<le> a" for a b
  proof -
    obtain s where s: "getSymmSuccTid g a = Some s" "\<And>u. symm_link g a u \<longleftrightarrow> u = s \<and> s \<noteq> -1"
      using getSymmSuccTid_link [OF g a] by blast
    show ?thesis unfolding s by auto
  qed
  have "(symm_link g)\<^sup>+\<^sup>+ t s \<and> 0 \<le> s" if "(\<lambda>a b. getSymmSuccTid g a = Some b \<and> b \<noteq> -1)\<^sup>+\<^sup>+ t s" for s
    using that
  proof (induction rule: tranclp_induct)
    case (base y)
    then show ?case using eq [OF t(1)] symm_link_range [OF g, of t y] by auto
  next
    case (step y z)
    then show ?case using eq [of y z] symm_link_range [OF g, of y z] by (auto intro: tranclp.intros)
  qed
  moreover have "(\<lambda>a b. getSymmSuccTid g a = Some b \<and> b \<noteq> -1)\<^sup>+\<^sup>+ t s" if "(symm_link g)\<^sup>+\<^sup>+ t s" for s
    using that
  proof (induction rule: tranclp_induct)
    case (base y)
    then show ?case using eq [OF t(1)] by auto
  next
    case (step y z)
    have "0 \<le> y" using symm_link_range [OF g step.hyps(2)] by simp
    then show ?case using eq [of y z] step by (auto intro: tranclp.intros)
  qed
  ultimately show ?thesis using ss by auto
qed

section \<open>Prefixes and overwriting\<close>

text \<open>The first i events of two threads match, and the first thread has an event at i.\<close>

definition prefix_matches :: "ExecutionGraph \<Rightarrow> int \<Rightarrow> Event \<Rightarrow> bool" where
  "prefix_matches g s e =
     (containsPos g (Event s (index e)) \<and>
      (\<forall>j. 0 \<le> j \<and> j < index e \<longrightarrow> (\<exists>a b. getEventLabel g (Event s j) = Some a \<and>
         getEventLabel g (Event (thread e) j) = Some b \<and> symm_match s a (thread e) b)))"

lemma containsPos_below:
  "containsPos g (Event t i) \<Longrightarrow> 0 \<le> j \<Longrightarrow> j \<le> i \<Longrightarrow> \<exists>l. getEventLabel g (Event t j) = Some l"
  by (auto simp: getEventLabel_def containsPos_def)

lemma symm_prefix_loop_result:
  assumes "\<forall>j\<in>set js. \<exists>a b. getEventLabel g (Event s j) = Some a \<and> getEventLabel g (Event t j) = Some b"
    and "\<forall>j\<in>set js. j \<le> limit"
  shows "\<exists>r\<le>limit. symm_prefix_loop g s t limit js = Some r \<and>
     (r = limit \<longleftrightarrow> (\<forall>j\<in>set js. \<exists>a b. getEventLabel g (Event s j) = Some a \<and>
        getEventLabel g (Event t j) = Some b \<and> symm_match s a t b))"
  using assms
proof (induction js)
  case (Cons j js)
  obtain a b where ab: "getEventLabel g (Event s j) = Some a" "getEventLabel g (Event t j) = Some b"
    using Cons.prems(1) by auto
  show ?case
  proof (cases "symm_match s a t b")
    case True
    then show ?thesis using Cons ab by auto
  next
    case False
    then show ?thesis using Cons.prems(2) ab by auto
  qed
qed simp

lemma sharePrefixSR_iff:
  assumes "containsPos g e" "0 \<le> s"
  shows "sharePrefixSR g s e = Some (prefix_matches g s e)"
proof (cases "s < int (getNumThreads g)")
  case False
  then have "\<not> prefix_matches g s e" "index e \<noteq> -1"
    using assms by (auto simp: prefix_matches_def containsPos_def)
  then show ?thesis using False by (auto simp: sharePrefixSR_def calcLargestSymmPrefixBeforeSR_def)
next
  case True
  define limit where "limit = min (index e) (int (getThreadSize g s) - 1)"
  have i: "0 \<le> index e" using assms(1) by (simp add: containsPos_def)
  have "\<forall>j\<in>set [0 .. limit - 1]. \<exists>a b. getEventLabel g (Event s j) = Some a \<and>
      getEventLabel g (Event (thread e) j) = Some b"
    using assms True by (auto simp: getEventLabel_def containsPos_def limit_def)
  from symm_prefix_loop_result [OF this, of limit] obtain r where r: "r \<le> limit"
      "symm_prefix_loop g s (thread e) limit [0 .. limit - 1] = Some r"
      "r = limit \<longleftrightarrow> (\<forall>j\<in>set [0 .. limit - 1]. \<exists>a b. getEventLabel g (Event s j) = Some a \<and>
        getEventLabel g (Event (thread e) j) = Some b \<and> symm_match s a (thread e) b)"
    by auto
  have "r = index e \<longleftrightarrow> limit = index e \<and> r = limit" using r(1) by (auto simp: limit_def)
  also have "limit = index e \<longleftrightarrow> containsPos g (Event s (index e))"
    using True assms(2) i by (auto simp: limit_def containsPos_def)
  finally have "r = index e \<longleftrightarrow> prefix_matches g s e"
    using r(3) by (auto simp: prefix_matches_def limit_def containsPos_def)
  then show ?thesis
    using True assms(2) r(2) by (simp add: sharePrefixSR_def calcLargestSymmPrefixBeforeSR_def Let_def limit_def)
qed

text \<open>A store overwrites what an access has written or read: it comes later in coherence order.\<close>

definition overwritten_by :: "ExecutionGraph \<Rightarrow> EventLabel \<Rightarrow> Event \<Rightarrow> bool" where
  "overwritten_by g l w =
     (isWrite (kind l) \<and> w \<in> set (co_succ g l (access l)) \<or>
      isRead (kind l) \<and> (\<exists>ws. fr_succ g l = Some ws \<and> w \<in> set ws))"

definition eco_before :: "ExecutionGraph \<Rightarrow> EventLabel \<Rightarrow> Event \<Rightarrow> bool" where
  "eco_before g l e = (\<exists>w. overwritten_by g l w \<and> (w = e \<or> e \<in> set (readers_of g w)))"

definition reads_resolved :: "ExecutionGraph \<Rightarrow> bool" where
  "reads_resolved g =
     (\<forall>e l. getEventLabel g e = Some l \<and> isRead (kind l) \<longrightarrow> (\<exists>w. getRf l = Some w \<and> containsPos g w))"

lemma isEcoBefore_iff:
  assumes "reads_resolved g" "getEventLabel g e = Some l"
  shows "isEcoBefore g l t = Some (eco_before g l (Event t (getIndex l)))"
proof -
  have sr: "list_ex (store_or_reader g p) ws \<longleftrightarrow> (\<exists>w\<in>set ws. w = p \<or> p \<in> set (readers_of g w))" for p ws
    by (auto simp: store_or_reader_def list_ex_iff)
  consider (wr) "isWrite (kind l)" "\<not> isRead (kind l)" "isMemAccess (kind l)"
    | (rd) "isRead (kind l)" "\<not> isWrite (kind l)" "isMemAccess (kind l)"
    | (other) "\<not> isRead (kind l)" "\<not> isWrite (kind l)"
    using kind_disjoint(1) kind_subclasses(1,2) by metis
  then show ?thesis
  proof cases
    case rd
    then obtain w where "getRf l = Some w" "containsPos g w" using assms unfolding reads_resolved_def by blast
    then obtain wl where w: "getRf l = Some w" "getEventLabel g w = Some wl" by (auto simp: getEventLabel_def)
    then show ?thesis
      using rd by (auto simp: isEcoBefore_def eco_before_def overwritten_by_def iter_fr_succs_def fr_succ_def sr Let_def Bex_def)
  qed (auto simp: isEcoBefore_def eco_before_def overwritten_by_def iter_fr_succs_def sr Let_def Bex_def)
qed

lemma symm_closure_range:
  assumes "symm_links g" "(symm_link g)\<^sup>+\<^sup>+ s t"
  shows "0 \<le> s \<and> 0 \<le> t"
  using assms(2) by (induction rule: tranclp_induct) (use symm_link_range [OF assms(1)] in fastforce)+

lemma isPredSymmetryOK_at_iff:
  assumes "reads_resolved g" "getEventLabel g (position lab) = Some lab" "0 \<le> s"
  shows "isPredSymmetryOK_at g lab s = Some (\<not> (prefix_matches g s (position lab) \<and>
     label_is (\<lambda>l. kind l = kind lab) g (Event s (getIndex lab)) \<and>
     eco_before g lab (Event s (getIndex lab))))"
proof -
  have "containsPos g (position lab)" using assms(2) by (simp add: getEventLabel_Some_iff)
  then have "sharePrefixSR g s (position lab) = Some (prefix_matches g s (position lab))"
    using assms(3) by (rule sharePrefixSR_iff)
  then show ?thesis
    using isEcoBefore_iff [OF assms(1,2)] assms(3)
    by (auto simp: isPredSymmetryOK_at_def label_is_def getEventLabel_def prefix_matches_def)
qed

lemma isSuccSymmetryOK_at_iff:
  assumes "reads_resolved g" "labels_placed g" "getEventLabel g (position lab) = Some lab" "0 \<le> s"
  shows "isSuccSymmetryOK_at g lab s = Some (\<not> (prefix_matches g s (position lab) \<and>
     label_is (\<lambda>l. kind l = kind lab \<and> eco_before g l (position lab)) g (Event s (getIndex lab))))"
proof -
  have "containsPos g (position lab)" using assms(3) by (simp add: getEventLabel_Some_iff)
  then have p: "sharePrefixSR g s (position lab) = Some (prefix_matches g s (position lab))"
    using assms(4) by (rule sharePrefixSR_iff)
  have pos: "Event (getThread lab) (getIndex lab) = position lab" by (simp add: getThread_def getIndex_def)
  show ?thesis
  proof (cases "getEventLabel g (Event s (getIndex lab))")
    case None
    then show ?thesis using p assms(4) by (auto simp: isSuccSymmetryOK_at_def label_is_def getEventLabel_def split: if_splits)
  next
    case (Some l)
    then have "position l = Event s (getIndex lab)" "containsPos g (Event s (getIndex lab))"
      using assms(2) unfolding labels_placed_def getEventLabel_Some_iff by blast+
    then have "getIndex l = getIndex lab" "containsPos g (Event s (getIndex lab))"
      by (simp_all add: getIndex_def [of l])
    then show ?thesis
      using p Some isEcoBefore_iff [OF assms(1) Some, of "getThread lab"] assms(4) pos
      by (auto simp: isSuccSymmetryOK_at_def label_is_def)
  qed
qed

section \<open>Choosing links\<close>

text \<open>
  The threads of a graph know their id, the user named no symmetric thread, the events of one parent that
  create threads come in the order of the ids, and the links are the ones getSymmetricTidSR returns.
\<close>

definition spawn_ordered :: "ExecutionGraph \<Rightarrow> bool" where
  "spawn_ordered g =
     ((\<forall>t. 0 \<le> t \<and> t < int (getNumThreads g) \<longrightarrow> (\<exists>l. getFirstThreadLabel g t = Some l \<and>
         ti_id (threadInfo l) = t \<and> ti_symmId (threadInfo l) = -1)) \<and>
      (\<forall>t u l m. getFirstThreadLabel g t = Some l \<and> getFirstThreadLabel g u = Some m \<and> 0 < t \<and> t < u \<and>
         ti_parentId (threadInfo l) = ti_parentId (threadInfo m) \<longrightarrow> index (parentCreate l) < index (parentCreate m)))"

definition links_chosen :: "ExecutionGraph \<Rightarrow> bool" where
  "links_chosen g =
     (\<forall>t l. getFirstThreadLabel g t = Some l \<longrightarrow>
        getSymmetricTidSR True g (parentCreate l) (threadInfo l) = Some (symmetricTid l))"

lemma no_access_True:
  "no_access g t js = Some True \<longleftrightarrow> (\<forall>j\<in>set js. \<exists>l. getEventLabel g (Event t j) = Some l \<and> \<not> isMemAccess (kind l))"
  by (induction js) (auto split: bind_splits)

lemma getSymmetricTidSR_chosen:
  assumes "getSymmetricTidSR True g tc i = Some s" "ti_symmId i = -1" "s \<noteq> -1"
  shows "1 \<le> s" "s < ti_id i" "isSymmetricToSR g s tc i = Some True"
    "\<forall>k. s < k \<longrightarrow> k < ti_id i \<longrightarrow> isSymmetricToSR g k tc i = Some False"
proof -
  have "find_opt (\<lambda>k. isSymmetricToSR g k tc i) (rev [1 .. ti_id i - 1]) = Some (Some s)"
    using assms by (auto simp: getSymmetricTidSR_def split: bind_splits option.splits)
  note f = find_opt_rev_upto [OF this]
  show "1 \<le> s" "s < ti_id i" "isSymmetricToSR g s tc i = Some True" using f(1,2,3) by simp_all
  show "\<forall>k. s < k \<longrightarrow> k < ti_id i \<longrightarrow> isSymmetricToSR g k tc i = Some False" using f(4) by simp
qed

lemma isSymmetricToSR_True:
  "isSymmetricToSR g c p i = Some True \<longleftrightarrow>
     (\<exists>l. getFirstThreadLabel g c = Some l \<and> ti_id (threadInfo l) \<noteq> ti_id i \<and>
        ti_parentId (threadInfo l) = ti_parentId i \<and> ti_funId (threadInfo l) = ti_funId i \<and>
        ti_arg (threadInfo l) = ti_arg i \<and>
        no_access g (thread p) [min (index p) (index (parentCreate l)) .. max (index p) (index (parentCreate l)) - 1] = Some True)"
  by (auto simp: isSymmetricToSR_def Let_def split: bind_splits if_splits)

lemma links_chosen_once:
  assumes g: "spawn_ordered g" "links_chosen g" and s: "symm_link g s t" "symm_link g s u" and "t < u"
  shows False
proof -
  obtain l m where l: "getFirstThreadLabel g t = Some l" "symmetricTid l = s"
    and m: "getFirstThreadLabel g u = Some m" "symmetricTid m = s" and "s \<noteq> -1"
    using s by (auto simp: symm_link_def getSymmPredTid_def split: bind_splits)
  have range: "0 \<le> x \<and> x < int (getNumThreads g)" if "getFirstThreadLabel g x = Some k" for x k
    using that by (auto simp: getFirstThreadLabel_def getFirstThreadEvent_def getEventLabel_Some_iff
        containsPos_def split: bind_splits if_splits)
  have ids: "ti_id (threadInfo l) = t" "ti_id (threadInfo m) = u" "ti_symmId (threadInfo l) = -1" "ti_symmId (threadInfo m) = -1"
    using g(1) l(1) m(1) range [OF l(1)] range [OF m(1)] unfolding spawn_ordered_def by (metis option.inject)+
  note ct = getSymmetricTidSR_chosen [of g "parentCreate l" "threadInfo l" s]
  note cu = getSymmetricTidSR_chosen [of g "parentCreate m" "threadInfo m" s]
  have sel: "getSymmetricTidSR True g (parentCreate l) (threadInfo l) = Some s"
      "getSymmetricTidSR True g (parentCreate m) (threadInfo m) = Some s"
    using g(2) l m by (auto simp: links_chosen_def)
  have s1: "1 \<le> s" "s < t" using ct(1,2) sel(1) ids \<open>s \<noteq> -1\<close> by auto
  obtain c where c: "getFirstThreadLabel g s = Some c" "ti_parentId (threadInfo c) = ti_parentId (threadInfo l)"
      "ti_funId (threadInfo c) = ti_funId (threadInfo l)" "ti_arg (threadInfo c) = ti_arg (threadInfo l)"
    using ct(3) [OF sel(1)] ids \<open>s \<noteq> -1\<close> by (auto simp: isSymmetricToSR_True)
  have d: "ti_parentId (threadInfo c) = ti_parentId (threadInfo m)" "ti_funId (threadInfo c) = ti_funId (threadInfo m)"
      "ti_arg (threadInfo c) = ti_arg (threadInfo m)"
      "no_access g (thread (parentCreate m)) [min (index (parentCreate m)) (index (parentCreate c)) ..
         max (index (parentCreate m)) (index (parentCreate c)) - 1] = Some True"
    using cu(3) [OF sel(2)] ids \<open>s \<noteq> -1\<close> c(1) by (auto simp: isSymmetricToSR_True)
  have "index (parentCreate c) < index (parentCreate l)" "index (parentCreate l) < index (parentCreate m)"
  proof -
    have "0 < s" "0 < t" "ti_parentId (threadInfo l) = ti_parentId (threadInfo m)" using s1 c(2) d(1) by simp_all
    then show "index (parentCreate c) < index (parentCreate l)" "index (parentCreate l) < index (parentCreate m)"
      using g(1) c(1,2) l(1) m(1) s1(2) \<open>t < u\<close> unfolding spawn_ordered_def by blast+
  qed
  then have "isSymmetricToSR g t (parentCreate m) (threadInfo m) = Some True"
    using l(1) c d ids \<open>t < u\<close> by (auto simp: isSymmetricToSR_True no_access_True)
  moreover have "isSymmetricToSR g t (parentCreate m) (threadInfo m) = Some False"
    using cu(4) [OF sel(2)] ids \<open>s \<noteq> -1\<close> s1 \<open>t < u\<close> by auto
  ultimately show False by simp
qed

section \<open>Updating prefix views\<close>

text \<open>The prefix views are cached and do not track dependencies.\<close>

definition prefixes_cached :: "ExecutionGraph \<Rightarrow> bool" where
  "prefixes_cached g =
     (\<forall>e l. getEventLabel g e = Some l \<longrightarrow> (\<exists>v. prefixView l = Some (VC_View v) \<and> View_inv v))"

definition prefix_has :: "ExecutionGraph \<Rightarrow> Event \<Rightarrow> Event \<Rightarrow> bool" where
  "prefix_has g e x = label_is (\<lambda>l. \<exists>v. prefixView l = Some (VC_View v) \<and> View_contains v x) g e"

abbreviation with_prefix :: "Event \<Rightarrow> View \<Rightarrow> ExecutionGraph \<Rightarrow> ExecutionGraph" where
  "with_prefix e v \<equiv> upd_label e (\<lambda>l. l\<lparr>prefixView := Some (VC_View v)\<rparr>)"

lemma upd_label_twice: "upd_label e f (upd_label e h g) = upd_label e (\<lambda>l. f (h l)) g"
  by (auto simp: upd_label_def containsPos_iff)

lemma updateFromPrefix_join:
  assumes g: "prefixes_cached g" and e: "containsPos g e" and p: "containsPos g p" "p \<noteq> e" and v: "View_inv v"
  shows "\<exists>u. updateFromPrefix e (with_prefix e v g) p = Some (with_prefix e u g) \<and> View_inv u \<and>
     (\<forall>x. pos_event x \<longrightarrow> View_contains u x = (View_contains v x \<or> prefix_has g p x))"
proof -
  obtain l m where l: "getEventLabel g e = Some l" and m: "getEventLabel g p = Some m"
    using e p by (auto simp: getEventLabel_def)
  obtain w where w: "prefixView m = Some (VC_View w)" "View_inv w" using g m unfolding prefixes_cached_def by blast
  have "updateFromPrefix e (with_prefix e v g) p = Some (with_prefix e (View_update v w) g)"
    using l m w(1) p(2)
    by (simp add: updateFromPrefix_def driver_getPrefixView_def getEventLabel_upd_label upd_label_twice)
  moreover have "prefix_has g p x = View_contains w x" for x using m w(1) by (simp add: prefix_has_def label_is_def)
  ultimately show ?thesis using v w(2) by (auto simp: view_simps)
qed

lemma updateFromPrefix_join_all:
  assumes g: "prefixes_cached g" and e: "containsPos g e"
    and "\<forall>p\<in>set ps. containsPos g p \<and> p \<noteq> e" "View_inv v"
  shows "\<exists>u. try_fold (updateFromPrefix e) ps (with_prefix e v g) = Some (with_prefix e u g) \<and> View_inv u \<and>
     (\<forall>x. pos_event x \<longrightarrow> View_contains u x = (View_contains v x \<or> (\<exists>p\<in>set ps. prefix_has g p x)))"
  using assms(3,4)
proof (induction ps arbitrary: v)
  case (Cons p ps)
  obtain u where u: "updateFromPrefix e (with_prefix e v g) p = Some (with_prefix e u g)" "View_inv u"
      "\<forall>x. pos_event x \<longrightarrow> View_contains u x = (View_contains v x \<or> prefix_has g p x)"
    using updateFromPrefix_join [OF g e] Cons.prems by (metis list.set_intros(1))
  obtain z where "try_fold (updateFromPrefix e) ps (with_prefix e u g) = Some (with_prefix e z g)" "View_inv z"
      "\<forall>x. pos_event x \<longrightarrow> View_contains z x = (View_contains u x \<or> (\<exists>p\<in>set ps. prefix_has g p x))"
    using Cons.IH [OF _ u(2)] Cons.prems(1) by auto
  then show ?case using u by (intro exI [of _ z]) auto
qed auto

section \<open>Examples\<close>

text \<open>
  Two symmetric threads, each with an atomic increment of one location; the second thread comes
  first in coherence order. The size of the access of the second one is a parameter.
\<close>

definition symm_access :: "ASize \<Rightarrow> AAccess" where
  "symm_access n = \<lparr>acc_addr = 4096, acc_size = n, acc_type = Unsigned\<rparr>"

definition symm_info :: "int \<Rightarrow> ThreadInfo" where
  "symm_info t = ThreadInfo_default\<lparr>ti_id := t, ti_funId := 7\<rparr>"

definition symm_start :: "int \<Rightarrow> int \<Rightarrow> EventLabel" where
  "symm_start t s = ThreadStartLabel (Event t 0) Acquire (Event 0 t) (symm_info t) s"

definition symm_read :: "ASize \<Rightarrow> int \<Rightarrow> Event \<Rightarrow> EventLabel" where
  "symm_read n t rf = FaiReadLabel EL_FaiRead (Event t 1) Monotonic (symm_access n) Op_Add 1 WA_None (Some rf) EventDeps_empty"

definition symm_write :: "ASize \<Rightarrow> int \<Rightarrow> Event list \<Rightarrow> EventLabel" where
  "symm_write n t rs =
     (FaiWriteLabel (Event t 2) Monotonic (symm_access n) 1 WA_None EventDeps_empty)\<lparr>readerList := rs\<rparr>"

definition symm_graph :: "ASize \<Rightarrow> ExecutionGraph" where
  "symm_graph n =
     \<lparr>events =
        [[InitLabel\<lparr>initRfs := [(4096, [Event 2 1])]\<rparr>,
          ThreadCreateLabel (Event 0 1) Release (symm_info 1) EventDeps_empty,
          ThreadCreateLabel (Event 0 2) Release (symm_info 2) EventDeps_empty],
         [symm_start 1 (-1), symm_read 4 1 (Event 2 2), symm_write 4 1 []],
         [symm_start 2 1, symm_read n 2 (Event 0 0), symm_write n 2 [Event 1 1]]],
      timestamp = 0, coherence = [(4096, [Event 2 2, Event 1 2])], recoveryTID = -1\<rparr>"

lemmas symm_defs = symm_graph_def symm_start_def symm_read_def symm_write_def symm_info_def symm_access_def
  ThreadStartLabel_def FaiReadLabel_def ReadLabel_def MemAccessLabel_def FaiWriteLabel_def WriteLabel_def
  ThreadCreateLabel_def InitLabel_def EventLabel_new_def

lemma symm_label:
  "getEventLabel (symm_graph n) e =
     (if e = Event 0 0 then Some (InitLabel\<lparr>initRfs := [(4096, [Event 2 1])]\<rparr>)
      else if e = Event 0 1 then Some (ThreadCreateLabel (Event 0 1) Release (symm_info 1) EventDeps_empty)
      else if e = Event 0 2 then Some (ThreadCreateLabel (Event 0 2) Release (symm_info 2) EventDeps_empty)
      else if e = Event 1 0 then Some (symm_start 1 (-1))
      else if e = Event 1 1 then Some (symm_read 4 1 (Event 2 2))
      else if e = Event 1 2 then Some (symm_write 4 1 [])
      else if e = Event 2 0 then Some (symm_start 2 1)
      else if e = Event 2 1 then Some (symm_read n 2 (Event 0 0))
      else if e = Event 2 2 then Some (symm_write n 2 [Event 1 1]) else None)"
  by (cases e) (auto simp: symm_graph_def getEventLabel_def containsPos_iff nth_Cons' nat_eq_iff2)

lemma symm_fields [simp]:
  "kind (symm_read n t rf) = EL_FaiRead" "position (symm_read n t rf) = Event t 1"
  "getThread (symm_read n t rf) = t" "getIndex (symm_read n t rf) = 1" "rfs (symm_read n t rf) = [(rf, symm_access n)]"
  "kind (symm_write n t rs) = EL_FaiWrite" "position (symm_write n t rs) = Event t 2"
  "kind (symm_start t s) = EL_ThreadStart" "position (symm_start t s) = Event t 0" "symmetricTid (symm_start t s) = s"
  by (simp_all add: symm_defs getThread_def getIndex_def)

lemma symm_graph_placed: "labels_placed (symm_graph n)"
  by (auto simp: labels_placed_def symm_label split: if_splits) (simp_all add: symm_defs getInit_def)

lemma symm_graph_resolved: "reads_resolved (symm_graph n)"
  unfolding reads_resolved_def
proof (intro allI impI, elim conjE)
  fix e l assume "getEventLabel (symm_graph n) e = Some l" "isRead (kind l)"
  then have "l = symm_read 4 1 (Event 2 2) \<or> l = symm_read n 2 (Event 0 0)"
    by (auto simp: symm_label split: if_splits) (simp_all add: symm_defs kind_defs)
  then show "\<exists>w. getRf l = Some w \<and> containsPos (symm_graph n) w"
    by (auto simp: getRf_def hasRf_def) (simp_all add: symm_graph_def containsPos_iff)
qed

lemma symm_pred: "getSymmPredTid (symm_graph n) t =
    (if t = 0 \<or> t = 1 then Some (-1) else if t = 2 then Some 1 else None)"
  by (auto simp: getSymmPredTid_def getFirstThreadLabel_def getFirstThreadEvent_def symm_label)
    (simp_all add: symm_defs kind_defs)

lemma symm_graph_links: "symm_links (symm_graph n)"
  by (auto simp: symm_links_def symm_link_def symm_pred split: if_splits)
    (auto simp: symm_graph_def getNumThreads_def)

lemma symm_graph_violation:
  "(symm_link (symm_graph 4))\<^sup>+\<^sup>+ 1 2" "prefix_matches (symm_graph 4) 1 (Event 2 1)"
  "label_is (\<lambda>l. kind l = EL_FaiRead) (symm_graph 4) (Event 1 1)"
  "eco_before (symm_graph 4) (symm_read 4 2 (Event 0 0)) (Event 1 1)"
proof -
  show "(symm_link (symm_graph 4))\<^sup>+\<^sup>+ 1 2" by (intro tranclp.r_into_trancl) (simp add: symm_link_def symm_pred)
  have "sharePrefixSR (symm_graph 4) 1 (Event 2 1) = Some True" by code_simp
  moreover have "containsPos (symm_graph 4) (Event 2 1)" by code_simp
  ultimately show "prefix_matches (symm_graph 4) 1 (Event 2 1)" by (simp add: sharePrefixSR_iff)
  show "label_is (\<lambda>l. kind l = EL_FaiRead) (symm_graph 4) (Event 1 1)" by (simp add: label_is_def symm_label)
  have "isEcoBefore (symm_graph 4) (symm_read 4 2 (Event 0 0)) 1 = Some True" by code_simp
  then show "eco_before (symm_graph 4) (symm_read 4 2 (Event 0 0)) (Event 1 1)"
    using isEcoBefore_iff [OF symm_graph_resolved, of 4 "Event 2 1" "symm_read 4 2 (Event 0 0)" 1] by (simp add: symm_label)
qed

lemma symm_first: "getFirstThreadLabel (symm_graph n) t =
    (if t = 0 then Some (InitLabel\<lparr>initRfs := [(4096, [Event 2 1])]\<rparr>)
     else if t = 1 then Some (symm_start 1 (-1)) else if t = 2 then Some (symm_start 2 1) else None)"
  by (auto simp: getFirstThreadLabel_def getFirstThreadEvent_def symm_label) (simp_all add: symm_defs kind_defs)

lemma symm_origin:
  "parentCreate (symm_start t s) = Event 0 t" "threadInfo (symm_start t s) = symm_info t"
  "parentCreate InitLabel = Event 0 0" "threadInfo InitLabel = ThreadInfo_default" "symmetricTid InitLabel = -1"
  by (simp_all add: symm_defs getInit_def)

lemma symm_graph_spawn: "spawn_ordered (symm_graph n)"
  unfolding spawn_ordered_def
  by (auto simp: symm_first split: if_splits) (auto simp: symm_defs getNumThreads_def ThreadInfo_default_def)

text \<open>The same threads, the second one still at its read and with an access of eight bytes.\<close>

definition symm_sizes :: ExecutionGraph where
  "symm_sizes =
     \<lparr>events =
        [[InitLabel\<lparr>initRfs := [(4096, [Event 1 1, Event 2 1])]\<rparr>,
          ThreadCreateLabel (Event 0 1) Release (symm_info 1) EventDeps_empty,
          ThreadCreateLabel (Event 0 2) Release (symm_info 2) EventDeps_empty],
         [symm_start 1 (-1), symm_read 4 1 (Event 0 0), symm_write 4 1 []],
         [symm_start 2 1, symm_read 8 2 (Event 0 0)]],
      timestamp = 0, coherence = [(4096, [Event 1 2])], recoveryTID = -1\<rparr>"

text \<open>Two symmetric threads that have just started, with their prefix views.\<close>

definition symm_cached :: ExecutionGraph where
  "symm_cached =
     \<lparr>events =
        [[InitLabel\<lparr>prefixView := Some (VC_View [])\<rparr>],
         [(symm_start 1 (-1))\<lparr>prefixView := Some (VC_View [1])\<rparr>],
         [(symm_start 2 1)\<lparr>prefixView := Some (VC_View [])\<rparr>]],
      timestamp = 0, coherence = [], recoveryTID = -1\<rparr>"

section \<open>Properties\<close>

text \<open>
  C27. An execution passes the symmetry test at a label exactly if the label does not eco-precede the
  corresponding event of a symmetric thread spawned earlier, and is not eco-preceded by that of a
  thread spawned later, among the threads whose prefixes match and whose event there is of the same
  kind. The threads are all those that links lead to or that lead to this one by links, and
  following them ends.
\<close>

theorem isSymmetryOK_exact:
  assumes "symm_links g" "reads_resolved g" "labels_placed g" "getEventLabel g (position lab) = Some lab"
  shows "isSymmetryOK g lab = Some
     ((\<forall>s. (symm_link g)\<^sup>+\<^sup>+ s (getThread lab) \<longrightarrow> \<not> (prefix_matches g s (position lab) \<and>
         label_is (\<lambda>l. kind l = kind lab) g (Event s (getIndex lab)) \<and>
         eco_before g lab (Event s (getIndex lab)))) \<and>
      (\<forall>s. (symm_link g)\<^sup>+\<^sup>+ (getThread lab) s \<longrightarrow> \<not> (prefix_matches g s (position lab) \<and>
         label_is (\<lambda>l. kind l = kind lab \<and> eco_before g l (position lab)) g (Event s (getIndex lab)))))"
proof -
  have t: "0 \<le> getThread lab" "getThread lab < int (getNumThreads g)"
    using assms(4) by (auto simp: getEventLabel_Some_iff containsPos_def getThread_def)
  obtain ps where ps: "symm_preds g (getThread lab) = Some ps" "set ps = {s. (symm_link g)\<^sup>+\<^sup>+ s (getThread lab)}"
    using symm_preds_reach [OF assms(1) t] by (elim exE conjE)
  obtain ss where ss: "symm_succs g (getThread lab) = Some ss" "set ss = {s. (symm_link g)\<^sup>+\<^sup>+ (getThread lab) s}"
    using symm_succs_reach [OF assms(1) t] by (elim exE conjE)
  have "\<forall>s\<in>set ps. 0 \<le> s" "\<forall>s\<in>set ss. 0 \<le> s" using ps(2) ss(2) symm_closure_range [OF assms(1)] by blast+
  then have "isPredSymmetryOK g lab = Some (list_all (\<lambda>s. \<not> (prefix_matches g s (position lab) \<and>
         label_is (\<lambda>l. kind l = kind lab) g (Event s (getIndex lab)) \<and>
         eco_before g lab (Event s (getIndex lab)))) ps)"
    and "isSuccSymmetryOK g lab = Some (list_all (\<lambda>s. \<not> (prefix_matches g s (position lab) \<and>
         label_is (\<lambda>l. kind l = kind lab \<and> eco_before g l (position lab)) g (Event s (getIndex lab)))) ss)"
    using ps(1) ss(1) isPredSymmetryOK_at_iff [OF assms(2,4)] isSuccSymmetryOK_at_iff [OF assms(2-4)]
    by (auto simp: isPredSymmetryOK_def isSuccSymmetryOK_def intro!: all_opt_total)
  then show ?thesis using ps(2) ss(2) by (simp add: isSymmetryOK_def list_all_iff)
qed

theorem isSymmetryOK_exact_witness:
  "isSymmetryOK (symm_graph 4) (symm_read 4 2 (Event 0 0)) = Some False \<and>
   (symm_link (symm_graph 4))\<^sup>+\<^sup>+ 1 2 \<and> prefix_matches (symm_graph 4) 1 (Event 2 1)"
proof -
  have "\<not> (\<forall>s. (symm_link (symm_graph 4))\<^sup>+\<^sup>+ s 2 \<longrightarrow> \<not> (prefix_matches (symm_graph 4) s (Event 2 1) \<and>
      label_is (\<lambda>l. kind l = EL_FaiRead) (symm_graph 4) (Event s 1) \<and>
      eco_before (symm_graph 4) (symm_read 4 2 (Event 0 0)) (Event s 1)))"
    using symm_graph_violation by (intro notI) (drule spec [of _ 1], simp)
  then show ?thesis
    using isSymmetryOK_exact [of "symm_graph 4" "symm_read 4 2 (Event 0 0)"] symm_graph_links symm_graph_resolved
      symm_graph_placed symm_graph_violation
    by (simp add: symm_label symm_fields)
qed

text \<open>
  C28. The links that getSymmetricTidSR chooses are well formed: each leads to an earlier thread, and no
  two threads choose the same one. So the chains of links that the symmetry test follows are those
  of the threads spawned with the same function and argument.
\<close>

theorem getSymmetricTidSR_links:
  assumes "spawn_ordered g" "links_chosen g"
  shows "symm_links g"
  unfolding symm_links_def
proof (intro conjI allI impI; (elim conjE)?)
  fix t assume t: "0 \<le> t" "t < int (getNumThreads g)"
  then obtain l where l: "getFirstThreadLabel g t = Some l" "ti_id (threadInfo l) = t" "ti_symmId (threadInfo l) = -1"
    using assms(1) unfolding spawn_ordered_def by blast
  then have "getSymmetricTidSR True g (parentCreate l) (threadInfo l) = Some (symmetricTid l)"
    using assms(2) by (auto simp: links_chosen_def)
  then have "symmetricTid l = -1 \<or> 1 \<le> symmetricTid l \<and> symmetricTid l < t"
    using getSymmetricTidSR_chosen [of g "parentCreate l" "threadInfo l" "symmetricTid l"] l by auto
  then show "\<exists>p. getSymmPredTid g t = Some p \<and> (p = -1 \<or> 0 \<le> p \<and> p < t)"
    using l by (auto simp: getSymmPredTid_def)
next
  fix s t u assume "symm_link g s t" "symm_link g s u"
  then show "t = u"
    using links_chosen_once [OF assms, of s t u] links_chosen_once [OF assms, of s u t]
    by (cases t u rule: linorder_cases) auto
qed

theorem getSymmetricTidSR_links_witness:
  "symm_links (symm_graph 4) \<and> getSymmetricTidSR True (symm_graph 4) (Event 0 2) (symm_info 2) = Some 1"
proof -
  have "getSymmetricTidSR True (symm_graph 4) (Event 0 0) ThreadInfo_default = Some (-1)"
      "getSymmetricTidSR True (symm_graph 4) (Event 0 1) (symm_info 1) = Some (-1)"
      and s: "getSymmetricTidSR True (symm_graph 4) (Event 0 2) (symm_info 2) = Some 1"
    by code_simp+
  then have "links_chosen (symm_graph 4)" by (auto simp: links_chosen_def symm_first symm_origin split: if_splits)
  from getSymmetricTidSR_links [OF symm_graph_spawn this] show ?thesis using s by simp
qed

text \<open>
  Of the stores a read may read from, the symmetry filter removes exactly the one that the
  corresponding read of the symmetric thread reads from, if the prefixes of the two threads match
  and that read belongs to an atomic update of the same address.
\<close>

theorem filterSymmetricStoresSR_exact:
  assumes "symm_links g" "reads_resolved g" "getEventLabel g (position rLab) = Some rLab"
  shows "filterSymmetricStoresSR False g rLab stores = Some (filter (\<lambda>s. \<not> (\<exists>t lab.
     symm_link g t (getThread rLab) \<and> prefix_matches g t (position rLab) \<and>
     getEventLabel g (Event t (getIndex rLab)) = Some lab \<and> getAddr lab = getAddr rLab \<and>
     isRMWLoad g lab \<and> getRf lab = Some s)) stores)"
proof -
  have pos: "containsPos g (position rLab)" using assms(3) by (simp add: getEventLabel_Some_iff)
  then obtain t where t: "getSymmPredTid g (getThread rLab) = Some t" "t = -1 \<or> 0 \<le> t"
    using assms(1) unfolding symm_links_def containsPos_def getThread_def by blast
  show ?thesis
  proof (cases "t = -1")
    case True
    then show ?thesis using t(1) by (simp add: filterSymmetricStoresSR_def symm_link_def)
  next
    case False
    then have share: "sharePrefixSR g t (position rLab) = Some (prefix_matches g t (position rLab))"
      using sharePrefixSR_iff [OF pos] t(2) by blast
    have link: "symm_link g s (getThread rLab) \<longleftrightarrow> s = t" for s using t(1) False by (auto simp: symm_link_def)
    show ?thesis
    proof (cases "prefix_matches g t (position rLab)")
      case matches: True
      then obtain lab where lab: "getEventLabel g (Event t (getIndex rLab)) = Some lab"
        by (auto simp: prefix_matches_def getIndex_def getEventLabel_def)
      have "isRead (kind lab) \<and> (\<exists>w. getRf lab = Some w)" if "isRMWLoad g lab"
      proof -
        have "isRead (kind lab)" using that by (auto simp: isRMWLoad_def split: if_splits)
        then show ?thesis using assms(2) lab unfolding reads_resolved_def by blast
      qed
      then show ?thesis
        using t(1) False share matches lab link
        by (cases "isRMWLoad g lab") (auto simp: filterSymmetricStoresSR_def intro!: filter_cong)
    next
      case other: False
      then show ?thesis using t(1) False share link by (simp add: filterSymmetricStoresSR_def)
    qed
  qed
qed

theorem filterSymmetricStoresSR_exact_witness:
  "filterSymmetricStoresSR False (symm_graph 4) (symm_read 4 2 (Event 0 0)) [Event 0 0, Event 2 2] = Some [Event 0 0]"
proof -
  let ?g = "symm_graph 4" and ?r = "symm_read 4 2 (Event 0 0)" and ?s = "symm_read 4 1 (Event 2 2)"
  have "isRMWLoad ?g ?s" by code_simp
  moreover have "getAddr ?s = getAddr ?r" "getRf ?s = Some (Event 2 2)" by code_simp+
  moreover have "symm_link ?g t 2 \<longleftrightarrow> t = 1" for t by (auto simp: symm_link_def symm_pred)
  ultimately show ?thesis
    using filterSymmetricStoresSR_exact [OF symm_graph_links symm_graph_resolved, of 4 ?r "[Event 0 0, Event 2 2]"]
      symm_graph_violation(2) by (simp add: symm_label)
qed

text \<open>
  The filter is meant to apply to reads of the same address and size, but the test of the sizes
  compares a label with itself: here it removes the initial store for an eight-byte update although
  the symmetric thread has updated four bytes only.
\<close>

theorem filterSymmetricStoresSR_ignores_size:
  "filterSymmetricStoresSR False symm_sizes (symm_read 8 2 (Event 0 0)) [Event 0 0, Event 1 2] = Some [Event 1 2] \<and>
   getEventLabel symm_sizes (Event 2 1) = Some (symm_read 8 2 (Event 0 0)) \<and>
   getEventLabel symm_sizes (Event 1 1) = Some (symm_read 4 1 (Event 0 0)) \<and>
   getSize (symm_read 8 2 (Event 0 0)) = 8 \<and> getSize (symm_read 4 1 (Event 0 0)) = 4"
proof -
  have "filterSymmetricStoresSR False symm_sizes (symm_read 8 2 (Event 0 0)) [Event 0 0, Event 1 2] = Some [Event 1 2]"
    by code_simp
  then show ?thesis by (simp add: symm_sizes_def getEventLabel_def containsPos_iff symm_defs getSize_def)
qed

text \<open>
  Taking symmetries into account, the prefix view of a label becomes the join of its own, that of
  the last event of the symmetric thread within the matching prefix and, when this event is a read,
  those of the events it reads from. Nothing else changes.
\<close>

theorem updatePrefixWithSymmetriesSR_join:
  assumes "prefixes_cached g" "containsPos g e" "getSymmPredTid g (thread e) = Some t" "t \<noteq> -1" "t \<noteq> thread e"
    and "calcLargestSymmPrefixBeforeSR g t e = Some i" "getEventLabel g (Event t i) = Some s"
    and "\<forall>p\<in>set (rfs s). containsPos g (fst p) \<and> fst p \<noteq> e"
  shows "\<exists>u. updatePrefixWithSymmetriesSR e g = Some (upd_label e (\<lambda>l. l\<lparr>prefixView := Some (VC_View u)\<rparr>) g) \<and>
     (\<forall>x. pos_event x \<longrightarrow> View_contains u x = (prefix_has g e x \<or> prefix_has g (Event t i) x \<or>
        isRead (kind s) \<and> (\<exists>p\<in>set (rfs s). prefix_has g (fst p) x)))"
proof -
  obtain l where le: "getEventLabel g e = Some l" using assms(2) by (simp add: getEventLabel_def)
  then obtain v where l: "getEventLabel g e = Some l" "prefixView l = Some (VC_View v)" "View_inv v"
    using assms(1) unfolding prefixes_cached_def by blast
  have v: "View_contains v x = prefix_has g e x" for x using l by (simp add: prefix_has_def label_is_def)
  have "l\<lparr>prefixView := Some (VC_View v)\<rparr> = l" by (rule EventLabel.equality) (simp_all add: l(2))
  then have g: "with_prefix e v g = g"
    using le by (simp add: upd_label_def getEventLabel_Some_iff)
  have p: "containsPos g (Event t i)" "Event t i \<noteq> e" using assms(5,7) by (auto simp: getEventLabel_Some_iff)
  obtain u where u: "updateFromPrefix e g (Event t i) = Some (with_prefix e u g)" "View_inv u"
      "\<forall>x. pos_event x \<longrightarrow> View_contains u x = (View_contains v x \<or> prefix_has g (Event t i) x)"
    using updateFromPrefix_join [OF assms(1,2) p l(3)] g by auto
  obtain z where z: "try_fold (updateFromPrefix e) (map fst (rfs s)) (with_prefix e u g) = Some (with_prefix e z g)"
      "\<forall>x. pos_event x \<longrightarrow> View_contains z x = (View_contains u x \<or> (\<exists>p\<in>set (map fst (rfs s)). prefix_has g p x))"
    using updateFromPrefix_join_all [OF assms(1,2) _ u(2), of "map fst (rfs s)"] assms(8) by auto
  show ?thesis
  proof (cases "isRead (kind s)")
    case True
    then show ?thesis using assms(3,4,6,7) u z v
      by (intro exI [of _ z]) (auto simp: updatePrefixWithSymmetriesSR_def)
  next
    case False
    then show ?thesis using assms(3,4,6,7) u v
      by (intro exI [of _ u]) (auto simp: updatePrefixWithSymmetriesSR_def)
  qed
qed

theorem updatePrefixWithSymmetriesSR_join_witness:
  "\<exists>u. updatePrefixWithSymmetriesSR (Event 2 0) symm_cached =
       Some (upd_label (Event 2 0) (\<lambda>l. l\<lparr>prefixView := Some (VC_View u)\<rparr>) symm_cached) \<and> View_contains u (Event 0 1)"
proof -
  have l: "getEventLabel symm_cached e = (if e = Event 0 0 then Some (InitLabel\<lparr>prefixView := Some (VC_View [])\<rparr>)
      else if e = Event 1 0 then Some ((symm_start 1 (-1))\<lparr>prefixView := Some (VC_View [1])\<rparr>)
      else if e = Event 2 0 then Some ((symm_start 2 1)\<lparr>prefixView := Some (VC_View [])\<rparr>) else None)" for e
    by (cases e) (auto simp: symm_cached_def getEventLabel_def containsPos_iff nth_Cons' nat_eq_iff2)
  have "prefixes_cached symm_cached" by (simp add: prefixes_cached_def l View_inv_def)
  moreover have "containsPos symm_cached (Event 2 0)" "getSymmPredTid symm_cached (thread (Event 2 0)) = Some 1"
      "calcLargestSymmPrefixBeforeSR symm_cached 1 (Event 2 0) = Some 0"
    by code_simp+
  moreover have "getEventLabel symm_cached (Event 1 0) = Some ((symm_start 1 (-1))\<lparr>prefixView := Some (VC_View [1])\<rparr>)"
    by (simp add: l)
  moreover have "rfs (symm_start 1 (-1)) = []" by (simp add: symm_defs)
  moreover have "prefix_has symm_cached (Event 1 0) (Event 0 1)"
    by (simp add: prefix_has_def label_is_def l View_contains_def View_getMax_def)
  ultimately show ?thesis
    using updatePrefixWithSymmetriesSR_join [of symm_cached "Event 2 0" 1 0 "(symm_start 1 (-1))\<lparr>prefixView := Some (VC_View [1])\<rparr>"]
    by (auto simp: pos_event_def)
qed

end
