(* ===== verification/Revisits.thy ===== *)
theory Revisits
  imports Labels
begin

text \<open>
  Revisits (src/src/Revisit.hpp), the sets of pending revisits of one event (src/src/WorkSet.hpp) and
  the ordered maps of the driver (std::map) as association lists with strictly growing keys.

  The class hierarchy of revisits is one datatype, with the constructors of the classes that are
  instantiated; the discriminators are the numbers of the enumeration, so that the class tests are
  comparisons as in the source. A null unique_ptr is None.
\<close>

section \<open>Revisits\<close>

datatype RevisitKind =
    RV_FRev | RV_FRevRead | RV_FRevRead_MIXER | RV_FRevReadLast | RV_FRevMO | RV_FRevMO_MIXER
  | RV_FRevMOLast | RV_FRevOpt | RV_FRevRerun | RV_FRevLast | RV_BRev | RV_BRevHelper | RV_BRevMIXER
  | RV_BRevLast

definition RevisitKinds :: "RevisitKind list" where
  "RevisitKinds = [RV_FRev, RV_FRevRead, RV_FRevRead_MIXER, RV_FRevReadLast, RV_FRevMO, RV_FRevMO_MIXER,
     RV_FRevMOLast, RV_FRevOpt, RV_FRevRerun, RV_FRevLast, RV_BRev, RV_BRevHelper, RV_BRevMIXER, RV_BRevLast]"

definition kindNumber :: "RevisitKind \<Rightarrow> nat" where
  "kindNumber k = length (takeWhile (\<lambda>k'. k' \<noteq> k) RevisitKinds)"

type_synonym RfsT = "(Event \<times> AAccess) list"

datatype Revisit =
    ReadForwardRevisit Event Event bool
  | ReadForwardRevisitMIXER Event RfsT
  | WriteForwardRevisit Event Event
  | WriteRevisitMIXER Event Event "Event list"
  | OptionalForwardRevisit Event
  | RerunForwardRevisit
  | BackwardRevisit Event Event VectorClock
  | BackwardRevisitHELPER Event Event VectorClock Event
  | BackwardRevisitMIXER Event Event VectorClock RfsT

fun Revisit_getKind :: "Revisit \<Rightarrow> RevisitKind" where
  "Revisit_getKind (ReadForwardRevisit p r m) = RV_FRevRead"
| "Revisit_getKind (ReadForwardRevisitMIXER p rs) = RV_FRevRead_MIXER"
| "Revisit_getKind (WriteForwardRevisit p s) = RV_FRevMO"
| "Revisit_getKind (WriteRevisitMIXER p s q) = RV_FRevMO_MIXER"
| "Revisit_getKind (OptionalForwardRevisit p) = RV_FRevOpt"
| "Revisit_getKind RerunForwardRevisit = RV_FRevRerun"
| "Revisit_getKind (BackwardRevisit p r v) = RV_BRev"
| "Revisit_getKind (BackwardRevisitHELPER p r v m) = RV_BRevHelper"
| "Revisit_getKind (BackwardRevisitMIXER p r v rs) = RV_BRevMIXER"

fun Revisit_getPos :: "Revisit \<Rightarrow> Event" where
  "Revisit_getPos (ReadForwardRevisit p r m) = p"
| "Revisit_getPos (ReadForwardRevisitMIXER p rs) = p"
| "Revisit_getPos (WriteForwardRevisit p s) = p"
| "Revisit_getPos (WriteRevisitMIXER p s q) = p"
| "Revisit_getPos (OptionalForwardRevisit p) = p"
| "Revisit_getPos RerunForwardRevisit = getInit"
| "Revisit_getPos (BackwardRevisit p r v) = p"
| "Revisit_getPos (BackwardRevisitHELPER p r v m) = p"
| "Revisit_getPos (BackwardRevisitMIXER p r v rs) = p"

text \<open>The store of a read revisit; the constructor for several stores leaves a default event.\<close>

fun Revisit_getRev :: "Revisit \<Rightarrow> Event option" where
  "Revisit_getRev (ReadForwardRevisit p r m) = Some r"
| "Revisit_getRev (ReadForwardRevisitMIXER p rs) = Some Event_default"
| "Revisit_getRev (BackwardRevisit p r v) = Some r"
| "Revisit_getRev (BackwardRevisitHELPER p r v m) = Some r"
| "Revisit_getRev (BackwardRevisitMIXER p r v rs) = Some r"
| "Revisit_getRev _ = None"

fun Revisit_getRfs :: "Revisit \<Rightarrow> RfsT option" where
  "Revisit_getRfs (ReadForwardRevisitMIXER p rs) = Some rs"
| "Revisit_getRfs (BackwardRevisitMIXER p r v rs) = Some rs"
| "Revisit_getRfs _ = None"

fun Revisit_isMaximal :: "Revisit \<Rightarrow> bool option" where
  "Revisit_isMaximal (ReadForwardRevisit p r m) = Some m"
| "Revisit_isMaximal (ReadForwardRevisitMIXER p rs) = Some False"
| "Revisit_isMaximal _ = None"

fun Revisit_getSucc :: "Revisit \<Rightarrow> Event option" where
  "Revisit_getSucc (WriteForwardRevisit p s) = Some s"
| "Revisit_getSucc (WriteRevisitMIXER p s q) = Some s"
| "Revisit_getSucc _ = None"

fun Revisit_getSeq :: "Revisit \<Rightarrow> Event list option" where
  "Revisit_getSeq (WriteRevisitMIXER p s q) = Some q"
| "Revisit_getSeq _ = None"

fun Revisit_getView :: "Revisit \<Rightarrow> VectorClock option" where
  "Revisit_getView (BackwardRevisit p r v) = Some v"
| "Revisit_getView (BackwardRevisitHELPER p r v m) = Some v"
| "Revisit_getView (BackwardRevisitMIXER p r v rs) = Some v"
| "Revisit_getView _ = None"

fun Revisit_getMid :: "Revisit \<Rightarrow> Event option" where
  "Revisit_getMid (BackwardRevisitHELPER p r v m) = Some m"
| "Revisit_getMid _ = None"

section \<open>Class tests and casts\<close>

definition kind_between :: "RevisitKind \<Rightarrow> RevisitKind \<Rightarrow> Revisit \<Rightarrow> bool" where
  "kind_between lo hi r =
     (kindNumber lo \<le> kindNumber (Revisit_getKind r) \<and> kindNumber (Revisit_getKind r) \<le> kindNumber hi)"

definition ReadRevisit_classof :: "Revisit \<Rightarrow> bool" where
  "ReadRevisit_classof r = (kind_between RV_FRevRead RV_FRevReadLast r \<or> kind_between RV_BRev RV_BRevLast r)"

definition ForwardRevisit_classof :: "Revisit \<Rightarrow> bool" where
  "ForwardRevisit_classof r = kind_between RV_FRev RV_FRevLast r"

definition ReadForwardRevisit_classof :: "Revisit \<Rightarrow> bool" where
  "ReadForwardRevisit_classof r = kind_between RV_FRevRead RV_FRevReadLast r"

definition ReadForwardRevisitMIXER_classof :: "Revisit \<Rightarrow> bool" where
  "ReadForwardRevisitMIXER_classof r = (Revisit_getKind r = RV_FRevRead_MIXER)"

definition WriteForwardRevisit_classof :: "Revisit \<Rightarrow> bool" where
  "WriteForwardRevisit_classof r = kind_between RV_FRevMO RV_FRevMOLast r"

definition WriteRevisitMIXER_classof :: "Revisit \<Rightarrow> bool" where
  "WriteRevisitMIXER_classof r = (Revisit_getKind r = RV_FRevMO_MIXER)"

definition OptionalForwardRevisit_classof :: "Revisit \<Rightarrow> bool" where
  "OptionalForwardRevisit_classof r = (Revisit_getKind r = RV_FRevOpt)"

definition RerunForwardRevisit_classof :: "Revisit \<Rightarrow> bool" where
  "RerunForwardRevisit_classof r = (Revisit_getKind r = RV_FRevRerun)"

definition BackwardRevisit_classof :: "Revisit \<Rightarrow> bool" where
  "BackwardRevisit_classof r = kind_between RV_BRev RV_BRevLast r"

definition BackwardRevisitHELPER_classof :: "Revisit \<Rightarrow> bool" where
  "BackwardRevisitHELPER_classof r = (Revisit_getKind r = RV_BRevHelper)"

definition BackwardRevisitMIXER_classof :: "Revisit \<Rightarrow> bool" where
  "BackwardRevisitMIXER_classof r = (Revisit_getKind r = RV_BRevMIXER)"

text \<open>The two casts of the hierarchy switch over the kind and abort in the default case.\<close>

definition castToReadRevisit :: "Revisit \<Rightarrow> Revisit option" where
  "castToReadRevisit r =
     (case Revisit_getKind r of RV_FRevRead \<Rightarrow> Some r | RV_BRev \<Rightarrow> Some r | RV_BRevHelper \<Rightarrow> Some r
      | RV_BRevMIXER \<Rightarrow> Some r | _ \<Rightarrow> None)"

definition castFromReadRevisit :: "Revisit \<Rightarrow> Revisit option" where
  "castFromReadRevisit r =
     (case Revisit_getKind r of RV_FRevRead \<Rightarrow> Some r | RV_BRev \<Rightarrow> Some r | RV_BRevHelper \<Rightarrow> Some r
      | RV_BRevMIXER \<Rightarrow> Some r | _ \<Rightarrow> None)"

text \<open>dyn_cast<ReadRevisit>: null when the class test fails, the cast otherwise.\<close>

definition dyn_cast_ReadRevisit :: "Revisit \<Rightarrow> Revisit option option" where
  "dyn_cast_ReadRevisit r =
     (if ReadRevisit_classof r then do { x \<leftarrow> castToReadRevisit r; Some (Some x) } else Some None)"

section \<open>Work sets\<close>

type_synonym WorkSet = "Revisit list"

definition WorkSet_empty :: "WorkSet \<Rightarrow> bool" where "WorkSet_empty w = (w = [])"

definition WorkSet_add :: "Revisit \<Rightarrow> WorkSet \<Rightarrow> WorkSet" where "WorkSet_add r w = w @ [r]"

definition WorkSet_getNext :: "WorkSet \<Rightarrow> (Revisit \<times> WorkSet) option" where
  "WorkSet_getNext w = (if w = [] then None else Some (last w, butlast w))"

section \<open>Ordered maps\<close>

type_synonym ('k, 'v) omap = "('k \<times> 'v) list"

abbreviation omap_inv :: "('k::linorder, 'v) omap \<Rightarrow> bool" where
  "omap_inv m \<equiv> ssorted (map fst m)"

text \<open>\<open>m[k]\<close> with a change of the value, which is created on first use.\<close>

fun omap_upd :: "'k::linorder \<Rightarrow> ('v \<Rightarrow> 'v) \<Rightarrow> 'v \<Rightarrow> ('k, 'v) omap \<Rightarrow> ('k, 'v) omap" where
  "omap_upd k f d [] = [(k, f d)]"
| "omap_upd k f d ((k', v) # m) =
     (if k < k' then (k, f d) # (k', v) # m
      else if k = k' then (k, f v) # m else (k', v) # omap_upd k f d m)"

definition omap_erase :: "'k \<Rightarrow> ('k, 'v) omap \<Rightarrow> ('k, 'v) omap" where
  "omap_erase k m = filter (\<lambda>p. fst p \<noteq> k) m"

lemma omap_upd_keys: "fst ` set (omap_upd k f d m) = insert k (fst ` set m)"
  by (induction k f d m rule: omap_upd.induct) auto

lemma omap_upd_inv [intro]: "omap_inv m \<Longrightarrow> omap_inv (omap_upd k f d m)"
proof (induction k f d m rule: omap_upd.induct)
  case (2 k f d k' v m)
  have "fst ` set (omap_upd k f d m) = insert k (fst ` set m)" by (rule omap_upd_keys)
  then show ?case using 2 by (auto simp: not_less less_le)
qed simp

lemma omap_upd_lookup:
  "omap_inv m \<Longrightarrow> map_of (omap_upd k f d m) l =
     (if l = k then Some (f (case map_of m k of None \<Rightarrow> d | Some v \<Rightarrow> v)) else map_of m l)"
proof (induction k f d m rule: omap_upd.induct)
  case (2 k f d k' v m)
  have "map_of m k = None" if "k < k'"
    using 2(2) that by (fastforce simp: map_of_eq_None_iff)
  then show ?case using 2 by auto
qed auto

lemma omap_erase_inv [intro]: "omap_inv m \<Longrightarrow> omap_inv (omap_erase k m)"
  by (auto simp: omap_erase_def sorted_wrt_map intro: sorted_wrt_filter)

lemma omap_filter_inv [intro]: "omap_inv m \<Longrightarrow> omap_inv (filter P m)"
  by (auto simp: sorted_wrt_map intro: sorted_wrt_filter)

section \<open>Casts and the discriminator\<close>

lemma kindNumber_simps [simp]:
  "kindNumber RV_FRev = 0" "kindNumber RV_FRevRead = 1" "kindNumber RV_FRevRead_MIXER = 2"
  "kindNumber RV_FRevReadLast = 3" "kindNumber RV_FRevMO = 4" "kindNumber RV_FRevMO_MIXER = 5"
  "kindNumber RV_FRevMOLast = 6" "kindNumber RV_FRevOpt = 7" "kindNumber RV_FRevRerun = 8"
  "kindNumber RV_FRevLast = 9" "kindNumber RV_BRev = 10" "kindNumber RV_BRevHelper = 11"
  "kindNumber RV_BRevMIXER = 12" "kindNumber RV_BRevLast = 13"
  by (simp_all add: kindNumber_def RevisitKinds_def)

lemmas revisit_classes = ReadRevisit_classof_def ForwardRevisit_classof_def ReadForwardRevisit_classof_def
  ReadForwardRevisitMIXER_classof_def WriteForwardRevisit_classof_def WriteRevisitMIXER_classof_def
  OptionalForwardRevisit_classof_def RerunForwardRevisit_classof_def BackwardRevisit_classof_def
  BackwardRevisitHELPER_classof_def BackwardRevisitMIXER_classof_def kind_between_def

text \<open>Every revisit is a forward or a backward one, and never both.\<close>

lemma forward_or_backward: "ForwardRevisit_classof r \<longleftrightarrow> \<not> BackwardRevisit_classof r"
  by (cases r) (simp_all add: revisit_classes)

lemma getRev_iff: "Revisit_getRev r \<noteq> None \<longleftrightarrow> ReadRevisit_classof r"
  by (cases r) (simp_all add: revisit_classes)

lemma getView_iff: "Revisit_getView r \<noteq> None \<longleftrightarrow> BackwardRevisit_classof r"
  by (cases r) (simp_all add: revisit_classes)

text \<open>
  The casts go wrong for exactly one class of read revisits: those of a read by several stores.
\<close>

lemma dyn_cast_ReadRevisit_iff:
  "dyn_cast_ReadRevisit r = None \<longleftrightarrow> ReadForwardRevisitMIXER_classof r"
  by (cases r) (simp_all add: dyn_cast_ReadRevisit_def castToReadRevisit_def revisit_classes)

end
