(* ===== verification/Executions.thy ===== *)
theory Executions
  imports Revisits GraphCut
begin

text \<open>
  The executions the driver works on (GenMCDriver::Execution in src/src/GenMCDriver.hpp and the first
  part of src/src/GenMCDriver.cpp): a graph, the choices made for it and the queue of pending
  revisits; restricting an execution to a stamp and repairing the reads that lost their store; the
  stack of executions, the work list, the verification result and fresh addresses.

  The file descriptors of the driver are a BitVector of LLVM and not modelled.
\<close>

unbundle bit_operations_syntax

section \<open>State\<close>

type_synonym LocalQueueT = "(Stamp, WorkSet) omap"
type_synonym ChoiceMap = "(Stamp, Event VSet) omap"

record Execution =
  ex_graph :: ExecutionGraph
  ex_choices :: ChoiceMap
  ex_workqueue :: LocalQueueT

section \<open>Restricting an execution\<close>

text \<open>
  The last store to the location, in coherence order, becomes the store of the read. The const
  lookup of the stores aborts when the location is not tracked.
\<close>

definition last_store :: "ExecutionGraph \<Rightarrow> AAccess \<Rightarrow> Event" where
  "last_store g a = (if co_range g a = [] then getInit else last (co_range g a))"

definition repairRead :: "Event \<Rightarrow> ExecutionGraph \<Rightarrow> ExecutionGraph option" where
  "repairRead r g =
     do { lab \<leftarrow> getEventLabel g r;
          _ \<leftarrow> getStoresToLoc_const g (getAddr lab);
          let w = last_store g (access lab) in
          do { g \<leftarrow> changeRf r w g;
               wLab \<leftarrow> getEventLabel g w; ws \<leftarrow> getStamp wLab; rs \<leftarrow> getStamp lab;
               Some (upd_label r (\<lambda>l. setIPRStatus (ws > rs) (setAddedMax True l)) g) } }"

definition dangling :: "EventLabel \<Rightarrow> bool" where
  "dangling lab = (isRead (kind lab) \<and> \<not> hasRf lab)"

fun repair_loop :: "nat list \<Rightarrow> ExecutionGraph \<Rightarrow> ExecutionGraph option" where
  "repair_loop [] g = Some g"
| "repair_loop (i # is) g =
     do { lab \<leftarrow> getLastThreadLabel g (int i);
          g \<leftarrow> (if dangling lab then repairRead (position lab) g else Some g);
          repair_loop is g }"

definition repairDanglingReads :: "ExecutionGraph \<Rightarrow> ExecutionGraph option" where
  "repairDanglingReads g = repair_loop [0..<getNumThreads g] g"

definition restrictGraph :: "Stamp \<Rightarrow> ExecutionGraph \<Rightarrow> ExecutionGraph option" where
  "restrictGraph s g = do { g \<leftarrow> cutToStamp s g; repairDanglingReads (compressStampsAfter s g) }"

text \<open>The keys to remove are collected first, from the largest, and erased one by one.\<close>

definition restrictWorklist :: "Stamp \<Rightarrow> LocalQueueT \<Rightarrow> LocalQueueT" where
  "restrictWorklist s q =
     fold omap_erase [fst p. p \<leftarrow> rev q, fst p > s \<and> WorkSet_empty (snd p)] q"

definition restrictChoices :: "Stamp \<Rightarrow> ChoiceMap \<Rightarrow> ChoiceMap" where
  "restrictChoices s m = filter (\<lambda>p. \<not> fst p > s) m"

definition Execution_restrict :: "Stamp \<Rightarrow> Execution \<Rightarrow> Execution option" where
  "Execution_restrict s e =
     do { g \<leftarrow> restrictGraph s (ex_graph e);
          Some (e\<lparr>ex_graph := g, ex_workqueue := restrictWorklist s (ex_workqueue e),
                  ex_choices := restrictChoices s (ex_choices e)\<rparr>) }"

section \<open>The stack of executions and the work list\<close>

definition pushExecution :: "Execution \<Rightarrow> Execution list \<Rightarrow> Execution list" where
  "pushExecution e st = st @ [e]"

definition popExecution :: "Execution list \<Rightarrow> bool \<times> Execution list" where
  "popExecution st = (if st = [] then (False, st) else (butlast st \<noteq> [], butlast st))"

definition getExecution :: "Execution list \<Rightarrow> Execution option" where
  "getExecution st = (if st = [] then None else Some (last st))"

definition addToWorklist :: "Stamp \<Rightarrow> Revisit \<Rightarrow> LocalQueueT \<Rightarrow> LocalQueueT" where
  "addToWorklist s item q = omap_upd s (WorkSet_add item) [] q"

text \<open>The search from the largest stamp; the parts are the map read backwards.\<close>

fun next_item_loop :: "LocalQueueT \<Rightarrow> (Stamp \<times> Revisit option) \<times> LocalQueueT" where
  "next_item_loop [] = ((0, None), [])"
| "next_item_loop ((s, w) # q) =
     (if WorkSet_empty w then (let (r, q') = next_item_loop q in (r, (s, w) # q'))
      else (case WorkSet_getNext w of None \<Rightarrow> ((0, None), (s, w) # q)
            | Some (it, w') \<Rightarrow> ((s, Some it), (s, w') # q)))"

definition getNextItem :: "LocalQueueT \<Rightarrow> (Stamp \<times> Revisit option) \<times> LocalQueueT" where
  "getNextItem q = (let (r, q') = next_item_loop (rev q) in (r, rev q'))"

section \<open>Fresh addresses\<close>

text \<open>An alignment that is no power of two, static storage and the end marker of the enumeration abort.\<close>

definition getFreshAddr :: "SAddrAllocator \<Rightarrow> EventLabel \<Rightarrow> (SAddr \<times> SAddrAllocator) option" where
  "getFreshAddr al lab =
     (let mi = mallocInfo lab; alignment = mi_alignment mi;
          dur = (mi_stype mi = ST_Durable); internal = (mi_spc mi = AS_Internal) in
      do { BUG_ON (alignment \<le> 0 \<or> alignment AND (alignment - 1) \<noteq> 0);
           case mi_sdur mi of
             SD_Automatic \<Rightarrow> allocAutomatic al (allocSize mi) alignment dur internal
           | SD_Heap \<Rightarrow> allocHeap al (allocSize mi) alignment dur internal
           | _ \<Rightarrow> None })"

section \<open>What well-formedness depends on\<close>

text \<open>
  Stamps, the flags of accesses and the cached views do not matter for the links between labels.
\<close>

definition links :: "EventLabel \<Rightarrow> EventLabel" where
  "links l = l\<lparr>stamp := None, maximal := False, ipr := False, revisitable := False, prefixView := None,
     calculatedRels := [], calculatedViews := []\<rparr>"

definition same_links :: "ExecutionGraph \<Rightarrow> ExecutionGraph \<Rightarrow> bool" where
  "same_links g g' = (length (events g) = length (events g') \<and> coherence g = coherence g' \<and>
     (\<forall>e. map_option links (getEventLabel g e) = map_option links (getEventLabel g' e)))"

lemma links_eqD:
  assumes "links l = links (m :: EventLabel)"
  shows "kind l = kind m" "position l = position m" "access l = access m" "rfs l = rfs m"
    "readerList l = readerList m" "initRfs l = initRfs m" "allocLab l = allocLab m"
    "parentJoin l = parentJoin m" "aLab l = aLab m" "freeLab l = freeLab m" "accessList l = accessList m"
    "getAddr l = getAddr m" "label_ptrs l = label_ptrs m" "hasRf l = hasRf m" "dangling l = dangling m"
proof -
  have "kind (links l) = kind (links m)" "position (links l) = position (links m)"
    "access (links l) = access (links m)" "rfs (links l) = rfs (links m)"
    "readerList (links l) = readerList (links m)" "initRfs (links l) = initRfs (links m)"
    "allocLab (links l) = allocLab (links m)" "parentJoin (links l) = parentJoin (links m)"
    "aLab (links l) = aLab (links m)" "freeLab (links l) = freeLab (links m)"
    "accessList (links l) = accessList (links m)"
    using assms by simp_all
  then show "kind l = kind m" "position l = position m" "access l = access m" "rfs l = rfs m"
    "readerList l = readerList m" "initRfs l = initRfs m" "allocLab l = allocLab m"
    "parentJoin l = parentJoin m" "aLab l = aLab m" "freeLab l = freeLab m" "accessList l = accessList m"
    "getAddr l = getAddr m" "label_ptrs l = label_ptrs m" "hasRf l = hasRf m" "dangling l = dangling m"
    by (simp_all add: links_def getAddr_def label_ptrs_def hasRf_def dangling_def)
qed

lemma links_fields:
  "links l = links (m :: EventLabel) \<Longrightarrow> kind l = kind m \<and> position l = position m \<and> access l = access m \<and> rfs l = rfs m \<and>
     readerList l = readerList m \<and> initRfs l = initRfs m \<and> getAddr l = getAddr m \<and> label_ptrs l = label_ptrs m \<and>
     hasRf l = hasRf m \<and> dangling l = dangling m"
  by (intro conjI) (rule links_eqD, assumption)+

lemma same_links_trans: "same_links g h \<Longrightarrow> same_links h k \<Longrightarrow> same_links g k"
  by (simp add: same_links_def)

lemma same_links_containsPos: "same_links g g' \<Longrightarrow> containsPos g' e = containsPos g e"
  unfolding same_links_def getEventLabel_def by (metis option.map_disc_iff option.distinct(1))

lemma same_links_label_is:
  assumes "same_links g g'" "\<And>l m. links l = links m \<Longrightarrow> P l = P m"
  shows "label_is P g' e = label_is P g e"
proof -
  have c: "map_option links (getEventLabel g e) = map_option links (getEventLabel g' e)"
    using assms(1) by (simp add: same_links_def)
  show ?thesis
  proof (cases "getEventLabel g e")
    case (Some l)
    with c obtain m where m: "getEventLabel g' e = Some m" and "links l = links m"
      by (cases "getEventLabel g' e") auto
    then show ?thesis using assms(2) [of l m] by (simp add: label_is_def Some)
  qed (use c in \<open>simp add: label_is_def\<close>)
qed

lemma same_links_rels:
  assumes "same_links g g'"
  shows "reads_from g' r w = reads_from g r w" "listed_reader g' w r = listed_reader g w r"
    "init_listed g' a r = init_listed g a r" "getEventLabel g' e = None \<longleftrightarrow> getEventLabel g e = None"
    "label_access g' e = label_access g e" "co_range g' x = co_range g x"
proof -
  show "init_listed g' a r = init_listed g a r" for a
    unfolding init_listed_def by (rule same_links_label_is [OF assms]) (drule links_fields, simp)
  then show "listed_reader g' w r = listed_reader g w r"
    unfolding listed_reader_def
    by (subst same_links_label_is [OF assms]) (drule links_fields, simp_all)
  show "reads_from g' r w = reads_from g r w"
    unfolding reads_from_def by (rule same_links_label_is [OF assms]) (drule links_fields, simp)
  show "getEventLabel g' e = None \<longleftrightarrow> getEventLabel g e = None" for e
    using assms unfolding same_links_def by (metis option.map_disc_iff)
  have "label_access g' e = label_access g e" for e
    using assms unfolding same_links_def label_access_def
    by (cases "getEventLabel g e"; cases "getEventLabel g' e") (auto dest!: spec [of _ e] links_eqD(3))
  then show "label_access g' e = label_access g e" "co_range g' x = co_range g x"
    using assms by (simp_all add: co_range_def overlap_filter_def getStoresToLoc_def same_links_def)
qed

lemma ptrs_in_iff: "ptrs_in g \<longleftrightarrow> (\<forall>e. label_is (\<lambda>l. \<forall>p\<in>label_ptrs l. containsPos g p) g e \<or> getEventLabel g e = None)"
  by (auto simp: ptrs_in_def label_is_def split: option.splits dest: spec)

lemma graph_wf_links:
  assumes "same_links g g'" "stamps_po g'" "graph_wf g"
  shows "graph_wf g'"
proof -
  note li = same_links_label_is [OF assms(1)] and rel = same_links_rels [OF assms(1)]
  have fld: "label_is (\<lambda>l. position l = e) g' e = label_is (\<lambda>l. position l = e) g e"
    "label_is (\<lambda>l. kind l = EL_Init) g' e = label_is (\<lambda>l. kind l = EL_Init) g e"
    "label_is (\<lambda>l. SAddr_align (getAddr l) = a) g' e = label_is (\<lambda>l. SAddr_align (getAddr l) = a) g e"
    "label_is (\<lambda>l. isRead (kind l) \<longrightarrow> length (rfs l) \<le> 1) g' e = label_is (\<lambda>l. isRead (kind l) \<longrightarrow> length (rfs l) \<le> 1) g e"
    "label_is (\<lambda>l. isThreadStart (kind l)) g' e = label_is (\<lambda>l. isThreadStart (kind l)) g e"
    "label_is (\<lambda>ini. map fst (initRfs ini) = x) g' e = label_is (\<lambda>ini. map fst (initRfs ini) = x) g e"
    "label_is (\<lambda>l. isWrite (kind l) \<and> getBucket (getAddr l) = a) g' e =
       label_is (\<lambda>l. isWrite (kind l) \<and> getBucket (getAddr l) = a) g e"
    "label_is (\<lambda>l. \<forall>p\<in>label_ptrs l. Q p) g' e = label_is (\<lambda>l. \<forall>p\<in>label_ptrs l. Q p) g e" for e a x Q
    by (rule li, drule links_fields, simp)+
  have "rf_inv g'" "single_rf g'" "starts_first g'" "locs_tracked g'" "co_wf g'" "ptrs_in g'"
    unfolding rf_inv_def single_rf_def starts_first_iff locs_tracked_def co_wf_def ptrs_in_iff fld rel
      same_links_containsPos [OF assms(1)]
    using assms(1,3)
    by (simp_all add: graph_wf_def rf_inv_def single_rf_def starts_first_iff locs_tracked_def co_wf_def ptrs_in_iff same_links_def)
  then show ?thesis using assms(2) by (simp add: graph_wf_def)
qed

section \<open>Changing rf edges keeps graphs well formed\<close>

lemma label_is_containsPos: "label_is P g e \<Longrightarrow> containsPos g e"
  by (auto simp: label_is_def getEventLabel_def split: if_splits)

lemma rf_inv_reads_in:
  assumes "rf_inv g" "reads_from g r w"
  shows "containsPos g r \<and> containsPos g w"
proof -
  have "listed_reader g w r" "label_is (\<lambda>l. kind l = EL_Init) g getInit" using assms by (simp_all add: rf_inv_def)
  then have "containsPos g w" by (auto simp: listed_reader_def dest: label_is_containsPos)
  then show ?thesis using assms(2) by (auto simp: reads_from_def dest: label_is_containsPos)
qed

lemma core_ptrs:
  assumes "core l = core (m :: EventLabel)"
  shows "label_ptrs m \<subseteq> label_ptrs l \<union> (if isWrite (kind m) then set (readerList m) else {}) \<union>
      (if isRead (kind m) then fst ` set (rfs m) else {})"
proof -
  have "allocLab (core l) = allocLab (core m)" "parentJoin (core l) = parentJoin (core m)"
    "aLab (core l) = aLab (core m)" "freeLab (core l) = freeLab (core m)"
    "accessList (core l) = accessList (core m)"
    using assms by simp_all
  then have "allocLab l = allocLab m" "parentJoin l = parentJoin m" "aLab l = aLab m" "freeLab l = freeLab m"
    "accessList l = accessList m"
    by (simp_all add: core_def)
  then show ?thesis unfolding label_ptrs_def core_eqD(1) [OF assms] by (simp only:) blast
qed

lemma same_core_containsPos: "same_core g g' \<Longrightarrow> containsPos g' e = containsPos g e"
  using same_core_None [of g g' e] by (auto simp: getEventLabel_def split: if_splits)

lemma same_core_stamps: "same_core g g' \<Longrightarrow> map_option stamp (getEventLabel g' e) = map_option stamp (getEventLabel g e)"
  by (cases "getEventLabel g e"; cases "getEventLabel g' e")
    (auto simp: same_core_def dest!: spec [of _ e] core_eqD(4))

lemma stamps_po_cong:
  assumes "\<And>e. map_option stamp (getEventLabel g' e) = map_option stamp (getEventLabel g e)"
  shows "stamps_po g' = stamps_po g"
proof -
  have "stamps_po h \<longleftrightarrow> (\<forall>e s. map_option stamp (getEventLabel h e) = Some s \<longrightarrow> s \<noteq> None) \<and>
     (\<forall>t i j s u. map_option stamp (getEventLabel h (Event (int t) (int i))) = Some s \<longrightarrow>
        map_option stamp (getEventLabel h (Event (int t) (int j))) = Some u \<longrightarrow> i < j \<longrightarrow> the s < the u)" for h
    unfolding stamps_po_iff hasStamp_def map_option_eq_Some by blast
  from this [of g'] this [of g] show ?thesis by (simp only: assms)
qed

lemma graph_wf_core:
  assumes "same_core g g'" "length (events g') = length (events g)" "rf_inv g'" "single_rf g'" "graph_wf g"
    and "label_is (\<lambda>ini. map fst (initRfs ini) = map fst (coherence g)) g' getInit"
  shows "graph_wf g'"
proof -
  have g: "stamps_po g" "starts_first g" "locs_tracked g" "co_wf g" "ptrs_in g" "rf_inv g"
    using assms(5) by (simp_all add: graph_wf_def)
  have co: "coherence g' = coherence g" using assms(1) by (simp add: same_core_def)
  have "stamps_po g'" using g(1) stamps_po_cong [of g' g] same_core_stamps [OF assms(1)] by simp
  moreover have "starts_first g'"
    using g(2) same_core_fields(1) [OF assms(1), of isThreadStart] unfolding starts_first_iff assms(2) by simp
  moreover have "locs_tracked g'"
    using g(3) assms(6) by (simp add: locs_tracked_def co)
  moreover have "co_wf g'"
  proof -
    have "label_is (\<lambda>l. isWrite (kind l) \<and> getBucket (getAddr l) = a) g' e =
       label_is (\<lambda>l. isWrite (kind l) \<and> getBucket (getAddr l) = a) g e" for a e
      by (rule same_core_label_is [OF assms(1), symmetric]) (auto dest: core_eqD)
    then show ?thesis using g(4) by (simp add: co_wf_def co)
  qed
  moreover have "ptrs_in g'"
    unfolding ptrs_in_def
  proof (intro allI impI ballI)
    fix e m p assume m: "getEventLabel g' e = Some m" and p: "p \<in> label_ptrs m"
    obtain l where l: "getEventLabel g e = Some l" "core l = core m"
      using assms(1) m by (cases "getEventLabel g e") (auto simp: same_core_def dest!: spec [of _ e])
    consider "p \<in> label_ptrs l" | "isWrite (kind m)" "p \<in> set (readerList m)" | "isRead (kind m)" "p \<in> fst ` set (rfs m)"
      using core_ptrs [OF l(2)] p by (auto split: if_splits)
    then show "containsPos g' p"
    proof cases
      case 1
      then show ?thesis using g(5) l(1) same_core_containsPos [OF assms(1)] by (auto simp: ptrs_in_def)
    next
      case 2
      then have "listed_reader g' e p" using m by (simp add: listed_reader_def label_is_def)
      then show ?thesis using rf_inv_reads_in [OF assms(3), of p e] assms(3) by (simp add: rf_inv_def)
    next
      case 3
      then have "reads_from g' e p" using m by (simp add: reads_from_def label_is_def)
      then show ?thesis using rf_inv_reads_in [OF assms(3)] by blast
    qed
  qed
  ultimately show ?thesis using assms(3,4) by (simp add: graph_wf_def)
qed

text \<open>What changeRf does to the lists of rf edges and to the locations tracked by INIT.\<close>

lemma upd_label_map:
  "(\<And>l. f (h l) = f l) \<Longrightarrow> map_option f (getEventLabel (upd_label e h g) x) = map_option f (getEventLabel g x)"
  by (simp add: graph_simps option.map_comp comp_def)

lemma bucket_upd_keys: "k \<in> fst ` set m \<Longrightarrow> map fst (bucket_upd k f m) = map fst m"
  by (induction k f m rule: bucket_upd.induct) auto

definition init_keys :: "ExecutionGraph \<Rightarrow> SAddr list option" where
  "init_keys g = map_option (\<lambda>l. map fst (initRfs l)) (getEventLabel g getInit)"

lemma init_keys_upd:
  "(\<And>l. getEventLabel g getInit = Some l \<Longrightarrow> e = getInit \<Longrightarrow> map fst (initRfs (h l)) = map fst (initRfs l)) \<Longrightarrow>
     init_keys (upd_label e h g) = init_keys g"
  by (cases "getEventLabel g getInit") (auto simp: init_keys_def graph_simps)

definition init_tracks :: "ExecutionGraph \<Rightarrow> SAddr \<Rightarrow> bool" where
  "init_tracks g a = (case init_keys g of None \<Rightarrow> False | Some ks \<Rightarrow> a \<in> set ks)"

lemma init_tracksD: "init_tracks g a \<Longrightarrow> getEventLabel g getInit = Some l \<Longrightarrow> a \<in> fst ` set (initRfs l)"
  by (simp add: init_tracks_def init_keys_def)

lemma detach_effect:
  assumes "init_tracks g (SAddr_align (getAddr rl))"
  shows "init_keys (detach_reader rl w g) = init_keys g \<and>
     map_option rfs (getEventLabel (detach_reader rl w g) x) = map_option rfs (getEventLabel g x) \<and>
     length (events (detach_reader rl w g)) = length (events g)"
proof -
  have "init_keys (removeInitRfToLoc rl g) = init_keys g"
    unfolding removeInitRfToLoc_def getInit_def [symmetric]
    by (rule init_keys_upd) (simp add: init_removeReader_def bucket_upd_keys init_tracksD [OF assms])
  moreover have "init_keys (upd_label w (removeReader P) g) = init_keys g" for P
    by (rule init_keys_upd) (simp add: removeReader_def)
  moreover have "map_option rfs (getEventLabel (upd_label w (removeReader P) g) x) = map_option rfs (getEventLabel g x)"
    "map_option rfs (getEventLabel (upd_label w (init_removeReader a P) g) x) = map_option rfs (getEventLabel g x)" for w P a
    by (rule upd_label_map, simp add: removeReader_def init_removeReader_def)+
  ultimately show ?thesis
    by (simp add: detach_reader_def removeInitRfToLoc_def split: option.split)
qed

lemma attach_effect:
  assumes "init_tracks g (SAddr_align (getAddr rl))" "attach_reader rl w g = Some g'"
  shows "init_keys g' = init_keys g \<and> map_option rfs (getEventLabel g' x) = map_option rfs (getEventLabel g x) \<and>
     length (events g') = length (events g)"
proof -
  obtain wl where wl: "getEventLabel g w = Some wl" using assms(2) by (auto simp: attach_reader_def split: bind_splits)
  show ?thesis
  proof (cases "isWrite (kind wl)")
    case True
    then have "g' = upd_label w (\<lambda>_. wl\<lparr>readerList := readerList wl @ [position rl]\<rparr>) g"
      using assms(2) wl by (auto simp: attach_reader_def addReader_def split: bind_splits if_splits)
    then show ?thesis using wl by (auto simp: graph_simps init_keys_def)
  next
    case False
    then have w: "w = getInit" using assms(2) wl by (auto simp: attach_reader_def isInitializer_def split: if_splits)
    let ?wl = "wl\<lparr>initRfs := bucket_upd (SAddr_align (getAddr rl)) (\<lambda>rs. rs @ [position rl]) (initRfs wl)\<rparr>"
    have "g' = upd_label getInit (\<lambda>_. ?wl) g"
      using assms(2) wl False w
      by (auto simp: attach_reader_def addInitRfToLoc_def getInitLabel_def getInit_def [symmetric] init_addReader_def
          getAddr_def split: bind_splits if_splits)
    moreover have "map fst (initRfs ?wl) = map fst (initRfs wl)"
      using wl w by (simp add: bucket_upd_keys init_tracksD [OF assms(1)])
    ultimately show ?thesis using wl w by (simp add: graph_simps init_keys_def)
  qed
qed

text \<open>The locations of all accesses are tracked.\<close>

definition accesses_tracked :: "ExecutionGraph \<Rightarrow> bool" where
  "accesses_tracked g = (\<forall>e l. getEventLabel g e = Some l \<longrightarrow> isMemAccess (kind l) \<longrightarrow>
     getBucket (getAddr l) \<in> fst ` set (coherence g))"

lemma wf_label:
  assumes "graph_wf g" "getEventLabel g e = Some l"
  shows "position l = e" "hasStamp l" "isRead (kind l) \<Longrightarrow> length (rfs l) \<le> 1"
  using assms rf_inv_position [of g e l]
  by (auto simp: graph_wf_def stamps_po_iff single_rf_def label_is_def dest!: spec [of _ e])

lemma wf_init_keys: "graph_wf g \<Longrightarrow> init_keys g = Some (map fst (coherence g))"
  by (auto simp: graph_wf_def locs_tracked_def label_is_def init_keys_def split: option.splits)

lemma changeRf_effect:
  assumes wf: "graph_wf g" and tr: "init_tracks g (SAddr_align (getAddr rl))"
    and r: "getEventLabel g r = Some rl" "isRead (kind rl)"
    and s: "label_is (\<lambda>l. isWrite (kind l)) g s \<or> s = getInit \<or> s = getBottom"
    and g': "changeRf r s g = Some g'"
  shows "init_keys g' = init_keys g \<and> length (events g') = length (events g) \<and>
     map_option rfs (getEventLabel g' x) =
       (if x = r then Some (rfs (setRf (if s = getBottom then None else Some s) rl)) else map_option rfs (getEventLabel g x))"
proof -
  have inv: "rf_inv g" using wf by (simp add: graph_wf_def)
  define rf where "rf = (if s = getBottom then None else Some s)"
  let ?g1 = "upd_label (position rl) (setRf rf) g"
  have rp: "position rl = r" by (rule wf_label [OF wf r(1)])
  have k1: "init_keys ?g1 = init_keys g" by (rule init_keys_upd) (simp add: setRf_def)
  have t1: "init_tracks ?g1 (SAddr_align (getAddr rl))" using tr k1 by (simp add: init_tracks_def)
  have x1: "map_option rfs (getEventLabel ?g1 x) = (if x = r then Some (rfs (setRf rf rl)) else map_option rfs (getEventLabel g x))"
    using r(1) rp by (simp add: graph_simps)
  define g2 where "g2 = detached rf rl g"
  have d: "init_keys g2 = init_keys g \<and> map_option rfs (getEventLabel g2 x) = map_option rfs (getEventLabel ?g1 x) \<and>
      length (events g2) = length (events g)"
    using detach_effect [OF t1] k1 by (simp add: g2_def detached_def Let_def split: option.split)
  then have t2: "init_tracks g2 (SAddr_align (getAddr rl))" using tr by (simp add: init_tracks_def)
  have "g' = g2 \<or> attach_reader rl s g2 = Some g'"
    using g' changeRf_detached [OF inv r s] by (auto simp: g2_def rf_def Let_def split: if_splits)
  then show ?thesis using attach_effect [OF t2, of s g' x] d x1 by (auto simp: rf_def [symmetric])
qed

lemma isRead_isMemAccess: "isRead k \<Longrightarrow> isMemAccess k"
  by (simp add: kind_defs)

lemma changeRf_wf:
  assumes wf: "graph_wf g" and tr: "accesses_tracked g"
    and r: "getEventLabel g r = Some rl" "isRead (kind rl)"
    and s: "label_is (\<lambda>l. isWrite (kind l)) g s \<or> s = getInit \<or> s = getBottom"
  shows "\<exists>g'. changeRf r s g = Some g' \<and> graph_wf g' \<and> same_core g g' \<and> length (events g') = length (events g) \<and>
     (\<forall>x w. reads_from g' x w \<longleftrightarrow> (if x = r then w = s \<and> s \<noteq> getBottom else reads_from g x w))"
proof -
  have inv: "rf_inv g" and single: "single_rf g" using wf by (simp_all add: graph_wf_def)
  obtain g' where g': "changeRf r s g = Some g'" "rf_inv g'" "same_core g g'"
    and rf: "\<forall>x w. reads_from g' x w \<longleftrightarrow> (if x = r then w = s \<and> s \<noteq> getBottom else reads_from g x w)"
    using changeRf_correct [OF inv r wf_label(3) [OF wf r] s] by blast
  have "init_tracks g (SAddr_align (getAddr rl))"
    using tr r isRead_isMemAccess [OF r(2)] wf_init_keys [OF wf]
    by (auto simp: init_tracks_def accesses_tracked_def getBucket_def)
  note eff = changeRf_effect [OF wf this r s g'(1)]
  have "label_is (\<lambda>l. isRead (kind l) \<longrightarrow> length (rfs l) \<le> 1) g' e \<or> getEventLabel g' e = None" for e
  proof (cases "getEventLabel g' e")
    case (Some m)
    then obtain l where l: "getEventLabel g e = Some l" "core l = core m"
      using g'(3) by (cases "getEventLabel g e") (auto simp: same_core_def dest!: spec [of _ e])
    have "length (rfs m) \<le> 1" if "isRead (kind m)"
    proof (cases "e = r")
      case True
      then show ?thesis using eff [of e] Some by (simp add: setRf_def split: option.split)
    next
      case False
      then show ?thesis
        using eff [of e] Some l that wf_label(3) [OF wf l(1)] core_eqD(1) [OF l(2)] by simp
    qed
    then show ?thesis using Some by (simp add: label_is_def)
  qed simp
  then have "single_rf g'" by (simp add: single_rf_def)
  moreover have "label_is (\<lambda>ini. map fst (initRfs ini) = map fst (coherence g)) g' getInit"
    using eff [of r] wf_init_keys [OF wf] by (auto simp: init_keys_def label_is_def)
  ultimately have "graph_wf g'" using graph_wf_core [OF g'(3) _ g'(2) _ wf] eff [of r] by blast
  then show ?thesis using g' rf eff [of r] by blast
qed

section \<open>Repairing reads\<close>

text \<open>Operations that keep the labels in place, up to their links.\<close>

definition shape :: "EventLabel \<Rightarrow> EventLabelKind \<times> Event \<times> AAccess \<times> Stamp option" where
  "shape l = (kind l, position l, access l, stamp l)"

definition kept_shape :: "ExecutionGraph \<Rightarrow> ExecutionGraph \<Rightarrow> bool" where
  "kept_shape g g' = (length (events g') = length (events g) \<and> coherence g' = coherence g \<and>
     (\<forall>e. map_option shape (getEventLabel g' e) = map_option shape (getEventLabel g e)))"

lemma kept_shape_refl [simp]: "kept_shape g g"
  by (simp add: kept_shape_def)

lemma kept_shape_trans: "kept_shape g h \<Longrightarrow> kept_shape h k \<Longrightarrow> kept_shape g k"
  by (simp add: kept_shape_def)

lemma kept_shape_label:
  assumes "kept_shape g g'" "getEventLabel g' e = Some l'"
  obtains l where "getEventLabel g e = Some l" "kind l' = kind l" "position l' = position l"
    "access l' = access l" "stamp l' = stamp l"
  using assms by (cases "getEventLabel g e") (auto simp: kept_shape_def shape_def dest!: spec [of _ e])

lemma kept_shape_containsPos:
  assumes "kept_shape g g'"
  shows "containsPos g' e = containsPos g e"
proof -
  have "map_option shape (getEventLabel g' e) = map_option shape (getEventLabel g e)"
    using assms by (simp add: kept_shape_def)
  then have "getEventLabel g' e = None \<longleftrightarrow> getEventLabel g e = None" by (metis option.map_disc_iff)
  then show ?thesis by (auto simp: getEventLabel_def split: if_splits)
qed

lemma kept_shape_size:
  assumes "kept_shape g g'"
  shows "getThreadSize g' t = getThreadSize g t"
proof -
  have "n < getThreadSize g' t \<longleftrightarrow> n < getThreadSize g t" for n
    using kept_shape_containsPos [OF assms, of "Event t (int n)"] assms
    by (cases "0 \<le> t \<and> nat t < length (events g)") (auto simp: containsPos_iff getThreadSize_def kept_shape_def)
  then show ?thesis by (metis linorder_neqE_nat less_irrefl)
qed

lemma kept_shape_access: "kept_shape g g' \<Longrightarrow> label_access g' e = label_access g e"
  by (cases "getEventLabel g e"; cases "getEventLabel g' e")
    (auto simp: label_access_def kept_shape_def shape_def dest!: spec [of _ e])

lemma kept_shape_co: "kept_shape g g' \<Longrightarrow> co_range g' a = co_range g a"
  using kept_shape_access [of g g']
  by (simp add: co_range_def overlap_filter_def getStoresToLoc_def) (simp add: kept_shape_def)

lemma kept_shape_last_store: "kept_shape g g' \<Longrightarrow> last_store g' a = last_store g a"
  by (simp add: last_store_def kept_shape_co)

lemma kept_shape_last: "kept_shape g g' \<Longrightarrow> getLastThreadEvent g' t = getLastThreadEvent g t"
  by (simp add: getLastThreadEvent_def kept_shape_size)

lemma kept_shape_kind: "kept_shape g g' \<Longrightarrow> label_is (\<lambda>l. P (kind l)) g' e = label_is (\<lambda>l. P (kind l)) g e"
  by (cases "getEventLabel g e"; cases "getEventLabel g' e")
    (auto simp: label_is_def kept_shape_def shape_def dest!: spec [of _ e])

lemma kept_shape_tracked: "kept_shape g g' \<Longrightarrow> accesses_tracked g \<Longrightarrow> accesses_tracked g'"
  unfolding accesses_tracked_def
proof (intro allI impI)
  fix e l assume s: "kept_shape g g'" and l: "getEventLabel g' e = Some l" "isMemAccess (kind l)"
    and tr: "\<forall>e l. getEventLabel g e = Some l \<longrightarrow> isMemAccess (kind l) \<longrightarrow> getBucket (getAddr l) \<in> fst ` set (coherence g)"
  obtain m where m: "getEventLabel g e = Some m" "kind l = kind m" "access l = access m"
    using kept_shape_label [OF s l(1)] by blast
  have "getBucket (getAddr m) \<in> fst ` set (coherence g)" using tr m l(2) by simp
  then show "getBucket (getAddr l) \<in> fst ` set (coherence g')"
    using m s by (simp add: getAddr_def kept_shape_def)
qed

lemma same_core_shape: "same_core g g' \<Longrightarrow> length (events g') = length (events g) \<Longrightarrow> kept_shape g g'"
  unfolding kept_shape_def
proof (intro conjI allI)
  assume c: "same_core g g'"
  then show "coherence g' = coherence g" by (simp add: same_core_def)
  show "map_option shape (getEventLabel g' e) = map_option shape (getEventLabel g e)" for e
  proof -
    have eq: "map_option core (getEventLabel g e) = map_option core (getEventLabel g' e)"
      using c by (simp add: same_core_def)
    show ?thesis
    proof (cases "getEventLabel g e")
      case (Some l)
      then obtain m where m: "getEventLabel g' e = Some m" "core l = core m"
        using eq by (cases "getEventLabel g' e") simp_all
      show ?thesis using core_eqD [OF m(2)] by (simp add: Some m(1) shape_def)
    qed (use eq in simp)
  qed
qed

lemma last_store_write:
  assumes "co_wf g"
  shows "label_is (\<lambda>l. isWrite (kind l)) g (last_store g a) \<or> last_store g a = getInit"
proof (cases "co_range g a = []")
  case False
  then have "last_store g a \<in> set (co_range g a)" by (simp add: last_store_def)
  then have "last_store g a \<in> set (bucket (coherence g) (getBucket (acc_addr a)))"
    by (auto simp: co_range_def overlap_filter_def getStoresToLoc_def)
  then obtain ws where "(getBucket (acc_addr a), ws) \<in> set (coherence g)" "last_store g a \<in> set ws"
    by (cases "map_of (coherence g) (getBucket (acc_addr a))") (auto simp: bucket_def dest: map_of_SomeD)
  then show ?thesis using assms by (fastforce simp: co_wf_def label_is_def split: option.splits)
qed (simp add: last_store_def)

lemma repairRead_correct:
  assumes wf: "graph_wf g" and tr: "accesses_tracked g" and r: "getEventLabel g r = Some rl" "isRead (kind rl)"
  shows "\<exists>g'. repairRead r g = Some g' \<and> graph_wf g' \<and> kept_shape g g' \<and>
     (\<forall>x w. reads_from g' x w \<longleftrightarrow> (if x = r then w = last_store g (access rl) else reads_from g x w))"
proof -
  let ?w = "last_store g (access rl)"
  have w: "label_is (\<lambda>l. isWrite (kind l)) g ?w \<or> ?w = getInit"
    using wf by (intro last_store_write) (simp add: graph_wf_def)
  have wb: "?w \<noteq> getBottom" using w by (auto simp: getBottom_def getInit_def label_is_def getEventLabel_def containsPos_iff split: if_splits)
  obtain g1 where g1: "changeRf r ?w g = Some g1" "graph_wf g1" "same_core g g1" "length (events g1) = length (events g)"
    and rf: "\<forall>x w. reads_from g1 x w \<longleftrightarrow> (if x = r then w = ?w \<and> ?w \<noteq> getBottom else reads_from g x w)"
    using changeRf_wf [OF wf tr r, of ?w] w by blast
  have "containsPos g1 ?w"
    using rf_inv_reads_in [of g1 r ?w] g1(2) rf wb by (simp add: graph_wf_def)
  then obtain wl where wl: "getEventLabel g1 ?w = Some wl" by (simp add: getEventLabel_def)
  obtain ws rs where st: "getStamp wl = Some ws" "getStamp rl = Some rs"
    using wf_label(2) [OF g1(2) wl] wf_label(2) [OF wf r(1)] by (auto simp: hasStamp_def getStamp_def)
  obtain ss where "getStoresToLoc_const g (getAddr rl) = Some ss"
    using tr r isRead_isMemAccess [OF r(2)]
    by (fastforce simp: accesses_tracked_def getStoresToLoc_const_def map_of_eq_None_iff not_None_eq [symmetric] simp del: not_None_eq)
  define g2 where "g2 = upd_label r (\<lambda>l. setIPRStatus (ws > rs) (setAddedMax True l)) g1"
  have ok: "repairRead r g = Some g2"
    using r(1) g1(1) wl st \<open>getStoresToLoc_const g (getAddr rl) = Some ss\<close> by (simp add: repairRead_def g2_def)
  have upd: "map_option f (getEventLabel g2 e) = map_option f (getEventLabel g1 e)"
    if "\<And>l. f (setIPRStatus (ws > rs) (setAddedMax True l)) = f l" for f :: "EventLabel \<Rightarrow> 'x" and e
    unfolding g2_def by (rule upd_label_map) (rule that)
  have sl: "same_links g1 g2"
    using upd [of links] by (simp add: same_links_def g2_def links_def setIPRStatus_def setAddedMax_def)
  have "map_option stamp (getEventLabel g2 e) = map_option stamp (getEventLabel g1 e)" for e
    by (rule upd) (simp add: setIPRStatus_def setAddedMax_def)
  then have "stamps_po g2" using stamps_po_cong [of g2 g1] g1(2) by (simp add: graph_wf_def)
  then have "graph_wf g2" using graph_wf_links [OF sl _ g1(2)] by blast
  moreover have "kept_shape g1 g2"
    using upd [of shape] by (simp add: kept_shape_def g2_def shape_def setIPRStatus_def setAddedMax_def)
  then have "kept_shape g g2" using same_core_shape [OF g1(3,4)] kept_shape_trans by blast
  ultimately show ?thesis using ok rf wb by (auto simp: same_links_rels(1) [OF sl])
qed

lemma dangling_iff:
  "label_is dangling g e \<longleftrightarrow> label_is (\<lambda>l. isRead (kind l)) g e \<and> (\<forall>w. \<not> reads_from g e w)"
  by (cases "getEventLabel g e") (auto simp: label_is_def dangling_def hasRf_def reads_from_def)

definition dangling_last :: "ExecutionGraph \<Rightarrow> nat set \<Rightarrow> Event \<Rightarrow> bool" where
  "dangling_last g I e = (label_is dangling g e \<and> (\<exists>i\<in>I. e = getLastThreadEvent g (int i)))"

lemma getLastThreadLabel_wf:
  assumes "graph_wf g" "i < length (events g)"
  obtains lab where "getLastThreadLabel g (int i) = Some lab" "position lab = getLastThreadEvent g (int i)"
    "getEventLabel g (position lab) = Some lab"
proof -
  have "events g ! i \<noteq> []" using assms by (auto simp: graph_wf_def starts_first_def)
  then have "containsPos g (getLastThreadEvent g (int i))"
    using assms(2) by (cases "events g ! i") (simp_all add: getLastThreadEvent_def containsPos_iff getThreadSize_def)
  then obtain lab where lab: "getEventLabel g (getLastThreadEvent g (int i)) = Some lab" by (simp add: getEventLabel_def)
  have p: "position lab = getLastThreadEvent g (int i)" by (rule wf_label(1) [OF assms(1) lab])
  show ?thesis by (rule that [of lab]) (simp_all add: getLastThreadLabel_def p lab)
qed

lemma repair_loop_correct:
  assumes "graph_wf g" "accesses_tracked g" "\<forall>i\<in>set is. i < length (events g)"
  shows "\<exists>g'. repair_loop is g = Some g' \<and> graph_wf g' \<and> kept_shape g g' \<and>
     (\<forall>x w. reads_from g' x w \<longleftrightarrow> reads_from g x w \<or> dangling_last g (set is) x \<and> w = last_store g (label_access g x))"
  using assms
proof (induction "is" arbitrary: g)
  case (Cons i "is")
  let ?e = "getLastThreadEvent g (int i)"
  obtain lab where lab: "getLastThreadLabel g (int i) = Some lab" "position lab = ?e" "getEventLabel g ?e = Some lab"
    using getLastThreadLabel_wf [OF Cons.prems(1)] Cons.prems(3) by (metis list.set_intros(1))
  have "\<exists>g1. (if dangling lab then repairRead (position lab) g else Some g) = Some g1 \<and> graph_wf g1 \<and> kept_shape g g1 \<and>
      (\<forall>x w. reads_from g1 x w \<longleftrightarrow> reads_from g x w \<or> dangling lab \<and> x = ?e \<and> w = last_store g (access lab))"
  proof (cases "dangling lab")
    case True
    then have "isRead (kind lab)" "\<not> reads_from g ?e w" for w
      using lab(3) by (auto simp: dangling_def hasRf_def reads_from_def label_is_def)
    then show ?thesis using repairRead_correct [OF Cons.prems(1,2) lab(3)] True lab(2) by auto
  qed (use Cons.prems in auto)
  then obtain g1 where g1: "(if dangling lab then repairRead (position lab) g else Some g) = Some g1"
      "graph_wf g1" "kept_shape g g1"
    and rf1: "\<And>x w. reads_from g1 x w \<longleftrightarrow> reads_from g x w \<or> dangling lab \<and> x = ?e \<and> w = last_store g (access lab)"
    by blast
  obtain g2 where g2: "repair_loop is g1 = Some g2" "graph_wf g2" "kept_shape g1 g2"
    and rf2: "\<And>x w. reads_from g2 x w \<longleftrightarrow> reads_from g1 x w \<or>
      dangling_last g1 (set is) x \<and> w = last_store g1 (label_access g1 x)"
    using Cons.IH [OF g1(2) kept_shape_tracked [OF g1(3) Cons.prems(2)]] Cons.prems(3) g1(3)
    by (auto simp: kept_shape_def)
  have d: "dangling_last g1 (set is) x \<longleftrightarrow> dangling_last g (set is) x \<and> \<not> (dangling lab \<and> x = ?e)" for x
    unfolding dangling_last_def dangling_iff kept_shape_kind [OF g1(3)] kept_shape_last [OF g1(3)] rf1 by blast
  have "dangling_last g (set (i # is)) x \<longleftrightarrow> dangling_last g (set is) x \<or> dangling lab \<and> x = ?e" for x
    using lab(3) by (auto simp: dangling_last_def label_is_def)
  moreover have "label_access g ?e = access lab" using lab(3) by (simp add: label_access_def)
  ultimately have "reads_from g2 x w \<longleftrightarrow> reads_from g x w \<or>
      dangling_last g (set (i # is)) x \<and> w = last_store g (label_access g x)" for x w
    unfolding rf2 rf1 d kept_shape_last_store [OF g1(3)] kept_shape_access [OF g1(3)] by auto
  then show ?case using lab(1) g1 g2 kept_shape_trans [OF g1(3) g2(3)] by auto
qed (simp add: dangling_last_def)

section \<open>Restricting graphs\<close>

lemma cut_tracked:
  assumes "is_cut (\<lambda>a. a \<in> set (kept_buckets g v)) v g g'" "starts_first g" "accesses_tracked g"
  shows "accesses_tracked g'"
  unfolding accesses_tracked_def
proof (intro allI impI)
  fix e l assume "getEventLabel g' e = Some l" "isMemAccess (kind l)"
  then obtain m where m: "getEventLabel g e = Some m" "View_contains v e" "isMemAccess (kind m)" "getAddr l = getAddr m"
    using assms(1) by (auto simp: is_cut_def split: if_splits)
  have "getBucket (getAddr m) \<in> set (kept_buckets g v)" by (rule kept_buckets_iff [OF assms(2) m(1,3,2)])
  moreover have "getBucket (getAddr m) \<in> fst ` set (coherence g)"
    using assms(3) m by (simp add: accesses_tracked_def)
  moreover have "map fst (coherence g') = filter (\<lambda>a. a \<in> set (kept_buckets g v)) (map fst (coherence g))"
    using assms(1) by (simp add: is_cut_def)
  then have "fst ` set (coherence g') = {a \<in> fst ` set (coherence g). a \<in> set (kept_buckets g v)}"
    by (metis list.set_map set_filter)
  ultimately show "getBucket (getAddr l) \<in> fst ` set (coherence g')" using m(4) by simp
qed

lemma labels_mono:
  assumes "\<And>e. containsPos g' e \<Longrightarrow> containsPos g e" "length (events g') = length (events g)"
  shows "length (graph_labels g') \<le> length (graph_labels g)"
proof -
  have "length (events g' ! t) \<le> length (events g ! t)" if "t < length (events g)" for t
  proof (rule ccontr)
    assume "\<not> ?thesis"
    then have "containsPos g' (Event (int t) (int (length (events g ! t))))" using that assms(2) by (simp add: containsPos_iff)
    from assms(1) [OF this] show False by (simp add: containsPos_iff)
  qed
  moreover have "length (graph_labels h) = (\<Sum>t = 0..<length (events h). length (events h ! t))" for h
    by (simp add: graph_labels_def length_concat sum_list_sum_nth)
  ultimately show ?thesis by (simp add: assms(2)) (rule sum_mono, simp)
qed

lemma compress_links: "same_links g (compressStampsAfter s g)"
  unfolding same_links_def
proof (intro conjI allI)
  let ?g = "compressStampsAfter s g"
  show "coherence g = coherence ?g"
    by (simp add: compressStampsAfter_def Let_def resetStamp_def split_def)
  have "map length (events ?g) = map length (events g)"
    by (simp add: compressStampsAfter_def Let_def resetStamp_def split_def compress_threads_shape)
  then show "length (events g) = length (events ?g)" by (metis length_map)
  show "map_option links (getEventLabel g e) = map_option links (getEventLabel ?g e)" for e
  proof (cases "0 \<le> thread e \<and> 0 \<le> index e")
    case True
    then have e: "e = Event (int (nat (thread e))) (int (nat (index e)))" by (simp add: Event_eq_iff)
    have "links (renumbered s n ls l) = links l" for n ls l by (simp add: renumbered_def links_def)
    then show ?thesis
      by (subst (1 2) e) (simp only: compressStampsAfter_label option.map_comp comp_def)
  qed (auto simp: getEventLabel_def containsPos_iff)
qed

lemma accesses_tracked_links: "same_links g g' \<Longrightarrow> accesses_tracked g \<Longrightarrow> accesses_tracked g'"
  unfolding accesses_tracked_def
proof (intro allI impI)
  fix e l assume s: "same_links g g'" and l: "getEventLabel g' e = Some l" "isMemAccess (kind l)"
    and tr: "\<forall>e l. getEventLabel g e = Some l \<longrightarrow> isMemAccess (kind l) \<longrightarrow> getBucket (getAddr l) \<in> fst ` set (coherence g)"
  obtain m where m: "getEventLabel g e = Some m" "links m = links l"
    using s l(1) by (cases "getEventLabel g e") (auto simp: same_links_def dest!: spec [of _ e])
  have "getBucket (getAddr m) \<in> fst ` set (coherence g)" using tr m(1) l(2) links_eqD(1) [OF m(2)] by simp
  then show "getBucket (getAddr l) \<in> fst ` set (coherence g')"
    using s links_eqD(12) [OF m(2)] by (simp add: same_links_def)
qed

lemma restrictGraph_steps:
  assumes wf: "graph_wf g" and tr: "accesses_tracked g" and st: "unat s + 1 + length (graph_labels g) < 2 ^ 32"
  shows "\<exists>g1 g'. restrictGraph s g = Some g' \<and> graph_wf g' \<and> accesses_tracked g' \<and>
     (\<forall>e. containsPos g1 e \<longleftrightarrow> containsPos g e \<and> (index e = 0 \<or> label_is (\<lambda>l. \<exists>u. stamp l = Some u \<and> u \<le> s) g e)) \<and>
     (\<forall>r w. reads_from g1 r w \<longleftrightarrow> reads_from g r w \<and> containsPos g1 r \<and> containsPos g1 w) \<and>
     (\<forall>e. containsPos g1 e \<longrightarrow> label_access g1 e = label_access g e) \<and> kept_shape g1 g' \<and>
     (\<forall>x w. reads_from g' x w \<longleftrightarrow> reads_from g1 x w \<or>
        dangling_last g1 {0..<length (events g1)} x \<and> w = last_store g1 (label_access g1 x))"
proof -
  have g: "rf_inv g" "single_rf g" "stamps_po g" "starts_first g" using wf by (simp_all add: graph_wf_def)
  obtain g0 where g0: "cutToStamp s g = Some g0"
    and cut: "is_cut (\<lambda>a. a \<in> set (kept_buckets g (getViewFromStamp g s))) (getViewFromStamp g s) g g0"
    using cutToStamp_is_cut [OF wf refl refl] by blast
  have wf0: "graph_wf g0" using is_cut_wf [OF cut wf _ refl] by (simp add: getViewFromStamp_inv)
  have tr0: "accesses_tracked g0" by (rule cut_tracked [OF cut g(4) tr])
  note c0 = cut_stamp_containsPos [OF cut g(3)]
  have rf0: "reads_from g0 r w \<longleftrightarrow> reads_from g r w \<and> containsPos g0 r \<and> containsPos g0 w" for r w
    using is_cut_reads_from [OF cut g(2)] is_cut_containsPos [OF cut] rf_inv_reads_in [OF g(1)] by blast
  have ac0: "label_access g0 e = label_access g e" if "containsPos g0 e" for e
    using cut that by (auto simp: is_cut_def label_access_def getEventLabel_def split: if_splits option.splits dest!: spec [of _ e])
  define g1 where "g1 = compressStampsAfter s g0"
  have sl: "same_links g0 g1" unfolding g1_def by (rule compress_links)
  have "length (graph_labels g0) \<le> length (graph_labels g)"
    by (rule labels_mono) (use c0 cut in \<open>auto simp: is_cut_def\<close>)
  then have "stamps_po g1" using compress_stamps_po [of g0 s] wf0 st by (simp add: g1_def graph_wf_def)
  then have wf1: "graph_wf g1" by (rule graph_wf_links [OF sl _ wf0])
  have tr1: "accesses_tracked g1" by (rule accesses_tracked_links [OF sl tr0])
  obtain g' where g': "repair_loop [0..<length (events g1)] g1 = Some g'" "graph_wf g'" "kept_shape g1 g'"
    and rf: "\<forall>x w. reads_from g' x w \<longleftrightarrow> reads_from g1 x w \<or>
        dangling_last g1 (set [0..<length (events g1)]) x \<and> w = last_store g1 (label_access g1 x)"
    using repair_loop_correct [OF wf1 tr1, of "[0..<length (events g1)]"] by auto
  have "restrictGraph s g = Some g'"
    using g0 g'(1) by (simp add: restrictGraph_def repairDanglingReads_def getNumThreads_def g1_def)
  moreover have "accesses_tracked g'" by (rule kept_shape_tracked [OF g'(3) tr1])
  moreover note c0 rf0 ac0
  ultimately show ?thesis
    using g'(2,3) rf unfolding same_links_containsPos [OF sl, symmetric] same_links_rels(1,5) [OF sl, symmetric]
    by (intro exI [of _ g1] exI [of _ g']) simp
qed

section \<open>Properties\<close>



section \<open>The work list as a stack\<close>

text \<open>
  The pending revisits in the order of their stamps, and of insertion for one stamp. The work list is
  a stack of them: the next one is the last, and a new one goes behind those up to its stamp.
\<close>

definition pending :: "LocalQueueT \<Rightarrow> (Stamp \<times> Revisit) list" where
  "pending q = concat (map (\<lambda>(s, w). map (Pair s) w) q)"

definition push_at :: "Stamp \<Rightarrow> 'a \<Rightarrow> (Stamp \<times> 'a) list \<Rightarrow> (Stamp \<times> 'a) list" where
  "push_at s x xs = takeWhile (\<lambda>p. fst p \<le> s) xs @ (s, x) # dropWhile (\<lambda>p. fst p \<le> s) xs"

lemma pending_simps [simp]:
  "pending [] = []" "pending ((s, w) # q) = map (Pair s) w @ pending q" "pending (q @ q') = pending q @ pending q'"
  by (simp_all add: pending_def)

lemma pending_stamps: "p \<in> set (pending q) \<Longrightarrow> fst p \<in> fst ` set q"
  by (force simp: pending_def)

lemma push_at_front: "\<forall>p\<in>set xs. s < fst p \<Longrightarrow> push_at s x xs = (s, x) # xs"
  by (cases xs) (auto simp: push_at_def)

lemma push_at_behind: "\<forall>p\<in>set ys. fst p \<le> s \<Longrightarrow> push_at s x (ys @ xs) = ys @ push_at s x xs"
  by (simp add: push_at_def takeWhile_append2 dropWhile_append2)

lemma pending_add: "omap_inv q \<Longrightarrow> pending (addToWorklist s it q) = push_at s it (pending q)"
  unfolding addToWorklist_def
proof (induction q)
  case (Cons p q)
  obtain s' w where p: "p = (s', w)" by (cases p)
  have later: "\<forall>x\<in>set (pending q). s' < fst x"
  proof
    fix x assume "x \<in> set (pending q)"
    from pending_stamps [OF this] show "s' < fst x" using Cons.prems by (auto simp: p)
  qed
  consider "s < s'" | "s = s'" | "s' < s" by (metis neqE)
  then show ?case
  proof cases
    case 1
    then show ?thesis using later by (subst push_at_front) (auto simp: p WorkSet_add_def)
  next
    case 2
    then show ?thesis
      using later push_at_behind [of "map (Pair s') w" s it "pending q"] push_at_front [of "pending q" s it]
      by (simp add: p WorkSet_add_def)
  next
    case 3
    then have "push_at s it (map (Pair s') w @ pending q) = map (Pair s') w @ push_at s it (pending q)"
      by (intro push_at_behind) auto
    then show ?thesis using Cons 3 by (auto simp: p)
  qed
qed (simp add: push_at_def WorkSet_add_def)

lemma next_item_loop_correct:
  "(case next_item_loop q of ((s, r), q') \<Rightarrow>
      (case r of None \<Rightarrow> q' = q \<and> (\<forall>p\<in>set q. snd p = [])
       | Some it \<Rightarrow> \<exists>a w b. q = a @ (s, w @ [it]) # b \<and> q' = a @ (s, w) # b \<and> (\<forall>p\<in>set a. snd p = [])))"
proof (induction q rule: next_item_loop.induct)
  case (2 s w q)
  show ?case
  proof (cases "w = []")
    case True
    obtain u r q' where n: "next_item_loop q = ((u, r), q')" by (metis surj_pair)
    have ih: "case r of None \<Rightarrow> q' = q \<and> (\<forall>p\<in>set q. snd p = [])
       | Some it \<Rightarrow> \<exists>a w b. q = a @ (u, w @ [it]) # b \<and> q' = a @ (u, w) # b \<and> (\<forall>p\<in>set a. snd p = [])"
      using 2 True n by (simp add: WorkSet_empty_def)
    show ?thesis
    proof (cases r)
      case (Some it)
      with ih obtain a w' b
        where "q = a @ (u, w' @ [it]) # b" "q' = a @ (u, w') # b" "\<forall>p\<in>set a. snd p = []" by auto
      then have "(s, w) # q = ((s, []) # a) @ (u, w' @ [it]) # b" "(s, w) # q' = ((s, []) # a) @ (u, w') # b"
        "\<forall>p\<in>set ((s, []) # a). snd p = []"
        using True by simp_all
      moreover have "next_item_loop ((s, w) # q) = ((u, Some it), (s, w) # q')"
        using True n Some by (simp add: WorkSet_empty_def)
      ultimately show ?thesis by (simp only: prod.case option.case) blast
    qed (use True n ih in \<open>simp add: WorkSet_empty_def\<close>)
  next
    case False
    then have "w = butlast w @ [last w]" by simp
    then have "(s, w) # q = [] @ (s, butlast w @ [last w]) # q" by simp
    moreover have "next_item_loop ((s, w) # q) = ((s, Some (last w)), [] @ (s, butlast w) # q)"
      using False by (simp add: WorkSet_empty_def WorkSet_getNext_def)
    ultimately show ?thesis 
      by (simp only: prod.case option.case) (rule exI [of _ "[]"], rule exI [of _ "butlast w"], rule exI [of _ q], simp)
  qed
qed simp

lemma erase_keys: "fold omap_erase ks q = filter (\<lambda>p. fst p \<notin> set ks) q"
  by (induction ks arbitrary: q) (auto simp: omap_erase_def intro: filter_cong)

lemma omap_same_key: "omap_inv q \<Longrightarrow> p \<in> set q \<Longrightarrow> p' \<in> set q \<Longrightarrow> fst p = fst p' \<Longrightarrow> p = p'"
  by (metis distinct_map inj_on_eq_iff ssorted_distinct)

lemma restrictWorklist_filter:
  assumes "omap_inv q"
  shows "restrictWorklist s q = filter (\<lambda>p. \<not> (fst p > s \<and> snd p = [])) q"
  unfolding restrictWorklist_def erase_keys
  by (rule filter_cong) (auto simp: WorkSet_empty_def dest: omap_same_key [OF assms])

lemma pending_filter: "(\<And>p. p \<in> set q \<Longrightarrow> \<not> P p \<Longrightarrow> snd p = []) \<Longrightarrow> pending (filter P q) = pending q"
proof (induction q)
  case (Cons p q)
  have "P p \<or> snd p = []" using Cons.prems [of p] by auto
  then show ?case using Cons by (cases p) auto
qed simp

text \<open>
  C20. The work list implements a stack ordered by stamps: a new revisit is put behind the pending
  ones with stamps up to its own, the next revisit is the last of them and is taken off, and
  restricting the list drops empty work sets only, so that no revisit is ever lost.
\<close>

theorem worklist_refines_stack:
  assumes "omap_inv q"
  shows "pending (addToWorklist s it q) = push_at s it (pending q) \<and> omap_inv (addToWorklist s it q) \<and>
     (case getNextItem q of ((u, r), q') \<Rightarrow> omap_inv q' \<and>
        (case r of None \<Rightarrow> pending q = [] \<and> q' = q | Some x \<Rightarrow> pending q = pending q' @ [(u, x)])) \<and>
     pending (restrictWorklist s q) = pending q \<and> omap_inv (restrictWorklist s q)"
proof -
  obtain u r q' where n: "next_item_loop (rev q) = ((u, r), q')" by (metis surj_pair)
  have empty: "\<forall>p\<in>set b. snd p = [] \<Longrightarrow> pending b = []" for b :: LocalQueueT by (induction b) auto
  have "omap_inv (rev q') \<and> (case r of None \<Rightarrow> pending q = [] \<and> rev q' = q | Some x \<Rightarrow> pending q = pending (rev q') @ [(u, x)])"
  proof (cases r)
    case None
    then have "q' = rev q" "\<forall>p\<in>set q. snd p = []" using next_item_loop_correct [of "rev q"] n by simp_all
    then show ?thesis using None assms empty [of q] by simp
  next
    case (Some x)
    then obtain a w b where "rev q = a @ (u, w @ [x]) # b" and q': "q' = a @ (u, w) # b" and a: "\<forall>p\<in>set a. snd p = []"
      using next_item_loop_correct [of "rev q"] n by auto
    then have q: "q = rev b @ (u, w @ [x]) # rev a" by (metis append.assoc append_Cons append_Nil rev.simps(2) rev_append rev_rev_ident)
    have "map fst q = map fst (rev q')" by (simp add: q q')
    then have "omap_inv (rev q')" using assms by simp
    then show ?thesis using Some empty [of "rev a"] a by (simp add: q q')
  qed
  then have "case getNextItem q of ((u, r), q') \<Rightarrow> omap_inv q' \<and>
        (case r of None \<Rightarrow> pending q = [] \<and> q' = q | Some x \<Rightarrow> pending q = pending q' @ [(u, x)])"
    by (simp add: getNextItem_def n)
  moreover have "pending (restrictWorklist s q) = pending q" "omap_inv (restrictWorklist s q)"
    unfolding restrictWorklist_filter [OF assms] using assms by (auto intro!: pending_filter)
  moreover have "omap_inv (addToWorklist s it q)" using assms by (auto simp: addToWorklist_def)
  ultimately show ?thesis using pending_add [OF assms] by blast
qed

theorem worklist_refines_stack_witness:
  "pending (addToWorklist 2 RerunForwardRevisit [(1, [OptionalForwardRevisit (Event 1 1)]), (5, [])]) =
     [(1, OptionalForwardRevisit (Event 1 1)), (2, RerunForwardRevisit)]"
proof -
  have "omap_inv [(1 :: Stamp, [OptionalForwardRevisit (Event 1 1)]), (5, [])]" by simp
  from worklist_refines_stack [OF this, of 2 RerunForwardRevisit] show ?thesis by (simp add: push_at_def)
qed

end
