(* ===== verification/DriverChecks.thy ===== *)
theory DriverChecks
  imports Executions RARaces
begin

text \<open>
  The values of events and the checks of single events (src/src/GenMCDriver.cpp): what a read or a
  join returns, whether an access is to valid and initialized memory, annotations, and the liveness
  check for spin loops.

  An error is reported by a call of reportError, whose output is not modelled: the functions return
  the reports they make, as pairs of an event and an error, in order. The interpreter knows the
  initial values and the static addresses; both are arguments (initVal, staticAddr), and so are the
  flags of the configuration. A pointer to a label is an optional event.
\<close>

section \<open>Values\<close>

text \<open>The stores of a location in coherence order; the const lookup aborts on an unknown location.\<close>

definition stores_at :: "ExecutionGraph \<Rightarrow> AAccess \<Rightarrow> Event list option" where
  "stores_at g a = do { _ \<leftarrow> getStoresToLoc_const g (acc_addr a); Some (co_range g a) }"

type_synonym Reports = "(Event \<times> VerificationError) list"

definition getWriteValue :: "bool \<Rightarrow> (AAccess \<Rightarrow> SVal) \<Rightarrow> ExecutionGraph \<Rightarrow> Event option \<Rightarrow> AAccess \<Rightarrow>
    (SVal \<times> Reports) option" where
  "getWriteValue mixer initVal g lab a =
     (case lab of None \<Rightarrow> Some (0, [])
      | Some e \<Rightarrow> do { l \<leftarrow> getEventLabel g e;
          if isInitializer (position l) then Some (initVal a, [])
          else do { BUG_ON (\<not> isWrite (kind l));
                    v \<leftarrow> getSizedValAtOffset l a;
                    Some (v, if \<not> mixer \<and> acc_size (access l) \<noteq> acc_size a then [(position l, VE_MixedSize)] else []) } })"

text \<open>The overload for several rf edges puts the parts together.\<close>

fun write_values :: "bool \<Rightarrow> (AAccess \<Rightarrow> SVal) \<Rightarrow> ExecutionGraph \<Rightarrow> AAccess \<Rightarrow> SVal \<times> Reports \<Rightarrow> RfsT \<Rightarrow>
    (SVal \<times> Reports) option" where
  "write_values mixer initVal g a acc [] = Some acc"
| "write_values mixer initVal g a (ret, rep) (p # ps) =
     do { let offset = SAddr_diff (acc_addr (snd p)) (acc_addr a) * 8 in
          do { (v, r) \<leftarrow> getWriteValue mixer initVal g (Some (fst p)) (snd p);
               v \<leftarrow> SVal_binop Shl v offset;
               ret \<leftarrow> SVal_binop Or ret v;
               write_values mixer initVal g a (ret, rep @ r) ps } }"

definition getWriteValue_rfs :: "bool \<Rightarrow> (AAccess \<Rightarrow> SVal) \<Rightarrow> ExecutionGraph \<Rightarrow> RfsT \<Rightarrow> AAccess \<Rightarrow>
    (SVal \<times> Reports) option" where
  "getWriteValue_rfs mixer initVal g rs a = write_values mixer initVal g a (0, []) rs"

definition getReadValue :: "bool \<Rightarrow> (AAccess \<Rightarrow> SVal) \<Rightarrow> ExecutionGraph \<Rightarrow> EventLabel \<Rightarrow> (SVal \<times> Reports) option" where
  "getReadValue mixer initVal g rLab = getWriteValue_rfs mixer initVal g (rfs rLab) (access rLab)"

definition getDskWriteValue :: "bool \<Rightarrow> (AAccess \<Rightarrow> SVal) \<Rightarrow> ExecutionGraph \<Rightarrow> Event \<Rightarrow> AAccess \<Rightarrow>
    (SVal \<times> Reports) option" where
  "getDskWriteValue mixer initVal g e a =
     do { l \<leftarrow> getEventLabel g e;
          if isInitializer (position l) then Some (0, []) else getWriteValue mixer initVal g (Some e) a }"

fun dsk_write_values :: "bool \<Rightarrow> (AAccess \<Rightarrow> SVal) \<Rightarrow> ExecutionGraph \<Rightarrow> SVal \<times> Reports \<Rightarrow> RfsT \<Rightarrow>
    (SVal \<times> Reports) option" where
  "dsk_write_values mixer initVal g acc [] = Some acc"
| "dsk_write_values mixer initVal g (ret, rep) (p # ps) =
     do { (v, r) \<leftarrow> getDskWriteValue mixer initVal g (fst p) (snd p);
          ret \<leftarrow> SVal_binop Xor ret v;
          dsk_write_values mixer initVal g (ret, rep @ r) ps }"

definition getDskReadValue :: "bool \<Rightarrow> (AAccess \<Rightarrow> SVal) \<Rightarrow> ExecutionGraph \<Rightarrow> EventLabel \<Rightarrow> (SVal \<times> Reports) option" where
  "getDskReadValue mixer initVal g rLab = dsk_write_values mixer initVal g (0, []) (rfs rLab)"

definition getJoinValue :: "ExecutionGraph \<Rightarrow> EventLabel \<Rightarrow> SVal option" where
  "getJoinValue g jLab =
     do { lLab \<leftarrow> getLastThreadLabel g (uint (childId jLab));
          BUG_ON (kind lLab \<noteq> EL_ThreadFinish);
          Some (retVal lLab) }"

definition getStartValue :: "ExecutionGraph \<Rightarrow> EventLabel \<Rightarrow> SVal" where
  "getStartValue g bLab =
     (if isInitializer (position bLab) \<or> getThread bLab = recoveryTID g then 0 else ti_arg (threadInfo bLab))"

text \<open>The first store to the barrier that is not atomic; a const lookup of the stores.\<close>

definition getBarrierInitValue :: "bool \<Rightarrow> (AAccess \<Rightarrow> SVal) \<Rightarrow> ExecutionGraph \<Rightarrow> AAccess \<Rightarrow> (SVal \<times> Reports) option" where
  "getBarrierInitValue mixer initVal g a =
     do { ws \<leftarrow> stores_at g a;
          w \<leftarrow> find (label_is (\<lambda>l. getAddr l = acc_addr a \<and> isNotAtomic l) g) ws;
          getWriteValue mixer initVal g (Some w) a }"

text \<open>The value a read returns to the interpreter; nothing without a store, which needs a replay.\<close>

definition getReadRetValue :: "bool \<Rightarrow> (AAccess \<Rightarrow> SVal) \<Rightarrow> bool \<Rightarrow> ExecutionGraph \<Rightarrow> EventLabel \<Rightarrow>
    (SVal option \<times> Reports) option" where
  "getReadRetValue mixer initVal inReplay g rLab =
     (if \<not> hasRf rLab then do { BUG_ON (\<not> inReplay); Some (None, []) }
      else do { (res, rep) \<leftarrow> getReadValue mixer initVal g rLab;
                if kind rLab = EL_BWaitRead
                then do { (b, rep') \<leftarrow> getBarrierInitValue mixer initVal g (access rLab);
                          if res \<noteq> b
                          then do { l \<leftarrow> getLastThreadLabel g (getThread rLab);
                                    BUG_ON (\<not> isTerminator (kind l)); Some (Some res, rep @ rep') }
                          else Some (Some res, rep @ rep') }
                else Some (Some res, rep) })"

definition getRecReadRetValue :: "bool \<Rightarrow> (AAccess \<Rightarrow> SVal) \<Rightarrow> ExecutionGraph \<Rightarrow> EventLabel \<Rightarrow> (SVal \<times> Reports) option" where
  "getRecReadRetValue mixer initVal g rLab =
     (let rf = getLastThreadStoreAtLoc g (position rLab) (getAddr rLab) in
      do { BUG_ON (isInitializer rf); getWriteValue mixer initVal g (Some rf) (access rLab) })"

definition isCoMaximal_all :: "ExecutionGraph \<Rightarrow> RfsT \<Rightarrow> bool" where
  "isCoMaximal_all g ws = list_all (\<lambda>p. isCoMaximal g (snd p) (fst p)) ws"

section \<open>Checks of accesses\<close>

definition isUninitializedAccess :: "SAddr \<Rightarrow> Event \<Rightarrow> bool" where
  "isUninitializedAccess a e = (isDynamic a \<and> isInitializer e)"

definition checkAccessValidity :: "(SAddr \<Rightarrow> bool) \<Rightarrow> EventLabel \<Rightarrow> VerificationError \<times> Reports" where
  "checkAccessValidity staticAddr lab =
     (if \<not> isDynamic (getAddr lab) \<and> \<not> staticAddr (getAddr lab) \<or> isDynamic (getAddr lab) \<and> allocLab lab = None
      then (VE_AccessNonMalloc, [(position lab, VE_AccessNonMalloc)]) else (VE_OK, []))"

text \<open>The three checks of a read are made in order; the first one that fails ends the function.\<close>

definition lock_destroyed :: "bool \<Rightarrow> (AAccess \<Rightarrow> SVal) \<Rightarrow> ExecutionGraph \<Rightarrow> EventLabel \<Rightarrow> (bool \<times> Reports) option" where
  "lock_destroyed mixer initVal g rLab =
     (if kind rLab \<noteq> EL_LockCasRead then Some (False, [])
      else do { (v, r) \<leftarrow> getWriteValue_rfs mixer initVal g (rfs rLab) (access rLab); Some (v = - 1, r) })"

definition barrier_destroyed :: "bool \<Rightarrow> (AAccess \<Rightarrow> SVal) \<Rightarrow> ExecutionGraph \<Rightarrow> EventLabel \<Rightarrow> (bool \<times> Reports) option" where
  "barrier_destroyed mixer initVal g rLab =
     (if kind rLab \<noteq> EL_BIncFaiRead then Some (False, [])
      else do { (v, r) \<leftarrow> getWriteValue_rfs mixer initVal g (rfs rLab) (access rLab); Some (v = 0, r) })"

definition checkInitializedMem_read :: "bool \<Rightarrow> (AAccess \<Rightarrow> SVal) \<Rightarrow> ExecutionGraph \<Rightarrow> EventLabel \<Rightarrow>
    (VerificationError \<times> Reports) option" where
  "checkInitializedMem_read mixer initVal g rLab =
     do { (d, r1) \<leftarrow> lock_destroyed mixer initVal g rLab;
           if d then Some (VE_UninitializedMem, r1 @ [(position rLab, VE_UninitializedMem)])
           else if kind rLab = EL_BIncFaiRead \<and> list_ex (\<lambda>p. isInitializer (fst p)) (rfs rLab)
           then Some (VE_UninitializedMem, r1 @ [(position rLab, VE_UninitializedMem)])
           else do { (d, r2) \<leftarrow> barrier_destroyed mixer initVal g rLab;
             if d then Some (VE_UninitializedMem, r1 @ r2 @ [(position rLab, VE_AccessFreed)])
             else if list_ex (\<lambda>p. isUninitializedAccess (acc_addr (snd p)) (fst p)) (rfs rLab)
             then Some (VE_UninitializedMem, r1 @ r2 @ [(position rLab, VE_UninitializedMem)])
             else Some (VE_OK, r1 @ r2) } }"

definition checkInitializedMem_write :: "ExecutionGraph \<Rightarrow> EventLabel \<Rightarrow> (VerificationError \<times> Reports) option" where
  "checkInitializedMem_write g wLab =
     do { unlocked \<leftarrow> (if kind wLab = EL_UnlockWrite
                       then do { l \<leftarrow> getMatchingLock g (position wLab); Some (isInitializer l) } else Some False);
          if unlocked then Some (VE_InvalidUnlock, [(position wLab, VE_InvalidUnlock)])
          else if kind wLab = EL_BInitWrite \<and> val wLab = 0
          then Some (VE_InvalidBInit, [(position wLab, VE_InvalidBInit)])
          else if kind wLab \<noteq> EL_BInitWrite then Some (VE_OK, [])
          else do { ws \<leftarrow> stores_at g (access wLab);
            if list_ex (\<lambda>s. s \<noteq> position wLab \<and>
                 label_is (\<lambda>l. getAddr l = getAddr wLab \<and> kind l = EL_BInitWrite) g s) ws
            then Some (VE_InvalidBInit, [(position wLab, VE_InvalidBInit)]) else Some (VE_OK, []) } }"

text \<open>The happens-before view is view 0 of the label (getHbView of the release-acquire driver).\<close>

definition checkFinalAnnotations :: "bool \<Rightarrow> ExecutionGraph \<Rightarrow> EventLabel \<Rightarrow> Reports option" where
  "checkFinalAnnotations helper g wLab =
     (if \<not> helper then Some []
      else do { ws \<leftarrow> stores_at g (access wLab);
                if hasLocMoreThanOneStore g (access wLab) then Some []
                else if isFinal wLab \<and> list_ex (\<lambda>s. \<not> View_contains (label_view wLab 0) s) ws \<or>
                        \<not> isFinal wLab \<and> list_ex (label_is isFinal g) ws
                then Some [(position wLab, VE_Annotation)] else Some [] })"

definition checkIPRValidity :: "bool \<Rightarrow> ExecutionGraph \<Rightarrow> EventLabel \<Rightarrow> Reports option" where
  "checkIPRValidity ipr_conf g rLab =
     (if annot rLab = None \<or> \<not> ipr_conf then Some []
      else do { ws \<leftarrow> stores_at g (access rLab);
                Some (case find (label_is (hasAttr WA_WWRacy) g) ws of
                        None \<Rightarrow> [] | Some w \<Rightarrow> [(w, VE_WWRace)]) })"

section \<open>Liveness\<close>

text \<open>The walk from the last event before the block down to the start of the loop.\<close>

fun reads_maximal_loop :: "ExecutionGraph \<Rightarrow> Event list \<Rightarrow> bool option" where
  "reads_maximal_loop g [] = None"
| "reads_maximal_loop g (e # es) =
     do { lab \<leftarrow> getEventLabel g e;
          BUG_ON (kind lab = EL_LoopBegin);
          if kind lab = EL_SpinStart then Some True
          else if isRead (kind lab) \<and> list_ex (\<lambda>p. \<not> isCoMaximal g (snd p) (fst p)) (rfs lab) then Some False
          else reads_maximal_loop g es }"

definition spin_events :: "ExecutionGraph \<Rightarrow> EventLabel \<Rightarrow> Event list" where
  "spin_events g lastLab =
     (let start = (if kind lastLab = EL_SpinStart then Event_prev (position lastLab) else position lastLab)
      in map (\<lambda>j. Event (thread start) j) (rev [1 .. index start]))"

definition threadReadsMaximal :: "ExecutionGraph \<Rightarrow> int \<Rightarrow> bool option" where
  "threadReadsMaximal g tid =
     do { bLab \<leftarrow> getLastThreadLabel g tid;
          BUG_ON (\<not> isBlock (kind bLab));
          lastLab \<leftarrow> getPreviousLabel g (position bLab);
          reads_maximal_loop g (spin_events g lastLab) }"

text \<open>std::all_of stops at the first thread that fails; nonTermTID is the last one examined.\<close>

fun all_live :: "ExecutionGraph \<Rightarrow> int \<Rightarrow> int list \<Rightarrow> (bool \<times> int) option" where
  "all_live g tid [] = Some (True, tid)"
| "all_live g tid (t # ts) = do { b \<leftarrow> threadReadsMaximal g t; if b then all_live g t ts else Some (False, t) }"

definition spin_blocked :: "ExecutionGraph \<Rightarrow> int list" where
  "spin_blocked g =
     filter (\<lambda>i. label_is (\<lambda>l. kind l = EL_SpinloopBlock) g (getLastThreadEvent g i)) (map int [0..<getNumThreads g])"

definition checkLiveness :: "bool \<Rightarrow> ExecutionGraph \<Rightarrow> Reports option" where
  "checkLiveness isHalting g =
     (if isHalting \<or> spin_blocked g = [] then Some []
      else do { (b, t) \<leftarrow> all_live g 0 (spin_blocked g);
                Some (if b then [(getLastThreadEvent g t, VE_Liveness)] else []) })"

definition filterConflictingBarriers :: "bool \<Rightarrow> ExecutionGraph \<Rightarrow> EventLabel \<Rightarrow> Event list \<Rightarrow> Event list" where
  "filterConflictingBarriers disableBAM g lab stores =
     (if disableBAM \<or> kind lab \<noteq> EL_BIncFaiRead then stores
      else filter (\<lambda>s. \<not> isStoreReadByExclusiveRead g s (getAddr lab)) stores)"

section \<open>The bits of a value\<close>

unbundle bit_operations_syntax

text \<open>Byte offsets, and the bit of the source of one rf edge.\<close>

definition byte_off :: "SAddr \<Rightarrow> AAccess \<Rightarrow> nat" where
  "byte_off a p = unat (SAddr_diff (acc_addr p) a)"

definition source_bit :: "(AAccess \<Rightarrow> SVal) \<Rightarrow> ExecutionGraph \<Rightarrow> Event \<times> AAccess \<Rightarrow> nat \<Rightarrow> bool" where
  "source_bit initVal g p n =
     (case getEventLabel g (fst p) of None \<Rightarrow> False
      | Some l \<Rightarrow> if isInitializer (position l) then bit (initVal (snd p)) n
          else bit (val l) (8 * byte_off (getAddr l) (snd p) + n))"

text \<open>The source of an rf edge has the bytes the edge stands for.\<close>

definition source_ok :: "(AAccess \<Rightarrow> SVal) \<Rightarrow> ExecutionGraph \<Rightarrow> Event \<times> AAccess \<Rightarrow> bool" where
  "source_ok initVal g p =
     (0 < unat (acc_size (snd p)) \<and> unat (acc_size (snd p)) \<le> 8 \<and>
      label_is (\<lambda>l. if isInitializer (position l) then \<forall>n. bit (initVal (snd p)) n \<longrightarrow> n < 8 * unat (acc_size (snd p))
        else isWrite (kind l) \<and> AAccess_contains (access l) (acc_addr (snd p)) \<and>
          byte_off (getAddr l) (snd p) < 8) g (fst p))"

lemma times8: "unat (w :: 64 word) < 8 \<Longrightarrow> unat (w * 8) = 8 * unat w"
  by (simp add: unat_word_ariths)

lemma size_mask:
  assumes "0 < unat (s :: 32 word)" "unat s \<le> 8"
  shows "unat (ucast (64 - s * 8 :: 32 word) :: 64 word) = 64 - 8 * unat s"
proof -
  have s8: "unat (s * 8) = 8 * unat s" using assms by (simp add: unat_word_ariths)
  have "s * 8 \<le> 64" unfolding word_le_nat_alt s8 using assms by simp
  then have "unat (64 - s * 8 :: 32 word) = 64 - 8 * unat s" by (simp add: unat_sub s8)
  then show ?thesis by (simp add: unsigned_ucast_eq take_bit_nat_def)
qed

lemma sized_val_bits:
  assumes "AAccess_contains (access l) (acc_addr p)" "byte_off (getAddr l) p < 8"
    "0 < unat (acc_size p)" "unat (acc_size p) \<le> 8"
  shows "\<exists>v. getSizedValAtOffset l p = Some v \<and>
     (\<forall>n. bit v n \<longleftrightarrow> n < 8 * unat (acc_size p) \<and> bit (val l) (8 * byte_off (getAddr l) p + n))"
proof -
  let ?k = "8 * byte_off (getAddr l) p" and ?m = "64 - 8 * unat (acc_size p)"
  have k: "unat (SAddr_diff (acc_addr p) (getAddr l) * 8) = ?k" "?k < 64"
    using assms(2) times8 [of "SAddr_diff (acc_addr p) (getAddr l)"] by (simp_all add: byte_off_def)
  note m = size_mask [OF assms(3,4)]
  have "getSizedValAtOffset l p = Some (drop_bit ?k (val l) AND drop_bit ?m (- 1))"
    using assms k m by (simp add: getSizedValAtOffset_def SVal_width_def)
  moreover have "bit (drop_bit ?k (val l) AND drop_bit ?m (- 1)) n \<longleftrightarrow>
      n < 8 * unat (acc_size p) \<and> bit (val l) (?k + n)" for n
    using assms(3,4) by (auto simp: bit_and_iff bit_drop_bit_eq bit_minus_1_iff bit_mask_iff)
  ultimately show ?thesis by blast
qed

lemma getWriteValue_bits:
  assumes "source_ok initVal g p"
  shows "\<exists>v r. getWriteValue mixer initVal g (Some (fst p)) (snd p) = Some (v, r) \<and>
     (\<forall>n. bit v n \<longleftrightarrow> n < 8 * unat (acc_size (snd p)) \<and> source_bit initVal g p n)"
proof -
  obtain l where l: "getEventLabel g (fst p) = Some l"
    using assms by (auto simp: source_ok_def label_is_def split: option.splits)
  show ?thesis
  proof (cases "isInitializer (position l)")
    case True
    then show ?thesis using assms l by (auto simp: getWriteValue_def source_bit_def source_ok_def label_is_def)
  next
    case False
    then show ?thesis
      using assms l sized_val_bits [of l "snd p"]
      by (auto simp: getWriteValue_def source_bit_def source_ok_def label_is_def)
  qed
qed

lemma write_values_bits:
  assumes "\<forall>p\<in>set rs. source_ok initVal g p \<and> byte_off (acc_addr a) (snd p) < 8"
  shows "\<exists>v r. write_values mixer initVal g a (ret, rep) rs = Some (v, r) \<and>
     (\<forall>n<64. bit v n \<longleftrightarrow> bit ret n \<or> (\<exists>p\<in>set rs. let k = 8 * byte_off (acc_addr a) (snd p) in
        k \<le> n \<and> n < k + 8 * unat (acc_size (snd p)) \<and> source_bit initVal g p (n - k)))"
  using assms
proof (induction rs arbitrary: ret rep)
  case (Cons p rs)
  let ?k = "8 * byte_off (acc_addr a) (snd p)"
  obtain v r where v: "getWriteValue mixer initVal g (Some (fst p)) (snd p) = Some (v, r)"
    and bv: "\<And>n. bit v n \<longleftrightarrow> n < 8 * unat (acc_size (snd p)) \<and> source_bit initVal g p n"
    using getWriteValue_bits [of initVal g p mixer] Cons.prems by auto
  have k: "unat (SAddr_diff (acc_addr (snd p)) (acc_addr a) * 8) = ?k" "?k < 64"
    using Cons.prems times8 [of "SAddr_diff (acc_addr (snd p)) (acc_addr a)"] by (simp_all add: byte_off_def)
  let ?ret = "ret OR push_bit ?k v"
  have b: "bit ?ret n \<longleftrightarrow> bit ret n \<or> ?k \<le> n \<and> n < ?k + 8 * unat (acc_size (snd p)) \<and> source_bit initVal g p (n - ?k)"
    if "n < 64" for n
  proof -
    have "bit ?ret n \<longleftrightarrow> bit ret n \<or> ?k \<le> n \<and> bit v (n - ?k)"
      using that by (simp add: bit_or_iff bit_push_bit_iff)
    moreover have "?k \<le> n \<Longrightarrow> n - ?k < x \<longleftrightarrow> n < ?k + x" for x by linarith
    ultimately show ?thesis unfolding bv by blast
  qed
  obtain v' r' where w: "write_values mixer initVal g a (?ret, rep @ r) rs = Some (v', r')"
    and bw: "\<forall>n<64. bit v' n \<longleftrightarrow> bit ?ret n \<or> (\<exists>p\<in>set rs. let k = 8 * byte_off (acc_addr a) (snd p) in
        k \<le> n \<and> n < k + 8 * unat (acc_size (snd p)) \<and> source_bit initVal g p (n - k))"
    using Cons.IH [of ?ret "rep @ r"] Cons.prems by auto
  have "write_values mixer initVal g a (ret, rep) (p # rs) = Some (v', r')"
    using v k w by (simp add: SVal_width_def)
  moreover have "bit v' n \<longleftrightarrow> bit ret n \<or> (\<exists>p\<in>set (p # rs). let k = 8 * byte_off (acc_addr a) (snd p) in
        k \<le> n \<and> n < k + 8 * unat (acc_size (snd p)) \<and> source_bit initVal g p (n - k))" if "n < 64" for n
    unfolding bw [rule_format, OF that] b [OF that] by (simp add: Let_def)
  ultimately show ?case by blast
qed simp

section \<open>Matching locks\<close>

definition locks_at :: "ExecutionGraph \<Rightarrow> SAddr \<Rightarrow> Event list \<Rightarrow> nat" where
  "locks_at g a ps = length (filter (label_is (\<lambda>l. isLockCasWrite (kind l) \<and> getAddr l = a) g) ps)"

definition unlocks_at :: "ExecutionGraph \<Rightarrow> SAddr \<Rightarrow> Event list \<Rightarrow> nat" where
  "unlocks_at g a ps = length (filter (label_is (\<lambda>l. kind l = EL_UnlockWrite \<and> getAddr l = a) g) ps)"

lemma match_lock_loop_found:
  assumes "\<forall>p\<in>set ps. \<exists>l. getEventLabel g p = Some l \<and> (isLockCasWrite (kind l) \<longrightarrow> Event_prev (position l) \<noteq> getInit)"
  shows "\<exists>r. match_lock_loop g a n ps = Some r \<and>
     (r \<noteq> getInit \<longleftrightarrow> (\<exists>k\<le>length ps. n + unlocks_at g a (take k ps) < locks_at g a (take k ps)))"
  using assms
proof (induction ps arbitrary: n)
  case (Cons p ps)
  obtain l where l: "getEventLabel g p = Some l" "isLockCasWrite (kind l) \<longrightarrow> Event_prev (position l) \<noteq> getInit"
    using Cons.prems by auto
  let ?lk = "isLockCasWrite (kind l) \<and> getAddr l = a" and ?un = "kind l = EL_UnlockWrite \<and> getAddr l = a"
  have excl: "\<not> (?lk \<and> ?un)" by (auto simp: isLockCasWrite_def)
  have take: "(\<exists>k\<le>length (p # ps). n + unlocks_at g a (take k (p # ps)) < locks_at g a (take k (p # ps))) \<longleftrightarrow>
      (\<exists>k\<le>length ps. n + (if ?un then 1 else 0) + unlocks_at g a (take k ps) < (if ?lk then 1 else 0) + locks_at g a (take k ps))"
    (is "?L \<longleftrightarrow> (\<exists>k\<le>_. ?P k)")
  proof
    assume ?L
    then obtain k where k: "k \<le> Suc (length ps)" "n + unlocks_at g a (take k (p # ps)) < locks_at g a (take k (p # ps))" by auto
    then have "k \<noteq> 0" by (intro notI) (simp add: locks_at_def)
    then obtain j where "k = Suc j" by (cases k) auto
    then show "\<exists>k\<le>length ps. ?P k"
      using k l(1) by (intro exI [of _ j]) (auto simp: locks_at_def unlocks_at_def label_is_def split: if_splits)
  next
    assume "\<exists>k\<le>length ps. ?P k"
    then obtain j where "j \<le> length ps" "?P j" by blast
    then show ?L
      using l(1) by (intro exI [of _ "Suc j"]) (auto simp: locks_at_def unlocks_at_def label_is_def split: if_splits)
  qed
  consider "?lk" "n = 0" | "?lk" "n \<noteq> 0" | "\<not> ?lk" by blast
  then show ?case
  proof cases
    case 1
    then have "\<not> ?un" using excl by blast
    have "\<exists>k\<le>length ps. n + (if ?un then 1 else 0) + unlocks_at g a (take k ps) < (if ?lk then 1 else 0) + locks_at g a (take k ps)"
      using 1 \<open>\<not> ?un\<close> by (intro exI [of _ 0]) (auto simp: locks_at_def unlocks_at_def)
    then show ?thesis unfolding take using 1 \<open>\<not> ?un\<close> l by (auto simp: Let_def)
  next
    case 2
    then have "\<not> ?un" using excl by blast
    have "n - 1 + x < y \<longleftrightarrow> n + x < 1 + y" for x y using 2 by linarith
    moreover have "match_lock_loop g a n (p # ps) = match_lock_loop g a (n - 1) ps"
      using 2 \<open>\<not> ?un\<close> l by (auto simp: Let_def)
    ultimately show ?thesis unfolding take using 2 \<open>\<not> ?un\<close> Cons.IH [of "n - 1"] Cons.prems by simp
  next
    case 3
    then show ?thesis unfolding take using l Cons.IH [of "if ?un then Suc n else n"] Cons.prems by (auto simp: Let_def)
  qed
qed (auto simp: locks_at_def)

section \<open>Properties\<close>

text \<open>
  C25. A read that is put together from several stores gets every byte from the store that its rf edge
  names: if the edges stand for disjoint parts of the access and each source has its part, the value
  is computed, the bits of each part are those of its source at that address, and all other bits
  are zero.
\<close>

theorem getReadValue_bytes:
  assumes "\<forall>p\<in>set (rfs r). source_ok initVal g p \<and> byte_off (getAddr r) (snd p) + unat (acc_size (snd p)) \<le> 8"
    and "\<forall>p\<in>set (rfs r). \<forall>q\<in>set (rfs r). p \<noteq> q \<longrightarrow>
       byte_off (getAddr r) (snd p) + unat (acc_size (snd p)) \<le> byte_off (getAddr r) (snd q) \<or>
       byte_off (getAddr r) (snd q) + unat (acc_size (snd q)) \<le> byte_off (getAddr r) (snd p)"
  shows "\<exists>v rep. getReadValue mixer initVal g r = Some (v, rep) \<and>
     (\<forall>p\<in>set (rfs r). \<forall>n < 8 * unat (acc_size (snd p)).
        bit v (8 * byte_off (getAddr r) (snd p) + n) \<longleftrightarrow> source_bit initVal g p n) \<and>
     (\<forall>n. bit v n \<longrightarrow> (\<exists>p\<in>set (rfs r). n div 8 \<in> {byte_off (getAddr r) (snd p) ..<
        byte_off (getAddr r) (snd p) + unat (acc_size (snd p))}))"
proof -
  let ?o = "\<lambda>p. byte_off (getAddr r) (snd p)" and ?s = "\<lambda>p. unat (acc_size (snd p))"
  have "\<forall>p\<in>set (rfs r). source_ok initVal g p \<and> byte_off (acc_addr (access r)) (snd p) < 8"
    using assms(1) by (auto simp: source_ok_def getAddr_def)
  from write_values_bits [OF this, of mixer 0 "[]"] obtain v rep where v: "getReadValue mixer initVal g r = Some (v, rep)"
    and b: "\<And>n. n < 64 \<Longrightarrow> bit v n \<longleftrightarrow> (\<exists>p\<in>set (rfs r). 8 * ?o p \<le> n \<and> n < 8 * ?o p + 8 * ?s p \<and>
        source_bit initVal g p (n - 8 * ?o p))"
    by (auto simp: getReadValue_def getWriteValue_rfs_def getAddr_def Let_def)
  have "bit v (8 * ?o p + n) \<longleftrightarrow> source_bit initVal g p n" if p: "p \<in> set (rfs r)" "n < 8 * ?s p" for p n
  proof -
    have lt: "8 * ?o p + n < 64" using assms(1) p by fastforce
    have "q = p" if "q \<in> set (rfs r)" "8 * ?o q \<le> 8 * ?o p + n" "8 * ?o p + n < 8 * ?o q + 8 * ?s q" for q
    proof (rule ccontr)
      assume "q \<noteq> p"
      then have "?o p + ?s p \<le> ?o q \<or> ?o q + ?s q \<le> ?o p" using assms(2) that(1) p(1) by blast
      then show False using that(2,3) p(2) by linarith
    qed
    then have "(\<exists>q\<in>set (rfs r). 8 * ?o q \<le> 8 * ?o p + n \<and> 8 * ?o p + n < 8 * ?o q + 8 * ?s q \<and>
        source_bit initVal g q (8 * ?o p + n - 8 * ?o q)) \<longleftrightarrow> source_bit initVal g p (8 * ?o p + n - 8 * ?o p)"
      using p by (metis add_less_cancel_left le_add1)
    then show ?thesis unfolding b [OF lt] by simp
  qed
  moreover have "\<exists>p\<in>set (rfs r). n div 8 \<in> {?o p ..< ?o p + ?s p}" if n: "bit v n" for n
  proof -
    have "n < 64" using bit_imp_le_length [OF n] by simp
    then obtain p where "p \<in> set (rfs r)" "8 * ?o p \<le> n" "n < 8 * ?o p + 8 * ?s p" using b n by blast
    then show ?thesis by (intro bexI [of _ p]) auto
  qed
  ultimately show ?thesis using v by blast
qed

definition example_split :: ExecutionGraph where
  "example_split = \<lparr>events = [[InitLabel,
     WriteLabel EL_Write (Event 0 1) Monotonic \<lparr>acc_addr = 8, acc_size = 4, acc_type = Signed\<rparr> 1 WA_None EventDeps_empty,
     WriteLabel EL_Write (Event 0 2) Monotonic \<lparr>acc_addr = 12, acc_size = 4, acc_type = Signed\<rparr> 2 WA_None EventDeps_empty]],
     timestamp = 0, coherence = [], recoveryTID = -1\<rparr>"

definition example_split_read :: EventLabel where
  "example_split_read = (ReadLabel EL_Read (Event 0 3) Monotonic \<lparr>acc_addr = 8, acc_size = 8, acc_type = Signed\<rparr> None EventDeps_empty)
     \<lparr>rfs := [(Event 0 1, \<lparr>acc_addr = 8, acc_size = 4, acc_type = Signed\<rparr>), (Event 0 2, \<lparr>acc_addr = 12, acc_size = 4, acc_type = Signed\<rparr>)]\<rparr>"

theorem getReadValue_bytes_witness:
  "\<exists>v rep. getReadValue True (\<lambda>_. 0) example_split example_split_read = Some (v, rep) \<and> bit v 0 \<and> bit v 33 \<and> \<not> bit v 32"
proof -
  let ?r = example_split_read and ?g = example_split
  have rs: "rfs ?r = [(Event 0 1, \<lparr>acc_addr = 8, acc_size = 4, acc_type = Signed\<rparr>), (Event 0 2, \<lparr>acc_addr = 12, acc_size = 4, acc_type = Signed\<rparr>)]"
    by (simp add: example_split_read_def)
  have o: "getAddr ?r = 8" by code_simp
  have l: "getEventLabel ?g (Event 0 1) = Some (WriteLabel EL_Write (Event 0 1) Monotonic \<lparr>acc_addr = 8, acc_size = 4, acc_type = Signed\<rparr> 1 WA_None EventDeps_empty)"
    "getEventLabel ?g (Event 0 2) = Some (WriteLabel EL_Write (Event 0 2) Monotonic \<lparr>acc_addr = 12, acc_size = 4, acc_type = Signed\<rparr> 2 WA_None EventDeps_empty)"
    by (simp_all add: example_split_def getEventLabel_def containsPos_iff)
  have w: "position (WriteLabel k p o' a v wa d) = p" "kind (WriteLabel k p o' a v wa d) = k" "access (WriteLabel k p o' a v wa d) = a"
    "val (WriteLabel k p o' a v wa d) = v" "getAddr (WriteLabel k p o' a v wa d) = acc_addr a" for k p o' a v wa d
    by (simp_all add: WriteLabel_def MemAccessLabel_def EventLabel_new_def getAddr_def)
  have iw: "isWrite EL_Write" by code_simp
  have "\<forall>p\<in>set (rfs ?r). source_ok (\<lambda>_. 0) ?g p \<and> byte_off (getAddr ?r) (snd p) + unat (acc_size (snd p)) \<le> 8"
    unfolding rs o by (simp add: source_ok_def label_is_def l w iw isInitializer_def getInit_def byte_off_def
        SAddr_diff_def AAccess_contains_def SAddr_plus_def sameStorageAs_def)
  moreover have "\<forall>p\<in>set (rfs ?r). \<forall>q\<in>set (rfs ?r). p \<noteq> q \<longrightarrow>
       byte_off (getAddr ?r) (snd p) + unat (acc_size (snd p)) \<le> byte_off (getAddr ?r) (snd q) \<or>
       byte_off (getAddr ?r) (snd q) + unat (acc_size (snd q)) \<le> byte_off (getAddr ?r) (snd p)"
    unfolding rs o by (simp add: byte_off_def SAddr_diff_def)
  ultimately obtain v rep where v: "getReadValue True (\<lambda>_. 0) ?g ?r = Some (v, rep)"
    and b: "\<forall>p\<in>set (rfs ?r). \<forall>n < 8 * unat (acc_size (snd p)).
        bit v (8 * byte_off (getAddr ?r) (snd p) + n) \<longleftrightarrow> source_bit (\<lambda>_. 0) ?g p n"
    using getReadValue_bytes [of ?r "\<lambda>_. 0" ?g True] by blast
  have b1: "bit v n \<longleftrightarrow> bit (1 :: SVal) n" if "n < 32" for n
    using b [unfolded rs o, simplified] that
    by (simp add: source_bit_def l w isInitializer_def getInit_def byte_off_def SAddr_diff_def)
  have b2: "bit v (32 + n) \<longleftrightarrow> bit (2 :: SVal) n" if "n < 32" for n
    using b [unfolded rs o, simplified] that
    by (simp add: source_bit_def l w isInitializer_def getInit_def byte_off_def SAddr_diff_def)
  show ?thesis using v b1 [of 0] b2 [of 0] b2 [of 1] by (simp add: bit_numeral_rec)
qed

text \<open>
  C26. An unlock is reported as invalid exactly if its thread does not hold the lock: no stretch of
  the thread just before the unlock has more acquisitions of the mutex than releases. The lookup of
  the matching lock always ends with an answer.
\<close>

theorem invalid_unlock_exact:
  assumes "getEventLabel g (position u) = Some u" "kind u = EL_UnlockWrite"
    and "\<forall>p\<in>set (below (position u)). \<exists>l. getEventLabel g p = Some l \<and>
       (isLockCasWrite (kind l) \<longrightarrow> Event_prev (position l) \<noteq> getInit)"
  shows "\<exists>e rep. checkInitializedMem_write g u = Some (e, rep) \<and>
     (e = VE_InvalidUnlock \<longleftrightarrow> (\<forall>k\<le>length (below (position u)).
        locks_at g (getAddr u) (take k (below (position u))) \<le> unlocks_at g (getAddr u) (take k (below (position u))))) \<and>
     (e = VE_OK \<or> rep = [(position u, e)])"
proof -
  obtain m where m: "match_lock_loop g (getAddr u) 0 (below (position u)) = Some m"
    and iff: "m \<noteq> getInit \<longleftrightarrow> (\<exists>k\<le>length (below (position u)). 0 + unlocks_at g (getAddr u) (take k (below (position u)))
        < locks_at g (getAddr u) (take k (below (position u))))"
    using match_lock_loop_found [OF assms(3), of "getAddr u" 0] by blast
  have "getMatchingLock g (position u) = Some m" using assms(1,2) m by (simp add: getMatchingLock_def)
  then have "checkInitializedMem_write g u =
      Some (if m = getInit then (VE_InvalidUnlock, [(position u, VE_InvalidUnlock)]) else (VE_OK, []))"
    using assms(2) by (simp add: checkInitializedMem_write_def isInitializer_def)
  then show ?thesis using iff by (auto simp: not_less split: if_splits)
qed

theorem invalid_unlock_exact_witness:
  "\<exists>g u rep. checkInitializedMem_write g u = Some (VE_InvalidUnlock, rep)"
proof -
  let ?u = "UnlockWriteLabel (Event 0 1) 8 4 EventDeps_empty"
  let ?g = "\<lparr>events = [[InitLabel, ?u]], timestamp = 0, coherence = [], recoveryTID = -1\<rparr>"
  have u: "position ?u = Event 0 1" "kind ?u = EL_UnlockWrite"
    by (simp_all add: UnlockWriteLabel_def WriteLabel_def MemAccessLabel_def EventLabel_new_def)
  have "getEventLabel ?g (position ?u) = Some ?u" by (simp add: u getEventLabel_def containsPos_iff)
  moreover have "below (position ?u) = []" by (simp add: u below_def)
  ultimately obtain e rep where "checkInitializedMem_write ?g ?u = Some (e, rep)" "e = VE_InvalidUnlock"
    using invalid_unlock_exact [of ?g ?u] u by (auto simp: locks_at_def unlocks_at_def)
  then show ?thesis by blast
qed

text \<open>
  The check of final annotations does the opposite of its message: for a write in its coherence
  list whose happens-before view does not hold the write itself, an error for multiple stores is
  reported exactly if the write is annotated as final and is the only store to its location, and
  never if there are more stores.
\<close>

theorem checkFinalAnnotations_inverted:
  assumes "getEventLabel g (position w) = Some w" "position w \<in> set (co_range g (access w))"
    and "getStoresToLoc_const g (getAddr w) \<noteq> None" "\<not> View_contains (label_view w 0) (position w)"
  shows "\<exists>rep. checkFinalAnnotations helper g w = Some rep \<and>
     (rep \<noteq> [] \<longleftrightarrow> helper \<and> isFinal w \<and> co_range g (access w) = [position w])"
proof -
  obtain ss where ss: "getStoresToLoc_const g (acc_addr (access w)) = Some ss" using assms(3) by (auto simp: getAddr_def)
  consider "tl (co_range g (access w)) \<noteq> []" | "co_range g (access w) = [position w]"
    using assms(2) by (cases "co_range g (access w)"; cases "tl (co_range g (access w))") auto
  then show ?thesis
  proof cases
    case 1
    then have "hasLocMoreThanOneStore g (access w)"
      by (cases "co_range g (access w)") (auto simp: hasLocMoreThanOneStore_def isLocEmpty_def)
    then show ?thesis using 1 ss by (auto simp: checkFinalAnnotations_def stores_at_def)
  next
    case 2
    then have "\<not> hasLocMoreThanOneStore g (access w)" by (simp add: hasLocMoreThanOneStore_def isLocEmpty_def)
    then show ?thesis
      using 2 ss assms(1,4) by (auto simp: checkFinalAnnotations_def stores_at_def label_is_def)
  qed
qed

theorem checkFinalAnnotations_inverted_witness:
  "\<exists>g w rep. checkFinalAnnotations True g w = Some rep \<and> rep \<noteq> [] \<and> co_range g (access w) = [position w]"
proof -
  let ?w = "WriteLabel EL_Write (Event 0 1) Monotonic \<lparr>acc_addr = 8, acc_size = 4, acc_type = Signed\<rparr> 1 WA_Final EventDeps_empty"
  let ?g = "\<lparr>events = [[InitLabel, ?w]], timestamp = 0, coherence = [(8, [Event 0 1])], recoveryTID = -1\<rparr>"
  have w: "position ?w = Event 0 1" by code_simp
  have l: "getEventLabel ?g (position ?w) = Some ?w" by (simp add: w getEventLabel_def containsPos_iff)
  have co: "co_range ?g (access ?w) = [position ?w]" by code_simp
  have s: "getStoresToLoc_const ?g (getAddr ?w) \<noteq> None" by code_simp
  have v: "\<not> View_contains (label_view ?w 0) (position ?w)" by code_simp
  have f: "isFinal ?w" by code_simp
  show ?thesis using checkFinalAnnotations_inverted [OF l _ s v, of True] co f by auto
qed

section \<open>Live spin loops\<close>

text \<open>The events of the last iteration of the loop a thread is blocked in.\<close>

definition spin_iteration :: "ExecutionGraph \<Rightarrow> int \<Rightarrow> Event list" where
  "spin_iteration g t =
     (case getPreviousLabel g (getLastThreadEvent g t) of None \<Rightarrow> []
      | Some l \<Rightarrow> takeWhile (\<lambda>e. \<not> label_is (\<lambda>l. kind l = EL_SpinStart) g e) (spin_events g l))"

definition reads_co_maximal :: "ExecutionGraph \<Rightarrow> Event \<Rightarrow> bool" where
  "reads_co_maximal g e = label_is (\<lambda>l. isRead (kind l) \<longrightarrow> (\<forall>p\<in>set (rfs l). isCoMaximal g (snd p) (fst p))) g e"

text \<open>A thread blocked in a spin loop: the loop has a start, and no outer loop begins after it.\<close>

definition spinning :: "ExecutionGraph \<Rightarrow> int \<Rightarrow> bool" where
  "spinning g t =
     (label_is (\<lambda>l. position l = getLastThreadEvent g t \<and> isBlock (kind l)) g (getLastThreadEvent g t) \<and>
      (\<exists>l. getPreviousLabel g (getLastThreadEvent g t) = Some l \<and>
        (\<exists>e\<in>set (spin_events g l). label_is (\<lambda>l. kind l = EL_SpinStart) g e)) \<and>
      (\<forall>e\<in>set (spin_iteration g t). label_is (\<lambda>l. kind l \<noteq> EL_LoopBegin) g e))"

lemma reads_maximal_loop_correct:
  assumes "\<exists>e\<in>set es. label_is (\<lambda>l. kind l = EL_SpinStart) g e"
    and "\<forall>e\<in>set (takeWhile (\<lambda>e. \<not> label_is (\<lambda>l. kind l = EL_SpinStart) g e) es). label_is (\<lambda>l. kind l \<noteq> EL_LoopBegin) g e"
  shows "reads_maximal_loop g es =
     Some (\<forall>e\<in>set (takeWhile (\<lambda>e. \<not> label_is (\<lambda>l. kind l = EL_SpinStart) g e) es). reads_co_maximal g e)"
  using assms
proof (induction es)
  case (Cons e es)
  show ?case
  proof (cases "label_is (\<lambda>l. kind l = EL_SpinStart) g e")
    case True
    then obtain l where "getEventLabel g e = Some l" "kind l = EL_SpinStart" by (auto simp: label_is_def split: option.splits)
    moreover have "EL_SpinStart \<noteq> EL_LoopBegin" by code_simp
    ultimately show ?thesis using True by simp
  next
    case False
    then have "label_is (\<lambda>l. kind l \<noteq> EL_LoopBegin) g e" using Cons.prems(2) by simp
    then obtain l where l: "getEventLabel g e = Some l" "kind l \<noteq> EL_LoopBegin" "kind l \<noteq> EL_SpinStart"
      using False by (auto simp: label_is_def split: option.splits)
    have "reads_co_maximal g e \<longleftrightarrow> \<not> (isRead (kind l) \<and> list_ex (\<lambda>p. \<not> isCoMaximal g (snd p) (fst p)) (rfs l))"
      using l(1) by (auto simp: reads_co_maximal_def label_is_def list_ex_iff)
    then show ?thesis using False l Cons by auto
  qed
qed simp

lemma threadReadsMaximal_correct:
  assumes "spinning g t"
  shows "threadReadsMaximal g t = Some (\<forall>e\<in>set (spin_iteration g t). reads_co_maximal g e)"
proof -
  obtain b where b: "getLastThreadLabel g t = Some b" "position b = getLastThreadEvent g t" "isBlock (kind b)"
    using assms by (auto simp: spinning_def label_is_def getLastThreadLabel_def split: option.splits)
  obtain l where l: "getPreviousLabel g (getLastThreadEvent g t) = Some l"
    "\<exists>e\<in>set (spin_events g l). label_is (\<lambda>l. kind l = EL_SpinStart) g e"
    using assms by (auto simp: spinning_def)
  show ?thesis
    using reads_maximal_loop_correct [OF l(2)] assms b l(1)
    by (simp add: threadReadsMaximal_def spinning_def spin_iteration_def)
qed

lemma all_live_correct:
  assumes "\<forall>t\<in>set ts. spinning g t"
  shows "\<exists>u. all_live g t0 ts = Some (\<forall>t\<in>set ts. \<forall>e\<in>set (spin_iteration g t). reads_co_maximal g e, u) \<and>
     (ts \<noteq> [] \<longrightarrow> u \<in> set ts)"
  using assms
proof (induction ts arbitrary: t0)
  case (Cons t ts)
  have r: "threadReadsMaximal g t = Some (\<forall>e\<in>set (spin_iteration g t). reads_co_maximal g e)"
    using Cons.prems threadReadsMaximal_correct by simp
  show ?case
  proof (cases "\<forall>e\<in>set (spin_iteration g t). reads_co_maximal g e")
    case True
    obtain u where u: "all_live g t ts = Some (\<forall>t\<in>set ts. \<forall>e\<in>set (spin_iteration g t). reads_co_maximal g e, u)"
      "ts \<noteq> [] \<longrightarrow> u \<in> set ts" using Cons by auto
    have "ts = [] \<Longrightarrow> u = t" using u(1) by simp
    then show ?thesis using u r True by auto
  qed (use r in auto)
qed simp

text \<open>
  C24. The liveness check reports a spin loop that does not terminate exactly if some thread is blocked
  in a spin loop and all such threads read only coherence-maximal stores in their last iteration; the
  reported event is the last one of such a thread. Nothing aborts, whatever the loops read.
\<close>

theorem checkLiveness_exact:
  assumes "\<forall>t\<in>set (spin_blocked g). spinning g t"
  shows "\<exists>rep. checkLiveness False g = Some rep \<and>
     (rep \<noteq> [] \<longleftrightarrow> spin_blocked g \<noteq> [] \<and>
        (\<forall>t\<in>set (spin_blocked g). \<forall>e\<in>set (spin_iteration g t). reads_co_maximal g e)) \<and>
     (\<forall>p\<in>set rep. snd p = VE_Liveness \<and> (\<exists>t\<in>set (spin_blocked g). fst p = getLastThreadEvent g t))"
proof -
  obtain u where u: "all_live g 0 (spin_blocked g) =
      Some (\<forall>t\<in>set (spin_blocked g). \<forall>e\<in>set (spin_iteration g t). reads_co_maximal g e, u)"
    "spin_blocked g \<noteq> [] \<longrightarrow> u \<in> set (spin_blocked g)"
    using all_live_correct [OF assms, of 0] by blast
  then show ?thesis by (auto simp: checkLiveness_def)
qed

theorem checkLiveness_exact_witness:
  "\<exists>g rep. spin_blocked g = [0] \<and> checkLiveness False g = Some rep \<and> rep \<noteq> []"
proof -
  let ?g = "\<lparr>events = [[InitLabel, SpinStartLabel (Event 0 1) EventDeps_empty, LoopBeginLabel (Event 0 2) EventDeps_empty,
      SpinStartLabel (Event 0 3) EventDeps_empty, EmptyLabel (Event 0 4), BlockLabel EL_SpinloopBlock (Event 0 5)]],
      timestamp = 0, coherence = [], recoveryTID = -1\<rparr>"
  have b: "spin_blocked ?g = [0]" by code_simp
  have e: "getLastThreadEvent ?g 0 = Event 0 5" by code_simp
  have p: "getPreviousLabel ?g (Event 0 5) = Some (EmptyLabel (Event 0 4))"
    by (simp add: getPreviousLabel_def getEventLabel_def containsPos_iff Event_prev_def)
  have s: "spin_events ?g (EmptyLabel (Event 0 4)) = [Event 0 4, Event 0 3, Event 0 2, Event 0 1]" by code_simp
  have i: "spin_iteration ?g 0 = [Event 0 4]" unfolding spin_iteration_def e p option.case s by code_simp
  have "label_is (\<lambda>l. position l = Event 0 5 \<and> isBlock (kind l)) ?g (Event 0 5)"
    "label_is (\<lambda>l. kind l = EL_SpinStart) ?g (Event 0 3)" "label_is (\<lambda>l. kind l \<noteq> EL_LoopBegin) ?g (Event 0 4)"
    by code_simp+
  then have "spinning ?g 0" unfolding spinning_def e p i by (auto simp: s)
  moreover have "reads_co_maximal ?g (Event 0 4)" by (simp add: reads_co_maximal_def) code_simp
  ultimately obtain rep where "checkLiveness False ?g = Some rep" "rep \<noteq> []"
    using checkLiveness_exact [of ?g] unfolding b by (auto simp: i)
  with b show ?thesis by blast
qed

text \<open>A destroyed barrier is reported with one error and returned with another.\<close>

lemma destroyed_barrier_error:
  assumes "kind r = EL_BIncFaiRead" "\<not> list_ex (\<lambda>p. isInitializer (fst p)) (rfs r)"
    and "getWriteValue_rfs mixer initVal g (rfs r) (access r) = Some (0, rep)"
  shows "checkInitializedMem_read mixer initVal g r = Some (VE_UninitializedMem, rep @ [(position r, VE_AccessFreed)])"
proof -
  have "EL_BIncFaiRead \<noteq> EL_LockCasRead" by code_simp
  then show ?thesis using assms by (simp add: checkInitializedMem_read_def lock_destroyed_def barrier_destroyed_def)
qed

end
