(* ===== verification/ReadOptions.thy ===== *)
theory ReadOptions
  imports DriverChecks RACoherence Symmetry "HOL-Library.Multiset"
begin

text \<open>
  The ways a read can be satisfied (src/src/GenMCDriver.cpp): the stores it may read from, without
  those that violate atomicity, and, for accesses of mixed sizes, the combinations of stores that
  together write all bytes of the read.

  The getter of prefix views stores a view it calculates in the label; the functions here read the
  graph only, so the stored view is not kept. Reading a value may report an error; the reports are
  returned, as in DriverChecks.
\<close>

text \<open>Removing elements and searching with a predicate that may abort and may report.\<close>

fun remove_rep :: "('a \<Rightarrow> (bool \<times> 'r list) option) \<Rightarrow> 'a list \<Rightarrow> ('a list \<times> 'r list) option" where
  "remove_rep P [] = Some ([], [])"
| "remove_rep P (x # xs) =
     do { (b, r) \<leftarrow> P x; (ys, rs) \<leftarrow> remove_rep P xs; Some (if b then ys else x # ys, r @ rs) }"

fun any_rep :: "('a \<Rightarrow> (bool \<times> 'r list) option) \<Rightarrow> 'a list \<Rightarrow> (bool \<times> 'r list) option" where
  "any_rep P [] = Some (False, [])"
| "any_rep P (x # xs) =
     do { (b, r) \<leftarrow> P x;
          if b then Some (True, r) else do { (c, rs) \<leftarrow> any_rep P xs; Some (c, r @ rs) } }"

section \<open>Stores to read from\<close>

definition prefix_of :: "ExecutionGraph \<Rightarrow> Event \<Rightarrow> VectorClock option" where
  "prefix_of g e = map_option fst (driver_getPrefixView e g)"

definition getRfsApproximation :: "bool \<Rightarrow> (AAccess \<Rightarrow> SVal) \<Rightarrow> ExecutionGraph \<Rightarrow> EventLabel \<Rightarrow>
    (Event list \<times> Reports) option" where
  "getRfsApproximation mixer initVal g lab =
     do { rfs \<leftarrow> getCoherentStores mixer g lab;
          if \<not> isCasRead (kind lab) \<and> \<not> isFaiRead (kind lab) then Some (rfs, [])
          else if mixer then Some (rfs, [])
          else do { before \<leftarrow> prefix_of g (position lab);
                    remove_rep (\<lambda>s. do {
                        (oldVal, rep) \<leftarrow> getWriteValue mixer initVal g (Some s) (access lab);
                        Some (if isFaiRead (kind lab) \<and> isStoreReadBySettledRMW g s (getAddr lab) before then True
                              else isCasRead (kind lab) \<and> oldVal = expected lab \<and>
                                isStoreReadBySettledRMW g s (getAddr lab) before, rep) }) rfs } }"

text \<open>Whether a reader of a store is an RMW that succeeds with the value the given read expects.\<close>

definition successful_reader :: "bool \<Rightarrow> (AAccess \<Rightarrow> SVal) \<Rightarrow> ExecutionGraph \<Rightarrow> EventLabel \<Rightarrow> Event \<Rightarrow>
    (bool \<times> Reports) option" where
  "successful_reader mixer initVal g rLab r =
     do { l \<leftarrow> getEventLabel g r;
          if isRMWLoad g l
          then do { (v, rep) \<leftarrow> getReadValue mixer initVal g l;
                    Some (\<not> isCasRead (kind rLab) \<or> v = expected rLab, rep) }
          else Some (False, []) }"

definition filterAtomicityViolations :: "bool \<Rightarrow> (AAccess \<Rightarrow> SVal) \<Rightarrow> ExecutionGraph \<Rightarrow> EventLabel \<Rightarrow> Event list \<Rightarrow>
    (Event list \<times> Reports) option" where
  "filterAtomicityViolations mixer initVal g rLab stores =
     (if \<not> isCasRead (kind rLab) \<and> \<not> isFaiRead (kind rLab) then Some (stores, [])
      else do { BUG_ON mixer;
                remove_rep (\<lambda>s. do { sLab \<leftarrow> getEventLabel g s;
                    any_rep (successful_reader mixer initVal g rLab)
                      (if kind sLab = EL_Init then init_rf_range (label_access g) sLab (access rLab)
                       else rf_succs sLab) }) stores })"

section \<open>Combinations of stores\<close>

text \<open>The coherence successors within an access; the lookups are const and abort on an unknown location.\<close>

definition succs_within :: "ExecutionGraph \<Rightarrow> EventLabel \<Rightarrow> AAccess \<Rightarrow> Event list option" where
  "succs_within g l a =
     do { ws \<leftarrow> stores_at g a; Some (if isWrite (kind l) then co_succ g l a else ws) }"

definition part_consistent :: "ExecutionGraph \<Rightarrow> EventLabel \<Rightarrow> EventLabel \<Rightarrow> AAccess \<Rightarrow> bool option" where
  "part_consistent g rLab l a =
     do { ws \<leftarrow> succs_within g l a;
          s \<leftarrow> find_opt (\<lambda>w. isWriteRfBefore g w (position rLab) a) ws;
          Some (s = None) }"

text \<open>The vector of stores is consumed from the back: the list here starts with the last store.\<close>

fun enumerateRfHelper :: "ExecutionGraph \<Rightarrow> EventLabel \<Rightarrow> SAddr \<Rightarrow> RfsT list \<Rightarrow> Event list \<Rightarrow> RfsT \<Rightarrow> WordFragment \<Rightarrow>
    Event list \<Rightarrow> RfsT list option" where
  "enumerateRfHelper g rLab word options stores current [] mustUse =
     Some (if mustUse = [] then options @ [current] else options)"
| "enumerateRfHelper g rLab word options [] current (b # remaining) mustUse = Some options"
| "enumerateRfHelper g rLab word options (store # stores) current (b # remaining) mustUse =
     do { l \<leftarrow> getEventLabel g store;
          let overlap = (if isWrite (kind l) then getOverlap (access l) (b # remaining) else b # remaining) in
          do { options \<leftarrow> (if overlap = [] then Some options
                 else do { as \<leftarrow> getAccesses word overlap Unsigned;
                           ok \<leftarrow> all_opt (part_consistent g rLab l) as;
                           if ok
                           then enumerateRfHelper g rLab word options stores (current @ map (Pair store) as)
                                  (WordFragment_subtract (b # remaining) overlap) (removeAll store mustUse)
                           else Some options });
               enumerateRfHelper g rLab word options stores current (b # remaining) mustUse } }"

definition enumerateRfOptions :: "ExecutionGraph \<Rightarrow> EventLabel \<Rightarrow> Event list \<Rightarrow> AAccess \<Rightarrow> Event list \<Rightarrow>
    RfsT list option" where
  "enumerateRfOptions g rLab stores a mustUse =
     do { options \<leftarrow> enumerateRfHelper g rLab (SAddr_align (acc_addr a)) [] (rev stores) [] (WordFragment_of a) mustUse;
          Some (rev options) }"

section \<open>Choices of sources\<close>

text \<open>
  A set of stores to read from determines where each byte comes from: from the last store of the
  set that covers the byte. The stores are listed from the last to the first; c says which bytes a
  store covers.
\<close>

definition owner :: "(Event \<Rightarrow> int \<Rightarrow> bool) \<Rightarrow> Event list \<Rightarrow> Event set \<Rightarrow> int \<Rightarrow> Event option" where
  "owner c ss S b = find (\<lambda>s. s \<in> S \<and> c s b) ss"

definition own :: "(Event \<Rightarrow> int \<Rightarrow> bool) \<Rightarrow> Event list \<Rightarrow> Event set \<Rightarrow> int list \<Rightarrow> Event \<Rightarrow> int list" where
  "own c ss S f s = filter (\<lambda>b. owner c ss S b = Some s) f"

definition parts :: "(Event \<Rightarrow> int \<Rightarrow> bool) \<Rightarrow> SAddr \<Rightarrow> Event list \<Rightarrow> Event set \<Rightarrow> int list \<Rightarrow> Event \<Rightarrow> AAccess list" where
  "parts c w ss S f s = access_loop w Unsigned (own c ss S f s)"

definition choice_rfs :: "(Event \<Rightarrow> int \<Rightarrow> bool) \<Rightarrow> SAddr \<Rightarrow> Event list \<Rightarrow> Event set \<Rightarrow> int list \<Rightarrow> RfsT" where
  "choice_rfs c w ss S f = concat (map (\<lambda>s. map (Pair s) (parts c w ss S f s)) (filter (\<lambda>s. s \<in> S) ss))"

text \<open>A choice is valid if it has the stores that must be used, the stores together cover all bytes,
  none of them is superfluous and no part is read against the coherence order.\<close>

definition valid_choice :: "(Event \<Rightarrow> int \<Rightarrow> bool) \<Rightarrow> (Event \<Rightarrow> AAccess \<Rightarrow> bool) \<Rightarrow> SAddr \<Rightarrow> Event list \<Rightarrow>
    int list \<Rightarrow> Event set \<Rightarrow> Event set \<Rightarrow> bool" where
  "valid_choice c ok w ss f M S =
     (M \<subseteq> S \<and> S \<subseteq> set ss \<and> (\<forall>b\<in>set f. \<exists>s\<in>S. c s b) \<and>
      (\<forall>s\<in>S. own c ss S f s \<noteq> [] \<and> (\<forall>a\<in>set (parts c w ss S f s). ok s a)))"

lemma owner_drop: "s \<notin> S \<Longrightarrow> owner c (s # ss) S = owner c ss S"
  by (simp add: owner_def fun_eq_iff)

lemma owner_in: "owner c ss S b = Some s \<Longrightarrow> s \<in> S \<and> s \<in> set ss"
  by (auto simp: owner_def find_Some_iff)

lemma owner_insert:
  "s \<notin> set ss \<Longrightarrow> owner c (s # ss) (insert s S) b = (if c s b then Some s else owner c ss S b)"
  unfolding owner_def by (induction ss) auto

lemma choice_drop:
  assumes "s \<notin> S"
  shows "choice_rfs c w (s # ss) S f = choice_rfs c w ss S f"
    and "valid_choice c ok w (s # ss) f M S = valid_choice c ok w ss f M S"
  using assms owner_drop [OF assms, of c ss]
  by (auto simp: choice_rfs_def valid_choice_def parts_def own_def)

lemma own_insert:
  assumes "s \<notin> set ss" "S \<subseteq> set ss"
  shows "own c (s # ss) (insert s S) f s = filter (c s) f"
    and "t \<in> S \<Longrightarrow> own c (s # ss) (insert s S) f t = own c ss S (filter (\<lambda>b. \<not> c s b) f) t"
proof -
  have "owner c ss S b \<noteq> Some s" for b using owner_in [of c ss S b s] assms by auto
  then show "own c (s # ss) (insert s S) f s = filter (c s) f"
    by (simp add: own_def owner_insert [OF assms(1)])
  assume "t \<in> S"
  then have "t \<noteq> s" using assms by auto
  then show "own c (s # ss) (insert s S) f t = own c ss S (filter (\<lambda>b. \<not> c s b) f) t"
    by (auto simp: own_def owner_insert [OF assms(1)] intro!: filter_cong)
qed

lemma choice_insert:
  assumes "s \<notin> set ss" "S \<subseteq> set ss"
  shows "choice_rfs c w (s # ss) (insert s S) f =
      map (Pair s) (access_loop w Unsigned (filter (c s) f)) @ choice_rfs c w ss S (filter (\<lambda>b. \<not> c s b) f)"
    and "valid_choice c ok w (s # ss) f M (insert s S) =
      (filter (c s) f \<noteq> [] \<and> list_all (ok s) (access_loop w Unsigned (filter (c s) f)) \<and>
       valid_choice c ok w ss (filter (\<lambda>b. \<not> c s b) f) (M - {s}) S)"
proof -
  have "map (\<lambda>t. map (Pair t) (parts c w (s # ss) (insert s S) f t)) (filter (\<lambda>t. t \<in> S) ss) =
      map (\<lambda>t. map (Pair t) (parts c w ss S (filter (\<lambda>b. \<not> c s b) f) t)) (filter (\<lambda>t. t \<in> S) ss)"
    using own_insert(2) [OF assms] by (intro map_cong) (simp_all add: parts_def)
  moreover have "filter (\<lambda>t. t \<in> insert s S) (s # ss) = s # filter (\<lambda>t. t \<in> S) ss"
    using assms(1) by (auto intro!: filter_cong)
  moreover have "parts c w (s # ss) (insert s S) f s = access_loop w Unsigned (filter (c s) f)"
    by (simp add: parts_def own_insert(1) [OF assms])
  ultimately show "choice_rfs c w (s # ss) (insert s S) f =
      map (Pair s) (access_loop w Unsigned (filter (c s) f)) @ choice_rfs c w ss S (filter (\<lambda>b. \<not> c s b) f)"
    by (simp only: choice_rfs_def list.map concat.simps)
  have "s \<notin> S" using assms by auto
  then have "M \<subseteq> insert s S \<longleftrightarrow> M - {s} \<subseteq> S" "insert s S \<subseteq> set (s # ss)" using assms(2) by auto
  then show "valid_choice c ok w (s # ss) f M (insert s S) =
      (filter (c s) f \<noteq> [] \<and> list_all (ok s) (access_loop w Unsigned (filter (c s) f)) \<and>
       valid_choice c ok w ss (filter (\<lambda>b. \<not> c s b) f) (M - {s}) S)"
    using assms(2) by (auto simp: valid_choice_def parts_def own_insert [OF assms] list_all_iff)
qed

text \<open>The choices with and without the first store.\<close>

lemma choices_split:
  assumes d: "s \<notin> set ss"
  shows "{choice_rfs c w (s # ss) S f | S. valid_choice c ok w (s # ss) f M S} =
     (if filter (c s) f \<noteq> [] \<and> list_all (ok s) (access_loop w Unsigned (filter (c s) f))
      then (@) (map (Pair s) (access_loop w Unsigned (filter (c s) f))) `
        {choice_rfs c w ss S (filter (\<lambda>b. \<not> c s b) f) | S. valid_choice c ok w ss (filter (\<lambda>b. \<not> c s b) f) (M - {s}) S}
      else {}) \<union> {choice_rfs c w ss S f | S. valid_choice c ok w ss f M S}" (is "?L = ?R1 \<union> ?R2")
proof (intro equalityI subsetI)
  fix rs assume "rs \<in> ?L"
  then obtain S where S: "rs = choice_rfs c w (s # ss) S f" "valid_choice c ok w (s # ss) f M S" by blast
  show "rs \<in> ?R1 \<union> ?R2"
  proof (cases "s \<in> S")
    case True
    then have i: "insert s (S - {s}) = S" "S - {s} \<subseteq> set ss" using S(2) by (auto simp: valid_choice_def)
    show ?thesis
      using choice_insert(1) [OF d i(2), of c w f] choice_insert(2) [OF d i(2), of c ok w f M] S
      unfolding i(1) by auto
  next
    case False
    then show ?thesis using S choice_drop by auto
  qed
next
  fix rs assume "rs \<in> ?R1 \<union> ?R2"
  then consider
    S where "filter (c s) f \<noteq> [] \<and> list_all (ok s) (access_loop w Unsigned (filter (c s) f))"
      "rs = map (Pair s) (access_loop w Unsigned (filter (c s) f)) @ choice_rfs c w ss S (filter (\<lambda>b. \<not> c s b) f)"
      "valid_choice c ok w ss (filter (\<lambda>b. \<not> c s b) f) (M - {s}) S"
  | S where "rs = choice_rfs c w ss S f" "valid_choice c ok w ss f M S"
    by (auto split: if_splits)
  then show "rs \<in> ?L"
  proof cases
    case (1 S)
    then have i: "S \<subseteq> set ss" by (simp add: valid_choice_def)
    show ?thesis using choice_insert(1) [OF d i, of c w f] choice_insert(2) [OF d i, of c ok w f M] 1
      by (intro CollectI exI [of _ "insert s S"]) simp
  next
    case (2 S)
    then have "s \<notin> S" using d by (auto simp: valid_choice_def)
    then show ?thesis using 2 choice_drop by (intro CollectI exI [of _ S]) simp
  qed
qed

text \<open>The options as a list, in the order of the search.\<close>

fun rf_lists :: "(Event \<Rightarrow> int \<Rightarrow> bool) \<Rightarrow> (Event \<Rightarrow> AAccess \<Rightarrow> bool) \<Rightarrow> SAddr \<Rightarrow> Event list \<Rightarrow> int list \<Rightarrow>
    Event list \<Rightarrow> RfsT list" where
  "rf_lists c ok w ss [] mu = (if mu = [] then [[]] else [])"
| "rf_lists c ok w [] (b # f) mu = []"
| "rf_lists c ok w (s # ss) (b # f) mu =
     (if filter (c s) (b # f) \<noteq> [] \<and> list_all (ok s) (access_loop w Unsigned (filter (c s) (b # f)))
      then map ((@) (map (Pair s) (access_loop w Unsigned (filter (c s) (b # f)))))
             (rf_lists c ok w ss (filter (\<lambda>x. \<not> c s x) (b # f)) (removeAll s mu))
      else []) @ rf_lists c ok w ss (b # f) mu"

lemma rf_lists_set:
  assumes "distinct ss"
  shows "set (rf_lists c ok w ss f mu) = {choice_rfs c w ss S f | S. valid_choice c ok w ss f (set mu) S}"
  using assms
proof (induction c ok w ss f mu rule: rf_lists.induct)
  case (1 c ok w ss mu)
  have "valid_choice c ok w ss [] (set mu) S \<longleftrightarrow> S = {} \<and> mu = []" for S
    by (auto simp: valid_choice_def own_def)
  then show ?case by (auto simp: choice_rfs_def)
next
  case (2 c ok w b f mu)
  then show ?case by (auto simp: valid_choice_def)
next
  case (3 c ok w s ss b f mu)
  have d: "s \<notin> set ss" "distinct ss" using 3(3) by simp_all
  show ?case
    unfolding choices_split [OF d(1), of c w "b # f" ok "set mu"]
    using 3(1,2) d(2) by (simp del: filter.simps access_loop.simps)
qed

text \<open>An option tells which stores were chosen, so that no option occurs twice.\<close>

lemma rf_lists_stores: "rs \<in> set (rf_lists c ok w ss f mu) \<Longrightarrow> fst ` set rs \<subseteq> set ss"
proof (induction c ok w ss f mu arbitrary: rs rule: rf_lists.induct)
  case (3 c ok w s ss b f mu)
  let ?A = "map (Pair s) (access_loop w Unsigned (filter (c s) (b # f)))"
  from 3(3) consider "rs \<in> set (rf_lists c ok w ss (b # f) mu)"
    | r where "filter (c s) (b # f) \<noteq> [] \<and> list_all (ok s) (access_loop w Unsigned (filter (c s) (b # f)))"
      "rs = ?A @ r" "r \<in> set (rf_lists c ok w ss (filter (\<lambda>x. \<not> c s x) (b # f)) (removeAll s mu))"
    by (auto simp del: filter.simps access_loop.simps split: if_splits)
  then show ?case
  proof cases
    case 1
    then show ?thesis using 3(2) by (simp add: subset_insertI2)
  next
    case (2 r)
    have A: "fst ` set (map (Pair s) as) \<subseteq> {s}" for as :: "AAccess list" by auto
    have "X = Y \<union> Z \<Longrightarrow> Y \<subseteq> {s} \<Longrightarrow> Z \<subseteq> set ss \<Longrightarrow> X \<subseteq> set (s # ss)" for X Y Z by auto
    moreover have "fst ` set rs = fst ` set ?A \<union> fst ` set r" by (simp only: 2(2) set_append image_Un)
    ultimately show ?thesis using A 3(1) [OF 2(1,3)] by (metis (no_types))
  qed
qed (auto split: if_splits)

lemma distinct_rf_lists: "distinct ss \<Longrightarrow> distinct (rf_lists c ok w ss f mu)"
proof (induction c ok w ss f mu rule: rf_lists.induct)
  case (3 c ok w s ss b f mu)
  have "s \<in> fst ` set (map (Pair s) (access_loop w Unsigned f') @ rs)" if "f' \<noteq> []" for f' rs
    using that by (cases f') auto
  then have n: "map (Pair s) (access_loop w Unsigned f') @ rs \<notin> set (rf_lists c ok w ss (b # f) mu)"
    if "f' \<noteq> []" for f' rs
    using that rf_lists_stores [of _ c ok w ss "b # f" mu] 3(3) by (meson distinct.simps(2) subsetD)
  have d: "distinct ss" using 3(3) by simp
  show ?case
  proof (cases "filter (c s) (b # f) \<noteq> [] \<and> list_all (ok s) (access_loop w Unsigned (filter (c s) (b # f)))")
    case True
    note IH = 3(1) [OF True d] 3(2) [OF d]
    have "distinct (map ((@) as) xs @ ys)" if "distinct xs" "distinct ys" "\<And>r. as @ r \<notin> set ys"
      for as and xs ys :: "RfsT list" using that by (auto simp: distinct_map inj_on_def)
    then show ?thesis using IH n True unfolding rf_lists.simps if_P [OF True] by blast
  next
    case False
    then show ?thesis using 3(2) [OF d] unfolding rf_lists.simps if_not_P [OF False] by simp
  qed
qed simp_all

section \<open>The search computes the valid choices\<close>

text \<open>Which bytes of the word a store covers, and that no coherence successor of the store within a part
  is (rf?;hb)-before the read.\<close>

definition covers :: "ExecutionGraph \<Rightarrow> Event \<Rightarrow> int \<Rightarrow> bool" where
  "covers g s b = label_is (\<lambda>l. \<not> isWrite (kind l) \<or> b \<in> set (WordFragment_of (access l))) g s"

definition seen_within :: "ExecutionGraph \<Rightarrow> EventLabel \<Rightarrow> AAccess \<Rightarrow> Event \<Rightarrow> bool" where
  "seen_within g rLab a w = (View_contains (label_view rLab 0) w \<or>
     (\<exists>r\<in>set (readers_of g w). label_is (\<lambda>l. AAccess_overlaps (access l) a) g r \<and>
        View_contains (label_view rLab 0) r))"

definition not_stale :: "ExecutionGraph \<Rightarrow> EventLabel \<Rightarrow> Event \<Rightarrow> AAccess \<Rightarrow> bool" where
  "not_stale g rLab s a = label_is (\<lambda>l. \<forall>w\<in>set (if isWrite (kind l) then co_succ g l a else co_range g a).
     \<not> seen_within g rLab a w) g s"

lemma part_consistent_total:
  assumes g: "co_ready g" "getEventLabel g (position rLab) = Some rLab" and s: "getEventLabel g s = Some l"
    and a: "map_of (coherence g) (getBucket (acc_addr a)) \<noteq> None"
  shows "part_consistent g rLab l a = Some (not_stale g rLab s a)"
proof -
  define ws where "ws = (if isWrite (kind l) then co_succ g l a else co_range g a)"
  have "set ws \<subseteq> set (getStoresToLoc g (getAddr l)) \<union> set (getStoresToLoc g (acc_addr a))"
  proof -
    have tl: "set (tl xs) \<subseteq> set xs" for xs :: "Event list" by (cases xs) auto
    have "set (tl (filter P (dropWhile Q xs))) \<subseteq> set xs" for P Q and xs :: "Event list"
      by (rule subset_trans [OF tl]) (auto dest: set_dropWhileD)
    then show ?thesis unfolding ws_def co_succ_def co_range_def overlap_filter_def
      by (simp add: le_supI1 le_supI2)
  qed
  then have "isWriteRfBefore g w (position rLab) a = Some (seen_within g rLab a w)" if "w \<in> set ws" for w
    using stores_facts(2) [OF g(1), of w] that g(2)
    by (fastforce simp: isWriteRfBefore_def seen_within_def readers_of_def BUG_ON_def list_ex_iff)
  then have "find_opt (\<lambda>w. isWriteRfBefore g w (position rLab) a) ws = Some (find (seen_within g rLab a) ws)"
    by (intro find_opt_total) simp
  moreover have "succs_within g l a = Some ws"
    using a by (auto simp: succs_within_def stores_at_def getStoresToLoc_const_def ws_def)
  ultimately show ?thesis
    using s by (auto simp: part_consistent_def not_stale_def label_is_def find_None_iff ws_def [symmetric])
qed

lemma overlap_covers:
  assumes "ssorted f" "getEventLabel g s = Some l"
  shows "(if isWrite (kind l) then getOverlap (access l) f else f) = filter (covers g s) f"
proof (cases "isWrite (kind l)")
  case True
  have "ssorted (getOverlap (access l) f)"
    unfolding getOverlap_def WordFragment_intersect_def WordFragment_of_def map_upt_upto
    by (intro sorted_wrt_filter) simp
  moreover have "ssorted (filter (covers g s) f)" using assms(1) by (rule sorted_wrt_filter)
  moreover have "set (getOverlap (access l) f) = set (filter (covers g s) f)"
    using True assms(2) by (auto simp: getOverlap_def WordFragment_intersect_def covers_def label_is_def)
  ultimately show ?thesis using True by (simp add: strict_sorted_equal)
next
  case False
  then show ?thesis using assms(2) by (simp add: covers_def [abs_def] label_is_def)
qed

lemma aligned_plus:
  assumes "w = SAddr_align w" "0 \<le> b" "b < 8"
  shows "SAddr_align (SAddr_plus w (word_of_int b)) = w"
proof -
  have w8: "uint w mod 8 = 0" using assms(1) SAddr_align_iff by blast
  moreover have "uint w \<le> 2 ^ 64 - 1" using uint_lt2p [of w] by simp
  ultimately have "uint w + 8 \<le> 2 ^ 64" by (simp, presburger)
  then have "uint (SAddr_plus w (word_of_int b)) = uint w + b"
    using assms(2,3) by (simp add: SAddr_plus_def uint_word_ariths unsigned_ucast_eq uint_word_of_int take_bit_eq_mod)
  then show ?thesis using w8 assms(2,3) by (simp add: word_uint_eq_iff SAddr_align_uint) presburger
qed

lemma access_loop_aligned:
  "w = SAddr_align w \<Longrightarrow> set f \<subseteq> {0..<8} \<Longrightarrow> a \<in> set (access_loop w ty f) \<Longrightarrow> SAddr_align (acc_addr a) = w"
proof (induction w ty f rule: access_loop.induct)
  case (2 w ty beg it)
  have "set (snd (run_loop beg n it)) \<subseteq> set it" for n
    by (induction beg n it rule: run_loop.induct) auto
  then show ?case using 2 aligned_plus [of w beg] by auto
qed simp

lemma enumerateRfHelper_lists:
  assumes g: "co_ready g" "getEventLabel g (position rLab) = Some rLab"
    and w: "w = SAddr_align w" "map_of (coherence g) w \<noteq> None"
    and ss: "\<forall>s\<in>set ss. containsPos g s" and f: "ssorted f" "set f \<subseteq> {0..<8}"
  shows "enumerateRfHelper g rLab w options ss cur f mu =
     Some (options @ map ((@) cur) (rf_lists (covers g) (not_stale g rLab) w ss f mu))"
  using w ss f
proof (induction "covers g" "not_stale g rLab" w ss f mu arbitrary: options cur rule: rf_lists.induct)
  case (3 w s ss b f mu)
  let ?f = "b # f" let ?o = "filter (covers g s) (b # f)"
  obtain l where l: "getEventLabel g s = Some l" using 3(5) by (auto simp: getEventLabel_def)
  have sub: "set ?o \<subseteq> {0..<8}" using 3(7) by auto
  have "\<forall>a\<in>set (access_loop w Unsigned ?o). part_consistent g rLab l a = Some (not_stale g rLab s a)"
    using access_loop_aligned [OF 3(3) sub] part_consistent_total [OF g l] 3(4) by (simp add: getBucket_def)
  then have "all_opt (part_consistent g rLab l) (access_loop w Unsigned ?o) =
      Some (list_all (not_stale g rLab s) (access_loop w Unsigned ?o))"
    by (rule all_opt_total)
  moreover have "WordFragment_subtract ?f ?o = filter (\<lambda>x. \<not> covers g s x) ?f"
    unfolding WordFragment_subtract_def by (rule filter_cong) auto
  moreover have "ssorted (filter (\<lambda>x. \<not> covers g s x) ?f)" using 3(6) by (rule sorted_wrt_filter)
  moreover have "set (filter (\<lambda>x. \<not> covers g s x) ?f) \<subseteq> {0..<8}" using 3(7) by auto
  ultimately show ?case
    using 3 l overlap_covers [OF 3(6) l]
    by (simp del: filter.simps access_loop.simps add: getAccesses_def BUG_ON_def Let_def)
qed simp_all

lemma rf_lists_bytes:
  assumes "w = SAddr_align w" "ssorted f" "set f \<subseteq> {0..<8}" "rs \<in> set (rf_lists c ok w ss f mu)"
  shows "mset (concat (map (WordFragment_of \<circ> snd) rs)) = mset f \<and> set mu \<subseteq> fst ` set rs \<and>
     (\<forall>(s, p)\<in>set rs. \<forall>b\<in>set (WordFragment_of p). c s b)"
  using assms
proof (induction c ok w ss f mu arbitrary: rs rule: rf_lists.induct)
  case (3 c ok w s ss b f mu)
  define ov where "ov = filter (c s) (b # f)"
  define r where "r = filter (\<lambda>x. \<not> c s x) (b # f)"
  define as where "as = access_loop w Unsigned ov"
  note rl = rf_lists.simps(3) [of c ok w s ss b f mu, folded ov_def r_def as_def]
  note IH = 3(1) [folded ov_def r_def as_def]
  have so: "ssorted ov" "ssorted r" unfolding ov_def r_def by (rule sorted_wrt_filter [OF 3(4)])+
  have su: "set ov \<subseteq> {0..<8}" "set r \<subseteq> {0..<8}" unfolding ov_def r_def using 3(5) by auto
  have as: "concat (map WordFragment_of as) = ov" using access_loop_covers [OF 3(3) so(1) su(1)] by (simp add: as_def)
  have m: "mset (b # f) = mset ov + mset r" unfolding ov_def r_def by (induction "b # f") auto
  show ?case
  proof (cases "rs \<in> set (rf_lists c ok w ss (b # f) mu)")
    case True
    then show ?thesis using 3(2) [OF 3(3,4,5)] by blast
  next
    case False
    then obtain rs' where k: "ov \<noteq> [] \<and> list_all (ok s) as" "rs = map (Pair s) as @ rs'"
        "rs' \<in> set (rf_lists c ok w ss r (removeAll s mu))"
      using 3(6) unfolding rl by (auto split: if_splits)
    note IH' = IH [OF k(1) 3(3) so(2) su(2) k(3)]
    have "as \<noteq> []" using k(1) as by auto
    then have "s \<in> fst ` set rs" using k(2) by (cases as) auto
    then have "set mu \<subseteq> fst ` set rs" using IH' k(2) by auto
    moreover have "map (WordFragment_of \<circ> snd) (map (Pair s) as) = map WordFragment_of as" by simp
    then have "mset (concat (map (WordFragment_of \<circ> snd) rs)) = mset (b # f)"
      using IH' as unfolding k(2) map_append concat_append mset_append m by metis
    moreover have "\<forall>p\<in>set as. \<forall>x\<in>set (WordFragment_of p). c s x"
    proof -
      have "set (WordFragment_of p) \<subseteq> set ov" if "p \<in> set as" for p using that unfolding as [symmetric] by auto
      moreover have "\<forall>x\<in>set ov. c s x" unfolding ov_def set_filter by blast
      ultimately show ?thesis by blast
    qed
    then have "\<forall>(s, p)\<in>set rs. \<forall>x\<in>set (WordFragment_of p). c s x" using IH' k(2) by auto
    ultimately show ?thesis by blast
  qed
qed (auto split: if_splits)

section \<open>Properties\<close>

lemma WordFragment_of_sorted: "ssorted (WordFragment_of a)"
  unfolding WordFragment_of_def map_upt_upto by simp

text \<open>The hypotheses of the two properties: the coherence lists are in order, the read is in the graph,
  its location is tracked, and the stores are labels of the graph.\<close>

definition rf_ready :: "ExecutionGraph \<Rightarrow> EventLabel \<Rightarrow> Event list \<Rightarrow> bool" where
  "rf_ready g rLab stores = (co_ready g \<and> getEventLabel g (position rLab) = Some rLab \<and>
     map_of (coherence g) (SAddr_align (getAddr rLab)) \<noteq> None \<and>
     set (WordFragment_of (access rLab)) \<subseteq> {0..<8} \<and> (\<forall>s\<in>set stores. containsPos g s) \<and> distinct stores)"

lemma enumerateRfOptions_lists:
  assumes "rf_ready g rLab stores"
  shows "enumerateRfOptions g rLab stores (access rLab) mu =
     Some (rev (rf_lists (covers g) (not_stale g rLab) (SAddr_align (getAddr rLab)) (rev stores) (WordFragment_of (access rLab)) mu))"
proof -
  have "SAddr_align (getAddr rLab) = SAddr_align (SAddr_align (getAddr rLab))"
    unfolding SAddr_align_iff by (simp add: SAddr_align_uint)
  then show ?thesis
    using assms enumerateRfHelper_lists [of g rLab "SAddr_align (getAddr rLab)" "rev stores" "WordFragment_of (access rLab)" "[]" "[]" mu]
      WordFragment_of_sorted [of "access rLab"]
    by (simp add: enumerateRfOptions_def rf_ready_def getAddr_def map_idI)
qed

text \<open>C9. The ways to satisfy a read are enumerated exactly: the options of enumerateRfOptions are, each
  once, the valid choices of a set of stores, where a byte is read from the last chosen store that
  covers it, every chosen store is read from, the stores that must be used are chosen, and no part is
  read from a store that the read already knows to be overwritten.\<close>

theorem enumerateRfOptions_exact:
  assumes "rf_ready g rLab stores"
  shows "\<exists>opts. enumerateRfOptions g rLab stores (access rLab) mu = Some opts \<and> distinct opts \<and>
     set opts = {choice_rfs (covers g) (SAddr_align (getAddr rLab)) (rev stores) S (WordFragment_of (access rLab)) | S.
       valid_choice (covers g) (not_stale g rLab) (SAddr_align (getAddr rLab)) (rev stores)
         (WordFragment_of (access rLab)) (set mu) S}"
proof -
  have "distinct (rev stores)" using assms by (simp add: rf_ready_def)
  then show ?thesis
    using enumerateRfOptions_lists [OF assms, of mu] rf_lists_set distinct_rf_lists by (simp del: set_rev add: set_rev)
qed

text \<open>C19. Every option of enumerateRfOptions reads each byte of the access exactly once, each part from a
  store that covers it, and reads from all stores that must be used.\<close>

theorem enumerateRfOptions_bytes:
  assumes "rf_ready g rLab stores"
  shows "\<exists>opts. enumerateRfOptions g rLab stores (access rLab) mu = Some opts \<and>
     (\<forall>rs\<in>set opts. mset (concat (map (WordFragment_of \<circ> snd) rs)) = mset (WordFragment_of (access rLab)) \<and>
        set mu \<subseteq> fst ` set rs \<and>
        (\<forall>(s, p)\<in>set rs. s \<in> set stores \<and> (\<forall>b\<in>set (WordFragment_of p). covers g s b)))"
proof -
  define w where "w = SAddr_align (getAddr rLab)"
  define L where "L = rf_lists (covers g) (not_stale g rLab) w (rev stores) (WordFragment_of (access rLab)) mu"
  have w: "w = SAddr_align w" unfolding SAddr_align_iff by (simp add: w_def SAddr_align_uint)
  have f: "set (WordFragment_of (access rLab)) \<subseteq> {0..<8}" using assms by (simp add: rf_ready_def)
  have "mset (concat (map (WordFragment_of \<circ> snd) rs)) = mset (WordFragment_of (access rLab)) \<and>
        set mu \<subseteq> fst ` set rs \<and> (\<forall>(s, p)\<in>set rs. s \<in> set stores \<and> (\<forall>b\<in>set (WordFragment_of p). covers g s b))"
    if "rs \<in> set L" for rs
    using rf_lists_bytes [OF w WordFragment_of_sorted f that [unfolded L_def]] rf_lists_stores [OF that [unfolded L_def]]
    by (simp add: split_beta image_subset_iff)
  then show ?thesis using enumerateRfOptions_lists [OF assms, of mu] by (simp add: L_def w_def)
qed

text \<open>A read of eight bytes and two stores of four bytes each.\<close>

definition mixed_access :: "SAddr \<Rightarrow> ASize \<Rightarrow> AAccess" where
  "mixed_access a n = \<lparr>acc_addr = a, acc_size = n, acc_type = Unsigned\<rparr>"

definition mixed_read :: EventLabel where
  "mixed_read = ReadLabel EL_Read (Event 0 3) Monotonic (mixed_access 8 8) None EventDeps_empty"

definition mixed_write :: "int \<Rightarrow> SAddr \<Rightarrow> EventLabel" where
  "mixed_write i a = WriteLabel EL_Write (Event 0 i) Monotonic (mixed_access a 4) 1 WA_None EventDeps_empty"

definition mixed_graph :: ExecutionGraph where
  "mixed_graph = \<lparr>events = [[InitLabel, mixed_write 1 8, mixed_write 2 12, mixed_read]],
     timestamp = 0, coherence = [(8, [Event 0 1, Event 0 2])], recoveryTID = -1\<rparr>"

lemma mixed_label:
  "getEventLabel mixed_graph e =
     (if e = Event 0 0 then Some InitLabel else if e = Event 0 1 then Some (mixed_write 1 8)
      else if e = Event 0 2 then Some (mixed_write 2 12) else if e = Event 0 3 then Some mixed_read else None)"
  by (cases e) (auto simp: mixed_graph_def getEventLabel_def containsPos_iff nth_Cons' nat_eq_iff2)

lemma mixed_fields [simp]:
  "position InitLabel = Event 0 0" "position (mixed_write i a) = Event 0 i" "position mixed_read = Event 0 3"
  "access (mixed_write i a) = mixed_access a 4" "kind (mixed_write i a) = EL_Write" "getAddr (mixed_write i a) = a"
  "getAddr mixed_read = 8" "access mixed_read = mixed_access 8 8"
  by (simp_all add: InitLabel_def mixed_write_def WriteLabel_def mixed_read_def ReadLabel_def MemAccessLabel_def
      EventLabel_new_def getInit_def getAddr_def mixed_access_def)

lemma mixed_ready: "rf_ready mixed_graph mixed_read [Event 0 0, Event 0 1, Event 0 2]"
proof -
  have co: "coherence mixed_graph = [(8, [Event 0 1, Event 0 2])]" by (simp add: mixed_graph_def)
  have iw: "isWrite EL_Write" by code_simp
  have al: "SAddr_align 12 = 8" by (simp add: SAddr_align_def wordSize_def)
  have "co_ready mixed_graph"
    unfolding co_ready_def co_wf_def labels_placed_def label_is_def mixed_label co
    by (simp add: iw al getBucket_def)
  moreover have "set (WordFragment_of (mixed_access 8 8)) \<subseteq> {0..<8}"
    by (auto simp: WordFragment_of_def mixed_access_def getByte_eq)
  moreover have "containsPos mixed_graph (Event 0 i)" if "i \<in> {0, 1, 2}" for i
    using that mixed_label [of "Event 0 i"] by (auto simp: getEventLabel_def split: if_splits)
  ultimately show ?thesis by (simp add: rf_ready_def mixed_label co)
qed

theorem enumerateRfOptions_exact_witness:
  "\<exists>opts. enumerateRfOptions mixed_graph mixed_read [Event 0 0, Event 0 1, Event 0 2] (mixed_access 8 8) [Event 0 1] = Some opts \<and>
     distinct opts \<and> set opts =
     {choice_rfs (covers mixed_graph) 8 [Event 0 2, Event 0 1, Event 0 0] S (WordFragment_of (mixed_access 8 8)) | S.
       valid_choice (covers mixed_graph) (not_stale mixed_graph mixed_read) 8 [Event 0 2, Event 0 1, Event 0 0]
         (WordFragment_of (mixed_access 8 8)) {Event 0 1} S}"
  using enumerateRfOptions_exact [OF mixed_ready, of "[Event 0 1]"] by simp

theorem enumerateRfOptions_bytes_witness:
  "\<exists>opts. enumerateRfOptions mixed_graph mixed_read [Event 0 0, Event 0 1, Event 0 2] (mixed_access 8 8) [Event 0 1] = Some opts \<and>
     (\<forall>rs\<in>set opts. mset (concat (map (WordFragment_of \<circ> snd) rs)) = mset [0 .. 7] \<and> Event 0 1 \<in> fst ` set rs)"
proof -
  have "WordFragment_of (mixed_access 8 8) = [0 .. 7]"
    by (simp add: WordFragment_of_def mixed_access_def getByte_eq map_upt_upto [of 0 8, simplified])
  then show ?thesis using enumerateRfOptions_bytes [OF mixed_ready, of "[Event 0 1]"] by auto
qed

end
