(* ===== verification/Revisiting.thy ===== *)
theory Revisiting
  imports ReadOptions
begin

text \<open>
  Backward revisits (src/src/GenMCDriver.cpp): the view of a revisit, its construction, the sets of
  stores to keep, and the test that a revisit only deletes events that were added maximally.

  The graphs are those without dependency tracking, so the cast to a graph with dependency tracking
  in updatePredsWithPrefixView fails and the clocks are plain views; the functions keep the flag
  isDepTrackingModel of the configuration, with a null dereference where a cast to DepView fails.
  The flags of the configuration are arguments. A pointer to a label is its position.
\<close>

section \<open>Views of revisits\<close>

definition updatePredsWithPrefixView :: "VectorClock \<Rightarrow> VectorClock \<Rightarrow> VectorClock option" where
  "updatePredsWithPrefixView preds pporf = VectorClock_update preds pporf"

definition add_prefix :: "ExecutionGraph \<Rightarrow> VectorClock \<Rightarrow> Event \<Rightarrow> VectorClock option" where
  "add_prefix g preds e = do { pporf \<leftarrow> prefix_of g e; updatePredsWithPrefixView preds pporf }"

definition getRevisitView :: "ExecutionGraph \<Rightarrow> Event \<Rightarrow> Event \<Rightarrow> Event option \<Rightarrow> Event list \<Rightarrow> VectorClock option" where
  "getRevisitView g rLab sLab midLab keepSet =
     do { preds \<leftarrow> getPredsView g rLab;
          preds \<leftarrow> add_prefix g (VC_View preds) sLab;
          preds \<leftarrow> try_fold (add_prefix g) keepSet preds;
          (case midLab of None \<Rightarrow> Some preds | Some m \<Rightarrow> add_prefix g preds m) }"

section \<open>Construction\<close>

text \<open>The store of a conflicting read-modify-write that blocks revisits, or the initializer.\<close>

definition pending_blocker :: "ExecutionGraph \<Rightarrow> EventLabel \<Rightarrow> Event option" where
  "pending_blocker g sLab =
     do { pending \<leftarrow> getPendingRMW g sLab;
          if isInitializer pending then Some getInit
          else do { pLab \<leftarrow> getNextLabel g pending;
                    BUG_ON (\<not> isWrite (kind pLab));
                    Some (if hasAttr WA_RevBlocker pLab then Event_next pending else getInit) } }"

definition stamp_of :: "ExecutionGraph \<Rightarrow> Event \<Rightarrow> Stamp option" where
  "stamp_of g e = do { l \<leftarrow> getEventLabel g e; getStamp l }"

definition constructBackwardRevisit :: "bool \<Rightarrow> bool \<Rightarrow> ExecutionGraph \<Rightarrow> Event \<Rightarrow> Event \<Rightarrow> RfsT \<Rightarrow> Event list \<Rightarrow>
    Revisit option" where
  "constructBackwardRevisit mixer helper g r s rs keepSet =
     (if mixer then do { v \<leftarrow> getRevisitView g r s None keepSet; Some (BackwardRevisitMIXER r s v rs) }
      else if \<not> helper then do { v \<leftarrow> getRevisitView g r s None []; Some (BackwardRevisit r s v) }
      else do { sLab \<leftarrow> getEventLabel g s;
                pending \<leftarrow> pending_blocker g sLab;
                prefix \<leftarrow> prefix_of g s;
                conflict \<leftarrow> (if isInitializer pending then Some False
                  else do { pv \<leftarrow> prefix_of g pending; u \<leftarrow> stamp_of g r; ps \<leftarrow> stamp_of g pending;
                            Some (\<not> VectorClock_contains pv r \<and> u < ps \<and> \<not> VectorClock_contains prefix pending) });
                if conflict
                then do { m \<leftarrow> getWriteLabel g pending;
                          v \<leftarrow> getRevisitView g r s (Some (position m)) [];
                          Some (BackwardRevisitHELPER r s v pending) }
                else do { v \<leftarrow> getRevisitView g r s None []; Some (BackwardRevisit r s v) } })"

section \<open>Maximal extensions\<close>

text \<open>The revisit is given with its position, its store, its view and, for the helper, its middle store.\<close>

definition prefixContainsMatchingLock :: "ExecutionGraph \<Rightarrow> Revisit \<Rightarrow> EventLabel \<Rightarrow> bool option" where
  "prefixContainsMatchingLock g r lab =
     (if kind lab \<noteq> EL_UnlockWrite then Some False
      else do { l \<leftarrow> getMatchingLock g (position lab);
                if isInitializer l then Some False
                else do { rev \<leftarrow> Revisit_getRev r; wLab \<leftarrow> getWriteLabel g rev; v \<leftarrow> prefix_of g (position wLab);
                          if VectorClock_contains v l then Some True
                          else (case Revisit_getMid r of
                                  None \<Rightarrow> Some False
                                | Some m \<Rightarrow> do { mLab \<leftarrow> getWriteLabel g m; mv \<leftarrow> prefix_of g (position mLab);
                                                Some (VectorClock_contains mv l) }) } })"

definition hole_events :: "DepView \<Rightarrow> Event list" where
  "hole_events v = filter (DepView_contains v)
     [Event (int i) j. i \<leftarrow> [0..<length (dview v)], j \<leftarrow> [0 .. DepView_getMax v (int i)]]"

definition isFixedHoleInView :: "ExecutionGraph \<Rightarrow> EventLabel \<Rightarrow> DepView \<Rightarrow> bool option" where
  "isFixedHoleInView g lab v =
     (if isWrite (kind lab) then Some (list_ex (DepView_contains v) (readerList lab))
      else if \<not> isRead (kind lab) then Some False
      else do { same \<leftarrow> find_opt (\<lambda>e. do { l \<leftarrow> getEventLabel g e;
                    Some (isRead (kind l) \<and> getAddr l = getAddr lab \<and> getRf l = getRf lab) }) (hole_events v);
                if same \<noteq> None then Some True
                else if isRMWLoad g lab
                then do { wLab \<leftarrow> getWriteLabel g (Event_next (position lab));
                          Some (list_ex (DepView_contains v) (readerList wLab)) }
                else Some False })"

fun as_DepView :: "VectorClock \<Rightarrow> DepView option" where
  "as_DepView (VC_View v) = None"
| "as_DepView (VC_DepView v) = Some v"

definition fixed_in_prefix :: "ExecutionGraph \<Rightarrow> EventLabel \<Rightarrow> Event \<Rightarrow> bool option" where
  "fixed_in_prefix g lab e =
     do { w \<leftarrow> prefix_of g e; v \<leftarrow> as_DepView w;
          if getIndex lab \<le> DepView_getMax v (getThread lab) then isFixedHoleInView g lab v else Some False }"

definition prefixContainsSameLoc :: "bool \<Rightarrow> bool \<Rightarrow> ExecutionGraph \<Rightarrow> Revisit \<Rightarrow> EventLabel \<Rightarrow> bool option" where
  "prefixContainsSameLoc mixer dep g r lab =
     (if \<not> dep then Some False
      else do { BUG_ON mixer;
                rev \<leftarrow> Revisit_getRev r;
                b \<leftarrow> fixed_in_prefix g lab rev;
                if b then Some True
                else (case Revisit_getMid r of None \<Rightarrow> Some False | Some m \<Rightarrow> fixed_in_prefix g lab m) })"

definition any_opt :: "('a \<Rightarrow> bool option) \<Rightarrow> 'a list \<Rightarrow> bool option" where
  "any_opt P xs = do { r \<leftarrow> find_opt P xs; Some (r \<noteq> None) }"

definition hasBeenRevisitedByDeleted :: "bool \<Rightarrow> bool \<Rightarrow> ExecutionGraph \<Rightarrow> Revisit \<Rightarrow> EventLabel \<Rightarrow> bool option" where
  "hasBeenRevisitedByDeleted mixer dep g r lab =
     (if \<not> isRead (kind lab) \<or> ipr lab then Some False
      else do { v \<leftarrow> Revisit_getView r;
                any_opt (\<lambda>p. do { wLab \<leftarrow> getEventLabel g (fst p);
                  if VectorClock_contains v (position wLab) then Some False
                  else do { ws \<leftarrow> getStamp wLab; s \<leftarrow> getStamp lab;
                            if ws > s then do { b \<leftarrow> prefixContainsSameLoc mixer dep g r wLab; Some (\<not> b) }
                            else Some False } }) (rfs lab) })"

definition isCoBeforeSavedPrefix :: "bool \<Rightarrow> ExecutionGraph \<Rightarrow> Revisit \<Rightarrow> EventLabel \<Rightarrow> bool option" where
  "isCoBeforeSavedPrefix dep g r lab =
     (if \<not> isMemAccess (kind lab) then Some False
      else do { v \<leftarrow> Revisit_getView r; rev \<leftarrow> Revisit_getRev r;
                any_opt (\<lambda>(w, a). do { wLab \<leftarrow> getEventLabel g w;
                    succs \<leftarrow> succs_within g wLab a;
                    any_opt (\<lambda>s. if \<not> VectorClock_contains v s then Some False
                        else do { far \<leftarrow> (if \<not> dep then Some True
                                    else do { sv \<leftarrow> prefix_of g s; Some (getIndex lab > VectorClock_getMax sv (getThread lab)) });
                                  Some (far \<and> s \<noteq> rev) }) succs })
                  (if isRead (kind lab) then rfs lab else [(position lab, access lab)]) })"

definition coherenceSuccRemainInGraph :: "ExecutionGraph \<Rightarrow> Revisit \<Rightarrow> bool option" where
  "coherenceSuccRemainInGraph g r =
     do { rev \<leftarrow> Revisit_getRev r; wLab \<leftarrow> getWriteLabel g rev;
          if isRMWStore wLab then Some True
          else (case co_succ g wLab (access wLab) of [] \<Rightarrow> Some True
                | s # _ \<Rightarrow> do { v \<leftarrow> Revisit_getView r; Some (VectorClock_contains v s) }) }"

definition wasAddedMaximally :: "EventLabel \<Rightarrow> bool" where
  "wasAddedMaximally lab =
     (if isMemAccess (kind lab) then maximal lab else if kind lab = EL_Optional then \<not> expanded lab else True)"

definition isMaximalExtension :: "bool \<Rightarrow> bool \<Rightarrow> ExecutionGraph \<Rightarrow> Revisit \<Rightarrow> bool option" where
  "isMaximalExtension mixer dep g r =
     do { c \<leftarrow> coherenceSuccRemainInGraph g r;
          if \<not> c then Some False
          else do { v \<leftarrow> Revisit_getView r;
            if (case r of BackwardRevisitMIXER p s w rs \<Rightarrow> list_ex (\<lambda>q. \<not> VectorClock_contains v (fst q)) rs | _ \<Rightarrow> False)
            then Some False
            else all_opt (\<lambda>lab. do {
                skip \<leftarrow> (if position lab \<noteq> Revisit_getPos r \<and> VectorClock_contains v (position lab) then Some True
                         else prefixContainsSameLoc mixer dep g r lab);
                if skip then Some True
                else if \<not> wasAddedMaximally lab then Some False
                else do { b \<leftarrow> isCoBeforeSavedPrefix dep g r lab;
                          if b then Some False
                          else do { d \<leftarrow> hasBeenRevisitedByDeleted mixer dep g r lab; Some (\<not> d) } } }) (graph_labels g) } }"

text \<open>Whether the revisit deletes anything but a final blocking or finishing label of a thread.\<close>

definition thread_modified :: "bool \<Rightarrow> ExecutionGraph \<Rightarrow> VectorClock \<Rightarrow> nat \<Rightarrow> bool option" where
  "thread_modified dep g v i =
     do { m \<leftarrow> (if VectorClock_getMax v (int i) + 1 \<noteq> int (getThreadSize g (int i))
               then do { l \<leftarrow> getEventLabel g (Event (int i) (VectorClock_getMax v (int i) + 1)); Some (\<not> isTerminator (kind l)) }
               else Some False);
          Some (m \<or> dep \<and> list_ex (\<lambda>l. \<not> VectorClock_contains v (position l) \<and> kind l \<noteq> EL_Empty \<and> \<not> isTerminator (kind l))
                  (events g ! i)) }"

definition revisitModifiesGraph :: "bool \<Rightarrow> ExecutionGraph \<Rightarrow> Revisit \<Rightarrow> bool option" where
  "revisitModifiesGraph dep g r =
     do { v \<leftarrow> Revisit_getView r; any_opt (thread_modified dep g v) [0..<getNumThreads g] }"

section \<open>Sets of stores to keep\<close>

fun VectorClock_setMax :: "VectorClock \<Rightarrow> Event \<Rightarrow> VectorClock option" where
  "VectorClock_setMax (VC_View v) e = Some (VC_View (View_setMax v e))"
| "VectorClock_setMax (VC_DepView v) e = map_option VC_DepView (DepView_setMax v e)"

text \<open>The vector of stores is consumed from the back: the list here starts with the last store.\<close>

fun enumerateSubsetHelper :: "Event list list \<Rightarrow> Event list \<Rightarrow> Event list \<Rightarrow> VectorClock \<Rightarrow> Event list list option" where
  "enumerateSubsetHelper keepSets [] current view = Some (keepSets @ [rev current])"
| "enumerateSubsetHelper keepSets (store # stores) current view =
     do { keepSets \<leftarrow> enumerateSubsetHelper keepSets stores current view;
          if VectorClock_contains view store then Some keepSets
          else do { newView \<leftarrow> VectorClock_setMax view store;
                    enumerateSubsetHelper keepSets stores (current @ [store]) newView } }"

fun keep_candidates :: "VectorClock \<Rightarrow> Event \<Rightarrow> Event \<Rightarrow> Event list \<Rightarrow> Event list option" where
  "keep_candidates preds r store [] = Some []"
| "keep_candidates preds r store (k # ks) =
     (if VectorClock_contains preds k then keep_candidates preds r store ks
      else do { BUG_ON (EventL2RCompare k r);
                rest \<leftarrow> keep_candidates preds r store ks;
                Some (if EventL2RCompare k store then k # rest else rest) })"

definition enumerateKeepCandidates :: "ExecutionGraph \<Rightarrow> Event \<Rightarrow> Event \<Rightarrow> Event list list option" where
  "enumerateKeepCandidates g r store =
     do { preds \<leftarrow> getPredsView g r;
          wLab \<leftarrow> getWriteLabel g store;
          preds \<leftarrow> add_prefix g (VC_View preds) (position wLab);
          rLab \<leftarrow> getReadLabel g r;
          ws \<leftarrow> stores_at g (access rLab);
          stores \<leftarrow> keep_candidates preds r store ws;
          enumerateSubsetHelper [] (rev stores) [] preds }"

section \<open>Calculating the revisits of a store\<close>

definition getRevisitableApproximation :: "bool \<Rightarrow> ExecutionGraph \<Rightarrow> EventLabel \<Rightarrow> Event list option" where
  "getRevisitableApproximation mixer g sLab =
     do { prefix \<leftarrow> prefix_of g (position sLab);
          loads \<leftarrow> getCoherentRevisits mixer g sLab prefix;
          BUG_ON (\<exists>l\<in>set loads. stamp_of g l = None);
          Some (rev (sort_key (\<lambda>l. the (stamp_of g l)) loads)) }"

text \<open>
  The sets of choices hold events and compare them with the partial order of Event, for which
  std::lower_bound is not specified; it is kept as the binary search of the standard library.
\<close>

fun lower_bound_search :: "('a \<Rightarrow> 'a \<Rightarrow> bool) \<Rightarrow> 'a list \<Rightarrow> 'a \<Rightarrow> nat \<Rightarrow> nat \<Rightarrow> nat" where
  "lower_bound_search lt xs x first len =
     (if len = 0 then first
      else let half = len div 2; mid = first + half in
           if lt (xs ! mid) x then lower_bound_search lt xs x (mid + 1) (len - half - 1)
           else lower_bound_search lt xs x first half)"

definition choice_insert :: "Event list \<Rightarrow> Event \<Rightarrow> Event list" where
  "choice_insert s el =
     (let it = lower_bound_search Event_less s el 0 (length s) in
      if it = length s \<or> s ! it \<noteq> el then take it s @ el # drop it s else s)"

definition updateStSpaceChoices_loads :: "ExecutionGraph \<Rightarrow> Event list \<Rightarrow> Event \<Rightarrow> ChoiceMap \<Rightarrow> ChoiceMap option" where
  "updateStSpaceChoices_loads g loads s choices =
     try_fold (\<lambda>c l. do { rLab \<leftarrow> getReadLabel g l; st \<leftarrow> getStamp rLab; Some (omap_upd st (\<lambda>v. choice_insert v s) [] c) }) loads choices"

text \<open>
  The loop of calcRevisits over the loads. Without the mixed-size mode the vector of keep sets stays
  empty, as in the source. The scheduling policy is tested in mixed-size mode only.
\<close>

definition keepSetCandidates :: "bool \<Rightarrow> bool \<Rightarrow> ExecutionGraph \<Rightarrow> Event \<Rightarrow> EventLabel \<Rightarrow> Event \<Rightarrow> Event list list option" where
  "keepSetCandidates mixer ltr g l rLab s =
     (if mixer
      then do { BUG_ON (\<not> ltr);
                ws \<leftarrow> stores_at g (access rLab);
                if list_all (\<lambda>w. acc_addr (label_access g w) = getAddr rLab \<and> acc_size (label_access g w) = acc_size (access rLab)) ws
                then Some [[]] else enumerateKeepCandidates g l s }
      else Some [])"

definition revisit_candidates :: "bool \<Rightarrow> bool \<Rightarrow> bool \<Rightarrow> ExecutionGraph \<Rightarrow> EventLabel \<Rightarrow> Event \<Rightarrow> Event list \<Rightarrow> Event list list \<Rightarrow>
    Revisit list option" where
  "revisit_candidates mixer helper dep g rLab s stores keepSets =
     try_fold (\<lambda>brs keepSet. do {
         opts \<leftarrow> enumerateRfOptions g rLab stores (access rLab) (remdups (keepSet @ [s]));
         try_fold (\<lambda>brs rfs. do { br \<leftarrow> constructBackwardRevisit mixer helper g (position rLab) s rfs keepSet;
                                 ok \<leftarrow> isMaximalExtension mixer dep g br;
                                 Some (if ok then brs @ [br] else brs) }) opts brs }) keepSets []"

fun calc_revisits_loop :: "bool \<Rightarrow> bool \<Rightarrow> bool \<Rightarrow> bool \<Rightarrow> (AAccess \<Rightarrow> SVal) \<Rightarrow> ExecutionGraph \<Rightarrow> EventLabel \<Rightarrow> Event list \<Rightarrow>
    LocalQueueT \<times> Reports \<Rightarrow> (LocalQueueT \<times> Reports) option" where
  "calc_revisits_loop mixer helper dep ltr initVal g sLab [] (q, rep) = Some (q, rep)"
| "calc_revisits_loop mixer helper dep ltr initVal g sLab (l # ls) (q, rep) =
     do { rLab \<leftarrow> getReadLabel g l;
          if mixer \<and> ltr \<and> \<not> EventL2RCompare l (position sLab)
          then calc_revisits_loop mixer helper dep ltr initVal g sLab ls (q, rep)
          else do { keepSets \<leftarrow> keepSetCandidates mixer ltr g l rLab (position sLab);
                    (stores, rep') \<leftarrow> getRfsApproximation mixer initVal g rLab;
                    BUG_ON (position sLab \<notin> set stores);
                    brs \<leftarrow> revisit_candidates mixer helper dep g rLab (position sLab) stores keepSets;
                    st \<leftarrow> getStamp sLab;
                    calc_revisits_loop mixer helper dep ltr initVal g sLab ls
                      (fold (addToWorklist st) brs q, rep @ rep') } }"

section \<open>What a revisit keeps\<close>

text \<open>
  The events a revisit of the read r keeps: the first event of each thread, the events added before
  the read or with it, and the prefixes of the given events.
\<close>

definition revisit_keeps :: "ExecutionGraph \<Rightarrow> Event \<Rightarrow> Event set \<Rightarrow> Event \<Rightarrow> bool" where
  "revisit_keeps g r P e =
     (index e = 0 \<or> (\<exists>u s. stamp_of g e = Some u \<and> stamp_of g r = Some s \<and> u \<le> s) \<or> (\<exists>p\<in>P. prefix_has g p e))"

lemma containsPos_pos_event: "containsPos g e \<Longrightarrow> pos_event e"
  by (simp add: containsPos_iff pos_event_def)

lemma add_prefix_join:
  assumes "prefixes_cached g" "containsPos g p" "View_inv v"
  shows "\<exists>u. add_prefix g (VC_View v) p = Some (VC_View u) \<and> View_inv u \<and>
     (\<forall>x. pos_event x \<longrightarrow> (View_contains u x \<longleftrightarrow> View_contains v x \<or> prefix_has g p x))"
proof -
  obtain m where m: "getEventLabel g p = Some m" using assms(2) by (auto simp: getEventLabel_def)
  obtain w where w: "prefixView m = Some (VC_View w)" "View_inv w" using assms(1) m unfolding prefixes_cached_def by blast
  have "prefix_of g p = Some (VC_View w)" using m w(1) by (simp add: prefix_of_def driver_getPrefixView_def)
  then have "add_prefix g (VC_View v) p = Some (VC_View (View_update v w))"
    by (simp add: add_prefix_def updatePredsWithPrefixView_def)
  moreover have "prefix_has g p x = View_contains w x" for x using m w(1) by (simp add: prefix_has_def label_is_def)
  ultimately show ?thesis using assms(3) w(2) by (simp add: view_simps)
qed

lemma add_prefixes_join:
  assumes "prefixes_cached g" "\<forall>p\<in>set ps. containsPos g p" "View_inv v"
  shows "\<exists>u. try_fold (add_prefix g) ps (VC_View v) = Some (VC_View u) \<and> View_inv u \<and>
     (\<forall>x. pos_event x \<longrightarrow> (View_contains u x \<longleftrightarrow> View_contains v x \<or> (\<exists>p\<in>set ps. prefix_has g p x)))"
  using assms(2,3)
proof (induction ps arbitrary: v)
  case (Cons p ps)
  obtain u where u: "add_prefix g (VC_View v) p = Some (VC_View u)" "View_inv u"
      "\<forall>x. pos_event x \<longrightarrow> (View_contains u x \<longleftrightarrow> View_contains v x \<or> prefix_has g p x)"
    using add_prefix_join [OF assms(1) bspec [OF Cons.prems(1) list.set_intros(1)] Cons.prems(2)] by (elim exE conjE)
  obtain z where "try_fold (add_prefix g) ps (VC_View u) = Some (VC_View z)" "View_inv z"
      "\<forall>x. pos_event x \<longrightarrow> (View_contains z x \<longleftrightarrow> View_contains u x \<or> (\<exists>p\<in>set ps. prefix_has g p x))"
    using Cons.IH [OF _ u(2)] Cons.prems(1) by auto
  then show ?case using u by (intro exI [of _ z]) auto
qed auto

lemma stamps_po_stamp_of:
  assumes "stamps_po g" "containsPos g e"
  obtains l u where "getEventLabel g e = Some l" "stamp l = Some u" "stamp_of g e = Some u"
proof -
  obtain l where l: "getEventLabel g e = Some l" using assms(2) by (auto simp: getEventLabel_def)
  have "l \<in> set (events g ! nat (thread e))" "events g ! nat (thread e) \<in> set (events g)"
    using l assms(2) by (auto simp: getEventLabel_def containsPos_iff)
  then have "hasStamp l" using assms(1) by (auto simp: stamps_po_def thread_stamps_def)
  then show thesis using that [OF l] l by (auto simp: hasStamp_def stamp_of_def getStamp_def)
qed

lemma getPredsView_keeps:
  assumes "stamps_po g" "containsPos g r"
  shows "\<exists>v. getPredsView g r = Some v \<and> View_inv v \<and>
     (\<forall>e. containsPos g e \<longrightarrow> (View_contains v e \<longleftrightarrow> revisit_keeps g r {} e))"
proof -
  obtain l s where s: "getEventLabel g r = Some l" "stamp l = Some s" "stamp_of g r = Some s"
    using stamps_po_stamp_of [OF assms] .
  have "View_contains (getViewFromStamp g s) e \<longleftrightarrow> revisit_keeps g r {} e" if e: "containsPos g e" for e
  proof -
    obtain m u where m: "getEventLabel g e = Some m" "stamp m = Some u" "stamp_of g e = Some u"
      using stamps_po_stamp_of [OF assms(1) e] .
    show ?thesis using getViewFromStamp_contains_iff [OF assms(1) m(1,2), of s] m(3) s(3) by (auto simp: revisit_keeps_def)
  qed
  then show ?thesis using s getViewFromStamp_inv
    by (simp add: getPredsView_def getStamp_def)
qed

section \<open>Enumeration of keep sets\<close>

text \<open>The keep sets in the order of the search; each lists its stores from the last to the first.\<close>

fun keep_lists :: "View \<Rightarrow> Event list \<Rightarrow> Event list list" where
  "keep_lists v [] = [[]]"
| "keep_lists v (s # ss) =
     keep_lists v ss @ (if View_contains v s then [] else map (Cons s) (keep_lists (View_setMax v s) ss))"

lemma enumerateSubsetHelper_lists:
  "enumerateSubsetHelper ks ss cur (VC_View v) = Some (ks @ map (\<lambda>k. rev (cur @ k)) (keep_lists v ss))"
  by (induction v ss arbitrary: ks cur rule: keep_lists.induct) (simp_all add: comp_def)

definition same_thread_upto :: "Event \<Rightarrow> Event \<Rightarrow> bool" where
  "same_thread_upto x y = (thread x = thread y \<and> index x \<le> index y)"

lemma View_contains_setMax:
  "pos_event s \<Longrightarrow> pos_event e \<Longrightarrow> \<not> View_contains v s \<Longrightarrow>
     View_contains (View_setMax v s) e \<longleftrightarrow> View_contains v e \<or> same_thread_upto e s"
  by (auto simp: View_contains_def view_simps pos_event_def same_thread_upto_def)

lemma subseq_Cons_iff: "subseq k (s # ss) \<longleftrightarrow> subseq k ss \<or> (\<exists>k'. k = s # k' \<and> subseq k' ss)"
  by (cases k) (auto simp: subseq_Cons2_iff elim: subseq_Cons')

lemma subseq_set: "subseq xs ys \<Longrightarrow> set xs \<subseteq> set ys"
  by (induction rule: list_emb.induct) auto

lemma subseq_revI: "subseq xs ys \<Longrightarrow> subseq (rev xs) (rev ys)"
  by (induction rule: list_emb.induct) (auto intro: list_emb_append_mono subseq_rev_drop_many)

lemma keep_lists_set:
  "\<forall>s\<in>set ss. pos_event s \<Longrightarrow> set (keep_lists v ss) =
     {k. subseq k ss \<and> (\<forall>e\<in>set k. \<not> View_contains v e) \<and> sorted_wrt (\<lambda>x y. \<not> same_thread_upto y x) k}"
proof (induction v ss rule: keep_lists.induct)
  case (2 v s ss)
  have pos: "\<forall>s\<in>set ss. pos_event s" "pos_event s" using 2(3) by simp_all
  have kp: "\<forall>e\<in>set k. pos_event e" if "subseq k ss" for k using that pos(1) by (meson subsetD subseq_set)
  show ?case
  proof (cases "View_contains v s")
    case True
    then show ?thesis using 2(1) [OF pos(1)] by (auto simp: subseq_Cons_iff)
  next
    case False
    have "\<forall>e\<in>set k. (\<not> View_contains (View_setMax v s) e) = (\<not> View_contains v e \<and> \<not> same_thread_upto e s)"
      if "subseq k ss" for k
      using kp [OF that] View_contains_setMax [OF pos(2) _ False] by simp
    then have "set (keep_lists (View_setMax v s) ss) =
        {k. subseq k ss \<and> (\<forall>e\<in>set k. \<not> View_contains v e \<and> \<not> same_thread_upto e s) \<and>
          sorted_wrt (\<lambda>x y. \<not> same_thread_upto y x) k}"
      using 2(2) [OF False pos(1)] by auto
    then show ?thesis using 2(1) [OF pos(1)] False by (auto simp: subseq_Cons_iff image_iff)
  qed
qed auto

lemma distinct_keep_lists: "distinct ss \<Longrightarrow> \<forall>s\<in>set ss. pos_event s \<Longrightarrow> distinct (keep_lists v ss)"
proof (induction v ss rule: keep_lists.induct)
  case (2 v s ss)
  have "s # k \<notin> set (keep_lists v ss)" for k
    using 2(3,4) keep_lists_set [of ss v] by (auto dest: subseq_set)
  then show ?case using 2 by (auto simp: distinct_map)
qed simp

lemma keep_candidates_filter:
  assumes "\<forall>k\<in>set ks. \<not> VectorClock_contains preds k \<longrightarrow> \<not> EventL2RCompare k r"
  shows "keep_candidates preds r s ks = Some (filter (\<lambda>k. \<not> VectorClock_contains preds k \<and> EventL2RCompare k s) ks)"
  using assms by (induction preds r s ks rule: keep_candidates.induct) (auto simp: BUG_ON_def)

section \<open>An example\<close>

text \<open>A read in thread 1 and, after it, a store in thread 2 and one in thread 3.\<close>

definition keep_label :: "Stamp \<Rightarrow> View \<Rightarrow> EventLabel \<Rightarrow> EventLabel" where
  "keep_label s v l = l\<lparr>stamp := Some s, prefixView := Some (VC_View v)\<rparr>"

definition keep_write :: "int \<Rightarrow> EventLabel" where
  "keep_write t = WriteLabel EL_Write (Event t 1) Monotonic example_access 1 WA_None EventDeps_empty"

definition keep_read :: EventLabel where
  "keep_read = ReadLabel EL_Read (Event 1 1) Monotonic example_access None EventDeps_empty"

definition keep_graph :: ExecutionGraph where
  "keep_graph = \<lparr>events =
     [[keep_label 0 [] InitLabel],
      [keep_label 1 [] (symm_start 1 (-1)), keep_label 2 [0, 1] keep_read],
      [keep_label 3 [] (symm_start 2 (-1)), keep_label 4 [0, 0, 1] (keep_write 2)],
      [keep_label 5 [] (symm_start 3 (-1)), keep_label 6 [0, 0, 0, 1] (keep_write 3)]],
     timestamp = 7, coherence = [(8, [Event 2 1, Event 3 1])], recoveryTID = -1\<rparr>"

lemma keep_getEventLabel:
  "getEventLabel keep_graph e =
     (if e = Event 0 0 then Some (keep_label 0 [] InitLabel)
      else if e = Event 1 0 then Some (keep_label 1 [] (symm_start 1 (-1)))
      else if e = Event 1 1 then Some (keep_label 2 [0, 1] keep_read)
      else if e = Event 2 0 then Some (keep_label 3 [] (symm_start 2 (-1)))
      else if e = Event 2 1 then Some (keep_label 4 [0, 0, 1] (keep_write 2))
      else if e = Event 3 0 then Some (keep_label 5 [] (symm_start 3 (-1)))
      else if e = Event 3 1 then Some (keep_label 6 [0, 0, 0, 1] (keep_write 3)) else None)"
  by (cases e) (auto simp: keep_graph_def getEventLabel_def containsPos_iff nth_Cons' nat_eq_iff2)

lemma keep_fields [simp]:
  "stamp (keep_label s v l) = Some s" "prefixView (keep_label s v l) = Some (VC_View v)"
  "position (keep_label s v l) = position l" "kind (keep_label s v l) = kind l" "access (keep_label s v l) = access l"
  "getAddr (keep_label s v l) = getAddr l"
  "position (keep_write t) = Event t 1" "kind (keep_write t) = EL_Write" "access (keep_write t) = example_access"
  "position keep_read = Event 1 1" "kind keep_read = EL_Read" "access keep_read = example_access"
  "getAddr (keep_write t) = 8" "getAddr keep_read = 8" "position (symm_start t u) = Event t 0"
  by (simp_all add: keep_label_def getAddr_def keep_write_def WriteLabel_def keep_read_def ReadLabel_def MemAccessLabel_def
      EventLabel_new_def symm_start_def ThreadStartLabel_def example_access_def)

lemma keep_ready: "prefixes_cached keep_graph" "stamps_po keep_graph" "co_ready keep_graph"
proof -
  show "prefixes_cached keep_graph"
    unfolding prefixes_cached_def keep_getEventLabel by (simp add: View_inv_def)
  show "stamps_po keep_graph" by (simp add: keep_graph_def stamps_po_def thread_stamps_def hasStamp_def)
  have "coherence keep_graph = [(8, [Event 2 1, Event 3 1])]" by (simp add: keep_graph_def)
  then show "co_ready keep_graph"
    unfolding co_ready_def co_wf_def labels_placed_def label_is_def keep_getEventLabel
    by (simp add: getBucket_def)
qed

lemma keep_contains: "containsPos keep_graph (Event t 1)" if "t \<in> {1, 2, 3}"
  using that keep_getEventLabel [of "Event t 1"] by (auto simp: getEventLabel_def split: if_splits)

lemma keep_keeps: "revisit_keeps keep_graph (Event 1 1) P (Event t 1) \<longleftrightarrow> t = 1 \<or> (\<exists>p\<in>P. prefix_has keep_graph p (Event t 1))"
  if "t \<in> {1, 2, 3}"
  using that by (auto simp: revisit_keeps_def stamp_of_def keep_getEventLabel getStamp_def)

lemma keep_prefix: "prefix_has keep_graph (Event p 1) (Event t 1) \<longleftrightarrow> p = t" if "p \<in> {2, 3}" "t \<in> {1, 2, 3}"
  using that by (auto simp: prefix_has_def label_is_def keep_getEventLabel View_contains_def View_getMax_def)

lemma keep_range: "co_range keep_graph example_access = [Event 2 1, Event 3 1]"
  by (simp add: co_range_def overlap_filter_def getStoresToLoc_def getBucket_def bucket_def label_access_def keep_getEventLabel)
    (simp add: keep_graph_def example_access_def)

section \<open>Properties\<close>

text \<open>C17. The view of a backward revisit of a read by a store is exactly what the revisit keeps: the events
  added before the read, and the causal prefixes of the store and of the stores to keep.\<close>

theorem getRevisitView_exact:
  assumes "prefixes_cached g" "stamps_po g" "containsPos g r" "containsPos g s" "\<forall>k\<in>set keepSet. containsPos g k"
  shows "\<exists>v. getRevisitView g r s None keepSet = Some (VC_View v) \<and>
     (\<forall>e. containsPos g e \<longrightarrow> (View_contains v e \<longleftrightarrow> revisit_keeps g r (insert s (set keepSet)) e))"
proof -
  obtain v where v: "getPredsView g r = Some v" "View_inv v"
      "\<forall>e. containsPos g e \<longrightarrow> (View_contains v e \<longleftrightarrow> revisit_keeps g r {} e)"
    using getPredsView_keeps [OF assms(2,3)] by (elim exE conjE)
  obtain u where u: "add_prefix g (VC_View v) s = Some (VC_View u)" "View_inv u"
      "\<forall>x. pos_event x \<longrightarrow> (View_contains u x \<longleftrightarrow> View_contains v x \<or> prefix_has g s x)"
    using add_prefix_join [OF assms(1,4) v(2)] by (elim exE conjE)
  obtain z where z: "try_fold (add_prefix g) keepSet (VC_View u) = Some (VC_View z)"
      "\<forall>x. pos_event x \<longrightarrow> (View_contains z x \<longleftrightarrow> View_contains u x \<or> (\<exists>p\<in>set keepSet. prefix_has g p x))"
    using add_prefixes_join [OF assms(1,5) u(2)] by (elim exE conjE)
  have "View_contains z e \<longleftrightarrow> revisit_keeps g r (insert s (set keepSet)) e" if "containsPos g e" for e
    using z(2) u(3) v(3) that containsPos_pos_event [OF that] by (auto simp: revisit_keeps_def)
  then show ?thesis using v(1) u(1) z(1) by (simp add: getRevisitView_def)
qed

theorem getRevisitView_exact_witness:
  "\<exists>v. getRevisitView keep_graph (Event 1 1) (Event 3 1) None [] = Some (VC_View v) \<and>
     View_contains v (Event 1 1) \<and> \<not> View_contains v (Event 2 1) \<and> View_contains v (Event 3 1)"
  using getRevisitView_exact [OF keep_ready(1,2) keep_contains [of 1] keep_contains [of 3], of "[]"]
    keep_contains [of 1] keep_contains [of 2] keep_contains [of 3]
  by (auto simp: keep_keeps keep_prefix)

text \<open>C18. The stores to keep in a backward revisit are enumerated exactly, each set once: the sets of stores
  to the location that were added after the read, are not in the prefix of the revisiting store and are
  to its left, in coherence order, without stores that another one of the same thread brings along.\<close>

theorem enumerateKeepCandidates_exact:
  assumes "prefixes_cached g" "stamps_po g" "co_ready g" "getReadLabel g r = Some rLab" "getWriteLabel g s = Some wLab"
    and "map_of (coherence g) (getBucket (getAddr rLab)) \<noteq> None"
    and "\<forall>k\<in>set (co_range g (access rLab)). revisit_keeps g r {s} k \<or> \<not> EventL2RCompare k r"
  shows "\<exists>ks. enumerateKeepCandidates g r s = Some ks \<and> distinct ks \<and>
     set ks = {k. subseq k (filter (\<lambda>w. \<not> revisit_keeps g r {s} w \<and> EventL2RCompare w s) (co_range g (access rLab))) \<and>
       sorted_wrt (\<lambda>x y. \<not> same_thread_upto x y) k}"
proof -
  let ?ws = "co_range g (access rLab)"
  have c: "containsPos g r" "containsPos g s" "position wLab = s"
    using assms(3,4,5) by (auto simp: getReadLabel_def getWriteLabel_def getEventLabel_Some_iff co_ready_def labels_placed_def
        split: if_splits Option.bind_splits)
  obtain v where v: "getPredsView g r = Some v" "View_inv v"
      "\<forall>e. containsPos g e \<longrightarrow> (View_contains v e \<longleftrightarrow> revisit_keeps g r {} e)"
    using getPredsView_keeps [OF assms(2) c(1)] by (elim exE conjE)
  obtain u where u: "add_prefix g (VC_View v) s = Some (VC_View u)" "View_inv u"
      "\<forall>x. pos_event x \<longrightarrow> (View_contains u x \<longleftrightarrow> View_contains v x \<or> prefix_has g s x)"
    using add_prefix_join [OF assms(1) c(2) v(2)] by (elim exE conjE)
  have ws: "containsPos g w" if "w \<in> set ?ws" for w
    using stores_facts(2) [OF assms(3) in_co_range [OF that]] by (auto simp: getEventLabel_Some_iff)
  then have k: "View_contains u w \<longleftrightarrow> revisit_keeps g r {s} w" if "w \<in> set ?ws" for w
    using u(3) v(3) containsPos_pos_event [OF ws [OF that]] that by (auto simp: revisit_keeps_def)
  define ss where "ss = filter (\<lambda>w. \<not> revisit_keeps g r {s} w \<and> EventL2RCompare w s) ?ws"
  have "keep_candidates (VC_View u) r s ?ws = Some ss"
    unfolding ss_def using keep_candidates_filter [of ?ws "VC_View u" r s] assms(7) k by (auto cong: filter_cong)
  then have e: "enumerateKeepCandidates g r s = Some (map rev (keep_lists u (rev ss)))"
    using v(1) u(1) c(3) assms(4-6)
    by (auto simp: enumerateKeepCandidates_def stores_at_def getStoresToLoc_const_def getAddr_def enumerateSubsetHelper_lists)
  have "\<forall>w\<in>set (rev ss). pos_event w" "distinct (rev ss)"
    using ws containsPos_pos_event distinct_co_range [OF assms(3)] by (auto simp: ss_def)
  then have d: "distinct (keep_lists u (rev ss))" and st: "set (keep_lists u (rev ss)) =
      {k. subseq k (rev ss) \<and> (\<forall>e\<in>set k. \<not> View_contains u e) \<and> sorted_wrt (\<lambda>x y. \<not> same_thread_upto y x) k}"
    using distinct_keep_lists keep_lists_set by blast+
  have "\<not> View_contains u w" if "w \<in> set ss" for w using that k by (auto simp: ss_def)
  then have n: "\<forall>e\<in>set k. \<not> View_contains u e" if "subseq k ss" for k using that by (meson subsetD subseq_set)
  have "rev ` set (keep_lists u (rev ss)) = {k. subseq k ss \<and> sorted_wrt (\<lambda>x y. \<not> same_thread_upto x y) k}"
    unfolding st
  proof (intro equalityI subsetI)
    fix k assume "k \<in> {k. subseq k ss \<and> sorted_wrt (\<lambda>x y. \<not> same_thread_upto x y) k}"
    then show "k \<in> rev ` {k. subseq k (rev ss) \<and> (\<forall>e\<in>set k. \<not> View_contains u e) \<and> sorted_wrt (\<lambda>x y. \<not> same_thread_upto y x) k}"
      using n subseq_revI [of k ss] by (intro image_eqI [of _ _ "rev k"]) (auto simp: sorted_wrt_rev)
  next
    fix k assume "k \<in> rev ` {k. subseq k (rev ss) \<and> (\<forall>e\<in>set k. \<not> View_contains u e) \<and> sorted_wrt (\<lambda>x y. \<not> same_thread_upto y x) k}"
    then show "k \<in> {k. subseq k ss \<and> sorted_wrt (\<lambda>x y. \<not> same_thread_upto x y) k}"
      using subseq_revI [of _ "rev ss"] by (auto simp: sorted_wrt_rev)
  qed
  then show ?thesis using e d by (simp add: ss_def distinct_map inj_on_def)
qed

theorem enumerateKeepCandidates_exact_witness:
  "\<exists>ks. enumerateKeepCandidates keep_graph (Event 1 1) (Event 3 1) = Some ks \<and> distinct ks \<and> set ks = {[], [Event 2 1]}"
proof -
  have "filter (\<lambda>w. \<not> revisit_keeps keep_graph (Event 1 1) {Event 3 1} w \<and> EventL2RCompare w (Event 3 1)) [Event 2 1, Event 3 1] = [Event 2 1]"
    by (simp add: keep_keeps keep_prefix EventL2RCompare_def)
  moreover have "{k. subseq k [Event 2 1] \<and> sorted_wrt (\<lambda>x y. \<not> same_thread_upto x y) k} = {[], [Event 2 1]}"
    by (auto simp: subseq_Cons_iff)
  moreover have "map_of (coherence keep_graph) 8 \<noteq> None" by (simp add: keep_graph_def)
  ultimately show ?thesis
    using enumerateKeepCandidates_exact [OF keep_ready, of "Event 1 1" "keep_label 2 [0, 1] keep_read" "Event 3 1" "keep_label 6 [0, 0, 0, 1] (keep_write 3)"]
    by (simp add: getReadLabel_def getWriteLabel_def keep_getEventLabel keep_range getBucket_def EventL2RCompare_def)
qed


text \<open>Events of different threads are not ordered, so that the set of choices of an event can hold the
  same store twice.\<close>

lemma choice_insert_twice:
  "choice_insert (choice_insert (choice_insert [] (Event 1 1)) (Event 2 1)) (Event 1 1) =
     [Event 1 1, Event 2 1, Event 1 1]"
  by (simp add: choice_insert_def Event_less_def)

end
