(* ===== verification/GraphCopy.thy ===== *)
theory GraphCopy
  imports Revisiting
begin

text \<open>
  Copying the part of a graph that a view has (ExecutionGraph::copyGraphUpTo and getCopyUpTo in
  src/src/ExecutionGraph.cpp) and the copy a backward revisit works on (copyGraph and
  createChoiceMapForCopy in src/src/GenMCDriver.cpp).

  The copied labels keep the pointers of the originals until they are relinked, label by label, to
  the labels of the copy. Relinking changes neither positions nor kinds of labels, so that the graph
  before relinking serves for all lookups. A null pointer added to a list is None.
\<close>

section \<open>Definitions\<close>

definition createHoleLabel :: "Event \<Rightarrow> EventLabel" where
  "createHoleLabel e = (EmptyLabel e)\<lparr>calculatedViews := [View_empty], calculatedRels := [VSet_empty]\<rparr>"

definition copy_event :: "ExecutionGraph \<Rightarrow> VectorClock \<Rightarrow> int \<Rightarrow> ExecutionGraph \<Rightarrow> int \<Rightarrow> ExecutionGraph option" where
  "copy_event g v i other j =
     (if \<not> VectorClock_contains v (Event i j) then addLabelToGraph (createHoleLabel (Event i j)) other
      else if \<not> containsPos g (Event i j) then Some other
      else do { lab \<leftarrow> getEventLabel g (Event i j);
                other \<leftarrow> addLabelToGraph lab other;
                let other = (if isWrite (kind lab)
                      then upd_label (position lab) (removeReader (\<lambda>r. \<not> VectorClock_contains v r)) other else other) in
                Some (if isMemAccess (kind lab) then trackCoherenceAtLoc (access lab) other else other) })"

definition copy_thread :: "ExecutionGraph \<Rightarrow> VectorClock \<Rightarrow> ExecutionGraph \<Rightarrow> nat \<Rightarrow> ExecutionGraph option" where
  "copy_thread g v other i =
     do { other \<leftarrow> (if i \<noteq> 0 then do { lab \<leftarrow> getEventLabel g (Event (int i) 0); addLabelToGraph lab other }
                   else Some other);
          try_fold (copy_event g v (int i)) [1 .. VectorClock_getMax v (int i)] other }"

text \<open>A pointer is kept if its target is, and cast to the class it must have.\<close>

definition relink_ptr :: "(Event \<Rightarrow> bool) \<Rightarrow> (EventLabelKind \<Rightarrow> bool) \<Rightarrow> ExecutionGraph \<Rightarrow> Event option \<Rightarrow>
    Event option option" where
  "relink_ptr keep K other p =
     (case p of None \<Rightarrow> Some None
      | Some e \<Rightarrow> if \<not> keep e then Some None
                 else do { l \<leftarrow> getEventLabel other e; Some (if K (kind l) then Some (position l) else None) })"

definition relink_read :: "ExecutionGraph \<Rightarrow> EventLabel \<Rightarrow> EventLabel option" where
  "relink_read other lab =
     Some (if isRead (kind lab) then lab\<lparr>rfs := filter (\<lambda>p. containsPos other (fst p)) (rfs lab)\<rparr> else lab)"

definition relink_write :: "ExecutionGraph \<Rightarrow> VectorClock \<Rightarrow> ExecutionGraph \<Rightarrow> EventLabel \<Rightarrow> EventLabel option" where
  "relink_write g v other lab =
     (if isWrite (kind lab)
      then do { wLab \<leftarrow> getWriteLabel g (position lab);
                try_fold (\<lambda>l r. if VectorClock_contains v r
                             then do { rLab \<leftarrow> getReadLabel other r; addReader (position rLab) l } else Some l)
                  (readerList wLab) (removeReader (\<lambda>_. True) lab) }
      else Some lab)"

definition relink_access :: "ExecutionGraph \<Rightarrow> EventLabel \<Rightarrow> EventLabel option" where
  "relink_access other lab =
     (if isMemAccess (kind lab)
      then do { a \<leftarrow> relink_ptr (containsPos other) (\<lambda>k. k = EL_Malloc) other (allocLab lab); Some (lab\<lparr>allocLab := a\<rparr>) }
      else Some lab)"

definition relink_finish :: "VectorClock \<Rightarrow> ExecutionGraph \<Rightarrow> EventLabel \<Rightarrow> EventLabel option" where
  "relink_finish v other lab =
     (if kind lab = EL_ThreadFinish
      then do { j \<leftarrow> relink_ptr (VectorClock_contains v) (\<lambda>k. k = EL_ThreadJoin) other (parentJoin lab);
                Some (lab\<lparr>parentJoin := j\<rparr>) }
      else Some lab)"

definition relink_malloc :: "ExecutionGraph \<Rightarrow> VectorClock \<Rightarrow> ExecutionGraph \<Rightarrow> EventLabel \<Rightarrow> EventLabel option" where
  "relink_malloc g v other lab =
     (if kind lab = EL_Malloc
      then do { d \<leftarrow> relink_ptr (VectorClock_contains v) isFree other (freeLab lab);
                aLab' \<leftarrow> getEventLabel g (position lab);
                BUG_ON (kind aLab' \<noteq> EL_Malloc);
                try_fold (\<lambda>l e. if VectorClock_contains v e
                             then do { mLab \<leftarrow> getEventLabel other e; BUG_ON (\<not> isMemAccess (kind mLab));
                                       addAccess (position mLab) l } else Some l)
                  (accessList aLab') (removeAccess (\<lambda>_. True) (lab\<lparr>freeLab := d\<rparr>)) }
      else Some lab)"

definition relink_free :: "VectorClock \<Rightarrow> ExecutionGraph \<Rightarrow> EventLabel \<Rightarrow> EventLabel option" where
  "relink_free v other lab =
     (if isFree (kind lab)
      then do { a \<leftarrow> relink_ptr (VectorClock_contains v) (\<lambda>k. k = EL_Malloc) other (aLab lab); Some (lab\<lparr>aLab := a\<rparr>) }
      else Some lab)"

definition relink_label :: "ExecutionGraph \<Rightarrow> VectorClock \<Rightarrow> ExecutionGraph \<Rightarrow> EventLabel \<Rightarrow> EventLabel option" where
  "relink_label g v other lab =
     do { lab \<leftarrow> relink_read other lab; lab \<leftarrow> relink_write g v other lab; lab \<leftarrow> relink_access other lab;
          lab \<leftarrow> relink_finish v other lab; lab \<leftarrow> relink_malloc g v other lab; relink_free v other lab }"

fun map_opt :: "('a \<Rightarrow> 'b option) \<Rightarrow> 'a list \<Rightarrow> 'b list option" where
  "map_opt f [] = Some []"
| "map_opt f (x # xs) = do { y \<leftarrow> f x; ys \<leftarrow> map_opt f xs; Some (y # ys) }"

definition relink_graph :: "ExecutionGraph \<Rightarrow> VectorClock \<Rightarrow> ExecutionGraph \<Rightarrow> ExecutionGraph option" where
  "relink_graph g v other =
     do { evs \<leftarrow> map_opt (map_opt (relink_label g v other)) (events other); Some (other\<lparr>events := evs\<rparr>) }"

definition copy_store :: "VectorClock \<Rightarrow> ExecutionGraph \<Rightarrow> Event \<Rightarrow> ExecutionGraph option" where
  "copy_store v other s =
     (if VectorClock_contains v s
      then do { wLab \<leftarrow> getWriteLabel other s;
                Some (addStoreToCO wLab (length (getStoresToLoc other (getAddr wLab))) other) }
      else Some other)"

definition copy_init_reader :: "VectorClock \<Rightarrow> ExecutionGraph \<Rightarrow> Event \<Rightarrow> ExecutionGraph option" where
  "copy_init_reader v other r =
     (if VectorClock_contains v r
      then do { rLab \<leftarrow> getReadLabel other r; addInitRfToLoc rLab other } else Some other)"

definition copyGraphUpTo :: "ExecutionGraph \<Rightarrow> ExecutionGraph \<Rightarrow> VectorClock \<Rightarrow> ExecutionGraph option" where
  "copyGraphUpTo g other v =
     (let n = getNumThreads g;
          other = other\<lparr>timestamp := timestamp g, recoveryTID := recoveryTID g,
            events := take n (events other) @ replicate (n - length (events other)) []\<rparr> in
      do { other \<leftarrow> try_fold (copy_thread g v) [0..<n] other;
           other \<leftarrow> relink_graph g v other;
           other \<leftarrow> try_fold (copy_store v) (concat (map snd (coherence g))) other;
           ini \<leftarrow> getInitLabel g;
           rs \<leftarrow> map_opt (\<lambda>p. map_of (initRfs ini) (fst p)) (coherence g);
           try_fold (copy_init_reader v) (concat rs) other })"

definition getCopyUpTo :: "ExecutionGraph \<Rightarrow> VectorClock \<Rightarrow> ExecutionGraph option" where
  "getCopyUpTo g v = do { og \<leftarrow> ExecutionGraph_new; copyGraphUpTo g og v }"

text \<open>The copy for a backward revisit. The middle store of the helper and its load are left out.\<close>

definition drop_mid :: "Revisit \<Rightarrow> VectorClock \<Rightarrow> VectorClock option" where
  "drop_mid br v =
     (case Revisit_getMid br of None \<Rightarrow> Some v
      | Some m \<Rightarrow> (case v of
            VC_DepView d \<Rightarrow> do { d \<leftarrow> addHole d m; d \<leftarrow> addHole d (Event_prev m); Some (VC_DepView d) }
          | VC_View w \<Rightarrow> Some (VC_View (View_setMax w (Event (thread m) (View_getMax w (thread m) - 2))))))"

definition copyGraph :: "ExecutionGraph \<Rightarrow> Revisit \<Rightarrow> VectorClock \<Rightarrow> ExecutionGraph option" where
  "copyGraph g br v =
     do { rev \<leftarrow> Revisit_getRev br;
          prefix \<leftarrow> prefix_of g rev;
          v \<leftarrow> drop_mid br v;
          og \<leftarrow> getCopyUpTo g v;
          revLab \<leftarrow> getReadLabel og (Revisit_getPos br);
          st \<leftarrow> getStamp revLab;
          let og = compressStampsAfter st og in
          Some (og\<lparr>events := map (map (\<lambda>lab. if VectorClock_contains prefix (position lab)
                                          then setRevisitStatus False lab else lab)) (events og)\<rparr>) }"

definition createChoiceMapForCopy :: "ExecutionGraph \<Rightarrow> ChoiceMap \<Rightarrow> ExecutionGraph \<Rightarrow> ChoiceMap option" where
  "createChoiceMapForCopy g choices og =
     try_fold (\<lambda>result lab.
       if \<not> containsPos og (position lab) then Some result
       else do { oldStamp \<leftarrow> getStamp lab;
                 (case map_of choices oldStamp of
                    None \<Rightarrow> Some result
                  | Some es \<Rightarrow> do { l \<leftarrow> getEventLabel og (position lab); newStamp \<leftarrow> getStamp l;
                      Some (fold (\<lambda>e m. if containsPos og e then omap_upd newStamp (\<lambda>c. choice_insert c e) [] m else m) es result) }) })
       (graph_labels g) []"

section \<open>Copying the labels\<close>

text \<open>
  The copy while the labels are added: its initial label, with the locations tracked so far, and the
  labels T of each thread that come from the graph.
\<close>

definition copy_ini :: EventLabel where
  "copy_ini = InitLabel\<lparr>stamp := Some 0, calculatedRels := [VSet_empty], calculatedViews := [View_empty],
     prefixView := Some (VC_View View_empty)\<rparr>"

definition copy_state :: "ExecutionGraph \<Rightarrow> (SAddr \<times> Event list) list \<Rightarrow> EventLabel list list \<Rightarrow> ExecutionGraph" where
  "copy_state g m T = \<lparr>events = T[0 := copy_ini\<lparr>initRfs := m\<rparr> # T ! 0], timestamp = timestamp g, coherence = m,
     recoveryTID = recoveryTID g\<rparr>"

definition track :: "EventLabel \<Rightarrow> (SAddr \<times> Event list) list \<Rightarrow> (SAddr \<times> Event list) list" where
  "track l m = (if isMemAccess (kind l) then bucket_upd (getBucket (getAddr l)) (\<lambda>s. s) m else m)"

lemma ExecutionGraph_new_state:
  "ExecutionGraph_new = Some \<lparr>events = [[copy_ini]], timestamp = 1, coherence = [], recoveryTID = -1\<rparr>"
proof -
  have "position InitLabel = Event 0 0" "\<not> hasStamp InitLabel" "prefixView InitLabel = None"
    by (simp_all add: InitLabel_def EventLabel_new_def getInit_def hasStamp_def)
  moreover have "Stamp_inc 0 = 1" by code_simp
  ultimately show ?thesis
    by (simp add: ExecutionGraph_new_def addLabelToGraph_def nextStamp_def setStamp_def BUG_ON_def getEventLabel_def
        containsPos_iff upd_label_def copy_ini_def)
qed

lemma copy_ini_rfs [simp]: "copy_ini\<lparr>initRfs := []\<rparr> = copy_ini"
  by (simp add: copy_ini_def InitLabel_def EventLabel_new_def)

lemma addLabel_append:
  assumes "hasStamp l" "position l = Event (int t) (int (length (events h ! t)))" "t < length (events h)"
  shows "addLabelToGraph l h = Some (h\<lparr>events := (events h)[t := events h ! t @ [l]]\<rparr>)"
  using assms by (simp add: addLabelToGraph_def BUG_ON_def getEventLabel_def containsPos_iff)

definition row_start :: "nat \<Rightarrow> nat" where "row_start t = (if t = 0 then 1 else 0)"

lemma copy_state_length:
  "t < length T \<Longrightarrow> length (events (copy_state g m T) ! t) = row_start t + length (T ! t)"
  "length (events (copy_state g m T)) = length T"
  by (cases T; auto simp: copy_state_def row_start_def nth_list_update nth_Cons')
    (simp add: copy_state_def)

lemma copy_state_append:
  assumes "t < length T" "hasStamp l" "position l = Event (int t) (int (row_start t + length (T ! t)))"
  shows "addLabelToGraph l (copy_state g m T) = Some (copy_state g m (T[t := T ! t @ [l]]))"
proof -
  have "(T[0 := i # T ! 0])[t := (T[0 := i # T ! 0]) ! t @ [l]] = (T[t := T ! t @ [l]])[0 := i # (T[t := T ! t @ [l]]) ! 0]" for i
    using assms(1) by (cases "t = 0") (simp_all add: list_update_swap nth_list_update)
  then show ?thesis
    using assms addLabel_append [of l t "copy_state g m T"] copy_state_length(1) [of t T g m] copy_state_length(2) [of g m T]
    by (simp add: copy_state_def)
qed

lemma copy_state_upd_last:
  assumes "t < length T" "T ! t \<noteq> []"
  shows "upd_label (Event (int t) (int (row_start t + length (T ! t) - 1))) f (copy_state g m T) =
     copy_state g m (T[t := butlast (T ! t) @ [f (last (T ! t))]])"
proof -
  have b: "xs[length xs - 1 := f (xs ! (length xs - 1))] = butlast xs @ [f (last xs)]" if "xs \<noteq> []" for xs :: "EventLabel list"
    using that by (metis append_butlast_last_id last_conv_nth length_butlast list_update_length)
  show ?thesis
  proof (cases "t = 0")
    case True
    obtain k where k: "length (T ! 0) = Suc k" using assms True by (cases "T ! 0") auto
    moreover have "nat (1 + int k) = Suc k" by simp
    ultimately show ?thesis using assms b [of "T ! 0"] True
      by (simp add: upd_label_def containsPos_iff copy_state_def row_start_def nth_list_update)
  next
    case False
    obtain k where k: "length (T ! t) = Suc k" using assms by (cases "T ! t") auto
    then show ?thesis using assms b [of "T ! t"] False
      by (simp add: upd_label_def containsPos_iff copy_state_def row_start_def nth_list_update list_update_swap)
  qed
qed

lemma copy_state_track:
  assumes "0 < length T"
  shows "trackCoherenceAtLoc a (copy_state g m T) = copy_state g (bucket_upd (getBucket (acc_addr a)) (\<lambda>s. s) m) T"
  using assms by (simp add: trackCoherenceAtLoc_def touchStoresToLoc_def upd_label_def containsPos_iff copy_state_def getBucket_def)

lemma copy_event_state:
  assumes "t < length T" "getEventLabel g (Event (int t) (int j)) = Some l" "hasStamp l" "position l = Event (int t) (int j)"
    "j = row_start t + length (T ! t)" "View_contains v (Event (int t) (int j))"
  shows "copy_event g (VC_View v) (int t) (copy_state g m T) (int j) =
     Some (copy_state g (track l m) (T[t := T ! t @ [prune_write v l]]))"
proof -
  have c: "containsPos g (Event (int t) (int j))" using assms(2) by (simp add: getEventLabel_Some_iff)
  have a: "addLabelToGraph l (copy_state g m T) = Some (copy_state g m (T[t := T ! t @ [l]]))"
    using copy_state_append assms by simp
  have u: "upd_label (Event (int t) (int j)) f (copy_state g m (T[t := T ! t @ [l]])) = copy_state g m (T[t := T ! t @ [f l]])" for f
    using copy_state_upd_last [of t "T[t := T ! t @ [l]]" f g m] assms(1,5) by simp
  have "getBucket (acc_addr (access l)) = getBucket (getAddr l)" by (simp add: getAddr_def)
  moreover have "0 < length (T[t := x])" for x using assms(1) by (metis length_list_update list.size(3) not_less_zero gr_zeroI)
  ultimately have "trackCoherenceAtLoc (access l) (copy_state g m (T[t := x])) =
      copy_state g (bucket_upd (getBucket (getAddr l)) (\<lambda>s. s) m) (T[t := x])" for x
    using copy_state_track [of "T[t := x]" "access l" g m] by metis
  then show ?thesis
    using assms(2,4,6) a u c
    by (cases "isWrite (kind l)") (auto simp: copy_event_def track_def prune_write_def)
qed

lemma try_fold_append: "try_fold f (xs @ ys) c = do { c \<leftarrow> try_fold f xs c; try_fold f ys c }"
  by (induction xs arbitrary: c) (simp_all split: Option.bind_split)

text \<open>The hypotheses on the view: its clocks stay inside the graph.\<close>

definition view_fits :: "ExecutionGraph \<Rightarrow> View \<Rightarrow> bool" where
  "view_fits g v = (View_inv v \<and> (\<forall>t<length (events g). View_getMax v (int t) < int (length (events g ! t))))"

definition copy_src :: "ExecutionGraph \<Rightarrow> View \<Rightarrow> nat \<Rightarrow> EventLabel list" where
  "copy_src g v t = map ((!) (events g ! t)) [row_start t..<Suc (nat (View_getMax v (int t)))]"

lemma graph_wf_label_facts:
  assumes "graph_wf g" "t < length (events g)" "j < length (events g ! t)"
  shows "getEventLabel g (Event (int t) (int j)) = Some (events g ! t ! j)"
    "hasStamp (events g ! t ! j)" "position (events g ! t ! j) = Event (int t) (int j)"
proof -
  show l: "getEventLabel g (Event (int t) (int j)) = Some (events g ! t ! j)"
    using assms by (simp add: getEventLabel_nat)
  show "hasStamp (events g ! t ! j)" using assms(1) l unfolding graph_wf_def stamps_po_iff by blast
  have "label_is (\<lambda>l. position l = Event (int t) (int j)) g (Event (int t) (int j)) \<or> getEventLabel g (Event (int t) (int j)) = None"
    using assms(1) by (simp add: graph_wf_def rf_inv_def)
  then show "position (events g ! t ! j) = Event (int t) (int j)" using l by (simp add: label_is_def)
qed

lemma copy_events_state:
  assumes g: "graph_wf g" "t < length (events g)" "b \<le> length (events g ! t)" "length T = length (events g)"
    and v: "\<forall>j<b. View_contains v (Event (int t) (int j))" and a: "row_start t + length (T ! t) = a" "a \<le> b"
  shows "try_fold (copy_event g (VC_View v) (int t)) (map int [a..<b]) (copy_state g m T) =
     Some (copy_state g (fold track (map ((!) (events g ! t)) [a..<b]) m)
        (T[t := T ! t @ map (prune_write v) (map ((!) (events g ! t)) [a..<b])]))"
  using a(2) g(3) v
proof (induction b rule: dec_induct)
  case (step n)
  let ?T = "T[t := T ! t @ map (prune_write v) (map ((!) (events g ! t)) [a..<n])]"
  note f = graph_wf_label_facts [OF g(1,2), of n]
  have "copy_event g (VC_View v) (int t) (copy_state g m' ?T) (int n) =
      Some (copy_state g (track (events g ! t ! n) m') (?T[t := ?T ! t @ [prune_write v (events g ! t ! n)]]))" for m'
    using f step.prems step.hyps a(1) g(2,4)
    by (intro copy_event_state) auto
  then show ?case using step g(2,4) by (simp add: try_fold_append)
qed simp

lemma copy_thread_state:
  assumes g: "graph_wf g" "view_fits g v" "t < length (events g)" "length T = length (events g)" "T ! t = []"
  shows "copy_thread g (VC_View v) (copy_state g m T) t =
     Some (copy_state g (fold track (copy_src g v t) m) (T[t := map (prune_write v) (copy_src g v t)]))"
proof -
  define M where "M = nat (View_getMax v (int t))"
  have m: "int M = View_getMax v (int t)" "M < length (events g ! t)"
    using g(2,3) by (auto simp: view_fits_def View_inv_iff M_def nat_less_iff)
  have c: "\<forall>j<Suc M. View_contains v (Event (int t) (int j))" using m(1) by (simp add: View_contains_def)
  have "map int [1..<Suc k] = map (\<lambda>i. 1 + int i) [0..<k]" for k by (induction k) simp_all
  then have r: "[1 .. View_getMax v (int t)] = map int [1..<Suc M]"
    using map_upt_upto [of 1 M] unfolding m(1) [symmetric] by simp
  have src: "copy_src g v t = map ((!) (events g ! t)) [row_start t..<Suc M]" by (simp add: copy_src_def M_def)
  note loop = copy_events_state [OF g(1,3), of "Suc M" _ v, OF _ _ c]
  show ?thesis
  proof (cases "t = 0")
    case True
    then show ?thesis using loop [of T 1 m] m(2) g(4,5) r src True
      by (simp add: copy_thread_def row_start_def del: upt_Suc)
  next
    case False
    let ?l = "events g ! t ! 0"
    note f = graph_wf_label_facts [OF g(1,3), of 0]
    have p: "0 < length (events g ! t)" using m(2) by linarith
    have "isThreadStart (kind ?l)" using starts_first_0 [of g "Event (int t) 0"] g(1) f(1) [OF p] by (simp add: graph_wf_def)
    then have st: "\<not> isMemAccess (kind ?l)" "\<not> isWrite (kind ?l)" by (auto dest: kind_disjoint(4) kind_subclasses(2))
    have "addLabelToGraph ?l (copy_state g m T) = Some (copy_state g m (T[t := [?l]]))"
      using copy_state_append [of t T ?l g m] f [OF p] g(3,4,5) False by (simp add: row_start_def)
    moreover have "[0..<Suc M] = 0 # [1..<Suc M]" by (simp add: upt_rec)
    ultimately show ?thesis
      using loop [of "T[t := [?l]]" 1 m] m(2) g(3,4) r False f(1) [OF p] st
      by (simp add: copy_thread_def src row_start_def track_def prune_write_def del: upt_Suc)
  qed
qed

lemma copy_threads_state:
  assumes g: "graph_wf g" "view_fits g v" and k: "k \<le> length (events g)"
  shows "try_fold (copy_thread g (VC_View v)) [0..<k] (copy_state g [] (replicate (length (events g)) [])) =
     Some (copy_state g (fold track (concat (map (copy_src g v) [0..<k])) [])
       (map (\<lambda>t. map (prune_write v) (copy_src g v t)) [0..<k] @ replicate (length (events g) - k) []))"
  using k
proof (induction k)
  case (Suc k)
  let ?T = "map (\<lambda>t. map (prune_write v) (copy_src g v t)) [0..<k] @ replicate (length (events g) - k) []"
  have "?T[k := x] = map (\<lambda>t. map (prune_write v) (copy_src g v t)) [0..<k] @ x # replicate (length (events g) - Suc k) []" for x
    using Suc.prems by (simp add: list_update_append Cons_replicate_eq Suc_diff_le Suc_diff_Suc [symmetric])
  moreover have "?T ! k = []" using Suc.prems by (simp add: nth_append)
  ultimately show ?case
    using Suc copy_thread_state [OF g, of k ?T] by (simp add: try_fold_append)
qed simp

text \<open>The labels of the copied graph.\<close>

lemma copy_state_labels:
  fixes m :: "(SAddr \<times> Event list) list"
  assumes g: "graph_wf g" "view_fits g v"
  defines "h \<equiv> copy_state g m (map (\<lambda>t. map (prune_write v) (copy_src g v t)) [0..<length (events g)])"
  shows "getEventLabel h e = (if e = getInit then Some (copy_ini\<lparr>initRfs := m\<rparr>)
     else if View_contains v e then map_option (prune_write v) (getEventLabel g e) else None)"
proof -
  let ?n = "length (events g)"
  have pos: "0 < ?n" using g(1) by (auto simp: graph_wf_def rf_inv_def label_is_def getEventLabel_def containsPos_iff split: if_splits option.splits)
  define rows where "rows = map (\<lambda>t. map (prune_write v) (copy_src g v t)) [0..<?n]"
  have ev: "length (events h) = ?n" "\<And>t. t < ?n \<Longrightarrow> events h ! t = (if t = 0 then [copy_ini\<lparr>initRfs := m\<rparr>] else []) @ map (prune_write v) (copy_src g v t)"
    using pos by (simp_all add: h_def copy_state_def nth_list_update)
  have len: "row_start t + length (copy_src g v t) = Suc (nat (View_getMax v (int t)))" if "t < ?n" for t
    by (simp add: copy_src_def row_start_def)
  have max: "0 \<le> View_getMax v (int t)" "View_getMax v (int t) < int (length (events g ! t))" if "t < ?n" for t
    using g(2) that by (auto simp: view_fits_def View_inv_iff)
  have nth: "events h ! t ! i = (if t = 0 \<and> i = 0 then copy_ini\<lparr>initRfs := m\<rparr> else prune_write v (events g ! t ! i))"
    if "t < ?n" "i \<le> nat (View_getMax v (int t))" for t i
    using that len [OF that(1)] by (auto simp: ev(2) nth_append nth_Cons' copy_src_def row_start_def simp del: upt_Suc)
  have c: "containsPos h e \<longleftrightarrow> containsPos g e \<and> View_contains v e"
  proof (cases "0 \<le> thread e \<and> nat (thread e) < ?n")
    case True
    define t where "t = nat (thread e)"
    have t: "thread e = int t" "t < ?n" using True by (simp_all add: t_def)
    then have "length (events h ! t) = Suc (nat (View_getMax v (int t)))"
      using len [of t] by (simp add: ev(2) row_start_def split: if_splits)
    then show ?thesis using t max [of t] by (auto simp: containsPos_iff ev(1) View_contains_def)
  qed (auto simp: containsPos_iff ev(1))
  have c0: "containsPos g getInit" "View_contains v getInit"
    using g max [of 0] pos by (auto simp: graph_wf_def rf_inv_def label_is_def getEventLabel_def View_contains_def getInit_def split: if_splits option.splits)
  show ?thesis
  proof (cases "containsPos h e")
    case True
    then have "nat (thread e) < ?n" "nat (index e) \<le> nat (View_getMax v (int (nat (thread e))))" "0 \<le> thread e" "0 \<le> index e"
      using c by (auto simp: containsPos_iff View_contains_def)
    moreover from this have "nat (thread e) = 0 \<and> nat (index e) = 0 \<longleftrightarrow> e = getInit"
      by (cases e) (auto simp: getInit_def)
    ultimately show ?thesis using True c c0 nth [of "nat (thread e)" "nat (index e)"] by (auto simp: getEventLabel_def)
  next
    case False
    then show ?thesis using c c0 by (auto simp: getEventLabel_def)
  qed
qed

section \<open>Relinking\<close>

text \<open>Lists of readers and accesses have no duplicates, and pointers lead to labels of the right class.\<close>

definition links_typed :: "ExecutionGraph \<Rightarrow> bool" where
  "links_typed g = (\<forall>e l. getEventLabel g e = Some l \<longrightarrow>
     (isWrite (kind l) \<longrightarrow> distinct (readerList l)) \<and>
     (kind l = EL_Malloc \<longrightarrow> distinct (accessList l) \<and> (\<forall>a\<in>set (accessList l). label_is (\<lambda>m. isMemAccess (kind m)) g a) \<and>
        (\<forall>d\<in>set_option (freeLab l). label_is (\<lambda>m. isFree (kind m)) g d)) \<and>
     (isMemAccess (kind l) \<longrightarrow> (\<forall>a\<in>set_option (allocLab l). label_is (\<lambda>m. kind m = EL_Malloc) g a)) \<and>
     (kind l = EL_ThreadFinish \<longrightarrow> (\<forall>j\<in>set_option (parentJoin l). label_is (\<lambda>m. kind m = EL_ThreadJoin) g j)) \<and>
     (isFree (kind l) \<longrightarrow> (\<forall>a\<in>set_option (aLab l). label_is (\<lambda>m. kind m = EL_Malloc) g a)) \<and>
     (kind l = EL_Init \<longrightarrow> (\<forall>p\<in>set (initRfs l). distinct (snd p))))"

lemma add_readers:
  assumes "distinct rs" "set rs \<inter> set (readerList l) = {}"
    and "\<forall>r\<in>set rs. View_contains v r \<longrightarrow> (\<exists>rl. getReadLabel h r = Some rl \<and> position rl = r)"
  shows "try_fold (\<lambda>l r. if VectorClock_contains (VC_View v) r
       then do { rLab \<leftarrow> getReadLabel h r; addReader (position rLab) l } else Some l) rs l =
     Some (l\<lparr>readerList := readerList l @ filter (View_contains v) rs\<rparr>)"
  using assms by (induction rs arbitrary: l) (auto simp: addReader_def BUG_ON_def)

lemma add_accesses:
  assumes "distinct es" "set es \<inter> set (accessList l) = {}"
    and "\<forall>e\<in>set es. View_contains v e \<longrightarrow> (\<exists>ml. getEventLabel h e = Some ml \<and> isMemAccess (kind ml) \<and> position ml = e)"
  shows "try_fold (\<lambda>l e. if VectorClock_contains (VC_View v) e
       then do { mLab \<leftarrow> getEventLabel h e; BUG_ON (\<not> isMemAccess (kind mLab)); addAccess (position mLab) l } else Some l) es l =
     Some (l\<lparr>accessList := accessList l @ filter (View_contains v) es\<rparr>)"
  using assms by (induction es arbitrary: l) (auto simp: addAccess_def BUG_ON_def)

lemma relink_ptr_prune:
  assumes "\<forall>e\<in>set_option p. keep e = View_contains v e"
    and "\<forall>e\<in>set_option p. View_contains v e \<longrightarrow> (\<exists>l. getEventLabel h e = Some l \<and> K (kind l) \<and> position l = e)"
  shows "relink_ptr keep K h p = Some (prune_opt v p)"
  using assms by (cases p) (auto simp: relink_ptr_def prune_opt_def)

lemma kind_exclusive:
  "isRead k \<Longrightarrow> k \<noteq> EL_ThreadFinish \<and> k \<noteq> EL_Malloc \<and> \<not> isFree k"
  "isWrite k \<Longrightarrow> \<not> isRead k \<and> k \<noteq> EL_ThreadFinish \<and> k \<noteq> EL_Malloc \<and> \<not> isFree k"
  "isMemAccess k \<Longrightarrow> k \<noteq> EL_ThreadFinish \<and> k \<noteq> EL_Malloc \<and> \<not> isFree k"
  "isFree k \<Longrightarrow> k \<noteq> EL_ThreadFinish \<and> k \<noteq> EL_Malloc"
  by (auto simp: kind_defs)

lemmas relink_steps = relink_label_def relink_read_def relink_write_def relink_access_def relink_finish_def
  relink_malloc_def relink_free_def prune_label_def prune_steps

text \<open>What relinking needs to know of a label and of the graph h that holds the copies.\<close>

lemma relink_label_prune:
  assumes g: "graph_wf g" "links_typed g" and l: "getEventLabel g e = Some l"
    and h: "\<And>x m. getEventLabel g x = Some m \<Longrightarrow> View_contains v x \<Longrightarrow>
        \<exists>m'. getEventLabel h x = Some m' \<and> kind m' = kind m \<and> position m' = x"
    and c: "\<And>x. containsPos h x \<longleftrightarrow> containsPos g x \<and> View_contains v x"
  shows "relink_label g (VC_View v) h (prune_write v l) = Some (prune_label v l)"
proof -
  have pl: "position l = e" using g(1) l by (auto simp: graph_wf_def rf_inv_def label_is_def dest!: spec [of _ e])
  have ty: "links_typed g \<Longrightarrow> getEventLabel g e = Some l \<Longrightarrow> P" if "(isWrite (kind l) \<longrightarrow> distinct (readerList l)) \<and>
     (kind l = EL_Malloc \<longrightarrow> distinct (accessList l) \<and> (\<forall>a\<in>set (accessList l). label_is (\<lambda>m. isMemAccess (kind m)) g a) \<and>
        (\<forall>d\<in>set_option (freeLab l). label_is (\<lambda>m. isFree (kind m)) g d)) \<and>
     (isMemAccess (kind l) \<longrightarrow> (\<forall>a\<in>set_option (allocLab l). label_is (\<lambda>m. kind m = EL_Malloc) g a)) \<and>
     (kind l = EL_ThreadFinish \<longrightarrow> (\<forall>j\<in>set_option (parentJoin l). label_is (\<lambda>m. kind m = EL_ThreadJoin) g j)) \<and>
     (isFree (kind l) \<longrightarrow> (\<forall>a\<in>set_option (aLab l). label_is (\<lambda>m. kind m = EL_Malloc) g a)) \<Longrightarrow> P" for P
    using that unfolding links_typed_def by blast
  have lk: "\<exists>m'. getEventLabel h x = Some m' \<and> K (kind m') \<and> position m' = x"
    if "label_is (\<lambda>m. K (kind m)) g x" "View_contains v x" for x K
    using that h [of x] by (cases "getEventLabel g x") (auto simp: label_is_def)
  have ptr: "relink_ptr keep K h p = Some (prune_opt v p)"
    if "\<forall>x\<in>set_option p. label_is (\<lambda>m. K (kind m)) g x" "keep = View_contains v \<or> keep = containsPos h" for keep K p
    using that lk c by (intro relink_ptr_prune) (auto simp: label_is_def getEventLabel_def split: if_splits option.splits)
  have rd: "\<exists>rl. getReadLabel h r = Some rl \<and> position rl = r" if "isWrite (kind l)" "r \<in> set (readerList l)" "View_contains v r" for r
  proof -
    have "reads_from g r e" using that(1,2) g(1) l by (auto simp: graph_wf_def rf_inv_def listed_reader_def label_is_def)
    then have "label_is (\<lambda>m. isRead (kind m)) g r" by (auto simp: reads_from_def label_is_def split: option.splits)
    then show ?thesis using lk [of isRead r] that(3) by (auto simp: getReadLabel_def)
  qed
  have rf: "filter (\<lambda>p. containsPos h (fst p)) (rfs l) = prune_rfs v (rfs l)" if "isRead (kind l)"
  proof -
    have "length (rfs l) \<le> 1" using g(1) l that by (auto simp: graph_wf_def single_rf_def label_is_def dest!: spec [of _ e])
    moreover have "containsPos g (fst p)" if "p \<in> set (rfs l)" for p
      using g(1) l that \<open>isRead (kind l)\<close> by (force simp: graph_wf_def ptrs_in_def label_ptrs_def)
    ultimately show ?thesis using c by (auto simp: prune_rfs_single intro!: filter_cong)
  qed
  consider (r) "isRead (kind l)" | (w) "isWrite (kind l)" | (f) "kind l = EL_ThreadFinish" | (m) "kind l = EL_Malloc"
    | (d) "isFree (kind l)" | (n) "\<not> isRead (kind l)" "\<not> isWrite (kind l)" "kind l \<noteq> EL_ThreadFinish" "kind l \<noteq> EL_Malloc" "\<not> isFree (kind l)"
    by blast
  then show ?thesis
  proof cases
    case r
    then have "relink_ptr (containsPos h) (\<lambda>k. k = EL_Malloc) h (allocLab l) = Some (prune_opt v (allocLab l))"
      using ty [OF _ g(2) l] by (intro ptr) auto
    then show ?thesis using r rf kind_exclusive(1) [OF r] kind_disjoint(1) [OF r]
      by (simp add: relink_steps)
  next
    case w
    have "relink_ptr (containsPos h) (\<lambda>k. k = EL_Malloc) h (allocLab l) = Some (prune_opt v (allocLab l))"
      using w ty [OF _ g(2) l] by (intro ptr) auto
    moreover have "distinct (readerList l)" using w ty [OF _ g(2) l] by auto
    moreover have "getWriteLabel g (position l) = Some l" using pl l w by (simp add: getWriteLabel_def)
    ultimately show ?thesis using w rd kind_exclusive(2) [OF w] add_readers [of "readerList l" "l\<lparr>readerList := []\<rparr>" v h]
      by (simp add: relink_steps removeReader_def)
  next
    case f
    then have "relink_ptr (VectorClock_contains (VC_View v)) (\<lambda>k. k = EL_ThreadJoin) h (parentJoin l) = Some (prune_opt v (parentJoin l))"
      using ty [OF _ g(2) l] by (intro ptr) (auto simp: fun_eq_iff)
    moreover have "\<not> isRead EL_ThreadFinish" "\<not> isWrite EL_ThreadFinish" "\<not> isMemAccess EL_ThreadFinish" "\<not> isFree EL_ThreadFinish"
      by (simp_all add: kind_defs)
    ultimately show ?thesis using f
      by (simp add: relink_steps)
  next
    case m
    then have "relink_ptr (VectorClock_contains (VC_View v)) isFree h (freeLab l) = Some (prune_opt v (freeLab l))"
      using ty [OF _ g(2) l] by (intro ptr) (auto simp: fun_eq_iff)
    moreover have "distinct (accessList l)" "\<forall>a\<in>set (accessList l). label_is (\<lambda>x. isMemAccess (kind x)) g a"
      using m ty [OF _ g(2) l] by auto
    moreover from this have "\<forall>a\<in>set (accessList l). View_contains v a \<longrightarrow> (\<exists>ml. getEventLabel h a = Some ml \<and> isMemAccess (kind ml) \<and> position ml = a)"
      using lk [of isMemAccess] by blast
    moreover have "\<not> isRead EL_Malloc" "\<not> isWrite EL_Malloc" "\<not> isMemAccess EL_Malloc" "\<not> isFree EL_Malloc"
      by (simp_all add: kind_defs)
    ultimately show ?thesis using m l pl add_accesses [of "accessList l" "l\<lparr>freeLab := prune_opt v (freeLab l), accessList := []\<rparr>" v h]
      by (simp add: relink_steps removeAccess_def BUG_ON_def)
  next
    case d
    then have "relink_ptr (VectorClock_contains (VC_View v)) (\<lambda>k. k = EL_Malloc) h (aLab l) = Some (prune_opt v (aLab l))"
      using ty [OF _ g(2) l] by (intro ptr) (auto simp: fun_eq_iff)
    moreover have "\<not> isMemAccess (kind l)" "\<not> isRead (kind l)" "\<not> isWrite (kind l)"
      using kind_disjoint(5) [OF d] kind_subclasses(1,2) by blast+
    ultimately show ?thesis using d kind_exclusive(4) [OF d]
      by (simp add: relink_steps)
  next
    case n
    have "isMemAccess (kind l) \<Longrightarrow> relink_ptr (containsPos h) (\<lambda>k. k = EL_Malloc) h (allocLab l) = Some (prune_opt v (allocLab l))"
      using ty [OF _ g(2) l] by (intro ptr) auto
    then show ?thesis using n
      by (cases "isMemAccess (kind l)") (simp_all add: relink_steps)
  qed
qed

lemma map_opt_total: "\<forall>x\<in>set xs. f x = Some (h x) \<Longrightarrow> map_opt f xs = Some (map h xs)"
  by (induction xs) auto

lemma prune_label_twice [simp]: "prune_label v (prune_write v l) = prune_label v l"
  by (simp add: prune_label_def prune_write_def removeReader_def)

lemma getEventLabel_map:
  "events h' = map (map f) (events h) \<Longrightarrow> getEventLabel h' e = map_option f (getEventLabel h e)"
  by (auto simp: getEventLabel_def containsPos_iff)

lemma copy_ini_kind [simp]: "kind copy_ini = EL_Init" "position copy_ini = getInit" "stamp copy_ini = Some 0"
  by (simp_all add: copy_ini_def InitLabel_def EventLabel_new_def)

lemma getEventLabel_row:
  assumes "ls \<in> set (events h)" "l \<in> set ls"
  obtains e where "getEventLabel h e = Some l"
proof -
  obtain t i where "t < length (events h)" "ls = events h ! t" "i < length ls" "l = ls ! i"
    using assms by (metis in_set_conv_nth)
  then show thesis using that [of "Event (int t) (int i)"] getEventLabel_nat [of h t i] by simp
qed

lemma relink_graph_copy:
  fixes m :: "(SAddr \<times> Event list) list"
  assumes g: "graph_wf g" "view_fits g v" "links_typed g"
  defines "h \<equiv> copy_state g m (map (\<lambda>t. map (prune_write v) (copy_src g v t)) [0..<length (events g)])"
  shows "relink_graph g (VC_View v) h = Some (h\<lparr>events := map (map (prune_label v)) (events h)\<rparr>)"
proof -
  note lab = copy_state_labels [OF g(1,2), of m, folded h_def]
  have "relink_label g (VC_View v) h l = Some (prune_label v l)" if "ls \<in> set (events h)" "l \<in> set ls" for ls l
  proof -
    note row = that
    obtain e where e: "getEventLabel h e = Some l" using getEventLabel_row [OF row] .
    show ?thesis
    proof (cases "e = getInit")
      case True
      then have l: "l = copy_ini\<lparr>initRfs := m\<rparr>" using e lab [of e] by simp
      have "\<not> isRead EL_Init" "\<not> isWrite EL_Init" "\<not> isMemAccess EL_Init" "\<not> isFree EL_Init" by (simp_all add: kind_defs)
      then show ?thesis by (simp add: l relink_steps)
    next
      case False
      then obtain k where k: "getEventLabel g e = Some k" "l = prune_write v k"
        using e lab [of e] by (auto split: if_splits)
      have ini: "getEventLabel g getInit = Some i \<Longrightarrow> kind i = EL_Init" for i
        using g(1) by (simp add: graph_wf_def rf_inv_def label_is_def)
      have "\<exists>m'. getEventLabel h x = Some m' \<and> kind m' = kind k' \<and> position m' = x"
        if "getEventLabel g x = Some k'" "View_contains v x" for x k'
        using that lab [of x] ini rf_inv_position [of g x k'] g(1) by (auto simp: graph_wf_def)
      moreover have "containsPos h x \<longleftrightarrow> containsPos g x \<and> View_contains v x" for x
      proof -
        have "View_contains v getInit" "getEventLabel g getInit \<noteq> None"
          using g(1,2) by (auto simp: view_fits_def View_inv_iff View_contains_def getInit_def graph_wf_def rf_inv_def label_is_def split: option.splits)
        then show ?thesis using lab [of x] by (auto simp: getEventLabel_def split: if_splits)
      qed
      ultimately show ?thesis using relink_label_prune [OF g(1,3) k(1), of v h] by (simp add: k(2))
    qed
  qed
  then have "map_opt (map_opt (relink_label g (VC_View v) h)) (events h) = Some (map (map (prune_label v)) (events h))"
    by (intro map_opt_total ballI) blast
  then show ?thesis by (simp add: relink_graph_def)
qed

end
