(* ===== verification/CopyExact.thy ===== *)
theory CopyExact
  imports GraphCopy
begin

text \<open>
  The copy of a graph up to a view is exact: it has the labels of the view, linked among each other
  as in the original, and the coherence lists restricted to the view.
\<close>

section \<open>Filling the location maps\<close>

text \<open>Appending each element to the bucket of its key.\<close>

definition append_all :: "('x \<Rightarrow> 'k) \<Rightarrow> 'x list \<Rightarrow> ('k \<times> 'x list) list \<Rightarrow> ('k \<times> 'x list) list" where
  "append_all \<kappa> xs m = fold (\<lambda>x. bucket_upd (\<kappa> x) (\<lambda>ys. ys @ [x])) xs m"

lemma append_all_simps [simp]:
  "append_all \<kappa> [] m = m" "append_all \<kappa> (x # xs) m = append_all \<kappa> xs (bucket_upd (\<kappa> x) (\<lambda>ys. ys @ [x]) m)"
  by (simp_all add: append_all_def)

lemma bucket_append_all: "bucket (append_all \<kappa> xs m) a = bucket m a @ filter (\<lambda>x. \<kappa> x = a) xs"
proof (induction xs arbitrary: m)
  case (Cons x xs)
  then show ?case by (cases "\<kappa> x = a") simp_all
qed simp

lemma append_all_keys: "\<forall>x\<in>set xs. \<kappa> x \<in> fst ` set m \<Longrightarrow> map fst (append_all \<kappa> xs m) = map fst m"
proof (induction xs arbitrary: m)
  case (Cons x xs)
  then have k: "map fst (bucket_upd (\<kappa> x) (\<lambda>ys. ys @ [x]) m) = map fst m" by (simp add: bucket_upd_keys)
  then have "fst ` set (bucket_upd (\<kappa> x) (\<lambda>ys. ys @ [x]) m) = fst ` set m" by (metis list.set_map)
  then show ?case using Cons k by simp
qed simp

lemma filter_concat_bucket:
  assumes "distinct (map fst m)" "\<forall>p\<in>set m. \<forall>x\<in>set (snd p). P x \<longrightarrow> \<kappa> x = fst p"
  shows "filter (\<lambda>x. \<kappa> x = a) (filter P (concat (map snd m))) = filter P (bucket m a)"
  using assms
proof (induction m)
  case (Cons p m)
  have 1: "filter (\<lambda>x. \<kappa> x = a) (filter P (snd p)) = (if fst p = a then filter P (snd p) else [])"
    using Cons.prems(2) by (auto simp: filter_empty_conv intro!: filter_cong)
  have "map_of m a = None" if "fst p = a" using that Cons.prems(1) by (auto simp: map_of_eq_None_iff)
  then have 2: "bucket (p # m) a = (if fst p = a then snd p @ bucket m a else bucket m a)"
    by (cases p) (auto simp: bucket_def)
  show ?case using Cons 1 2 by simp
qed (simp add: bucket_def)

lemma track_fold:
  assumes "distinct (map fst m)" "\<forall>p\<in>set m. SAddr_align (fst p) = fst p \<and> snd p = []"
  shows "distinct (map fst (fold track ls m)) \<and> (\<forall>p\<in>set (fold track ls m). SAddr_align (fst p) = fst p \<and> snd p = []) \<and>
     fst ` set (fold track ls m) = fst ` set m \<union> {getBucket (getAddr l) | l. l \<in> set ls \<and> isMemAccess (kind l)}"
  using assms
proof (induction ls arbitrary: m)
  case (Cons l ls)
  have al: "SAddr_align (SAddr_align a) = SAddr_align a" for a
    using SAddr_align_iff [of "SAddr_align a"] by (simp add: SAddr_align_uint)
  have "\<forall>p\<in>set (bucket_upd k (\<lambda>s. s) m'). p \<in> set m' \<or> p = (k, [])" for k and m' :: "(SAddr \<times> Event list) list"
    by (induction k "\<lambda>s :: Event list. s" m' rule: bucket_upd.induct) auto
  then have "p \<in> set m \<or> p = (getBucket (getAddr l), [])" if "p \<in> set (track l m)" for p
    using that by (auto simp: track_def split: if_splits)
  then have t2: "\<forall>p\<in>set (track l m). SAddr_align (fst p) = fst p \<and> snd p = []"
    using Cons.prems(2) al [of "getAddr l"] by (metis fst_conv snd_conv getBucket_def)
  have t1: "distinct (map fst (track l m))"
    using Cons.prems(1) distinct_bucket_upd [OF Cons.prems(1)] by (simp add: track_def)
  have t3: "fst ` set (track l m) = fst ` set m \<union> (if isMemAccess (kind l) then {getBucket (getAddr l)} else {})"
    by (simp add: track_def fst_bucket_upd)
  have "distinct (map fst (fold track ls (track l m))) \<and>
      (\<forall>p\<in>set (fold track ls (track l m)). SAddr_align (fst p) = fst p \<and> snd p = []) \<and>
      fst ` set (fold track ls (track l m)) = fst ` set m \<union> (if isMemAccess (kind l) then {getBucket (getAddr l)} else {}) \<union>
        {getBucket (getAddr l) | l. l \<in> set ls \<and> isMemAccess (kind l)}"
    using Cons.IH [OF t1 t2] unfolding t3 .
  moreover have "{getBucket (getAddr k) | k. k \<in> set (l # ls) \<and> isMemAccess (kind k)} =
      (if isMemAccess (kind l) then {getBucket (getAddr l)} else {}) \<union> {getBucket (getAddr k) | k. k \<in> set ls \<and> isMemAccess (kind k)}"
    by auto
  ultimately show ?case unfolding fold_simps Un_assoc by metis
qed simp

lemma bucket_upd_cong: "f (bucket m k) = f' (bucket m k) \<Longrightarrow> bucket_upd k f m = bucket_upd k f' m"
  by (induction k f m rule: bucket_upd.induct) (auto simp: bucket_def)

lemma copy_stores:
  assumes "\<forall>s\<in>set ss. View_contains v s \<longrightarrow>
     (\<exists>w. getWriteLabel h s = Some w \<and> position w = s \<and> getBucket (getAddr w) = \<kappa> s)"
  shows "try_fold (copy_store (VC_View v)) ss h =
     Some (h\<lparr>coherence := append_all \<kappa> (filter (View_contains v) ss) (coherence h)\<rparr>)"
  using assms
proof (induction ss arbitrary: h)
  case (Cons s ss)
  show ?case
  proof (cases "View_contains v s")
    case True
    then obtain w where w: "getWriteLabel h s = Some w" "position w = s" "getBucket (getAddr w) = \<kappa> s" using Cons.prems by auto
    let ?h = "h\<lparr>coherence := bucket_upd (\<kappa> s) (\<lambda>ys. ys @ [s]) (coherence h)\<rparr>"
    have "bucket_upd k (\<lambda>ys. take (length (bucket m k)) ys @ x # drop (length (bucket m k)) ys) m = bucket_upd k (\<lambda>ys. ys @ [x]) m"
      for k :: SAddr and m and x :: Event by (rule bucket_upd_cong) simp
    then have "addStoreToCO w (length (getStoresToLoc h (getAddr w))) h = ?h"
      using w(2,3) by (simp add: addStoreToCO_def getStoresToLoc_def)
    moreover have "getWriteLabel ?h x = getWriteLabel h x" for x by (simp add: getWriteLabel_def getEventLabel_coherence)
    ultimately show ?thesis using Cons w(1) True by (simp add: copy_store_def)
  next
    case False
    then show ?thesis using Cons by (simp add: copy_store_def)
  qed
qed simp

lemma upd_label_const: "getEventLabel h e = Some l \<Longrightarrow> upd_label e (\<lambda>_. f l) h = upd_label e f h"
  by (auto simp: upd_label_def getEventLabel_def split: if_splits)

lemma copy_init_readers:
  assumes "getEventLabel h (Event 0 0) = Some ini" "\<not> isRead (kind ini)" "distinct rs"
    "\<forall>r\<in>set rs. View_contains v r \<longrightarrow> (\<exists>l. getReadLabel h r = Some l \<and> position l = r \<and> SAddr_align (getAddr l) = \<kappa> r)"
    "\<forall>r\<in>set rs. r \<notin> set (bucket (initRfs ini) (\<kappa> r))"
  shows "try_fold (copy_init_reader (VC_View v)) rs h =
     Some (upd_label (Event 0 0) (\<lambda>l. l\<lparr>initRfs := append_all \<kappa> (filter (View_contains v) rs) (initRfs l)\<rparr>) h)"
  using assms
proof (induction rs arbitrary: h ini)
  case Nil
  then show ?case by (simp add: upd_label_def)
next
  case (Cons r rs)
  show ?case
  proof (cases "View_contains v r")
    case True
    then obtain l where l: "getReadLabel h r = Some l" "position l = r" "SAddr_align (getAddr l) = \<kappa> r" using Cons.prems(4) by auto
    define f where "f = (\<lambda>k :: EventLabel. k\<lparr>initRfs := bucket_upd (\<kappa> r) (\<lambda>ys. ys @ [r]) (initRfs k)\<rparr>)"
    have "r \<notin> set (bucket (initRfs ini) (\<kappa> r))" using Cons.prems(5) by simp
    then have "addInitRfToLoc l h = Some (upd_label (Event 0 0) (\<lambda>_. f ini) h)"
      using Cons.prems(1) l by (simp add: addInitRfToLoc_def getInitLabel_def init_addReader_def init_rf_range_def getAddr_def
          BUG_ON_def f_def)
    then have st: "copy_init_reader (VC_View v) h r = Some (upd_label (Event 0 0) f h)"
      using True l(1) upd_label_const [OF Cons.prems(1), of f] by (simp add: copy_init_reader_def)
    have rd: "getReadLabel (upd_label (Event 0 0) f h) x = getReadLabel h x" if "getReadLabel h x \<noteq> None" for x
      using that Cons.prems(1,2) by (auto simp: getReadLabel_def getEventLabel_upd_label split: if_splits)
    have "try_fold (copy_init_reader (VC_View v)) rs (upd_label (Event 0 0) f h) =
        Some (upd_label (Event 0 0) (\<lambda>l. l\<lparr>initRfs := append_all \<kappa> (filter (View_contains v) rs) (initRfs l)\<rparr>) (upd_label (Event 0 0) f h))"
    proof (rule Cons.IH [of _ "f ini"])
      show "getEventLabel (upd_label (Event 0 0) f h) (Event 0 0) = Some (f ini)"
        using Cons.prems(1) by (simp add: getEventLabel_upd_label)
      show "\<forall>x\<in>set rs. x \<notin> set (bucket (initRfs (f ini)) (\<kappa> x))"
      proof
        fix x assume "x \<in> set rs"
        then have "x \<noteq> r" "x \<notin> set (bucket (initRfs ini) (\<kappa> x))" using Cons.prems(3,5) by auto
        then show "x \<notin> set (bucket (initRfs (f ini)) (\<kappa> x))" by (cases "\<kappa> x = \<kappa> r") (simp_all add: f_def)
      qed
      show "\<forall>x\<in>set rs. View_contains v x \<longrightarrow> (\<exists>l. getReadLabel (upd_label (Event 0 0) f h) x = Some l \<and> position l = x \<and> SAddr_align (getAddr l) = \<kappa> x)"
        using Cons.prems(4) rd by fastforce
    qed (use Cons.prems(2,3) in \<open>simp_all add: f_def\<close>)
    then show ?thesis using st True by (simp add: upd_label_twice f_def comp_def)
  next
    case False
    then show ?thesis using Cons.IH [OF Cons.prems(1,2)] Cons.prems(3-5) by (simp add: copy_init_reader_def)
  qed
qed

section \<open>The copy\<close>

text \<open>
  What the copy is: the labels of the view, pruned, and location maps filtered by the view, with the
  same keys for stores and for readers of the initial values.
\<close>

definition is_copy :: "View \<Rightarrow> ExecutionGraph \<Rightarrow> ExecutionGraph \<Rightarrow> bool" where
  "is_copy v g g' =
     (length (events g') = length (events g) \<and> timestamp g' = timestamp g \<and>
      (\<forall>e. e \<noteq> getInit \<longrightarrow> getEventLabel g' e = (if View_contains v e then map_option (prune_label v) (getEventLabel g e) else None)) \<and>
      label_is (\<lambda>ini. kind ini = EL_Init \<and> position ini = getInit \<and> stamp ini = Some 0 \<and> map fst (initRfs ini) = map fst (coherence g') \<and>
        (\<forall>a. bucket (initRfs ini) a = (case getEventLabel g getInit of None \<Rightarrow> [] | Some i \<Rightarrow> filter (View_contains v) (bucket (initRfs i) a)))) g' getInit \<and>
      distinct (map fst (coherence g')) \<and> (\<forall>a\<in>fst ` set (coherence g'). SAddr_align a = a) \<and>
      (\<forall>a. bucket (coherence g') a = filter (View_contains v) (bucket (coherence g) a)))"

lemma distinct_concat_keys:
  assumes "distinct (map fst m)" "\<forall>p\<in>set m. distinct (snd p)" "\<forall>p\<in>set m. \<forall>r\<in>set (snd p). \<kappa> r = fst p"
  shows "distinct (concat (map snd m))"
  using assms
proof (induction m)
  case (Cons p m)
  have "r \<notin> set (concat (map snd m))" if "r \<in> set (snd p)" for r
  proof
    assume "r \<in> set (concat (map snd m))"
    then obtain q where "q \<in> set m" "r \<in> set (snd q)" by auto
    then have "fst q = fst p" using Cons.prems(3) that by (metis list.set_intros)
    then show False using Cons.prems(1) \<open>q \<in> set m\<close> by (metis distinct.simps(2) image_eqI list.set_map list.simps(9))
  qed
  then show ?case using Cons by auto
qed simp

lemma initRfs_concat:
  assumes g: "graph_wf g" "links_typed g" and i: "getEventLabel g getInit = Some ini"
  shows "map_opt (\<lambda>p. map_of (initRfs ini) (fst p)) (coherence g) = Some (map snd (initRfs ini))"
    and "distinct (concat (map snd (initRfs ini)))"
    and "\<forall>p\<in>set (initRfs ini). \<forall>r\<in>set (snd p). \<exists>l. getEventLabel g r = Some l \<and> isRead (kind l) \<and> SAddr_align (getAddr l) = fst p"
proof -
  have k: "map fst (initRfs ini) = map fst (coherence g)" "distinct (map fst (initRfs ini))" "kind ini = EL_Init"
    using g(1) i by (auto simp: graph_wf_def locs_tracked_def rf_inv_def label_is_def)
  have "map_opt (\<lambda>p. map_of m (fst p)) c = Some (map snd m)" if "map fst m = map fst c" "distinct (map fst m)"
    for m c :: "(SAddr \<times> Event list) list"
  proof -
    have "map_opt (\<lambda>k. map_of m k) (map fst m) = Some (map (\<lambda>k. the (map_of m k)) (map fst m))"
      by (rule map_opt_total) (auto simp: map_of_eq_None_iff)
    moreover have "map (\<lambda>k. the (map_of m k)) (map fst m) = map snd m" using that(2) by (auto simp: map_of_is_SomeI)
    moreover have "map_opt (\<lambda>p. f (fst p)) c = map_opt f (map fst c)" for f :: "SAddr \<Rightarrow> Event list option"
      by (induction c) simp_all
    ultimately show ?thesis using that(1) by simp
  qed
  then show "map_opt (\<lambda>p. map_of (initRfs ini) (fst p)) (coherence g) = Some (map snd (initRfs ini))" using k by blast
  show rd: "\<forall>p\<in>set (initRfs ini). \<forall>r\<in>set (snd p). \<exists>l. getEventLabel g r = Some l \<and> isRead (kind l) \<and> SAddr_align (getAddr l) = fst p"
  proof (intro ballI)
    fix p r assume p: "p \<in> set (initRfs ini)" "r \<in> set (snd p)"
    then have "bucket (initRfs ini) (fst p) = snd p" using map_of_is_SomeI [OF k(2), of "fst p" "snd p"] by (simp add: bucket_def)
    then have "init_listed g (fst p) r" using p i by (simp add: init_listed_def label_is_def)
    then show "\<exists>l. getEventLabel g r = Some l \<and> isRead (kind l) \<and> SAddr_align (getAddr l) = fst p"
      using init_listed_read [of g "fst p" r] g(1) by (metis graph_wf_def)
  qed
  have d: "\<forall>p\<in>set (initRfs ini). distinct (snd p)" using g(2) i k(3) unfolding links_typed_def by blast
  have "\<forall>p\<in>set (initRfs ini). \<forall>r\<in>set (snd p). SAddr_align (getAddr (the (getEventLabel g r))) = fst p"
    using rd by fastforce
  then show "distinct (concat (map snd (initRfs ini)))"
    using distinct_concat_keys [OF k(2) d, of "\<lambda>r. SAddr_align (getAddr (the (getEventLabel g r)))"] by blast
qed

lemma copy_key_in:
  assumes "graph_wf g" "view_fits g v" "getEventLabel g e = Some l" "isMemAccess (kind l)" "View_contains v e"
  shows "l \<in> set (concat (map (copy_src g v) [0..<length (events g)]))"
proof -
  have i: "index e \<noteq> 0" using starts_first_0 [of g e l] assms(1,3,4) kind_disjoint(4) by (auto simp: graph_wf_def)
  obtain t j where e: "e = Event (int t) (int j)" "t < length (events g)" "l = events g ! t ! j"
    using assms(3) by (rule getEventLabel_natE)
  have "0 < j" "j \<le> nat (View_getMax v (int t))" using i assms(5) e(1) by (simp_all add: View_contains_def le_nat_iff)
  then have "j \<in> set [row_start t..<Suc (nat (View_getMax v (int t)))]" by (simp add: row_start_def del: upt_Suc)
  then have "l \<in> set (copy_src g v t)" using e(3) unfolding copy_src_def by auto
  then show ?thesis using e(2) by auto
qed

lemma coherence_stores:
  assumes "graph_wf g" "p \<in> set (coherence g)" "s \<in> set (snd p)"
  obtains l where "getEventLabel g s = Some l" "isWrite (kind l)" "getBucket (getAddr l) = fst p"
  using assms by (cases p) (fastforce simp: graph_wf_def co_wf_def label_is_def split: option.splits)

lemma getCopyUpTo_is_copy:
  assumes g: "graph_wf g" "links_typed g" and v: "view_fits g v"
  shows "\<exists>g'. getCopyUpTo g (VC_View v) = Some g' \<and> is_copy v g g'"
proof -
  let ?n = "length (events g)" and ?in = "View_contains v"
  obtain ini where ini: "getEventLabel g getInit = Some ini"
    using g(1) by (auto simp: graph_wf_def rf_inv_def label_is_def split: option.splits)
  then have pos: "0 < ?n" by (auto simp: getEventLabel_Some_iff containsPos_iff)
  define \<kappa> where "\<kappa> = (\<lambda>e. case getEventLabel g e of None \<Rightarrow> 0 | Some l \<Rightarrow> SAddr_align (getAddr l))"
  define m where "m = fold track (concat (map (copy_src g v) [0..<?n])) []"
  define h where "h = copy_state g m (map (\<lambda>t. map (prune_write v) (copy_src g v t)) [0..<?n])"
  define h1 where "h1 = h\<lparr>events := map (map (prune_label v)) (events h)\<rparr>"
  define co where "co = append_all \<kappa> (filter ?in (concat (map snd (coherence g)))) m"
  define rs where "rs = concat (map snd (initRfs ini))"
  define irfs where "irfs = append_all \<kappa> (filter ?in rs) m"
  have m: "distinct (map fst m)" "\<forall>p\<in>set m. SAddr_align (fst p) = fst p \<and> snd p = []"
    "fst ` set m = {getBucket (getAddr l) | l. l \<in> set (concat (map (copy_src g v) [0..<?n])) \<and> isMemAccess (kind l)}"
    using track_fold [of "[]" "concat (map (copy_src g v) [0..<?n])"] by (simp_all add: m_def)
  have mb: "bucket m a = []" for a using m(2) by (force simp: bucket_def dest: map_of_SomeD split: option.splits)
  have key: "\<kappa> e = SAddr_align (getAddr l)" "?in e \<Longrightarrow> isMemAccess (kind l) \<Longrightarrow> \<kappa> e \<in> fst ` set m"
    if "getEventLabel g e = Some l" for e l
    using that copy_key_in [OF g(1) v that] unfolding m(3) by (auto simp: \<kappa>_def getBucket_def)
  have lab1: "getEventLabel h1 e = (if e = getInit then Some (copy_ini\<lparr>initRfs := m\<rparr>)
      else if ?in e then map_option (prune_label v) (getEventLabel g e) else None)" for e
  proof -
    have "prune_label v (copy_ini\<lparr>initRfs := m\<rparr>) = copy_ini\<lparr>initRfs := m\<rparr>" by (intro prune_label_start) (simp add: kind_defs)
    then show ?thesis using getEventLabel_map [of h1 "prune_label v" h e] copy_state_labels [OF g(1) v, of m, folded h_def, of e]
      by (cases "getEventLabel g e") (auto simp: h1_def)
  qed
  have "try_fold (copy_thread g (VC_View v)) [0..<?n] (copy_state g [] (replicate ?n [])) = Some h"
    using copy_threads_state [OF g(1) v, of ?n] by (simp add: h_def m_def)
  moreover have "relink_graph g (VC_View v) h = Some h1"
    using relink_graph_copy [OF g(1) v g(2), of m] by (simp add: h_def h1_def)
  moreover have "try_fold (copy_store (VC_View v)) (concat (map snd (coherence g))) h1 = Some (h1\<lparr>coherence := co\<rparr>)"
  proof -
    have "\<exists>w. getWriteLabel h1 s = Some w \<and> position w = s \<and> getBucket (getAddr w) = \<kappa> s"
      if "s \<in> set (concat (map snd (coherence g)))" "?in s" for s
    proof -
      note s = that
      obtain p where "p \<in> set (coherence g)" "s \<in> set (snd p)" using s(1) by auto
      then obtain l where l: "getEventLabel g s = Some l" "isWrite (kind l)" using coherence_stores [OF g(1)] by metis
      moreover have "s \<noteq> getInit"
        using l ini g(1) by (auto simp: graph_wf_def rf_inv_def label_is_def kind_defs)
      ultimately show ?thesis using lab1 [of s] s(2) key(1) [OF l(1)] rf_inv_position [of g s l] g(1)
        by (simp add: getWriteLabel_def getBucket_def graph_wf_def)
    qed
    moreover have "coherence h1 = m" by (simp add: h1_def h_def copy_state_def)
    ultimately show ?thesis using copy_stores [of "concat (map snd (coherence g))" v h1 \<kappa>] by (simp add: co_def)
  qed
  moreover have "try_fold (copy_init_reader (VC_View v)) rs (h1\<lparr>coherence := co\<rparr>) =
      Some (upd_label (Event 0 0) (\<lambda>l. l\<lparr>initRfs := append_all \<kappa> (filter ?in rs) (initRfs l)\<rparr>) (h1\<lparr>coherence := co\<rparr>))"
  proof (rule copy_init_readers [of _ "copy_ini\<lparr>initRfs := m\<rparr>"])
    show "getEventLabel (h1\<lparr>coherence := co\<rparr>) (Event 0 0) = Some (copy_ini\<lparr>initRfs := m\<rparr>)"
      using lab1 [of getInit] by (simp add: getEventLabel_coherence getInit_def)
    show "distinct rs" using initRfs_concat(2) [OF g ini] by (simp add: rs_def)
    show "\<forall>r\<in>set rs. ?in r \<longrightarrow> (\<exists>l. getReadLabel (h1\<lparr>coherence := co\<rparr>) r = Some l \<and> position l = r \<and> SAddr_align (getAddr l) = \<kappa> r)"
    proof (intro ballI impI)
      fix r assume r: "r \<in> set rs" "?in r"
      obtain l where l: "getEventLabel g r = Some l" "isRead (kind l)" using initRfs_concat(3) [OF g ini] r(1) by (auto simp: rs_def)
      moreover have "r \<noteq> getInit" using l ini g(1) by (auto simp: graph_wf_def rf_inv_def label_is_def kind_defs)
      ultimately show "\<exists>l. getReadLabel (h1\<lparr>coherence := co\<rparr>) r = Some l \<and> position l = r \<and> SAddr_align (getAddr l) = \<kappa> r"
        using lab1 [of r] r(2) key(1) [OF l(1)] rf_inv_position [of g r l] g(1)
        by (simp add: getReadLabel_def getEventLabel_coherence graph_wf_def)
    qed
  qed (simp_all add: mb kind_defs)
  moreover obtain k where k: "?n = Suc k" using pos by (cases ?n) simp_all
  ultimately have copy: "getCopyUpTo g (VC_View v) =
      Some (upd_label (Event 0 0) (\<lambda>l. l\<lparr>initRfs := append_all \<kappa> (filter ?in rs) (initRfs l)\<rparr>) (h1\<lparr>coherence := co\<rparr>))"
      (is "_ = Some ?g'")
    using initRfs_concat(1) [OF g ini] ini
    by (simp add: getCopyUpTo_def ExecutionGraph_new_state copyGraphUpTo_def getNumThreads_def copy_state_def getInitLabel_def
        getInit_def rs_def k Let_def del: upt_Suc)
  have st: "\<exists>l. getEventLabel g s = Some l \<and> isMemAccess (kind l) \<and> \<kappa> s = fst p" if "p \<in> set (coherence g)" "s \<in> set (snd p)" for p s
    using coherence_stores [OF g(1) that] key(1) by (metis getBucket_def kind_subclasses(2))
  have rd: "\<exists>l. getEventLabel g r = Some l \<and> isMemAccess (kind l) \<and> \<kappa> r = fst p" if "p \<in> set (initRfs ini)" "r \<in> set (snd p)" for p r
    using initRfs_concat(3) [OF g ini] that key(1) kind_subclasses(1) by fastforce
  have "map fst co = map fst m" "map fst irfs = map fst m"
    unfolding co_def irfs_def rs_def using st rd key(2) by (intro append_all_keys; fastforce)+
  moreover have "fst ` set co = fst ` set m" using \<open>map fst co = map fst m\<close> by (metis list.set_map)
  moreover have "distinct (map fst (coherence g))" "distinct (map fst (initRfs ini))"
    using g(1) ini by (auto simp: graph_wf_def locs_tracked_def label_is_def)
  then have "bucket co a = filter ?in (bucket (coherence g) a)" "bucket irfs a = filter ?in (bucket (initRfs ini) a)" for a
    unfolding co_def irfs_def rs_def bucket_append_all mb append_Nil using st rd
    by (intro filter_concat_bucket; blast)+
  moreover have "getEventLabel ?g' getInit = Some (copy_ini\<lparr>initRfs := irfs\<rparr>)"
    using lab1 [of getInit] by (simp add: getEventLabel_upd_label getEventLabel_coherence getInit_def irfs_def)
  moreover have "getEventLabel ?g' e = (if ?in e then map_option (prune_label v) (getEventLabel g e) else None)" if "e \<noteq> getInit" for e
    using lab1 [of e] that by (simp add: getEventLabel_upd_label getEventLabel_coherence getInit_def)
  moreover have "length (events ?g') = ?n" "timestamp ?g' = timestamp g" "coherence ?g' = co"
    by (simp_all add: h1_def h_def copy_state_def)
  ultimately have "is_copy v g ?g'" unfolding is_copy_def using m(1,2) ini by (auto simp: label_is_def)
  then show ?thesis using copy by blast
qed

section \<open>Copies are well-formed\<close>

lemma is_copy_label:
  assumes "is_copy v g g'"
  obtains ini where "getEventLabel g' getInit = Some ini" "kind ini = EL_Init" "stamp ini = Some 0" "position ini = getInit"
    "map fst (initRfs ini) = map fst (coherence g')"
    "\<And>i a. getEventLabel g getInit = Some i \<Longrightarrow> bucket (initRfs ini) a = filter (View_contains v) (bucket (initRfs i) a)"
    "\<And>e l'. getEventLabel g' e = Some l' \<longleftrightarrow> e = getInit \<and> l' = ini \<or>
       e \<noteq> getInit \<and> View_contains v e \<and> (\<exists>l. getEventLabel g e = Some l \<and> l' = prune_label v l)"
proof -
  obtain ini where "getEventLabel g' getInit = Some ini" "kind ini = EL_Init" "stamp ini = Some 0" "position ini = getInit"
    "map fst (initRfs ini) = map fst (coherence g')"
    "\<forall>a. bucket (initRfs ini) a = (case getEventLabel g getInit of None \<Rightarrow> [] | Some i \<Rightarrow> filter (View_contains v) (bucket (initRfs i) a))"
    using assms by (auto simp: is_copy_def label_is_def split: option.splits)
  moreover have "getEventLabel g' e = Some l' \<longleftrightarrow> e = getInit \<and> l' = ini \<or>
       e \<noteq> getInit \<and> View_contains v e \<and> (\<exists>l. getEventLabel g e = Some l \<and> l' = prune_label v l)" for e l'
  proof (cases "e = getInit")
    case False
    then have "getEventLabel g' e = (if View_contains v e then map_option (prune_label v) (getEventLabel g e) else None)"
      using assms unfolding is_copy_def by blast
    then show ?thesis using False by auto
  qed (use calculation(1) in auto)
  ultimately show thesis using that by simp
qed

lemma is_copy_not_init:
  assumes "graph_wf g" "getEventLabel g e = Some l" "isRead (kind l) \<or> isWrite (kind l)"
  shows "e \<noteq> getInit"
  using assms by (auto simp: graph_wf_def rf_inv_def label_is_def kind_defs)

lemma is_copy_containsPos:
  assumes "is_copy v g g'" "graph_wf g" "View_inv v"
  shows "containsPos g' e \<longleftrightarrow> containsPos g e \<and> View_contains v e"
proof -
  have "View_contains v getInit" "containsPos g getInit"
    using assms(2,3) by (auto simp: View_inv_iff View_contains_def getInit_def graph_wf_def rf_inv_def label_is_def getEventLabel_def
        split: if_splits option.splits)
  moreover have "containsPos g' getInit" using is_copy_label [OF assms(1)] by (metis getEventLabel_Some_iff)
  ultimately show ?thesis using assms(1) by (cases "e = getInit") (auto simp: is_copy_def getEventLabel_def split: if_splits dest!: spec [of _ e])
qed

lemma is_copy_reads_from:
  assumes "is_copy v g g'" "graph_wf g"
  shows "reads_from g' r w \<longleftrightarrow> View_contains v r \<and> View_contains v w \<and> reads_from g r w"
proof -
  obtain ini where i: "kind ini = EL_Init" "\<And>e l'. getEventLabel g' e = Some l' \<longleftrightarrow> e = getInit \<and> l' = ini \<or>
       e \<noteq> getInit \<and> View_contains v e \<and> (\<exists>l. getEventLabel g e = Some l \<and> l' = prune_label v l)"
    by (rule is_copy_label [OF assms(1)]) blast
  have one: "isRead (kind l) \<Longrightarrow> length (rfs l) \<le> 1" if "getEventLabel g e = Some l" for e l
    using assms(2) that by (auto simp: graph_wf_def single_rf_def label_is_def dest!: spec [of _ e])
  have "reads_from g' r w \<longleftrightarrow> (\<exists>l'. getEventLabel g' r = Some l' \<and> isRead (kind l') \<and> w \<in> fst ` set (rfs l'))"
    by (auto simp: reads_from_def label_is_def split: option.splits)
  also have "\<dots> \<longleftrightarrow> View_contains v r \<and> (\<exists>l. getEventLabel g r = Some l \<and> isRead (kind l) \<and> w \<in> fst ` set (prune_rfs v (rfs l)))"
  proof -
    define F where "F = (\<lambda>l :: EventLabel. w \<in> fst ` set (rfs l))"
    define G where "G = (\<lambda>l :: EventLabel. w \<in> fst ` set (prune_rfs v (rfs l)))"
    have FG: "w \<in> fst ` set (rfs l) \<longleftrightarrow> F l" "w \<in> fst ` set (prune_rfs v (rfs l)) \<longleftrightarrow> G l" for l by (simp_all add: F_def G_def)
    have "\<not> isRead (kind ini)" by (simp add: i(1) kind_defs)
    moreover have "F (prune_label v l) = G l" if "isRead (kind l)" for l
      using that by (simp add: F_def G_def prune_label_lists)
    ultimately show ?thesis unfolding i(2) FG using is_copy_not_init [OF assms(2), of r] by auto
  qed
  also have "\<dots> \<longleftrightarrow> View_contains v r \<and> View_contains v w \<and> (\<exists>l. getEventLabel g r = Some l \<and> isRead (kind l) \<and> w \<in> fst ` set (rfs l))"
  proof -
    have "w \<in> fst ` set (prune_rfs v (rfs l)) \<longleftrightarrow> View_contains v w \<and> w \<in> fst ` set (rfs l)"
      if "getEventLabel g r = Some l" "isRead (kind l)" for l
      unfolding prune_rfs_single [OF one [OF that]] set_filter by force
    then show ?thesis by metis
  qed
  finally show ?thesis by (auto simp: reads_from_def label_is_def split: option.splits)
qed

lemma is_copy_init_listed:
  assumes "is_copy v g g'" "graph_wf g"
  shows "init_listed g' a r \<longleftrightarrow> View_contains v r \<and> init_listed g a r"
proof -
  obtain i where i: "getEventLabel g getInit = Some i"
    using assms(2) by (auto simp: graph_wf_def rf_inv_def label_is_def split: option.splits)
  obtain ini where "getEventLabel g' getInit = Some ini" "bucket (initRfs ini) a = filter (View_contains v) (bucket (initRfs i) a)"
    by (rule is_copy_label [OF assms(1)]) (use i in blast)
  then show ?thesis using i by (simp add: init_listed_def label_is_def conj_commute)
qed

lemma is_copy_rf_inv:
  assumes "is_copy v g g'" "graph_wf g" "View_inv v"
  shows "rf_inv g'"
proof -
  obtain ini where i: "getEventLabel g' getInit = Some ini" "kind ini = EL_Init" "position ini = getInit"
      "\<And>e l'. getEventLabel g' e = Some l' \<longleftrightarrow> e = getInit \<and> l' = ini \<or>
       e \<noteq> getInit \<and> View_contains v e \<and> (\<exists>l. getEventLabel g e = Some l \<and> l' = prune_label v l)"
    by (rule is_copy_label [OF assms(1)]) blast
  have g: "rf_inv g" using assms(2) by (simp add: graph_wf_def)
  have v0: "View_contains v getInit" using assms(3) by (simp add: View_inv_iff View_contains_def getInit_def)
  have lis: "label_is P g' e \<longleftrightarrow> (\<exists>l'. getEventLabel g' e = Some l' \<and> P l')" for P e
    by (auto simp: label_is_def split: option.splits)
  have isg: "label_is P g e \<longleftrightarrow> (\<exists>l'. getEventLabel g e = Some l' \<and> P l')" for P e
    by (auto simp: label_is_def split: option.splits)
  have "label_is (\<lambda>l. position l = e) g' e \<or> getEventLabel g' e = None" for e
  proof (cases "getEventLabel g' e")
    case (Some l')
    then have "position l' = e" using i(3) rf_inv_position [OF g, of e] by (auto simp: i(4))
    then show ?thesis using Some by (simp add: label_is_def)
  qed simp
  moreover have "label_is (\<lambda>l. isWrite (kind l) \<and> r \<in> set (readerList l)) g' w \<longleftrightarrow>
      View_contains v r \<and> View_contains v w \<and> label_is (\<lambda>l. isWrite (kind l) \<and> r \<in> set (readerList l)) g w" for w r
    unfolding lis isg i(4) using is_copy_not_init [OF assms(2), of w] i(2) by (auto simp: prune_label_lists kind_defs)
  then have "listed_reader g' w r \<longleftrightarrow> View_contains v r \<and> View_contains v w \<and> listed_reader g w r" for w r
    unfolding listed_reader_def is_copy_init_listed [OF assms(1,2)] using v0 by blast
  then have "reads_from g' r w \<longleftrightarrow> listed_reader g' w r" for r w
    unfolding is_copy_reads_from [OF assms(1,2)] using g by (simp add: rf_inv_def)
  moreover have "label_is (\<lambda>l. SAddr_align (getAddr l) = a) g' r" if il: "init_listed g' a r" for a r
  proof -
    have r: "View_contains v r" "init_listed g a r" using il is_copy_init_listed [OF assms(1,2)] by blast+
    obtain l where "getEventLabel g r = Some l" "isRead (kind l)" "SAddr_align (getAddr l) = a" using init_listed_read [OF g r(2)] .
    then show ?thesis unfolding lis i(4) using r(1) is_copy_not_init [OF assms(2), of r] by auto
  qed
  ultimately show ?thesis using i(1,2) by (simp add: rf_inv_def label_is_def)
qed

lemma is_copy_wf:
  assumes "is_copy v g g'" "graph_wf g" "View_inv v"
  shows "graph_wf g'"
proof -
  obtain ini where i: "getEventLabel g' getInit = Some ini" "kind ini = EL_Init" "stamp ini = Some 0"
      "map fst (initRfs ini) = map fst (coherence g')"
      "\<And>e l'. getEventLabel g' e = Some l' \<longleftrightarrow> e = getInit \<and> l' = ini \<or>
       e \<noteq> getInit \<and> View_contains v e \<and> (\<exists>l. getEventLabel g e = Some l \<and> l' = prune_label v l)"
    by (rule is_copy_label [OF assms(1)]) blast
  have g: "single_rf g" "stamps_po g" "starts_first g" "co_wf g" "ptrs_in g" "rf_inv g" using assms(2) by (simp_all add: graph_wf_def)
  have lis: "label_is P h e \<longleftrightarrow> (\<exists>l'. getEventLabel h e = Some l' \<and> P l')" for P h e
    by (auto simp: label_is_def split: option.splits)
  have one: "isRead (kind l) \<Longrightarrow> length (rfs l) \<le> 1" if "getEventLabel g e = Some l" for e l
    using g(1) that by (auto simp: single_rf_def label_is_def dest!: spec [of _ e])
  have nini: "\<not> isRead (kind ini)" "label_ptrs ini = {}" by (simp_all add: i(2) label_ptrs_def kind_defs)
  have "single_rf g'" unfolding single_rf_def
  proof
    fix e
    have "isRead (kind l') \<longrightarrow> length (rfs l') \<le> 1" if "getEventLabel g' e = Some l'" for l'
    proof (cases "e = getInit")
      case True
      then show ?thesis using that nini(1) by (simp add: i(5))
    next
      case False
      then obtain l where l: "getEventLabel g e = Some l" "l' = prune_label v l" using \<open>getEventLabel g' e = Some l'\<close> unfolding i(5) by blast
      show ?thesis using one [OF l(1)] order_trans [OF length_filter_le one [OF l(1)]] l(2)
        by (simp add: prune_label_lists prune_rfs_single)
    qed
    then show "label_is (\<lambda>l. isRead (kind l) \<longrightarrow> length (rfs l) \<le> 1) g' e \<or> getEventLabel g' e = None"
      by (cases "getEventLabel g' e") (simp_all add: label_is_def)
  qed
  moreover have "stamps_po g'"
  proof -
    have o: "hasStamp l" if "getEventLabel g e = Some l" for e l using g(2) that unfolding stamps_po_iff by blast
    have s: "the (stamp l) < the (stamp m)" if "getEventLabel g (Event (int t) (int p)) = Some l"
      "getEventLabel g (Event (int t) (int q)) = Some m" "p < q" for t p q l m
      using g(2) that unfolding stamps_po_iff by blast
    have z: "0 < the (stamp m)" if "getEventLabel g (Event 0 (int q)) = Some m" "0 < q" for q m
    proof -
      obtain k where "getEventLabel g (Event 0 0) = Some k" using g(6) by (auto simp: rf_inv_def label_is_def getInit_def split: option.splits)
      then have "the (stamp k) < the (stamp m)" using s [of 0 0 k q m] that by simp
      then show ?thesis using le_less_trans [OF word_zero_le] by blast
    qed
    show ?thesis unfolding stamps_po_iff
    proof (intro conjI allI impI)
      show "hasStamp l" if "getEventLabel g' e = Some l" for e l using that o i(3) by (auto simp: i(5) hasStamp_def)
      fix t p q l m assume l: "getEventLabel g' (Event (int t) (int p)) = Some l" "getEventLabel g' (Event (int t) (int q)) = Some m" "p < q"
      then have "Event (int t) (int q) \<noteq> getInit" by (simp add: getInit_def)
      then obtain m0 where m0: "getEventLabel g (Event (int t) (int q)) = Some m0" "m = prune_label v m0" using l(2) unfolding i(5) by blast
      show "the (stamp l) < the (stamp m)"
      proof (cases "Event (int t) (int p) = getInit")
        case True
        then have "t = 0" "l = ini" using l(1) by (auto simp: getInit_def i(5))
        then show ?thesis using z [of q m0] m0 l(3) i(3) by auto
      next
        case False
        then show ?thesis using l(1) s [OF _ m0(1) l(3)] m0(2) unfolding i(5) by auto
      qed
    qed
  qed
  moreover have "starts_first g'"
  proof -
    have "View_contains v (Event (int t) 0)" for t using assms(3) by (simp add: View_inv_iff View_contains_def)
    moreover have "length (events g') = length (events g)" using assms(1) by (simp add: is_copy_def)
    ultimately show ?thesis using g(3) i(2) unfolding starts_first_iff lis i(5) by (metis (no_types) kind_tests(5) prune_label_fields(1))
  qed
  moreover have "locs_tracked g'" using assms(1) i(1,4) by (simp add: locs_tracked_def is_copy_def label_is_def)
  moreover have "co_wf g'" unfolding co_wf_def
  proof clarify
    fix a ws w assume w: "(a, ws) \<in> set (coherence g')" "w \<in> set ws"
    have "distinct (map fst (coherence g'))" "bucket (coherence g') a = filter (View_contains v) (bucket (coherence g) a)"
      using assms(1) by (simp_all add: is_copy_def)
    then have "View_contains v w" "w \<in> set (bucket (coherence g) a)" using w map_of_is_SomeI [of "coherence g'" a ws] by (auto simp: bucket_def)
    moreover from this obtain us where "(a, us) \<in> set (coherence g)" "w \<in> set us"
      using map_of_SomeD [of "coherence g" a] by (cases "map_of (coherence g) a") (auto simp: bucket_def)
    ultimately show "label_is (\<lambda>l. isWrite (kind l) \<and> getBucket (getAddr l) = a) g' w"
      using g(4) is_copy_not_init [OF assms(2), of w] unfolding lis i(5) co_wf_def by fastforce
  qed
  moreover have "ptrs_in g'" unfolding ptrs_in_def
  proof (intro allI impI ballI)
    fix e l' p assume l': "getEventLabel g' e = Some l'" and p: "p \<in> label_ptrs l'"
    then obtain l where l: "getEventLabel g e = Some l" "l' = prune_label v l" using nini(2) unfolding i(5) by auto
    then have "p \<in> label_ptrs l" "View_contains v p" using p prune_label_ptrs [of l v] one by auto
    then show "containsPos g' p" using g(5) l(1) unfolding is_copy_containsPos [OF assms] ptrs_in_def by blast
  qed
  ultimately show ?thesis using is_copy_rf_inv [OF assms] by (simp add: graph_wf_def)
qed

section \<open>Typing\<close>

lemma bucket_distinct: "\<forall>p\<in>set m. distinct (snd p) \<Longrightarrow> distinct (bucket m a)"
  by (cases "map_of m a") (auto simp: bucket_def dest!: map_of_SomeD)

lemma is_copy_target:
  assumes c: "is_copy v g g'" and g: "graph_wf g" and t: "label_is (\<lambda>m. K (kind m)) g a" "View_contains v a" and K: "\<not> K EL_Init"
  shows "label_is (\<lambda>m. K (kind m)) g' a"
proof -
  have "label_is (\<lambda>l. kind l = EL_Init) g getInit" using g by (simp add: graph_wf_def rf_inv_def)
  then have "a \<noteq> getInit" using t(1) K by (auto simp: label_is_def split: option.splits)
  then show ?thesis using c t by (auto simp: is_copy_def label_is_def split: option.splits)
qed

lemma is_copy_typed:
  assumes c: "is_copy v g g'" and g: "graph_wf g" and ty: "links_typed g"
  shows "links_typed g'"
  unfolding links_typed_def
proof (intro allI impI)
  fix e l' assume l': "getEventLabel g' e = Some l'"
  obtain i where i: "getEventLabel g getInit = Some i" "kind i = EL_Init"
    using g by (auto simp: graph_wf_def rf_inv_def label_is_def split: option.splits)
  obtain ini where ini: "getEventLabel g' getInit = Some ini" "kind ini = EL_Init" "map fst (initRfs ini) = map fst (coherence g')"
      "\<And>a. bucket (initRfs ini) a = filter (View_contains v) (bucket (initRfs i) a)"
      "\<And>e l'. getEventLabel g' e = Some l' \<longleftrightarrow> e = getInit \<and> l' = ini \<or>
       e \<noteq> getInit \<and> View_contains v e \<and> (\<exists>l. getEventLabel g e = Some l \<and> l' = prune_label v l)"
    by (rule is_copy_label [OF c]) (use i in blast)
  have keys: "distinct (map fst (initRfs ini))" using c ini(3) by (simp add: is_copy_def)
  have di: "\<forall>p\<in>set (initRfs i). distinct (snd p)" using ty i unfolding links_typed_def by blast
  have dp: "distinct (snd p)" if "p \<in> set (initRfs ini)" for p
  proof -
    have "map_of (initRfs ini) (fst p) = Some (snd p)" using that keys by (simp add: map_of_is_SomeI)
    then have "snd p = bucket (initRfs ini) (fst p)" by (simp add: bucket_def)
    then show ?thesis using bucket_distinct [OF di] by (simp add: ini(4))
  qed
  note target = is_copy_target [OF c g]
  show "(isWrite (kind l') \<longrightarrow> distinct (readerList l')) \<and>
     (kind l' = EL_Malloc \<longrightarrow> distinct (accessList l') \<and> (\<forall>a\<in>set (accessList l'). label_is (\<lambda>m. isMemAccess (kind m)) g' a) \<and>
        (\<forall>d\<in>set_option (freeLab l'). label_is (\<lambda>m. isFree (kind m)) g' d)) \<and>
     (isMemAccess (kind l') \<longrightarrow> (\<forall>a\<in>set_option (allocLab l'). label_is (\<lambda>m. kind m = EL_Malloc) g' a)) \<and>
     (kind l' = EL_ThreadFinish \<longrightarrow> (\<forall>j\<in>set_option (parentJoin l'). label_is (\<lambda>m. kind m = EL_ThreadJoin) g' j)) \<and>
     (isFree (kind l') \<longrightarrow> (\<forall>a\<in>set_option (aLab l'). label_is (\<lambda>m. kind m = EL_Malloc) g' a)) \<and>
     (kind l' = EL_Init \<longrightarrow> (\<forall>p\<in>set (initRfs l'). distinct (snd p)))"
  proof (cases "e = getInit")
    case True
    then have "l' = ini" using l' ini(1) by simp
    then show ?thesis using dp ini(2) by (simp add: kind_defs)
  next
    case False
    then obtain l where l: "getEventLabel g e = Some l" "l' = prune_label v l" using l' unfolding ini(5) by blast
    have "\<not> isMemAccess EL_Init" "\<not> isFree EL_Init" by (simp_all add: kind_defs)
    then show ?thesis
      using ty l(1) target [where K = isMemAccess] target [where K = isFree]
        target [where K = "\<lambda>k. k = EL_Malloc"] target [where K = "\<lambda>k. k = EL_ThreadJoin"]
      unfolding l(2) links_typed_def prune_label_lists prune_label_fields
      by (auto simp: set_option_prune_opt)
  qed
qed

section \<open>Properties\<close>


lemma example_links: "links_typed example_graph" "view_fits example_graph [1]"
proof -
  show "links_typed example_graph"
    unfolding links_typed_def
  proof (intro allI impI)
    fix e l assume "getEventLabel example_graph e = Some l"
    then consider "l = example_init" | "l = example_write" | "l = example_read" by (auto simp: example_label split: if_splits)
    then show "(isWrite (kind l) \<longrightarrow> distinct (readerList l)) \<and>
     (kind l = EL_Malloc \<longrightarrow> distinct (accessList l) \<and> (\<forall>a\<in>set (accessList l). label_is (\<lambda>m. isMemAccess (kind m)) example_graph a) \<and>
        (\<forall>d\<in>set_option (freeLab l). label_is (\<lambda>m. isFree (kind m)) example_graph d)) \<and>
     (isMemAccess (kind l) \<longrightarrow> (\<forall>a\<in>set_option (allocLab l). label_is (\<lambda>m. kind m = EL_Malloc) example_graph a)) \<and>
     (kind l = EL_ThreadFinish \<longrightarrow> (\<forall>j\<in>set_option (parentJoin l). label_is (\<lambda>m. kind m = EL_ThreadJoin) example_graph j)) \<and>
     (isFree (kind l) \<longrightarrow> (\<forall>a\<in>set_option (aLab l). label_is (\<lambda>m. kind m = EL_Malloc) example_graph a)) \<and>
     (kind l = EL_Init \<longrightarrow> (\<forall>p\<in>set (initRfs l). distinct (snd p)))"
      by cases simp_all
  qed
  show "view_fits example_graph [1]"
    by (simp add: view_fits_def View_inv_def View_getMax_def example_graph_def)
qed

text \<open>C32. Copying keeps the types of the links: if the pointers of a well-formed graph lead to labels of the
  right class and the lists of readers and accesses have no duplicates, the same holds of the copy, so
  that the copy can be copied again.\<close>

theorem getCopyUpTo_typed:
  assumes "graph_wf g" "links_typed g" "view_fits g v"
  shows "\<exists>g'. getCopyUpTo g (VC_View v) = Some g' \<and> links_typed g'"
  using getCopyUpTo_is_copy [OF assms] is_copy_typed [OF _ assms(1,2)] by blast

theorem getCopyUpTo_typed_witness:
  "\<exists>g'. getCopyUpTo example_graph (VC_View [1]) = Some g' \<and> links_typed g'"
  using getCopyUpTo_typed [OF example_wf example_links] .


end
