(* ===== verification/Permutations.thy ===== *)
theory Permutations
  imports Prelude "HOL-Library.Multiset" "HOL-Library.Sublist"
begin

text \<open>
  Combinations and permutations (src/src/CombinatoricUtils.hpp): the loops that rearrange a range in
  place and call a function on every arrangement.

  A range lies in a buffer; an iterator is an index into it and a range is its first index and its
  length. The function that is called works on the buffer and on a state of its own; it returns
  whether to stop, and None if it aborts.
\<close>

section \<open>Definitions\<close>

type_synonym ('a, 's) callback = "'a list \<times> 's \<Rightarrow> (bool \<times> 'a list \<times> 's) option"

definition swap_at :: "nat \<Rightarrow> nat \<Rightarrow> 'a list \<Rightarrow> 'a list" where
  "swap_at i j buf = buf[i := buf ! j, j := buf ! i]"

definition swap_ranges :: "nat \<Rightarrow> nat \<Rightarrow> nat \<Rightarrow> 'a list \<Rightarrow> 'a list" where
  "swap_ranges i j n buf = fold (\<lambda>k. swap_at (i + k) (j + k)) [0..<n] buf"

definition rotate_range :: "nat \<Rightarrow> nat \<Rightarrow> nat \<Rightarrow> 'a list \<Rightarrow> 'a list" where
  "rotate_range i m n buf = take i buf @ rotate m (take n (drop i buf)) @ drop (i + n) buf"

definition reverse_range :: "nat \<Rightarrow> nat \<Rightarrow> 'a list \<Rightarrow> 'a list" where
  "reverse_range i n buf = take i buf @ rev (take n (drop i buf)) @ drop (i + n) buf"

text \<open>Steps one after the other, until one of them asks to stop.\<close>

fun run_until :: "('s \<Rightarrow> (bool \<times> 's) option) list \<Rightarrow> 's \<Rightarrow> (bool \<times> 's) option" where
  "run_until [] s = Some (False, s)"
| "run_until (f # fs) s = do { (b, s) \<leftarrow> f s; if b then Some (True, s) else run_until fs s }"

text \<open>A step that rearranges the buffer.\<close>

definition move :: "('a list \<Rightarrow> 'a list) \<Rightarrow> ('a, 's) callback" where
  "move m p = Some (False, m (fst p), snd p)"

definition rotate_discontinuous :: "nat \<Rightarrow> nat \<Rightarrow> nat \<Rightarrow> nat \<Rightarrow> 'a list \<Rightarrow> 'a list" where
  "rotate_discontinuous first1 d1 first2 d2 buf =
     (if d1 \<le> d2 then rotate_range first2 d1 d2 (swap_ranges first1 first2 d1 buf)
      else rotate_range first1 (d1 - d2) d1
             (fold (\<lambda>k. swap_at (first1 + d1 - Suc k) (first2 + d2 - Suc k)) [0..<d2] buf))"

fun combine_discontinuous :: "nat \<Rightarrow> nat \<Rightarrow> nat \<Rightarrow> nat \<Rightarrow> ('a, 's) callback \<Rightarrow> nat \<Rightarrow> ('a, 's) callback" where
  "combine_discontinuous first1 d1 first2 d2 f d =
     (if d1 = 0 \<or> d2 = 0 then f
      else run_until
        (concat (map (\<lambda>j. [if d1 = 1 then f
                           else combine_discontinuous (first1 + 1) (d1 - 1) (first2 + j) (d2 - j) f (d + 1),
                          move (swap_at first1 (first2 + j))]) [0..<d2]) @
         [f, move (if d \<noteq> 0 then rotate_discontinuous first1 d1 (first2 + 1) (d2 - 1)
                   else rotate_discontinuous first1 d1 first2 d2)]))"

text \<open>permute_ of the source.\<close>

fun permute_part :: "nat \<Rightarrow> nat \<Rightarrow> ('a, 's) callback \<Rightarrow> ('a, 's) callback" where
  "permute_part first1 d1 f =
     (if d1 \<le> 1 then f
      else if d1 = 2 then run_until [f, move (swap_at first1 (first1 + 1)), f]
      else if d1 = 3 then
        (let f2 = first1 + 1; f3 = f2 + 1 in
         run_until [f, move (swap_at f2 f3), f, move (swap_at first1 f3), move (swap_at f2 f3), f,
           move (swap_at f2 f3), f, move (swap_at first1 f2), move (swap_at f2 f3), f, move (swap_at f2 f3), f])
      else
        (let fp1 = first1 + 1 in
         run_until
           (concat (map (\<lambda>p. [permute_part fp1 (d1 - 1) f, move (reverse_range fp1 (d1 - 1)), move (swap_at first1 p)])
              [fp1..<first1 + d1]) @ [permute_part fp1 (d1 - 1) f])))"

definition permute :: "nat \<Rightarrow> nat \<Rightarrow> ('a, 's) callback \<Rightarrow> ('a, 's) callback" where
  "permute first1 d1 f =
     (if d1 \<le> 1 then f
      else if d1 = 2 then
        run_until [f, move (swap_at first1 (first1 + 1)), f, move (swap_at first1 (first1 + 1))]
      else if d1 = 3 then
        (let f2 = first1 + 1; f3 = f2 + 1 in
         run_until [f, move (swap_at f2 f3), f, move (swap_at first1 f3), move (swap_at f2 f3), f,
           move (swap_at f2 f3), f, move (swap_at first1 f2), move (swap_at f2 f3), f, move (swap_at f2 f3), f,
           move (swap_at first1 f3)])
      else
        (let fp1 = first1 + 1 in
         run_until
           (concat (map (\<lambda>p. [permute_part fp1 (d1 - 1) f, move (reverse_range fp1 (d1 - 1)), move (swap_at first1 p)])
              [fp1..<first1 + d1]) @ [permute_part fp1 (d1 - 1) f, move (reverse_range first1 d1)])))"

text \<open>The function is given the range from the start of the buffer to mid.\<close>

definition bound_range :: "('a list \<Rightarrow> 's \<Rightarrow> (bool \<times> 's) option) \<Rightarrow> nat \<Rightarrow> ('a, 's) callback" where
  "bound_range f mid p = do { (b, s) \<leftarrow> f (take mid (fst p)) (snd p); Some (b, fst p, s) }"

definition for_each_combination :: "nat \<Rightarrow> ('a list \<Rightarrow> 's \<Rightarrow> (bool \<times> 's) option) \<Rightarrow> ('a, 's) callback" where
  "for_each_combination mid f p =
     combine_discontinuous 0 mid mid (length (fst p) - mid) (bound_range f mid) 0 p"

definition for_each_permutation :: "nat \<Rightarrow> ('a list \<Rightarrow> 's \<Rightarrow> (bool \<times> 's) option) \<Rightarrow> ('a, 's) callback" where
  "for_each_permutation mid f p =
     combine_discontinuous 0 mid mid (length (fst p) - mid) (permute 0 mid (bound_range f mid)) 0 p"

section \<open>Arrangements visited\<close>

text \<open>What a function sees when it is called on one arrangement after the other: it stops at the first
  one it asks to.\<close>

fun visit :: "('a list \<Rightarrow> 's \<Rightarrow> (bool \<times> 's) option) \<Rightarrow> 'a list list \<Rightarrow> 's \<Rightarrow> ('a list option \<times> 's) option" where
  "visit c [] s = Some (None, s)"
| "visit c (x # xs) s = do { (b, s) \<leftarrow> c x s; if b then Some (Some x, s) else visit c xs s }"

definition outcome :: "'a list \<Rightarrow> 'a list option \<times> 's \<Rightarrow> bool \<times> 'a list \<times> 's" where
  "outcome fin r = (case r of (None, s) \<Rightarrow> (False, fin, s) | (Some b, s) \<Rightarrow> (True, b, s))"

text \<open>F applied to the buffer visits the arrangements vs and leaves fin.\<close>

definition visits :: "('a list \<Rightarrow> 's \<Rightarrow> (bool \<times> 's) option) \<Rightarrow> ('a, 's) callback \<Rightarrow> 'a list \<Rightarrow> 'a list list \<Rightarrow> 'a list \<Rightarrow> bool" where
  "visits c F buf vs fin = (\<forall>s. F (buf, s) = map_option (outcome fin) (visit c vs s))"

lemma visit_append:
  "visit c (vs @ ws) s =
     do { (r, s) \<leftarrow> visit c vs s; case r of None \<Rightarrow> visit c ws s | Some b \<Rightarrow> Some (Some b, s) }"
proof (induction vs arbitrary: s)
  case (Cons v vs)
  show ?case by (cases "c v s") (auto simp: Cons.IH)
qed simp

lemma visits_seq:
  assumes "visits c F buf vs mid" "visits c G mid ws fin"
    and "\<And>s. H s = do { (b, s) \<leftarrow> F s; if b then Some (True, s) else G s }"
  shows "visits c H buf (vs @ ws) fin"
  unfolding visits_def
proof
  fix s
  show "H (buf, s) = map_option (outcome fin) (visit c (vs @ ws) s)"
  proof (cases "visit c vs s")
    case None
    then show ?thesis using assms(1) by (simp add: visits_def visit_append assms(3))
  next
    case (Some r)
    then show ?thesis using assms(1,2)
      by (cases r; cases "fst r") (auto simp: visits_def visit_append outcome_def assms(3))
  qed
qed

lemma run_until_append:
  "run_until (fs @ gs) s = do { (b, s) \<leftarrow> run_until fs s; if b then Some (True, s) else run_until gs s }"
proof (induction fs arbitrary: s)
  case (Cons f fs)
  show ?case by (cases "f s") (auto simp: Cons.IH)
qed simp

lemma visits_run_Nil: "visits c (run_until []) buf [] buf"
  by (simp add: visits_def outcome_def)

lemma visits_run_move:
  "visits c (run_until Fs) (m buf) vs fin \<Longrightarrow> visits c (run_until (move m # Fs)) buf vs fin"
  by (simp add: visits_def move_def)

lemma visits_run_move':
  "m buf = buf' \<Longrightarrow> visits c (run_until Fs) buf' vs fin \<Longrightarrow> visits c (run_until (move m # Fs)) buf vs fin"
  using visits_run_move by blast

lemma visits_run_Cons:
  assumes "visits c F buf vs mid" "visits c (run_until Fs) mid ws fin"
  shows "visits c (run_until (F # Fs)) buf (vs @ ws) fin"
  by (rule visits_seq [OF assms]) simp

lemma visits_run_append:
  assumes "visits c (run_until Fs) buf vs mid" "visits c (run_until Gs) mid ws fin"
  shows "visits c (run_until (Fs @ Gs)) buf (vs @ ws) fin"
  by (rule visits_seq [OF assms]) (simp add: run_until_append)

lemma concat_map_Suc: "concat (map f [0..<Suc n]) = concat (map f [0..<n]) @ f n"
  by simp

lemma visits_loop:
  assumes "\<And>j. j < n \<Longrightarrow> visits c (run_until (G j)) (B j) (V j) (B (Suc j))"
  shows "visits c (run_until (concat (map G [0..<n]))) (B 0) (concat (map V [0..<n])) (B n)"
  using assms
proof (induction n)
  case 0
  show ?case by (simp only: upt_0 list.map concat.simps visits_run_Nil)
next
  case (Suc n)
  have G: "visits c (run_until (concat (map G [0..<n]) @ G n)) (B 0) (concat (map V [0..<n]) @ V n) (B (Suc n))"
    using Suc.IH Suc.prems by (intro visits_run_append) (blast intro: less_SucI lessI)+
  then show ?case by (simp only: concat_map_Suc)
qed

section \<open>Rearranging buffers\<close>

lemma swap_at_parts:
  "i = length A \<Longrightarrow> j = length A + Suc (length B) \<Longrightarrow> swap_at i j (A @ x # B @ y # C) = A @ y # B @ x # C"
  by (simp add: swap_at_def nth_append list_update_append)

lemma reverse_range_parts:
  "i = length A \<Longrightarrow> n = length xs \<Longrightarrow> reverse_range i n (A @ xs @ C) = A @ rev xs @ C"
  by (simp add: reverse_range_def)

lemma rotate_range_parts:
  "i = length A \<Longrightarrow> n = length xs + length ys \<Longrightarrow> m = length xs \<Longrightarrow>
     rotate_range i m n (A @ xs @ ys @ C) = A @ ys @ xs @ C"
  by (simp add: rotate_range_def rotate_append)

lemma swap_ranges_parts:
  assumes "i = length A" "j = length A + length xs + length B" "n = length xs" "length ys = n"
  shows "swap_ranges i j n (A @ xs @ B @ ys @ C) = A @ ys @ B @ xs @ C"
  using assms
proof (induction n arbitrary: xs ys B C j)
  case 0
  then show ?case by (simp add: swap_ranges_def)
next
  case (Suc n)
  obtain us x where xs: "xs = us @ [x]" "length us = n" using Suc.prems(3) by (cases xs rule: rev_cases) auto
  obtain vs y where ys: "ys = vs @ [y]" "length vs = n" using Suc.prems(4) by (cases ys rule: rev_cases) auto
  have "swap_ranges i j n (A @ us @ (x # B) @ vs @ y # C) = A @ vs @ (x # B) @ us @ y # C"
    using Suc.prems(1-2) xs ys by (intro Suc.IH) auto
  moreover have "swap_at (i + n) (j + n) ((A @ vs) @ x # (B @ us) @ y # C) = (A @ vs) @ y # (B @ us) @ x # C"
    using Suc.prems(1-2) xs ys by (intro swap_at_parts) auto
  ultimately show ?case by (simp add: swap_ranges_def xs ys)
qed

lemma swap_back_parts:
  assumes "i = length A + length xs" "j = length A + length xs + length B + length ys"
    "n = length xs" "length ys = n"
  shows "fold (\<lambda>k. swap_at (i - Suc k) (j - Suc k)) [0..<n] (A @ xs @ B @ ys @ C) = A @ ys @ B @ xs @ C"
  using assms
proof (induction n arbitrary: xs ys A B)
  case (Suc n)
  obtain x us where xs: "xs = x # us" "length us = n" using Suc.prems(3) by (cases xs) auto
  obtain y vs where ys: "ys = y # vs" "length vs = n" using Suc.prems(4) by (cases ys) auto
  have "fold (\<lambda>k. swap_at (i - Suc k) (j - Suc k)) [0..<n] ((A @ [x]) @ us @ (B @ [y]) @ vs @ C) =
      (A @ [x]) @ vs @ (B @ [y]) @ us @ C"
    using Suc.prems(1-2) xs ys by (intro Suc.IH) auto
  moreover have "swap_at (i - Suc n) (j - Suc n) (A @ x # (vs @ B) @ y # us @ C) = A @ y # (vs @ B) @ x # us @ C"
    using Suc.prems(1-2) xs ys by (intro swap_at_parts) auto
  ultimately show ?case by (simp add: xs ys)
qed simp

lemma rotate_discontinuous_parts:
  assumes "i = length A" "n = length xs" "j = length A + length xs + length B" "m = length ys"
  shows "rotate_discontinuous i n j m (A @ xs @ B @ ys @ C) =
    A @ take n (ys @ xs) @ B @ drop n (ys @ xs) @ C"
proof (cases "n \<le> m")
  case True
  define us vs where "us = take n ys" and "vs = drop n ys"
  have ys: "ys = us @ vs" "length us = n" using True assms by (simp_all add: us_def vs_def)
  have "rotate_range j n m ((A @ us @ B) @ xs @ vs @ C) = (A @ us @ B) @ vs @ xs @ C"
    using assms ys by (intro rotate_range_parts) auto
  moreover have "swap_ranges i j n (A @ xs @ B @ us @ vs @ C) = A @ us @ B @ xs @ vs @ C"
    using assms ys by (intro swap_ranges_parts) auto
  ultimately show ?thesis using True ys by (simp add: rotate_discontinuous_def)
next
  case False
  define us vs where "us = take (n - m) xs" and "vs = drop (n - m) xs"
  have xs: "xs = us @ vs" "length us = n - m" "length vs = m" using False assms(2) by (simp_all add: us_def vs_def)
  note len = assms(1,3,4) False
  have "rotate_range i (n - m) n (A @ us @ ys @ (B @ vs @ C)) = A @ ys @ us @ (B @ vs @ C)"
    using len xs by (intro rotate_range_parts) auto
  moreover have "fold (\<lambda>k. swap_at (i + n - Suc k) (j + m - Suc k)) [0..<m] ((A @ us) @ vs @ B @ ys @ C) =
      (A @ us) @ ys @ B @ vs @ C"
    using len xs by (intro swap_back_parts) auto
  ultimately show ?thesis using False xs len by (simp add: rotate_discontinuous_def)
qed

section \<open>Permutations of a range\<close>

text \<open>The permutations of a list in the lexicographic order of the positions.\<close>

fun perms :: "'a list \<Rightarrow> 'a list list" where
  "perms [] = [[]]"
| "perms (x # xs) =
     concat (map (\<lambda>k. map (Cons ((x # xs) ! k)) (perms (take k (x # xs) @ drop (Suc k) (x # xs)))) [0..<length (x # xs)])"

lemma perms_unfold:
  "xs \<noteq> [] \<Longrightarrow> perms xs = concat (map (\<lambda>k. map (Cons (xs ! k)) (perms (take k xs @ drop (Suc k) xs))) [0..<length xs])"
  by (cases xs) simp_all

definition sel :: "nat \<Rightarrow> 'a list \<Rightarrow> 'a list" where
  "sel k xs = xs ! k # take k xs @ drop (Suc k) xs"

lemma swap_sel:
  assumes "Suc k < length xs" "i = length A" "p = length A + 1 + k"
  shows "swap_at i p (A @ sel k xs @ C) = A @ sel (Suc k) xs @ C"
proof -
  have d: "drop (Suc k) xs = xs ! Suc k # drop (Suc (Suc k)) xs" and t: "take (Suc k) xs = take k xs @ [xs ! k]"
    using assms(1) by (simp_all add: Cons_nth_drop_Suc take_Suc_conv_app_nth)
  have "swap_at i p (A @ xs ! k # take k xs @ xs ! Suc k # drop (Suc (Suc k)) xs @ C) =
      A @ xs ! Suc k # take k xs @ xs ! k # drop (Suc (Suc k)) xs @ C"
    using assms by (intro swap_at_parts) auto
  then show ?thesis by (simp add: sel_def d t)
qed

text \<open>The callback visits the arrangements V of the buffer and leaves it as it was.\<close>

definition calls :: "('a list \<Rightarrow> 's \<Rightarrow> (bool \<times> 's) option) \<Rightarrow> ('a, 's) callback \<Rightarrow> ('a list \<Rightarrow> 'a list list) \<Rightarrow> nat \<Rightarrow> bool" where
  "calls c F V l = (\<forall>buf. length buf = l \<longrightarrow> visits c F buf (V buf) buf)"

lemma callsD: "calls c F V l \<Longrightarrow> length buf = l \<Longrightarrow> visits c F buf (V buf) buf"
  by (simp add: calls_def)

definition perm_visits :: "('a list \<Rightarrow> 'a list list) \<Rightarrow> 'a list \<Rightarrow> 'a list list \<Rightarrow> 'a list \<Rightarrow> 'a list list" where
  "perm_visits V A ps C = concat (map (\<lambda>ys. V (A @ ys @ C)) ps)"

lemma perm_visits_simps [simp]:
  "perm_visits V A [] C = []" "perm_visits V A (p # ps) C = V (A @ p @ C) @ perm_visits V A ps C"
  "perm_visits V A (ps @ qs) C = perm_visits V A ps C @ perm_visits V A qs C"
  "perm_visits V A (map (Cons x) ps) C = perm_visits V (A @ [x]) ps C"
  by (simp_all add: perm_visits_def comp_def)

lemma perm_visits_concat: "perm_visits V A (concat pss) C = concat (map (\<lambda>ps. perm_visits V A ps C) pss)"
  by (induction pss) simp_all

lemma permute_loop_visits:
  assumes "length A = i" "length xs = n" "2 \<le> n"
    and part: "\<And>B ys. length B = i + 1 \<Longrightarrow> length ys = n - 1 \<Longrightarrow>
      visits c P (B @ ys @ C) (perm_visits V B (perms ys) C) (B @ rev ys @ C)"
    and rest: "visits c (run_until Fs) (A @ rev xs @ C) ws fin"
  shows "visits c (run_until (concat (map (\<lambda>p. [P, move (reverse_range (i + 1) (n - 1)), move (swap_at i p)])
      [i + 1..<i + n]) @ P # Fs)) (A @ xs @ C) (perm_visits V A (perms xs) C @ ws) fin"
proof -
  define W where "W k = perm_visits V (A @ [xs ! k]) (perms (take k xs @ drop (Suc k) xs)) C" for k
  define B where "B k = A @ sel k xs @ C" for k
  have P: "visits c P (B k) (W k) ((A @ [xs ! k]) @ rev (take k xs @ drop (Suc k) xs) @ C)" if "k < n" for k
    using part [of "A @ [xs ! k]" "take k xs @ drop (Suc k) xs"] that assms(1-3) by (simp add: B_def W_def sel_def)
  have "[i + 1..<i + n] = map (\<lambda>k. i + 1 + k) [0..<n - 1]"
    using assms(3) by (intro nth_equalityI) auto
  then have loop: "concat (map (\<lambda>p. [P, move (reverse_range (i + 1) (n - 1)), move (swap_at i p)]) [i + 1..<i + n]) =
      concat (map (\<lambda>k. [P, move (reverse_range (i + 1) (n - 1)), move (swap_at i (i + 1 + k))]) [0..<n - 1])"
    by (simp add: comp_def)
  have "visits c (run_until [P, move (reverse_range (i + 1) (n - 1)), move (swap_at i (i + 1 + k))]) (B k) (W k) (B (Suc k))"
    if "k < n - 1" for k
  proof -
    have k: "Suc k < length xs" using that assms(2) by simp
    have "reverse_range (i + 1) (n - 1) ((A @ [xs ! k]) @ rev (take k xs @ drop (Suc k) xs) @ C) = B k"
      using assms(1,2) k reverse_range_parts [of "i + 1" "A @ [xs ! k]" "n - 1" "rev (take k xs @ drop (Suc k) xs)" C]
      by (simp add: B_def sel_def)
    moreover have "swap_at i (i + 1 + k) (B k) = B (Suc k)"
      unfolding B_def using assms(1) k by (intro swap_sel) auto
    ultimately have "visits c (run_until [move (reverse_range (i + 1) (n - 1)), move (swap_at i (i + 1 + k))])
        ((A @ [xs ! k]) @ rev (take k xs @ drop (Suc k) xs) @ C) [] (B (Suc k))"
      by (intro visits_run_move) (simp add: visits_run_Nil del: run_until.simps)
    from visits_run_Cons [OF P this] k assms(2) show ?thesis by (simp only: append_Nil2 Suc_lessD)
  qed
  then have L: "visits c (run_until (concat (map (\<lambda>p. [P, move (reverse_range (i + 1) (n - 1)), move (swap_at i p)]) [i + 1..<i + n])))
      (B 0) (concat (map W [0..<n - 1])) (B (n - 1))"
    unfolding loop by (rule visits_loop)
  have ne: "xs \<noteq> []" using assms(2,3) by auto
  have "(A @ [xs ! (n - 1)]) @ rev (take (n - 1) xs @ drop (Suc (n - 1)) xs) @ C = A @ rev xs @ C"
    using ne assms(2,3) by (cases xs rule: rev_cases) auto
  moreover have "n - 1 < n" using assms(3) by simp
  ultimately have "visits c P (B (n - 1)) (W (n - 1)) (A @ rev xs @ C)" using P by metis
  then have "visits c (run_until (P # Fs)) (B (n - 1)) (W (n - 1) @ ws) fin"
    using rest by (rule visits_run_Cons)
  from visits_run_append [OF L this]
  have "visits c (run_until (concat (map (\<lambda>p. [P, move (reverse_range (i + 1) (n - 1)), move (swap_at i p)])
      [i + 1..<i + n]) @ P # Fs)) (B 0) (concat (map W [0..<n - 1]) @ W (n - 1) @ ws) fin" .
  moreover have "concat (map W [0..<n - 1]) @ W (n - 1) = perm_visits V A (perms xs) C"
    using concat_map_Suc [of W "n - 1"] assms(2,3)
    unfolding perms_unfold [OF ne] perm_visits_concat by (simp add: comp_def W_def [abs_def])
  moreover have "B 0 = A @ xs @ C" using ne by (cases xs) (simp_all add: B_def sel_def)
  ultimately show ?thesis by (simp only: append_assoc [symmetric])
qed

lemma small_swaps:
  "length A = i \<Longrightarrow> swap_at i (Suc i) (A @ x # y # C) = A @ y # x # C"
  "length A = i \<Longrightarrow> swap_at i (Suc (Suc i)) (A @ x # y # z # C) = A @ z # y # x # C"
  "length A = i \<Longrightarrow> swap_at (Suc i) (Suc (Suc i)) (A @ x # y # z # C) = A @ x # z # y # C"
  using swap_at_parts [of i A "Suc i" "[]" x y C] swap_at_parts [of i A "Suc (Suc i)" "[y]" x z C]
    swap_at_parts [of "Suc i" "A @ [x]" "Suc (Suc i)" "[]" y z C] by simp_all

lemma perms_small: "perms [x] = [[x]]" "perms [x, y] = [[x, y], [y, x]]"
  "perms [x, y, z] = [[x, y, z], [x, z, y], [y, x, z], [y, z, x], [z, x, y], [z, y, x]]"
  by (simp_all add: upt_rec)

lemma calls_run_Cons:
  assumes "calls c F V l" "length buf = l" "visits c (run_until Fs) buf ws fin"
  shows "visits c (run_until (F # Fs)) buf (V buf @ ws) fin"
  using callsD [OF assms(1,2)] assms(3) by (rule visits_run_Cons)

lemma permute_three_visits:
  assumes "calls c F V (length (A @ [x, y, z] @ C))" "length A = i"
    "visits c (run_until Fs) (A @ [z, y, x] @ C) ws fin"
  shows "visits c (run_until ([F, move (swap_at (Suc i) (Suc (Suc i))), F, move (swap_at i (Suc (Suc i))),
      move (swap_at (Suc i) (Suc (Suc i))), F, move (swap_at (Suc i) (Suc (Suc i))), F, move (swap_at i (Suc i)),
      move (swap_at (Suc i) (Suc (Suc i))), F, move (swap_at (Suc i) (Suc (Suc i))), F] @ Fs))
    (A @ [x, y, z] @ C) (perm_visits V A (perms [x, y, z]) C @ ws) fin"
proof -
  note F = calls_run_Cons [OF assms(1)]
  show ?thesis
    unfolding perms_small perm_visits_simps append.simps append_assoc
    by (rule F visits_run_move' assms(3) [simplified append.simps] | simp add: small_swaps assms(2) del: run_until.simps)+
qed

lemma permute_two_visits:
  assumes "calls c F V (length (A @ [x, y] @ C))" "length A = i" "visits c (run_until Fs) (A @ [y, x] @ C) ws fin"
  shows "visits c (run_until ([F, move (swap_at i (Suc i)), F] @ Fs)) (A @ [x, y] @ C)
    (perm_visits V A (perms [x, y]) C @ ws) fin"
  unfolding perms_small perm_visits_simps append.simps append_assoc
  by (rule calls_run_Cons [OF assms(1)] visits_run_move' assms(3) [simplified append.simps]
      | simp add: small_swaps assms(2) del: run_until.simps)+

lemma permute_part_visits:
  assumes "calls c F V (length (A @ xs @ C))" "length A = i" "length xs = n"
  shows "visits c (permute_part i n F) (A @ xs @ C) (perm_visits V A (perms xs) C) (A @ rev xs @ C)"
  using assms
proof (induction n arbitrary: i A xs rule: less_induct)
  case (less n)
  consider "n = 0" | "n = 1" | "n = 2" | "n = 3" | "4 \<le> n" by linarith
  then show ?case
  proof cases
    case 1
    then show ?thesis using less.prems callsD [OF less.prems(1)] by simp
  next
    case 2
    then obtain x where "xs = [x]" using less.prems(3) by (auto simp: length_Suc_conv)
    then show ?thesis using 2 callsD [OF less.prems(1)] by (simp add: perms_small)
  next
    case 3
    then obtain x y where xs: "xs = [x, y]" using less.prems(3) by (auto simp: length_Suc_conv numeral_2_eq_2)
    show ?thesis
      using permute_two_visits [OF less.prems(1) [unfolded xs] less.prems(2) visits_run_Nil] 3
      by (simp add: xs del: run_until.simps perms.simps)
  next
    case 4
    then obtain x y z where xs: "xs = [x, y, z]" using less.prems(3) by (auto simp: length_Suc_conv numeral_3_eq_3)
    show ?thesis
      using permute_three_visits [OF less.prems(1) [unfolded xs] less.prems(2) visits_run_Nil] 4
      by (simp add: xs del: run_until.simps perms.simps)
  next
    case 5
    have "visits c (permute_part (i + 1) (n - 1) F) (B @ ys @ C) (perm_visits V B (perms ys) C) (B @ rev ys @ C)"
      if "length B = i + 1" "length ys = n - 1" for B ys
      using that less.prems 5 by (intro less.IH) simp_all
    from permute_loop_visits [OF less.prems(2,3) _ this visits_run_Nil] 5
    show ?thesis by (subst permute_part.simps) (simp add: Let_def del: run_until.simps permute_part.simps)
  qed
qed

lemma permute_visits:
  assumes "calls c F V (length (A @ xs @ C))" "length A = i" "length xs = n"
  shows "visits c (permute i n F) (A @ xs @ C) (perm_visits V A (perms xs) C) (A @ xs @ C)"
proof -
  consider "n = 0" | "n = 1" | "n = 2" | "n = 3" | "4 \<le> n" by linarith
  then show ?thesis
  proof cases
    case 1
    then show ?thesis using assms callsD [OF assms(1)] by (simp add: permute_def)
  next
    case 2
    then obtain x where "xs = [x]" using assms(3) by (auto simp: length_Suc_conv)
    then show ?thesis using 2 callsD [OF assms(1)] by (simp add: permute_def perms_small)
  next
    case 3
    then obtain x y where xs: "xs = [x, y]" using assms(3) by (auto simp: length_Suc_conv numeral_2_eq_2)
    have "visits c (run_until [move (swap_at i (Suc i))]) (A @ [y, x] @ C) [] (A @ xs @ C)"
      by (rule visits_run_move' visits_run_Nil | simp add: small_swaps assms(2) xs)+
    from permute_two_visits [OF assms(1) [unfolded xs] assms(2) this] 3
    show ?thesis by (simp add: xs permute_def del: run_until.simps perms.simps)
  next
    case 4
    then obtain x y z where xs: "xs = [x, y, z]" using assms(3) by (auto simp: length_Suc_conv numeral_3_eq_3)
    have "visits c (run_until [move (swap_at i (Suc (Suc i)))]) (A @ [z, y, x] @ C) [] (A @ xs @ C)"
      by (rule visits_run_move' visits_run_Nil | simp add: small_swaps assms(2) xs)+
    from permute_three_visits [OF assms(1) [unfolded xs] assms(2) this] 4
    show ?thesis by (simp add: xs permute_def del: run_until.simps perms.simps)
  next
    case 5
    have "visits c (permute_part (i + 1) (n - 1) F) (B @ ys @ C) (perm_visits V B (perms ys) C) (B @ rev ys @ C)"
      if "length B = i + 1" "length ys = n - 1" for B ys
      using that assms 5 by (intro permute_part_visits) simp_all
    moreover have "visits c (run_until [move (reverse_range i n)]) (A @ rev xs @ C) [] (A @ xs @ C)"
      using assms(2,3) by (intro visits_run_move' [OF _ visits_run_Nil]) (simp add: reverse_range_parts)
    ultimately show ?thesis
      using permute_loop_visits [OF assms(2,3), of c "permute_part (i + 1) (n - 1) F" C V "[move (reverse_range i n)]" "[]" "A @ xs @ C"] 5
      by (simp add: permute_def Let_def del: run_until.simps permute_part.simps)
  qed
qed

section \<open>Combinations of two ranges\<close>

text \<open>The splits of zs = xs @ ys into a combination of length xs elements and the remaining ones, in the
  order in which they are visited.\<close>

fun comb_pairs :: "nat \<Rightarrow> 'a list \<Rightarrow> ('a list \<times> 'a list) list" where
  "comb_pairs 0 zs = [([], zs)]"
| "comb_pairs (Suc n) zs =
     concat (map (\<lambda>j. map (\<lambda>(a, b). (zs ! j # a, take j zs @ b)) (comb_pairs n (drop (Suc j) zs)))
       [0..<length zs - Suc n]) @ [(drop (length zs - Suc n) zs, take (length zs - Suc n) zs)]"

definition comb_visits :: "('a list \<Rightarrow> 'a list list) \<Rightarrow> 'a list \<Rightarrow> 'a list \<Rightarrow> 'a list \<Rightarrow> ('a list \<times> 'a list) list \<Rightarrow> 'a list list" where
  "comb_visits V A B C ps = concat (map (\<lambda>(a, b). V (A @ a @ B @ b @ C)) ps)"

lemma comb_visits_append: "comb_visits V A B C (ps @ qs) = comb_visits V A B C ps @ comb_visits V A B C qs"
  by (simp add: comb_visits_def)

lemma comb_visits_concat: "comb_visits V A B C (concat pss) = concat (map (comb_visits V A B C) pss)"
  by (induction pss) (simp_all add: comb_visits_def)

lemma comb_visits_shift:
  "comb_visits V A B C (map (\<lambda>(a, b). (x # a, ys @ b)) ps) = comb_visits V (A @ [x]) (B @ ys) C ps"
  by (simp add: comb_visits_def comp_def case_prod_unfold)

text \<open>The buffer that is left: the original one at the outermost level, otherwise the start of the next
  combinations.\<close>

definition comb_left :: "nat \<Rightarrow> nat \<Rightarrow> 'a list \<Rightarrow> 'a list \<Rightarrow> 'a list \<Rightarrow> 'a list \<Rightarrow> 'a list" where
  "comb_left d n A zs B C =
     (if d = 0 then A @ take n zs @ B @ drop n zs @ C else A @ take n (tl zs) @ B @ hd zs # drop (Suc n) zs @ C)"

lemma comb_left_0: "zs \<noteq> [] \<Longrightarrow> comb_left d 0 A zs B C = A @ B @ zs @ C"
  by (cases zs) (simp_all add: comb_left_def)

definition window :: "nat \<Rightarrow> nat \<Rightarrow> 'a list \<Rightarrow> 'a list \<Rightarrow> 'a list \<Rightarrow> 'a list \<Rightarrow> 'a list" where
  "window n j A zs B C = A @ take n (drop j zs) @ B @ take j zs @ drop (j + n) zs @ C"

lemma window_inner:
  assumes "j < length zs"
  shows "window (Suc n) j A zs B C =
    (A @ [zs ! j]) @ take n (drop (Suc j) zs) @ (B @ take j zs) @ drop n (drop (Suc j) zs) @ C"
  using assms by (simp add: window_def Cons_nth_drop_Suc [symmetric] add.commute)

lemma window_step:
  assumes "Suc j + n < length zs" "i1 = length A" "i2 = length A + Suc n + length B"
  shows "swap_at i1 (i2 + j) (comb_left (Suc d) n (A @ [zs ! j]) (drop (Suc j) zs) (B @ take j zs) C) =
    window (Suc n) (Suc j) A zs B C"
proof -
  define mid where "mid = take n (drop (Suc (Suc j)) zs) @ B @ take j zs"
  have d: "drop (Suc j) zs = zs ! Suc j # drop (Suc (Suc j)) zs" using assms(1) by (simp add: Cons_nth_drop_Suc)
  have t: "take (Suc j) zs = take j zs @ [zs ! j]" using assms(1) by (simp add: take_Suc_conv_app_nth)
  have "swap_at i1 (i2 + j) (A @ zs ! j # mid @ zs ! Suc j # drop (Suc (Suc (j + n))) zs @ C) =
      A @ zs ! Suc j # mid @ zs ! j # drop (Suc (Suc (j + n))) zs @ C"
    using assms by (intro swap_at_parts) (auto simp: mid_def)
  then show ?thesis by (simp add: comb_left_def window_def d t mid_def add.commute)
qed

lemma window_last:
  assumes "length zs = n + m" "i1 = length A" "i2 = length A + n + length B" "0 < m"
  shows "(if d \<noteq> 0 then rotate_discontinuous i1 n (i2 + 1) (m - 1) else rotate_discontinuous i1 n i2 m)
      (window n m A zs B C) = comb_left d n A zs B C"
proof (cases "d = 0")
  case True
  have "rotate_discontinuous i1 n i2 m (A @ drop m zs @ B @ take m zs @ C) =
      A @ take n (take m zs @ drop m zs) @ B @ drop n (take m zs @ drop m zs) @ C"
    using assms by (intro rotate_discontinuous_parts) auto
  then show ?thesis using True assms(1) by (simp add: window_def comb_left_def)
next
  case False
  obtain z ws where zs: "zs = z # ws" using assms(1,4) by (cases zs) auto
  obtain k where m: "m = Suc k" using assms(4) by (cases m) auto
  have "rotate_discontinuous i1 n (i2 + 1) (m - 1) (A @ drop k ws @ (B @ [z]) @ take k ws @ C) =
      A @ take n (take k ws @ drop k ws) @ (B @ [z]) @ drop n (take k ws @ drop k ws) @ C"
    using assms zs m by (intro rotate_discontinuous_parts) auto
  then show ?thesis using False assms(1) zs m by (simp add: window_def comb_left_def)
qed

lemma combine_visits:
  assumes "calls c F V (length (A @ zs @ B @ C))" "length A = i" "length zs = n + m" "k = length A + n + length B" "0 < m"
  shows "visits c (combine_discontinuous i n k m F d) (A @ take n zs @ B @ drop n zs @ C)
    (comb_visits V A B C (comb_pairs n zs)) (if n = 0 then A @ B @ zs @ C else comb_left d n A zs B C)"
  using assms
proof (induction n arbitrary: i A zs B k m d)
  case 0
  then have "visits c F (A @ B @ zs @ C) (V (A @ B @ zs @ C)) (A @ B @ zs @ C)" by (intro callsD) (auto simp: add_ac)
  then show ?case by (simp add: comb_visits_def)
next
  case (Suc n)
  define P where "P j = (if Suc n = 1 then F else combine_discontinuous (i + 1) (Suc n - 1) (k + j) (m - j) F (d + 1))" for j
  define R :: "'a list \<Rightarrow> 'a list" where "R = (if d \<noteq> 0 then rotate_discontinuous i (Suc n) (k + 1) (m - 1) else rotate_discontinuous i (Suc n) k m)"
  have P: "visits c (P j) (window (Suc n) j A zs B C)
      (comb_visits V A B C (map (\<lambda>(a, b). (zs ! j # a, take j zs @ b)) (comb_pairs n (drop (Suc j) zs))))
      (comb_left (Suc d) n (A @ [zs ! j]) (drop (Suc j) zs) (B @ take j zs) C)" if "j < m" for j
  proof -
    have j: "j < length zs" "m - j > 0" "drop (Suc j) zs \<noteq> []" using that Suc.prems(3) by auto
    have "visits c (combine_discontinuous (i + 1) n (k + j) (m - j) F (d + 1))
        ((A @ [zs ! j]) @ take n (drop (Suc j) zs) @ (B @ take j zs) @ drop n (drop (Suc j) zs) @ C)
        (comb_visits V (A @ [zs ! j]) (B @ take j zs) C (comb_pairs n (drop (Suc j) zs)))
        (if n = 0 then (A @ [zs ! j]) @ (B @ take j zs) @ drop (Suc j) zs @ C
         else comb_left (d + 1) n (A @ [zs ! j]) (drop (Suc j) zs) (B @ take j zs) C)"
      using Suc.prems j by (intro Suc.IH) (auto simp: add_ac)
    moreover have "P j = combine_discontinuous (i + 1) n (k + j) (m - j) F (d + 1)"
      by (cases n) (simp_all add: P_def)
    ultimately show ?thesis unfolding comb_visits_shift window_inner [OF j(1)]
      by (cases "n = 0") (simp_all add: comb_left_0 [OF j(3)] del: combine_discontinuous.simps comb_pairs.simps)
  qed
  have "visits c (run_until [P j, move (swap_at i (k + j))]) (window (Suc n) j A zs B C)
      (comb_visits V A B C (map (\<lambda>(a, b). (zs ! j # a, take j zs @ b)) (comb_pairs n (drop (Suc j) zs))) @ [])
      (window (Suc n) (Suc j) A zs B C)" if "j < m" for j
    using Suc.prems that
    by (intro visits_run_Cons [OF P] visits_run_move' [OF _ visits_run_Nil] window_step) auto
  then have L: "visits c (run_until (concat (map (\<lambda>j. [P j, move (swap_at i (k + j))]) [0..<m])))
      (window (Suc n) 0 A zs B C)
      (concat (map (\<lambda>j. comb_visits V A B C (map (\<lambda>(a, b). (zs ! j # a, take j zs @ b)) (comb_pairs n (drop (Suc j) zs)))) [0..<m]))
      (window (Suc n) m A zs B C)"
    by (intro visits_loop) (simp only: append_Nil2)
  have w: "window (Suc n) m A zs B C = A @ drop m zs @ B @ take m zs @ C" using Suc.prems(3) by (simp add: window_def)
  have "visits c (run_until [F, move R]) (window (Suc n) m A zs B C) (V (window (Suc n) m A zs B C) @ []) (comb_left d (Suc n) A zs B C)"
    using Suc.prems unfolding R_def
    by (intro visits_run_Cons [OF callsD] visits_run_move' [OF _ visits_run_Nil] window_last) (auto simp: w add_ac)
  note visits_run_append [OF L this]
  moreover have "combine_discontinuous i (Suc n) k m F d =
      run_until (concat (map (\<lambda>j. [P j, move (swap_at i (k + j))]) [0..<m]) @ [F, move R])"
    using Suc.prems(5) by (subst combine_discontinuous.simps) (simp add: P_def R_def del: combine_discontinuous.simps run_until.simps)
  moreover have "length zs - Suc n = m" using Suc.prems(3) by simp
  ultimately show ?case
    by (simp add: comb_visits_append comb_visits_concat comp_def w window_def del: combine_discontinuous.simps run_until.simps)
      (simp add: comb_visits_def)
qed

section \<open>The arrangements of a list\<close>

lemma comb_pairs_loop:
  "filter (\<lambda>x. length x = Suc n) (subseqs zs) =
     concat (map (\<lambda>j. map (Cons (zs ! j)) (filter (\<lambda>x. length x = n) (subseqs (drop (Suc j) zs)))) [0..<length zs])"
proof (induction zs)
  case (Cons z zs)
  have "[0..<length (z # zs)] = 0 # map Suc [0..<length zs]" by (simp only: length_Cons map_Suc_upt upt_conv_Cons zero_less_Suc)
  moreover have "filter (\<lambda>x. length x = Suc n) (map (Cons z) xss) = map (Cons z) (filter (\<lambda>x. length x = n) xss)" for xss
    by (simp add: filter_map comp_def)
  ultimately show ?case by (simp only: list.map concat.simps) (simp add: Cons.IH Let_def comp_def)
qed simp

lemma long_subseqs: "length zs < n \<Longrightarrow> filter (\<lambda>x. length x = n) (subseqs zs) = []"
  by (auto simp: filter_empty_conv dest!: list_emb_length)

lemma full_subseqs: "filter (\<lambda>x. length x = length zs) (subseqs zs) = [zs]"
proof (induction zs)
  case (Cons z zs)
  have "filter (\<lambda>x. length x = Suc (length zs)) (map (Cons z) (subseqs zs)) = map (Cons z) [zs]"
    using Cons.IH by (simp add: filter_map comp_def)
  then show ?case using long_subseqs [of zs "Suc (length zs)"] by (simp add: Let_def)
qed simp

lemma comb_pairs_subseqs:
  "n \<le> length zs \<Longrightarrow> map fst (comb_pairs n zs) = filter (\<lambda>x. length x = n) (subseqs zs)"
proof (induction n arbitrary: zs)
  case 0
  have "filter (\<lambda>x. x = []) (subseqs zs) = [[]]"
    by (induction zs) (simp_all add: Let_def filter_map comp_def)
  then show ?case by simp
next
  case (Suc n)
  define m where "m = length zs - Suc n"
  define h where "h j = map (Cons (zs ! j)) (filter (\<lambda>x. length x = n) (subseqs (drop (Suc j) zs)))" for j
  have m: "m < length zs" "length (drop (Suc m) zs) = n" using Suc.prems by (simp_all add: m_def)
  have "h j = []" if "j \<in> set [Suc m..<length zs]" for j using that m by (auto simp: h_def intro!: long_subseqs)
  then have "concat (map h [Suc m..<length zs]) = []" by (simp only: concat_eq_Nil_conv set_map) blast
  moreover have "[0..<length zs] = [0..<Suc m] @ [Suc m..<length zs]"
    using m(1) upt_add_eq_append [of 0 "Suc m" "length zs - Suc m"] by (metis Suc_leI le_add_diff_inverse zero_le)
  ultimately have "concat (map h [0..<length zs]) = concat (map h [0..<Suc m])" by simp
  also have "\<dots> = concat (map h [0..<m]) @ h m" by (rule concat_map_Suc)
  also have "h m = [drop m zs]"
    using full_subseqs [of "drop (Suc m) zs"] m by (simp add: h_def Cons_nth_drop_Suc)
  also have "concat (map h [0..<m]) =
      concat (map (\<lambda>j. map fst (map (\<lambda>(a, b). (zs ! j # a, take j zs @ b)) (comb_pairs n (drop (Suc j) zs)))) [0..<m])"
  proof (intro arg_cong [where f = concat] map_cong refl)
    fix j assume "j \<in> set [0..<m]"
    then have "n \<le> length (drop (Suc j) zs)" using m by auto
    from Suc.IH [OF this, symmetric] show "h j = map fst (map (\<lambda>(a, b). (zs ! j # a, take j zs @ b)) (comb_pairs n (drop (Suc j) zs)))"
      by (simp add: h_def comp_def case_prod_unfold)
  qed
  finally show ?case unfolding comb_pairs_loop h_def by (simp add: m_def map_concat comp_def)
qed

lemma distinct_concat_map:
  assumes "distinct xs" "\<And>x. x \<in> set xs \<Longrightarrow> distinct (f x)"
    "\<And>x y. x \<in> set xs \<Longrightarrow> y \<in> set xs \<Longrightarrow> x \<noteq> y \<Longrightarrow> set (f x) \<inter> set (f y) = {}"
  shows "distinct (concat (map f xs))"
  using assms by (induction xs) fastforce+

lemma set_perms: "set (perms xs) = {ys. mset ys = mset xs}"
proof (induction xs rule: perms.induct)
  case (2 x xs)
  define zs where "zs = x # xs"
  define r where "r k = take k zs @ drop (Suc k) zs" for k
  have ne: "zs \<noteq> []" by (simp add: zs_def)
  have IH: "set (perms (r k)) = {ys. mset ys = mset (r k)}" if "k < length zs" for k
  proof -
    have "k \<in> set [0..<length (x # xs)]" using that by (auto simp: zs_def)
    from 2 [OF this] show ?thesis by (simp only: r_def zs_def)
  qed
  have m: "mset zs = add_mset (zs ! k) (mset (r k))" if "k < length zs" for k
    using id_take_nth_drop [OF that] by (metis mset.simps(2) mset_append r_def union_mset_add_mset_right)
  have "ys \<in> set (perms zs) \<longleftrightarrow> mset ys = mset zs" for ys
  proof
    assume "ys \<in> set (perms zs)"
    then obtain k us where "k < length zs" "ys = zs ! k # us" "us \<in> set (perms (r k))"
      unfolding perms_unfold [OF ne] r_def by auto
    then show "mset ys = mset zs" using IH m by simp
  next
    assume ys: "mset ys = mset zs"
    then obtain y us where y: "ys = y # us" using ne by (cases ys) auto
    then have "y \<in> set zs" using ys by (metis list.set_intros(1) mset_eq_setD)
    then obtain k where k: "k < length zs" "y = zs ! k" by (auto simp: in_set_conv_nth)
    then have "us \<in> set (perms (r k))" using IH ys m [OF k(1)] y by simp
    then show "ys \<in> set (perms zs)" unfolding perms_unfold [OF ne] r_def using k y by auto
  qed
  then show ?case unfolding zs_def by blast
qed simp

lemma distinct_perms: "distinct xs \<Longrightarrow> distinct (perms xs)"
proof (induction xs rule: perms.induct)
  case (2 x xs)
  define zs where "zs = x # xs"
  define h where "h k = map (Cons (zs ! k)) (perms (take k zs @ drop (Suc k) zs))" for k
  have ne: "zs \<noteq> []" and d: "distinct zs" using 2(2) by (simp_all add: zs_def)
  have "distinct (h k)" if "k < length zs" for k
  proof -
    have k: "k \<in> set [0..<length (x # xs)]" using that by (auto simp: zs_def)
    have "distinct (take k zs @ drop (Suc k) zs)"
      using id_take_nth_drop [OF that] d by (metis distinct.simps(2) distinct_append not_distinct_conv_prefix distinct_take distinct_drop disjoint_insert(1) list.simps(15))
    from 2(1) [OF k this [unfolded zs_def]] show ?thesis unfolding h_def distinct_map zs_def by simp
  qed
  moreover have "set (h k) \<inter> set (h j) = {}" if "k < length zs" "j < length zs" "k \<noteq> j" for k j
    using that nth_eq_iff_index_eq [OF d] by (auto simp: h_def)
  ultimately have "distinct (concat (map h [0..<length zs]))"
    by (intro distinct_concat_map) auto
  then show ?case unfolding perms_unfold [OF ne, unfolded zs_def] h_def zs_def by simp
qed simp

text \<open>All arrangements of n elements of a list.\<close>

definition arrangements :: "nat \<Rightarrow> 'a list \<Rightarrow> 'a list list" where
  "arrangements n zs = concat (map perms (filter (\<lambda>x. length x = n) (subseqs zs)))"

lemma subseq_of_submultiset: "mset p \<subseteq># mset zs \<Longrightarrow> \<exists>a. subseq a zs \<and> mset a = mset p"
proof (induction zs arbitrary: p)
  case (Cons z zs)
  show ?case
  proof (cases "z \<in> set p")
    case True
    then have p: "mset p = add_mset z (mset (remove1 z p))" by simp
    then have "mset (remove1 z p) \<subseteq># mset zs" using Cons.prems
      by (metis mset.simps(2) mset_subset_eq_add_mset_cancel)
    from Cons.IH [OF this] obtain a where a: "subseq a zs" "mset a = mset (remove1 z p)" by blast
    have "subseq (z # a) (z # zs)" using a(1) by simp
    moreover have "mset (z # a) = mset p" by (simp only: mset.simps a(2) p)
    ultimately show ?thesis by blast
  next
    case False
    have "count (mset p) x \<le> count (mset zs) x" for x
    proof (cases "x = z")
      case True
      then have "count (mset p) x = 0" using False by (metis count_mset_0_iff)
      then show ?thesis by linarith
    next
      case x: False
      then show ?thesis using mset_subset_eq_count [OF Cons.prems, of x] by simp
    qed
    then have "mset p \<subseteq># mset zs" by (rule mset_subset_eqI)
    from Cons.IH [OF this] show ?thesis by (blast intro: list_emb_Cons)
  qed
qed simp

lemma subseq_imp_submultiset: "subseq a zs \<Longrightarrow> mset a \<subseteq># mset zs"
proof (induction rule: list_emb.induct)
  case (list_emb_Cons xs ys y)
  then show ?case by (simp add: subset_mset.add_increasing2 subset_mset.le_add_same_cancel1)
    (metis add_mset_add_single mset_subset_eq_add_left subset_mset.order_trans)
qed simp_all

lemma set_arrangements: "set (arrangements n zs) = {p. length p = n \<and> mset p \<subseteq># mset zs}"
proof -
  have "p \<in> set (arrangements n zs) \<longleftrightarrow> (\<exists>a. subseq a zs \<and> length a = n \<and> mset p = mset a)" for p
    by (auto simp: arrangements_def set_perms)
  moreover have "(\<exists>a. subseq a zs \<and> length a = n \<and> mset p = mset a) \<longleftrightarrow> length p = n \<and> mset p \<subseteq># mset zs" for p
    using subseq_of_submultiset [of p zs] by (metis mset_eq_length subseq_imp_submultiset)
  ultimately show ?thesis by blast
qed

lemma distinct_arrangements: "distinct zs \<Longrightarrow> distinct (arrangements n zs)"
proof -
  assume d: "distinct zs"
  have s: "distinct (subseqs zs)" using distinct_set_subseqs [OF d] by (simp add: distinct_map)
  have inj: "inj_on set (set (subseqs zs))" using distinct_set_subseqs [OF d] by (simp add: distinct_map)
  have "distinct (perms a)" if "a \<in> set (subseqs zs)" for a
    using that d subseqs_distinctD distinct_perms by blast
  moreover have "set (perms a) \<inter> set (perms b) = {}" if "a \<in> set (subseqs zs)" "b \<in> set (subseqs zs)" "a \<noteq> b" for a b
    using that inj mset_eq_setD unfolding set_perms inj_on_def by (metis (mono_tags, lifting) disjoint_iff mem_Collect_eq)
  ultimately show ?thesis unfolding arrangements_def using s by (intro distinct_concat_map) auto
qed

section \<open>Visiting every arrangement\<close>

lemma visit_map:
  "map_option (\<lambda>(r, t). (map_option h r, t)) (visit (\<lambda>b. f (h b)) vs s) = visit f (map h vs) s"
proof (induction vs arbitrary: s)
  case (Cons v vs)
  show ?case by (cases "f (h v) s") (auto simp: Cons.IH)
qed simp

lemma bound_range_calls: "calls (\<lambda>b. f (take mid b)) (bound_range f mid) (\<lambda>b. [b]) l"
proof -
  have "bound_range f mid (buf, s) = map_option (outcome buf) (visit (\<lambda>b. f (take mid b)) [buf] s)" for buf s
    by (cases "f (take mid buf) s") (auto simp: bound_range_def outcome_def)
  then show ?thesis by (simp add: calls_def visits_def)
qed

lemma permute_calls:
  assumes "mid \<le> l"
  shows "calls (\<lambda>b. f (take mid b)) (permute 0 mid (bound_range f mid))
    (\<lambda>b. map (\<lambda>p. p @ drop mid b) (perms (take mid b))) l"
  unfolding calls_def
proof (intro allI impI)
  fix buf :: "'a list" assume "length buf = l"
  then have "visits (\<lambda>b. f (take mid b)) (permute 0 mid (bound_range f mid)) ([] @ take mid buf @ drop mid buf)
      (perm_visits (\<lambda>b. [b]) [] (perms (take mid buf)) (drop mid buf)) ([] @ take mid buf @ drop mid buf)"
    using assms by (intro permute_visits bound_range_calls) auto
  moreover have "perm_visits (\<lambda>b. [b]) [] ps C = map (\<lambda>p. p @ C) ps" for ps :: "'a list list" and C by (induction ps) simp_all
  ultimately show "visits (\<lambda>b. f (take mid b)) (permute 0 mid (bound_range f mid)) buf
      (map (\<lambda>p. p @ drop mid buf) (perms (take mid buf))) buf" by simp
qed

lemma comb_pairs_length: "n \<le> length zs \<Longrightarrow> (a, b) \<in> set (comb_pairs n zs) \<Longrightarrow> length a = n"
proof -
  assume n: "n \<le> length zs" and "(a, b) \<in> set (comb_pairs n zs)"
  then have "a \<in> set (map fst (comb_pairs n zs))" by force
  then show ?thesis unfolding comb_pairs_subseqs [OF n] by simp
qed

text \<open>Both loops call F on the splits of the list, in the order of their combinations.\<close>

lemma combine_from_start:
  assumes "calls c F V (length zs)" "mid \<le> length zs"
  shows "visits c (combine_discontinuous 0 mid mid (length zs - mid) F 0) zs
    (concat (map (\<lambda>(a, b). V (a @ b)) (comb_pairs mid zs))) zs"
proof (cases "mid = length zs")
  case True
  have "comb_pairs (length zs) zs = [(zs, [])]" by (cases "length zs") (simp_all add: comb_pairs.simps)
  then show ?thesis using True callsD [OF assms(1)] by simp
next
  case False
  have "visits c (combine_discontinuous 0 mid mid (length zs - mid) F 0) ([] @ take mid zs @ [] @ drop mid zs @ [])
      (comb_visits V [] [] [] (comb_pairs mid zs)) (if mid = 0 then [] @ [] @ zs @ [] else comb_left 0 mid [] zs [] [])"
    using assms False by (intro combine_visits) auto
  then show ?thesis by (simp add: comb_visits_def comb_left_def del: combine_discontinuous.simps split: if_splits)
qed

lemma visits_take:
  assumes "visits (\<lambda>b. f (take mid b)) F zs vs zs"
  shows "case visit f (map (take mid) vs) s of
      None \<Rightarrow> F (zs, s) = None
    | Some (None, t) \<Rightarrow> F (zs, s) = Some (False, zs, t)
    | Some (Some p, t) \<Rightarrow> \<exists>buf. F (zs, s) = Some (True, buf, t) \<and> take mid buf = p"
  using assms visit_map [of "take mid" f vs s, symmetric]
  by (cases "visit (\<lambda>b. f (take mid b)) vs s") (auto simp: visits_def outcome_def split: option.splits)

lemma for_each_combination_visits:
  assumes "mid \<le> length zs"
  shows "case visit f (filter (\<lambda>x. length x = mid) (subseqs zs)) s of
      None \<Rightarrow> for_each_combination mid f (zs, s) = None
    | Some (None, t) \<Rightarrow> for_each_combination mid f (zs, s) = Some (False, zs, t)
    | Some (Some p, t) \<Rightarrow> \<exists>buf. for_each_combination mid f (zs, s) = Some (True, buf, t) \<and> take mid buf = p"
proof -
  have "map (take mid) (concat (map (\<lambda>(a, b). [a @ b]) (comb_pairs mid zs))) = map fst (comb_pairs mid zs)"
    using comb_pairs_length [OF assms] by (auto simp: map_concat comp_def case_prod_unfold concat_map_singleton)
  then show ?thesis
    using visits_take [of f mid, OF combine_from_start [OF bound_range_calls assms], of s] comb_pairs_subseqs [OF assms]
    unfolding for_each_combination_def fst_conv by (simp del: combine_discontinuous.simps)
qed

lemma for_each_permutation_visits:
  assumes "mid \<le> length zs"
  shows "case visit f (arrangements mid zs) s of
      None \<Rightarrow> for_each_permutation mid f (zs, s) = None
    | Some (None, t) \<Rightarrow> for_each_permutation mid f (zs, s) = Some (False, zs, t)
    | Some (Some p, t) \<Rightarrow> \<exists>buf. for_each_permutation mid f (zs, s) = Some (True, buf, t) \<and> take mid buf = p"
proof -
  define g :: "'a list \<times> 'a list \<Rightarrow> 'a list list" where "g = (\<lambda>(a, b). map (\<lambda>p. p @ drop mid (a @ b)) (perms (take mid (a @ b))))"
  have "map (take mid) (g q) = perms (fst q)" if "q \<in> set (comb_pairs mid zs)" for q
  proof -
    obtain a b where q: "q = (a, b)" by (cases q)
    then have a: "length a = mid" using comb_pairs_length [OF assms] that by blast
    then have "length p = mid" if "p \<in> set (perms a)" for p using that by (auto simp: set_perms dest: mset_eq_length)
    then have "map (\<lambda>p. take mid (p @ b)) (perms a) = perms a" by (intro map_idI) simp
    then show ?thesis using a by (simp add: g_def q comp_def)
  qed
  then have "map (\<lambda>q. map (take mid) (g q)) (comb_pairs mid zs) = map perms (map fst (comb_pairs mid zs))" by simp
  then have "map (take mid) (concat (map g (comb_pairs mid zs))) = arrangements mid zs"
    unfolding arrangements_def comb_pairs_subseqs [OF assms, symmetric] by (simp only: map_concat map_map comp_def)
  then show ?thesis
    using visits_take [of f mid, OF combine_from_start [OF permute_calls [OF assms] assms], of s, folded g_def]
    unfolding for_each_permutation_def fst_conv
    by (simp del: combine_discontinuous.simps)
qed

text \<open>C15. for_each_permutation calls the function on every arrangement of mid elements of the range, each
  once if the elements differ, until the function asks to stop, and otherwise leaves the range as it
  was.\<close>

theorem for_each_permutation_exact:
  assumes "mid \<le> length zs"
  shows "set (arrangements mid zs) = {p. length p = mid \<and> mset p \<subseteq># mset zs} \<and>
    (distinct zs \<longrightarrow> distinct (arrangements mid zs)) \<and>
    (case visit f (arrangements mid zs) s of
      None \<Rightarrow> for_each_permutation mid f (zs, s) = None
    | Some (None, t) \<Rightarrow> for_each_permutation mid f (zs, s) = Some (False, zs, t)
    | Some (Some p, t) \<Rightarrow> \<exists>buf. for_each_permutation mid f (zs, s) = Some (True, buf, t) \<and> take mid buf = p)"
  by (intro conjI impI set_arrangements distinct_arrangements for_each_permutation_visits [OF assms])

theorem for_each_permutation_exact_witness:
  "for_each_permutation 2 (\<lambda>p s. Some (False, s @ [p])) ([1, 2, 3 :: int], []) =
     Some (False, [1, 2, 3], [[1, 2], [2, 1], [1, 3], [3, 1], [2, 3], [3, 2]])"
  using for_each_permutation_exact [of 2 "[1, 2, 3 :: int]" "\<lambda>p s. Some (False, s @ [p])" "[]"]
  by (simp add: arrangements_def Let_def perms_small)

end
