(* ===== verification/CoOrderings.thy ===== *)
theory CoOrderings
  imports Permutations GraphCopy "HOL-Library.List_Lexorder"
begin

text \<open>
  The placing of a new store in coherence order (src/src/GenMCDriver.cpp, calcCoOrderings and its
  helpers). With stores of one size the new store can go before any store it is not known to
  follow. With stores of different sizes in a word, the order only matters per byte: the driver goes
  through the permutations of the coherence list that keep the order of the stores at every byte,
  places the new store in each of them and remembers one list for every per-byte order.

  Functions return None where the code dereferences a null pointer or hits BUG.
\<close>

section \<open>Definitions\<close>

text \<open>An iterator into the coherence list is given by what follows it.\<close>

definition co_position :: "ExecutionGraph \<Rightarrow> SAddr \<Rightarrow> Event list \<Rightarrow> nat" where
  "co_position g a it =
     (case it of [] \<Rightarrow> length (getStoresToLoc g a)
      | e # _ \<Rightarrow> length (takeWhile (\<lambda>w. w \<noteq> e) (getStoresToLoc g a)))"

text \<open>The range starts at begIt; the random number is the argument rnd.\<close>

definition pickRandomCo :: "nat \<Rightarrow> EventLabel \<Rightarrow> Event list \<Rightarrow> ExecutionGraph \<Rightarrow> ExecutionGraph" where
  "pickRandomCo rnd sLab begIt g = addStoreToCO sLab (co_position g (getAddr sLab) (drop rnd begIt)) g"

definition updateStSpaceChoices :: "EventLabel \<Rightarrow> Event list \<Rightarrow> ChoiceMap \<Rightarrow> ChoiceMap option" where
  "updateStSpaceChoices lab stores choices =
     do { st \<leftarrow> getStamp lab; Some (omap_upd st (\<lambda>_. stores) [] choices) }"

definition co_seq_step :: "ExecutionGraph \<Rightarrow> nat \<Rightarrow> EventLabel \<Rightarrow> Event list \<times> nat \<times> nat \<Rightarrow> Event \<Rightarrow>
    (Event list \<times> nat \<times> nat) option" where
  "co_seq_step g lsize sLab st e =
     (case st of (seq, idx, overlaps) \<Rightarrow>
        do { wLab \<leftarrow> getWriteLabel g e;
             let seq = seq @ [e] in
             Some (if AAccess_overlaps (access sLab) (access wLab)
                   then if Suc overlaps = lsize then (seq @ [position sLab], length seq, Suc overlaps)
                        else (seq, idx, Suc overlaps)
                   else (seq, idx, overlaps)) })"

definition constructCoSeq :: "ExecutionGraph \<Rightarrow> Event list \<Rightarrow> nat \<Rightarrow> EventLabel \<Rightarrow> (Event list \<times> nat) option" where
  "constructCoSeq g es lsize sLab =
     do { (seq, idx, overlaps) \<leftarrow> try_fold (co_seq_step g lsize sLab) es (if lsize = 0 then [position sLab] else [], 0, 0);
          Some (seq, idx) }"

definition byte_access :: "AAccess \<Rightarrow> nat \<Rightarrow> AAccess" where
  "byte_access a i = \<lparr>acc_addr = SAddr_align (acc_addr a) + of_nat i, acc_size = 1, acc_type = Signed\<rparr>"

definition getPerByteCoherence :: "ExecutionGraph \<Rightarrow> Event list \<Rightarrow> AAccess \<Rightarrow> Event list list option" where
  "getPerByteCoherence g coh a =
     map_opt (\<lambda>i. filter_opt (\<lambda>e. do { wLab \<leftarrow> getWriteLabel g e;
                                      Some (AAccess_overlaps (access wLab) (byte_access a i)) }) coh) [0..<8]"

text \<open>The test of the stores after the new one: none may be the write of an RMW that comes next at some
  byte, and none may be known to the new store.\<close>

fun co_succ_invalid :: "ExecutionGraph \<Rightarrow> EventLabel \<Rightarrow> WordFragment \<Rightarrow> Event list \<Rightarrow> bool option" where
  "co_succ_invalid g lab remaining [] = Some False"
| "co_succ_invalid g lab remaining (pos # es) =
     do { nLab \<leftarrow> getWriteLabel g pos;
          let overlap = getOverlap (access nLab) remaining in
          if overlap \<noteq> [] \<and> isRMWStore nLab then Some True
          else do { b \<leftarrow> (if AAccess_overlaps (access lab) (access nLab)
                         then isWriteRfBefore g (position nLab) (position lab) (access lab) else Some False);
                    if b then Some True
                    else co_succ_invalid g lab (WordFragment_subtract remaining overlap) es } }"

definition place_store :: "ExecutionGraph \<Rightarrow> EventLabel \<Rightarrow> Event list \<Rightarrow> (Event list list, Event list) omap \<Rightarrow> nat \<Rightarrow>
    (Event list list, Event list) omap option" where
  "place_store g lab coh cache i =
     do { (newCoh, idx) \<leftarrow> constructCoSeq g coh i lab;
          BUG_ON (length newCoh \<le> idx \<or> newCoh ! idx \<noteq> position lab);
          bad \<leftarrow> co_succ_invalid g lab (WordFragment_of (access lab)) (drop (Suc idx) newCoh);
          if bad then Some cache
          else do { order \<leftarrow> getPerByteCoherence g newCoh (access lab);
                    Some (omap_upd order (\<lambda>_. newCoh) [] cache) } }"

definition co_permutation :: "ExecutionGraph \<Rightarrow> EventLabel \<Rightarrow> Event list list \<Rightarrow> nat \<Rightarrow> Event list \<Rightarrow>
    (Event list list, Event list) omap \<Rightarrow> (bool \<times> (Event list list, Event list) omap) option" where
  "co_permutation g lab order overlapping coh cache =
     do { order' \<leftarrow> getPerByteCoherence g coh (access lab);
          if order' \<noteq> order then Some (False, cache)
          else do { cache \<leftarrow> try_fold (place_store g lab coh) [0..<overlapping] cache; Some (False, cache) } }"

text \<open>The alternatives when the stores differ in size: one list per per-byte order, in the order of
  the map.\<close>

definition co_alternatives :: "ExecutionGraph \<Rightarrow> EventLabel \<Rightarrow> Event list list option" where
  "co_alternatives g lab =
     (let coh = getStoresToLoc g (getAddr lab) in
      do { order \<leftarrow> getPerByteCoherence g coh (access lab);
           let overlapping = length (co_range g (access lab)) in
           do { (_, _, cache) \<leftarrow> for_each_permutation (length coh) (co_permutation g lab order overlapping) (coh, []);
                Some (map snd cache) } })"

text \<open>The graph, the work list and the choices, and the store to warn about.\<close>

definition calcCoOrderings :: "bool \<Rightarrow> nat \<Rightarrow> ExecutionGraph \<Rightarrow> LocalQueueT \<Rightarrow> ChoiceMap \<Rightarrow> EventLabel \<Rightarrow>
    (ExecutionGraph \<times> LocalQueueT \<times> ChoiceMap \<times> Event option) option" where
  "calcCoOrderings estimation rnd g q choices lab =
     do { (begIt, endIt) \<leftarrow> getCoherentPlacings g lab;
          let places = take (length begIt - length endIt) begIt;
              racyWrite = (if places = [] then None else Some (hd places));
              g' = addStoreToCO lab (co_position g (getAddr lab) endIt) g in
          if estimation then
            do { choices \<leftarrow> updateStSpaceChoices lab (places @ [getBottom]) choices;
                 Some (pickRandomCo rnd lab begIt g, q, choices, racyWrite) }
          else do { st \<leftarrow> getStamp lab;
            if list_all (\<lambda>w. acc_addr (label_access g w) = getAddr lab \<and>
                         acc_size (label_access g w) = acc_size (access lab)) places
            then do { succs \<leftarrow> filter_opt (\<lambda>w. do { wLab \<leftarrow> getEventLabel g w;
                          if isRMWStore wLab then Some False
                          else map_option Not (isWriteRfBefore g w (position lab) (access lab)) }) places;
                      Some (g', fold (\<lambda>w. addToWorklist st (WriteForwardRevisit (position lab) w)) succs q, choices, racyWrite) }
            else do { seqs \<leftarrow> co_alternatives g lab;
                      Some (g', fold (\<lambda>s. addToWorklist st (WriteRevisitMIXER (position lab) (position lab) s)) seqs q,
                        choices, racyWrite) } } }"

section \<open>Per-byte orders\<close>

text \<open>For stores that may cover some of n bytes. The store L overlaps those that share a byte with it.\<close>

definition per_byte :: "(nat \<Rightarrow> 'e \<Rightarrow> bool) \<Rightarrow> nat \<Rightarrow> 'e list \<Rightarrow> 'e list list" where
  "per_byte cov n xs = map (\<lambda>i. filter (cov i) xs) [0..<n]"

lemma per_byte_eq_iff: "per_byte cov n xs = per_byte cov n ys \<longleftrightarrow> (\<forall>i<n. filter (cov i) xs = filter (cov i) ys)"
  by (auto simp: per_byte_def)

lemma per_byte_place:
  assumes "\<And>i e. i < n \<Longrightarrow> cov i L \<Longrightarrow> e \<in> set (u @ w) \<Longrightarrow> cov i e \<Longrightarrow> ov e"
    and "filter ov u = filter ov u'" "filter ov w = filter ov w'"
    and "per_byte cov n (u @ w) = per_byte cov n (u' @ w')" "set (u' @ w') = set (u @ w)"
  shows "per_byte cov n (u @ L # w) = per_byte cov n (u' @ L # w')"
  unfolding per_byte_eq_iff
proof (intro allI impI)
  fix i assume i: "i < n"
  show "filter (cov i) (u @ L # w) = filter (cov i) (u' @ L # w')"
  proof (cases "cov i L")
    case True
    have ov: "filter (cov i) xs = filter (cov i) (filter ov xs)" if "set xs \<subseteq> set (u @ w)" for xs
    proof -
      have "filter (cov i) xs = filter (\<lambda>e. ov e \<and> cov i e) xs"
        using that assms(1) [OF i True] by (intro filter_cong refl) blast
      then show ?thesis by (simp add: conj_commute)
    qed
    have "set u' \<subseteq> set (u @ w)" "set w' \<subseteq> set (u @ w)" using assms(5) by auto
    then show ?thesis using ov [of u] ov [of u'] ov [of w] ov [of w'] assms(2,3) by simp
  next
    case False
    then show ?thesis using i assms(4) [unfolded per_byte_eq_iff] by simp
  qed
qed

lemma split_at_count:
  "k < length (filter P xs) \<Longrightarrow> \<exists>u e w. xs = u @ e # w \<and> P e \<and> length (filter P u) = k"
proof (induction xs arbitrary: k)
  case (Cons x xs)
  show ?case
  proof (cases "P x \<and> k = 0")
    case True
    then show ?thesis by (intro exI [of _ "[]"]) simp
  next
    case False
    define j where "j = (if P x then k - 1 else k)"
    have "j < length (filter P xs)" using Cons.prems False by (auto simp: j_def split: if_splits)
    from Cons.IH [OF this] obtain u e w where "xs = u @ e # w" "P e" "length (filter P u) = j" by blast
    then show ?thesis using False by (intro exI [of _ "x # u"]) (auto simp: j_def)
  qed
qed simp

lemma filter_append_eq:
  assumes "u @ w = u' @ w'" "length (filter P u) = length (filter P u')"
  shows "filter P u = filter P u' \<and> filter P w = filter P w'"
proof -
  have "filter P u @ filter P w = filter P u' @ filter P w'" using assms(1) by (metis filter_append)
  then show ?thesis using assms(2) by simp
qed

section \<open>The sequence with the new store\<close>

definition ov :: "ExecutionGraph \<Rightarrow> EventLabel \<Rightarrow> Event \<Rightarrow> bool" where
  "ov g lab e = AAccess_overlaps (access lab) (label_access g e)"

definition are_writes :: "ExecutionGraph \<Rightarrow> Event list \<Rightarrow> bool" where
  "are_writes g es = (\<forall>e\<in>set es. label_is (\<lambda>l. isWrite (kind l) \<and> position l = e) g e)"

lemma are_writes_simps [simp]: "are_writes g []" 
  "are_writes g (e # es) \<longleftrightarrow> label_is (\<lambda>l. isWrite (kind l) \<and> position l = e) g e \<and> are_writes g es"
  "are_writes g (es @ fs) \<longleftrightarrow> are_writes g es \<and> are_writes g fs"
  by (auto simp: are_writes_def)

lemma are_writes_label:
  assumes "are_writes g es" "e \<in> set es"
  shows "\<exists>l. getEventLabel g e = Some l \<and> getWriteLabel g e = Some l \<and> isWrite (kind l) \<and> position l = e \<and> label_access g e = access l"
  using assms by (auto simp: are_writes_def label_is_def getWriteLabel_def label_access_def split: option.splits)

lemma co_seq_before:
  "are_writes g es \<Longrightarrow> k + length (filter (ov g lab) es) < lsize \<Longrightarrow>
     try_fold (co_seq_step g lsize lab) es (seq, idx, k) = Some (seq @ es, idx, k + length (filter (ov g lab) es))"
proof (induction es arbitrary: seq k)
  case (Cons e es)
  then obtain l where "getWriteLabel g e = Some l" "label_access g e = access l"
    using are_writes_label [OF Cons.prems(1), of e] by auto
  then show ?case using Cons by (auto simp: co_seq_step_def ov_def)
qed simp

lemma co_seq_after:
  "are_writes g es \<Longrightarrow> lsize \<le> k \<Longrightarrow>
     try_fold (co_seq_step g lsize lab) es (seq, idx, k) = Some (seq @ es, idx, k + length (filter (ov g lab) es))"
proof (induction es arbitrary: seq k)
  case (Cons e es)
  then obtain l where "getWriteLabel g e = Some l" "label_access g e = access l"
    using are_writes_label [OF Cons.prems(1), of e] by auto
  then show ?case using Cons by (auto simp: co_seq_step_def ov_def)
qed simp

lemma constructCoSeq_split:
  assumes "are_writes g es" "k \<le> length (filter (ov g lab) es)"
  shows "\<exists>u w. es = u @ w \<and> length (filter (ov g lab) u) = k \<and>
    constructCoSeq g es k lab = Some (u @ position lab # w, length u)"
proof (cases k)
  case 0
  then show ?thesis using co_seq_after [OF assms(1), of 0 0 lab "[position lab]" 0]
    by (intro exI [of _ "[]"] exI [of _ es]) (simp add: constructCoSeq_def)
next
  case (Suc j)
  then obtain u e w where es: "es = u @ e # w" "ov g lab e" "length (filter (ov g lab) u) = j"
    using split_at_count [of j "ov g lab" es] assms(2) by auto
  obtain l where l: "getWriteLabel g e = Some l" "label_access g e = access l"
    using are_writes_label [OF assms(1), of e] es(1) by auto
  have "try_fold (co_seq_step g k lab) es ([], 0, 0) = Some (u @ [e, position lab] @ w, length u + 1, k + length (filter (ov g lab) w))"
    using co_seq_before [of g u 0 lab k "[]" 0] co_seq_after [of g w k k lab "u @ [e, position lab]" "length u + 1"] assms(1) es l Suc
    by (simp add: try_fold_append co_seq_step_def ov_def)
  then show ?thesis using es Suc by (intro exI [of _ "u @ [e]"] exI [of _ w]) (simp add: constructCoSeq_def)
qed

section \<open>Accesses within a word\<close>

definition word_access :: "SAddr \<Rightarrow> AAccess" where
  "word_access w = \<lparr>acc_addr = w, acc_size = 8, acc_type = Signed\<rparr>"

definition within_word :: "SAddr \<Rightarrow> AAccess \<Rightarrow> bool" where
  "within_word w a = (SAddr_align (acc_addr a) = w \<and> in_storage (word_access w) \<and> acc_size a \<noteq> 0 \<and>
     set (WordFragment_of a) \<subseteq> {0..<8})"

lemma within_word_facts:
  assumes "within_word w a"
  shows "unat (acc_addr a) = unat w + unat (acc_addr a) mod 8" "unat (acc_addr a) mod 8 + unat (acc_size a) \<le> 8"
    "in_storage a" "unat w mod 8 = 0" "getByte (acc_addr a) = int (unat (acc_addr a) mod 8)" "0 < unat (acc_size a)"
proof -
  have u: "int (unat x) = uint x" for x :: "64 word" by simp
  have b: "getByte (acc_addr a) = int (unat (acc_addr a) mod 8)"
    by (simp add: getByte_eq zmod_int)
  then show "getByte (acc_addr a) = int (unat (acc_addr a) mod 8)" .
  have w: "uint w = uint (acc_addr a) - uint (acc_addr a) mod 8"
    using assms SAddr_align_uint [of "acc_addr a"] by (simp add: within_word_def)
  then have "int (unat (acc_addr a)) = int (unat w + unat (acc_addr a) mod 8)" by (simp add: zmod_int)
  then show e: "unat (acc_addr a) = unat w + unat (acc_addr a) mod 8" by (simp only: of_nat_eq_iff)
  have "uint w mod 8 = 0" by (simp add: w)
  then have "int (unat w mod 8) = 0" by (simp add: zmod_int)
  then show w8: "unat w mod 8 = 0" by simp
  show p: "0 < unat (acc_size a)" using assms by (simp add: within_word_def unat_gt_0)
  have "getByte (acc_addr a) + int (unat (acc_size a) - 1) \<in> set (WordFragment_of a)"
    unfolding WordFragment_of_def set_map using p by (intro image_eqI [of _ _ "unat (acc_size a) - 1"]) auto
  then have "getByte (acc_addr a) + int (unat (acc_size a) - 1) < 8" using assms by (auto simp: within_word_def)
  then show s: "unat (acc_addr a) mod 8 + unat (acc_size a) \<le> 8" using p unfolding b by linarith
  have w60: "unat w mod 2 ^ 60 + 8 < 2 ^ 60" using assms by (simp add: within_word_def in_storage_def word_access_def)
  define m where "m = unat (acc_addr a) mod 8"
  have "unat (acc_addr a) mod 2 ^ 60 = (unat w mod 2 ^ 60 + m) mod 2 ^ 60" by (subst e) (simp add: m_def mod_add_left_eq)
  also have "\<dots> = unat w mod 2 ^ 60 + m" using w60 s p by (intro mod_less) (simp add: m_def)
  finally show "in_storage a" using w60 s unfolding in_storage_def m_def by linarith
qed

lemma within_word_bytes:
  assumes "within_word w a"
  shows "bytes a = (\<lambda>b. unat w + nat b) ` set (WordFragment_of a)"
proof -
  define m where "m = unat (acc_addr a) mod 8"
  have "set (WordFragment_of a) = (\<lambda>i. int (m + i)) ` {0..<unat (acc_size a)}"
    unfolding WordFragment_of_def within_word_facts(5) [OF assms] m_def by auto
  moreover have "bytes a = (\<lambda>i. unat w + (m + i)) ` {0..<unat (acc_size a)}"
  proof -
    have k: "unat (acc_addr a) = unat w + m" using within_word_facts(1) [OF assms] by (simp add: m_def)
    have "(\<lambda>i. unat w + (m + i)) ` {0..<unat (acc_size a)} = {unat w + m..<unat w + m + unat (acc_size a)}"
      using image_add_atLeastLessThan [of "unat w + m" 0 "unat (acc_size a)"] by (simp add: add.assoc add_ac)
    then show ?thesis by (simp add: bytes_def k)
  qed
  ultimately show ?thesis by (simp add: image_image del: of_nat_add)
qed

lemma fragments_meet:
  assumes "within_word w a" "within_word w b"
  shows "AAccess_overlaps a b \<longleftrightarrow> set (WordFragment_of a) \<inter> set (WordFragment_of b) \<noteq> {}"
proof -
  have nn: "0 \<le> x" if "x \<in> set (WordFragment_of a) \<union> set (WordFragment_of b)" for x
    using that assms by (auto simp: within_word_def)
  have "AAccess_overlaps a b \<longleftrightarrow> bytes a \<inter> bytes b \<noteq> {}"
    using within_word_facts(3) [OF assms(1)] within_word_facts(3) [OF assms(2)] assms
    by (intro AAccess_overlaps_bytes) (auto simp: within_word_def)
  also have "\<dots> \<longleftrightarrow> set (WordFragment_of a) \<inter> set (WordFragment_of b) \<noteq> {}"
  proof -
    have "inj_on (\<lambda>b. unat w + nat b) (set (WordFragment_of a) \<union> set (WordFragment_of b))"
    proof (rule inj_onI)
      fix x y
      assume "x \<in> set (WordFragment_of a) \<union> set (WordFragment_of b)" "y \<in> set (WordFragment_of a) \<union> set (WordFragment_of b)"
        "unat w + nat x = unat w + nat y"
      then show "x = y" using nn [of x] nn [of y] by (metis add_left_imp_eq nat_eq_iff2)
    qed
    from inj_on_image_Int [OF this, of "set (WordFragment_of a)" "set (WordFragment_of b)"]
    show ?thesis unfolding within_word_bytes [OF assms(1)] within_word_bytes [OF assms(2)] by (metis Un_upper1 Un_upper2 image_is_empty)
  qed
  finally show ?thesis .
qed

lemma byte_access_within:
  assumes "within_word w a" "i < 8"
  shows "within_word w (byte_access a i)" "set (WordFragment_of (byte_access a i)) = {int i}"
proof -
  have w8: "unat w mod 8 = 0" and w: "SAddr_align (acc_addr a) = w"
    using within_word_facts(4) [OF assms(1)] assms(1) by (simp_all add: within_word_def)
  have "unat w + 8 < 2 ^ 64"
    using in_storage_no_wrap [of "word_access w"] assms by (simp add: within_word_def word_access_def)
  then have "unat w + i < 2 ^ 64" using assms(2) by linarith
  then have u: "unat (w + of_nat i) = unat w + i" by (simp add: unat_word_ariths unat_of_nat mod_add_right_eq)
  have i8: "(unat w + i) mod 8 = i" using w8 assms(2) by presburger
  have ui: "uint (w + of_nat i) = int (unat w + i)" by (simp only: uint_nat u)
  have b: "getByte (w + of_nat i) = int i" unfolding getByte_eq ui using i8 zmod_int [of "unat w + i" 8] by simp
  show f: "set (WordFragment_of (byte_access a i)) = {int i}" by (simp add: byte_access_def WordFragment_of_def w b)
  have "uint (SAddr_align (w + of_nat i)) = uint w"
    using b unfolding SAddr_align_uint getByte_eq ui by simp
  then have "SAddr_align (w + of_nat i) = w" by (simp only: word_uint_eq_iff)
  then have "SAddr_align (acc_addr (byte_access a i)) = w" "acc_size (byte_access a i) \<noteq> 0" by (simp_all add: byte_access_def w)
  then show "within_word w (byte_access a i)" using assms f by (simp add: within_word_def)
qed

section \<open>Placings of a store\<close>

text \<open>The stores of the word and the new one do not cross it, and the new store is not yet in the
  coherence order.\<close>

definition bucket_of :: "ExecutionGraph \<Rightarrow> EventLabel \<Rightarrow> Event list" where
  "bucket_of g lab = getStoresToLoc g (getAddr lab)"

definition store_ready :: "ExecutionGraph \<Rightarrow> EventLabel \<Rightarrow> bool" where
  "store_ready g lab = (co_ready g \<and> getEventLabel g (position lab) = Some lab \<and> isWrite (kind lab) \<and>
     position lab \<notin> set (bucket_of g lab) \<and>
     (\<forall>e\<in>set (position lab # bucket_of g lab). within_word (SAddr_align (getAddr lab)) (label_access g e)))"

definition cov :: "ExecutionGraph \<Rightarrow> nat \<Rightarrow> Event \<Rightarrow> bool" where
  "cov g i e = (int i \<in> set (WordFragment_of (label_access g e)))"

text \<open>The new store may not go before these stores: one that it knows, or the write of an RMW as the
  next store at some byte.\<close>

definition co_bad :: "ExecutionGraph \<Rightarrow> EventLabel \<Rightarrow> int set \<Rightarrow> Event list \<Rightarrow> bool" where
  "co_bad g lab bs es = ((\<exists>e\<in>set es. ov g lab e \<and> seen_by g lab e) \<or>
     (\<exists>b\<in>bs. case find (\<lambda>e. b \<in> set (WordFragment_of (label_access g e))) es of
        None \<Rightarrow> False | Some e \<Rightarrow> label_is isRMWStore g e))"

abbreviation lab_bytes :: "EventLabel \<Rightarrow> int set" where
  "lab_bytes lab \<equiv> set (WordFragment_of (access lab))"

definition placement :: "ExecutionGraph \<Rightarrow> EventLabel \<Rightarrow> Event list \<Rightarrow> bool" where
  "placement g lab seq = (\<exists>u w. seq = u @ position lab # w \<and> mset (u @ w) = mset (bucket_of g lab) \<and>
     per_byte (cov g) 8 (u @ w) = per_byte (cov g) 8 (bucket_of g lab) \<and>
     (\<exists>e\<in>set w. ov g lab e) \<and> \<not> co_bad g lab (lab_bytes lab) w)"

lemma store_ready_writes:
  assumes "store_ready g lab" "set es \<subseteq> insert (position lab) (set (bucket_of g lab))"
  shows "are_writes g es"
  unfolding are_writes_def
proof
  fix e assume "e \<in> set es"
  then consider "e = position lab" | "e \<in> set (bucket_of g lab)" using assms(2) by blast
  then show "label_is (\<lambda>l. isWrite (kind l) \<and> position l = e) g e"
  proof cases
    case 2
    then show ?thesis using assms(1) stores_facts(2) [of g e "getAddr lab"] by (auto simp: store_ready_def bucket_of_def label_is_def)
  qed (use assms(1) in \<open>simp add: store_ready_def label_is_def\<close>)
qed

lemma lab_within: "store_ready g lab \<Longrightarrow> within_word (SAddr_align (getAddr lab)) (access lab) \<and> label_access g (position lab) = access lab"
  by (auto simp: store_ready_def label_access_def)

lemma getPerByteCoherence_total:
  assumes "store_ready g lab" "set es \<subseteq> insert (position lab) (set (bucket_of g lab))"
  shows "getPerByteCoherence g es (access lab) = Some (per_byte (cov g) 8 es)"
proof -
  have "filter_opt (\<lambda>e. do { wLab \<leftarrow> getWriteLabel g e; Some (AAccess_overlaps (access wLab) (byte_access (access lab) i)) }) es =
      Some (filter (cov g i) es)" if "i < 8" for i
  proof (intro filter_opt_total ballI)
    fix e assume e: "e \<in> set es"
    obtain l where l: "getWriteLabel g e = Some l" "label_access g e = access l"
      using are_writes_label [OF store_ready_writes [OF assms] e] by blast
    have "e \<in> set (position lab # bucket_of g lab)" using e assms(2) by auto
    then have "within_word (SAddr_align (getAddr lab)) (access l)"
      using assms(1) l(2) unfolding store_ready_def by metis
    from fragments_meet [OF this byte_access_within(1) [OF conjunct1 [OF lab_within [OF assms(1)]] that]]
      byte_access_within(2) [OF conjunct1 [OF lab_within [OF assms(1)]] that] l
    show "do { wLab \<leftarrow> getWriteLabel g e; Some (AAccess_overlaps (access wLab) (byte_access (access lab) i)) } = Some (cov g i e)"
      by (simp add: cov_def)
  qed
  then show ?thesis unfolding getPerByteCoherence_def per_byte_def by (intro map_opt_total) simp
qed

lemma ov_bytes:
  assumes "store_ready g lab" "e \<in> set (bucket_of g lab)"
  shows "ov g lab e \<longleftrightarrow> lab_bytes lab \<inter> set (WordFragment_of (label_access g e)) \<noteq> {}"
    and "ov g lab e \<Longrightarrow> e \<in> set (co_range g (access lab))"
proof -
  have e: "within_word (SAddr_align (getAddr lab)) (label_access g e)" using assms by (simp add: store_ready_def)
  show o: "ov g lab e \<longleftrightarrow> lab_bytes lab \<inter> set (WordFragment_of (label_access g e)) \<noteq> {}"
    using fragments_meet [OF conjunct1 [OF lab_within [OF assms(1)]] e] by (simp add: ov_def)
  then show "e \<in> set (co_range g (access lab))" if "ov g lab e"
    using that fragments_meet [OF e conjunct1 [OF lab_within [OF assms(1)]]] assms(2)
    by (auto simp: co_range_def overlap_filter_def bucket_of_def getAddr_def)
qed

lemma co_range_ov: "store_ready g lab \<Longrightarrow> co_range g (access lab) = filter (ov g lab) (bucket_of g lab)"
proof -
  assume r: "store_ready g lab"
  have "AAccess_overlaps (label_access g e) (access lab) = ov g lab e" if "e \<in> set (bucket_of g lab)" for e
    using that r ov_bytes(1) [OF r that] fragments_meet [OF _ conjunct1 [OF lab_within [OF r]], of "label_access g e"]
    by (auto simp: store_ready_def)
  then show ?thesis by (auto simp: co_range_def overlap_filter_def bucket_of_def getAddr_def intro!: filter_cong)
qed

lemma co_succ_invalid_total:
  assumes "store_ready g lab" "set es \<subseteq> set (bucket_of g lab)" "set rem \<subseteq> lab_bytes lab"
  shows "co_succ_invalid g lab rem es = Some (co_bad g lab (set rem) es)"
  using assms(2,3)
proof (induction es arbitrary: rem)
  case Nil
  show ?case by (simp add: co_bad_def)
next
  case (Cons e es)
  have e: "e \<in> set (bucket_of g lab)" using Cons.prems(1) by simp
  have "are_writes g [e]" using assms(1) e by (intro store_ready_writes) auto
  then obtain l where l: "getEventLabel g e = Some l" "getWriteLabel g e = Some l" "position l = e" "label_access g e = access l"
    using are_writes_label [of g "[e]" e] by auto
  define F where "F = set (WordFragment_of (access l))"
  define Ov where "Ov = getOverlap (access l) rem"
  have Ov: "set Ov = F \<inter> set rem" by (auto simp: Ov_def F_def getOverlap_def WordFragment_intersect_def)
  have before: "(if AAccess_overlaps (access lab) (access l) then isWriteRfBefore g (position l) (position lab) (access lab) else Some False) =
      Some (ov g lab e \<and> seen_by g lab e)"
    using isWriteRfBefore_seen [of g lab e] ov_bytes(2) [OF assms(1) e] assms(1) l
    by (auto simp: ov_def store_ready_def)
  have IH: "co_succ_invalid g lab (WordFragment_subtract rem Ov) es = Some (co_bad g lab (set rem - F) es)"
  proof -
    have "set (WordFragment_subtract rem Ov) = set rem - F" by (auto simp: WordFragment_subtract_def Ov)
    then show ?thesis using Cons.IH [of "WordFragment_subtract rem Ov"] Cons.prems by auto
  qed
  have find: "find (\<lambda>e. b \<in> set (WordFragment_of (label_access g e))) (e # es) =
      (if b \<in> F then Some e else find (\<lambda>e. b \<in> set (WordFragment_of (label_access g e))) es)" for b
    by (simp add: F_def l)
  show ?case
  proof (cases "Ov \<noteq> [] \<and> isRMWStore l")
    case True
    then obtain b where "b \<in> set rem" "b \<in> F" using Ov by (cases Ov) auto
    then have "find (\<lambda>e. b \<in> set (WordFragment_of (label_access g e))) (e # es) = Some e" "b \<in> set rem"
      using find [of b] by simp_all
    moreover have "label_is isRMWStore g e" using True l by (simp add: label_is_def)
    ultimately have "co_bad g lab (set rem) (e # es)" unfolding co_bad_def by (metis (mono_tags, lifting) option.simps(5))
    then show ?thesis using True l by (simp add: Ov_def [symmetric])
  next
    case False
    have rmw: "\<not> label_is isRMWStore g e" if "b \<in> set rem" "b \<in> F" for b
      using False Ov that l by (auto simp: label_is_def)
    have "co_bad g lab (set rem) (e # es) \<longleftrightarrow> ov g lab e \<and> seen_by g lab e \<or> co_bad g lab (set rem - F) es"
      unfolding co_bad_def find using rmw by auto
    then show ?thesis using False l before IH by (auto simp: Ov_def [symmetric] Let_def)
  qed
qed

section \<open>The alternatives are the placings\<close>

text \<open>Whether a place is good only depends on the stores that overlap the new one.\<close>

lemma find_filter: "(\<And>x. x \<in> set xs \<Longrightarrow> P x \<Longrightarrow> Q x) \<Longrightarrow> find P (filter Q xs) = find P xs"
  by (induction xs) auto

lemma co_bad_ov:
  assumes "store_ready g lab" "set es \<subseteq> set (bucket_of g lab)"
  shows "co_bad g lab (lab_bytes lab) (filter (ov g lab) es) = co_bad g lab (lab_bytes lab) es"
proof -
  have "find (\<lambda>e. b \<in> set (WordFragment_of (label_access g e))) (filter (ov g lab) es) =
      find (\<lambda>e. b \<in> set (WordFragment_of (label_access g e))) es" if "b \<in> lab_bytes lab" for b
    using that assms ov_bytes(1) [OF assms(1)] by (intro find_filter) blast
  then show ?thesis by (auto simp: co_bad_def)
qed

text \<open>The per-byte orders that the new store has in a list when it follows k of the stores it overlaps.\<close>

definition placed_orders :: "ExecutionGraph \<Rightarrow> EventLabel \<Rightarrow> Event list \<Rightarrow> nat \<Rightarrow> Event list list set" where
  "placed_orders g lab coh k = {per_byte (cov g) 8 (u @ position lab # w) | u w.
     coh = u @ w \<and> length (filter (ov g lab) u) = k \<and> \<not> co_bad g lab (lab_bytes lab) w}"

definition cache_ok :: "ExecutionGraph \<Rightarrow> EventLabel \<Rightarrow> Event list list set \<Rightarrow> (Event list list, Event list) omap \<Rightarrow> bool" where
  "cache_ok g lab S cache = (omap_inv cache \<and> fst ` set cache = S \<and>
     (\<forall>(k, v)\<in>set cache. placement g lab v \<and> k = per_byte (cov g) 8 v))"

lemma omap_upd_set: "omap_inv m \<Longrightarrow> set (omap_upd k (\<lambda>_. v) d m) = insert (k, v) {p \<in> set m. fst p \<noteq> k}"
proof (induction k "\<lambda>_ :: 'b. v" d m rule: omap_upd.induct)
  case (2 k d k' v' m)
  have gt: "k' < fst p" if "p \<in> set m" for p using that "2.prems" by simp
  consider "k < k'" | "k = k'" | "k' < k" by fastforce
  then show ?case
  proof cases
    case 1
    then have "{p \<in> set ((k', v') # m). fst p \<noteq> k} = set ((k', v') # m)" using gt by fastforce
    then show ?thesis using 1 by simp
  next
    case 2
    then have "{p \<in> set ((k', v') # m). fst p \<noteq> k} = set m" using gt by fastforce
    then show ?thesis using 2 by simp
  next
    case 3
    then show ?thesis using "2.hyps" "2.prems" by auto
  qed
qed simp

lemma placed_orders_eq:
  assumes r: "store_ready g lab" and c: "mset coh = mset (bucket_of g lab)"
    and s: "coh = u @ w" "length (filter (ov g lab) u) = k"
  shows "placed_orders g lab coh k = (if co_bad g lab (lab_bytes lab) w then {} else {per_byte (cov g) 8 (u @ position lab # w)})"
proof -
  have set: "set (u @ w) = set (bucket_of g lab)" using c s(1) by (metis mset_eq_setD)
  have same: "per_byte (cov g) 8 (u' @ position lab # w') = per_byte (cov g) 8 (u @ position lab # w) \<and>
      (co_bad g lab (lab_bytes lab) w' = co_bad g lab (lab_bytes lab) w)"
    if uw: "coh = u' @ w'" "length (filter (ov g lab) u') = k" for u' w'
  proof -
    have f: "filter (ov g lab) u' = filter (ov g lab) u" "filter (ov g lab) w' = filter (ov g lab) w"
      using filter_append_eq [of u' w' u w "ov g lab"] uw s by simp_all
    have "ov g lab e" if "cov g i (position lab)" "e \<in> set (u' @ w')" "cov g i e" for i e
    proof -
      have "e \<in> set (bucket_of g lab)" using that(2) set uw(1) s(1) by metis
      from ov_bytes(1) [OF r this] that(1,3) lab_within [OF r] show ?thesis unfolding cov_def by auto
    qed
    then have "per_byte (cov g) 8 (u' @ position lab # w') = per_byte (cov g) 8 (u @ position lab # w)"
      using f uw s by (intro per_byte_place [of 8 "cov g" _ u' w' "ov g lab"]) auto
    moreover have "co_bad g lab (lab_bytes lab) w' = co_bad g lab (lab_bytes lab) w"
      using co_bad_ov [OF r, of w] co_bad_ov [OF r, of w'] f(2) set uw s(1) by (metis Un_upper2 set_append)
    ultimately show ?thesis by blast
  qed
  show ?thesis
  proof (cases "co_bad g lab (lab_bytes lab) w")
    case True
    then show ?thesis using same unfolding placed_orders_def by auto
  next
    case False
    then have "x \<in> placed_orders g lab coh k \<longleftrightarrow> x = per_byte (cov g) 8 (u @ position lab # w)" for x
      using same s unfolding placed_orders_def by (smt (verit, best) mem_Collect_eq)
    then show ?thesis using False by auto
  qed
qed

lemma place_store_ok:
  assumes r: "store_ready g lab" and c: "mset coh = mset (bucket_of g lab)"
    and o: "per_byte (cov g) 8 coh = per_byte (cov g) 8 (bucket_of g lab)"
    and k: "k < length (filter (ov g lab) coh)" and ok: "cache_ok g lab S cache"
  shows "\<exists>cache'. place_store g lab coh cache k = Some cache' \<and> cache_ok g lab (S \<union> placed_orders g lab coh k) cache'"
proof -
  have set: "set coh = set (bucket_of g lab)" using c by (metis mset_eq_setD)
  have w: "are_writes g coh" using r set by (intro store_ready_writes) auto
  obtain u w where uw: "coh = u @ w" "length (filter (ov g lab) u) = k"
      "constructCoSeq g coh k lab = Some (u @ position lab # w, length u)"
    using constructCoSeq_split [OF w less_imp_le [OF k]] by blast
  have inv: "co_succ_invalid g lab (WordFragment_of (access lab)) w = Some (co_bad g lab (lab_bytes lab) w)"
    using set uw(1) by (intro co_succ_invalid_total r) auto
  have pb: "getPerByteCoherence g (u @ position lab # w) (access lab) = Some (per_byte (cov g) 8 (u @ position lab # w))"
    using set uw(1) by (intro getPerByteCoherence_total r) auto
  have P: "place_store g lab coh cache k = Some (if co_bad g lab (lab_bytes lab) w then cache
      else omap_upd (per_byte (cov g) 8 (u @ position lab # w)) (\<lambda>_. u @ position lab # w) [] cache)"
    by (simp add: place_store_def uw(3) inv pb)
  have "\<exists>e\<in>set w. ov g lab e" using k uw by (auto simp: filter_empty_conv dest: length_greater_0_conv [THEN iffD1])
  then have "placement g lab (u @ position lab # w)" if "\<not> co_bad g lab (lab_bytes lab) w"
    using that c o uw(1) unfolding placement_def by blast
  then show ?thesis
    unfolding P placed_orders_eq [OF r c uw(1,2)] using ok
    by (auto simp: cache_ok_def omap_upd_set omap_upd_keys split: if_splits)
qed

lemma try_fold_grows:
  assumes "\<And>x S c. x \<in> set xs \<Longrightarrow> I S c \<Longrightarrow> \<exists>c'. f c x = Some c' \<and> I (S \<union> K x) c'" "I S c"
  shows "\<exists>c'. try_fold f xs c = Some c' \<and> I (S \<union> \<Union> (K ` set xs)) c'"
  using assms
proof (induction xs arbitrary: S c)
  case (Cons x xs)
  obtain c1 where c1: "f c x = Some c1" "I (S \<union> K x) c1" using Cons.prems by (meson list.set_intros(1))
  then have "\<exists>c'. try_fold f xs c1 = Some c' \<and> I ((S \<union> K x) \<union> \<Union> (K ` set xs)) c'"
    using Cons.prems(1) by (intro Cons.IH) auto
  then show ?case using c1(1) by (simp add: Un_assoc)
qed simp

definition perm_orders :: "ExecutionGraph \<Rightarrow> EventLabel \<Rightarrow> nat \<Rightarrow> Event list \<Rightarrow> Event list list set" where
  "perm_orders g lab n coh =
     (if per_byte (cov g) 8 coh = per_byte (cov g) 8 (bucket_of g lab) then \<Union> (placed_orders g lab coh ` {0..<n}) else {})"

lemma count_overlapping:
  assumes "store_ready g lab" "mset coh = mset (bucket_of g lab)"
  shows "length (filter (ov g lab) coh) = length (co_range g (access lab))"
  unfolding co_range_ov [OF assms(1)] using assms(2) by (metis mset_filter size_mset)

lemma co_permutation_ok:
  assumes r: "store_ready g lab" and c: "mset coh = mset (bucket_of g lab)" and ok: "cache_ok g lab S cache"
  shows "\<exists>cache'. co_permutation g lab (per_byte (cov g) 8 (bucket_of g lab)) (length (co_range g (access lab))) coh cache =
      Some (False, cache') \<and> cache_ok g lab (S \<union> perm_orders g lab (length (co_range g (access lab))) coh) cache'"
proof -
  let ?n = "length (co_range g (access lab))"
  have set: "set coh = set (bucket_of g lab)" using c by (metis mset_eq_setD)
  have pb: "getPerByteCoherence g coh (access lab) = Some (per_byte (cov g) 8 coh)"
    using set by (intro getPerByteCoherence_total r) auto
  show ?thesis
  proof (cases "per_byte (cov g) 8 coh = per_byte (cov g) 8 (bucket_of g lab)")
    case True
    have "\<exists>c'. try_fold (place_store g lab coh) [0..<?n] cache = Some c' \<and>
        cache_ok g lab (S \<union> \<Union> (placed_orders g lab coh ` set [0..<?n])) c'"
      using place_store_ok [OF r c True] count_overlapping [OF r c] ok by (intro try_fold_grows) auto
    then show ?thesis using True pb by (auto simp: co_permutation_def perm_orders_def)
  qed (use pb ok in \<open>auto simp: co_permutation_def perm_orders_def\<close>)
qed

lemma visit_grows:
  assumes "\<And>x S c. x \<in> set xs \<Longrightarrow> I S c \<Longrightarrow> \<exists>c'. f x c = Some (False, c') \<and> I (S \<union> K x) c'" "I S c"
  shows "\<exists>c'. visit f xs c = Some (None, c') \<and> I (S \<union> \<Union> (K ` set xs)) c'"
  using assms
proof (induction xs arbitrary: S c)
  case (Cons x xs)
  obtain c1 where c1: "f x c = Some (False, c1)" "I (S \<union> K x) c1" using Cons.prems by (meson list.set_intros(1))
  then have "\<exists>c'. visit f xs c1 = Some (None, c') \<and> I ((S \<union> K x) \<union> \<Union> (K ` set xs)) c'"
    using Cons.prems(1) by (intro Cons.IH) auto
  then show ?case using c1(1) by (simp add: Un_assoc)
qed simp

lemma all_orders:
  assumes "store_ready g lab"
  shows "\<Union> (perm_orders g lab (length (co_range g (access lab))) ` {coh. mset coh = mset (bucket_of g lab)}) =
    per_byte (cov g) 8 ` {seq. placement g lab seq}" (is "?L = ?R")
proof
  show "?L \<subseteq> ?R"
  proof
    fix x assume "x \<in> ?L"
    then obtain coh k where c: "mset coh = mset (bucket_of g lab)" "per_byte (cov g) 8 coh = per_byte (cov g) 8 (bucket_of g lab)"
        and k: "k < length (co_range g (access lab))" "x \<in> placed_orders g lab coh k"
      by (auto simp: perm_orders_def split: if_splits)
    then obtain u w where uw: "x = per_byte (cov g) 8 (u @ position lab # w)" "coh = u @ w"
        "length (filter (ov g lab) u) = k" "\<not> co_bad g lab (lab_bytes lab) w" by (auto simp: placed_orders_def)
    have "filter (ov g lab) w \<noteq> []" using k(1) uw(2,3) count_overlapping [OF assms c(1)] by auto
    then have "\<exists>e\<in>set w. ov g lab e" by (auto simp: filter_empty_conv)
    then have "placement g lab (u @ position lab # w)" using c uw unfolding placement_def by blast
    then show "x \<in> ?R" using uw(1) by blast
  qed
next
  show "?R \<subseteq> ?L"
  proof
    fix x assume "x \<in> ?R"
    then obtain u w where x: "x = per_byte (cov g) 8 (u @ position lab # w)" and c: "mset (u @ w) = mset (bucket_of g lab)"
        "per_byte (cov g) 8 (u @ w) = per_byte (cov g) 8 (bucket_of g lab)"
        and w: "\<exists>e\<in>set w. ov g lab e" "\<not> co_bad g lab (lab_bytes lab) w" by (auto simp: placement_def)
    have "filter (ov g lab) w \<noteq> []" using w(1) by (auto simp: filter_empty_conv)
    then have "length (filter (ov g lab) u) < length (filter (ov g lab) (u @ w))" by simp
    then have "length (filter (ov g lab) u) < length (co_range g (access lab))" by (simp only: count_overlapping [OF assms c(1)])
    moreover have "x \<in> placed_orders g lab (u @ w) (length (filter (ov g lab) u))"
      using w(2) unfolding placed_orders_def x by blast
    ultimately have "x \<in> perm_orders g lab (length (co_range g (access lab))) (u @ w)" using c(2) by (auto simp: perm_orders_def)
    then show "x \<in> ?L" using c(1) by blast
  qed
qed

lemma co_alternatives_exact:
  assumes "store_ready g lab"
  shows "\<exists>seqs. co_alternatives g lab = Some seqs \<and> distinct (map (per_byte (cov g) 8) seqs) \<and>
    (\<forall>seq\<in>set seqs. placement g lab seq) \<and>
    per_byte (cov g) 8 ` set seqs = per_byte (cov g) 8 ` {seq. placement g lab seq}"
proof -
  let ?n = "length (co_range g (access lab))" and ?b = "bucket_of g lab"
  let ?f = "co_permutation g lab (per_byte (cov g) 8 ?b) ?n"
  have s: "set (arrangements (length ?b) ?b) = {coh. mset coh = mset ?b}"
    unfolding set_arrangements by (auto dest: mset_eq_length) (metis mset_eq_length size_mset subset_mset.not_eq_order_implies_strict mset_subset_size less_irrefl)
  have "\<exists>c. visit ?f (arrangements (length ?b) ?b) [] = Some (None, c) \<and>
      cache_ok g lab ({} \<union> \<Union> (perm_orders g lab ?n ` set (arrangements (length ?b) ?b))) c"
    using co_permutation_ok [OF assms] by (intro visit_grows) (auto simp: s cache_ok_def)
  then obtain c where v: "visit ?f (arrangements (length ?b) ?b) [] = Some (None, c)"
      and c: "cache_ok g lab (per_byte (cov g) 8 ` {seq. placement g lab seq}) c"
    unfolding s all_orders [OF assms] by auto
  have "for_each_permutation (length ?b) ?f (?b, []) = Some (False, ?b, c)"
    using for_each_permutation_visits [of "length ?b" ?b ?f "[]"] v by simp
  moreover have "getPerByteCoherence g ?b (access lab) = Some (per_byte (cov g) 8 ?b)"
    by (intro getPerByteCoherence_total assms) auto
  ultimately have a: "co_alternatives g lab = Some (map snd c)"
    by (simp add: co_alternatives_def bucket_of_def Let_def)
  have k: "map (per_byte (cov g) 8) (map snd c) = map fst c" using c by (auto simp: cache_ok_def)
  have "per_byte (cov g) 8 ` set (map snd c) = fst ` set c" using arg_cong [OF k, of set] by (simp add: image_image)
  moreover have "distinct (map (per_byte (cov g) 8) (map snd c))" unfolding k using c ssorted_distinct by (auto simp: cache_ok_def)
  ultimately show ?thesis using a c by (intro exI [of _ "map snd c"]) (auto simp: cache_ok_def)
qed

section \<open>Properties\<close>

text \<open>C14. When a store of another size is among the places of a new store, the forward revisits that
  calcCoOrderings adds are exactly the ways to place it: every sequence keeps the order of the old
  stores at each byte, puts the new store before some store that it overlaps, never before a store that
  it knows and never right before the write of an RMW at some byte; every per-byte order of such a
  sequence is added once.\<close>

theorem calcCoOrderings_exact:
  assumes "store_ready g lab" "getStamp lab = Some st" "getCoherentPlacings g lab = Some (begIt, [])"
    and "w \<in> set begIt" "acc_size (label_access g w) \<noteq> acc_size (access lab)"
  shows "\<exists>seqs. calcCoOrderings False rnd g q choices lab =
      Some (addStoreToCO lab (length (bucket_of g lab)) g,
        fold (\<lambda>s. addToWorklist st (WriteRevisitMIXER (position lab) (position lab) s)) seqs q, choices, Some (hd begIt)) \<and>
    distinct (map (per_byte (cov g) 8) seqs) \<and> (\<forall>seq\<in>set seqs. placement g lab seq) \<and>
    per_byte (cov g) 8 ` set seqs = per_byte (cov g) 8 ` {seq. placement g lab seq}"
proof -
  obtain seqs where s: "co_alternatives g lab = Some seqs" "distinct (map (per_byte (cov g) 8) seqs)"
      "\<forall>seq\<in>set seqs. placement g lab seq" "per_byte (cov g) 8 ` set seqs = per_byte (cov g) 8 ` {seq. placement g lab seq}"
    using co_alternatives_exact [OF assms(1)] by (elim exE conjE)
  have "\<not> list_all (\<lambda>w. acc_addr (label_access g w) = getAddr lab \<and> acc_size (label_access g w) = acc_size (access lab)) begIt"
    using assms(4,5) by (auto simp: list_all_iff)
  moreover have "begIt \<noteq> []" using assms(4) by auto
  ultimately have "calcCoOrderings False rnd g q choices lab =
      Some (addStoreToCO lab (length (bucket_of g lab)) g,
        fold (\<lambda>s. addToWorklist st (WriteRevisitMIXER (position lab) (position lab) s)) seqs q, choices, Some (hd begIt))"
    using assms(2,3) s(1) by (simp add: calcCoOrderings_def Let_def co_position_def bucket_of_def)
  then show ?thesis using s(2-4) by blast
qed

text \<open>A store of eight bytes, and a new one of four bytes in another thread.\<close>

definition place_new :: EventLabel where
  "place_new = keep_label 4 [] (WriteLabel EL_Write (Event 2 1) Monotonic (mixed_access 8 4) 1 WA_None EventDeps_empty)"

definition place_old :: EventLabel where
  "place_old = keep_label 2 [] (WriteLabel EL_Write (Event 1 1) Monotonic (mixed_access 8 8) 1 WA_None EventDeps_empty)"

definition place_graph :: ExecutionGraph where
  "place_graph = \<lparr>events = [[keep_label 0 [] InitLabel], [keep_label 1 [] (symm_start 1 (-1)), place_old],
     [keep_label 3 [] (symm_start 2 (-1)), place_new]], timestamp = 5, coherence = [(8, [Event 1 1])], recoveryTID = -1\<rparr>"

lemma place_getEventLabel:
  "getEventLabel place_graph e =
     (if e = Event 0 0 then Some (keep_label 0 [] InitLabel)
      else if e = Event 1 0 then Some (keep_label 1 [] (symm_start 1 (-1))) else if e = Event 1 1 then Some place_old
      else if e = Event 2 0 then Some (keep_label 3 [] (symm_start 2 (-1))) else if e = Event 2 1 then Some place_new else None)"
  by (cases e) (auto simp: place_graph_def getEventLabel_def containsPos_iff nth_Cons' nat_eq_iff2)

lemma place_fields [simp]:
  "position place_new = Event 2 1" "kind place_new = EL_Write" "access place_new = mixed_access 8 4" "getAddr place_new = 8"
  "stamp place_new = Some 4" "calculatedViews place_new = []" "readerList place_new = []"
  "position place_old = Event 1 1" "kind place_old = EL_Write" "access place_old = mixed_access 8 8" "getAddr place_old = 8"
  "readerList place_old = []"
  by (simp_all add: place_new_def place_old_def keep_label_def WriteLabel_def MemAccessLabel_def EventLabel_new_def
      getAddr_def mixed_access_def)

lemma place_ready: "store_ready place_graph place_new"
  "getCoherentPlacings place_graph place_new = Some ([Event 1 1], [])"
proof -
  have iw: "isWrite EL_Write" by code_simp
  have co: "coherence place_graph = [(8, [Event 1 1])]" by (simp add: place_graph_def)
  have al: "SAddr_align 8 = 8" by (simp add: SAddr_align_def wordSize_def)
  have "co_ready place_graph"
    unfolding co_ready_def co_wf_def labels_placed_def label_is_def place_getEventLabel co by (simp add: iw al getBucket_def)
  moreover have b: "bucket_of place_graph place_new = [Event 1 1]"
    by (simp add: bucket_of_def getStoresToLoc_def co bucket_def getBucket_def al)
  moreover have "within_word 8 (mixed_access 8 n)" if "n = 4 \<or> n = 8" for n
    using that by (auto simp: within_word_def mixed_access_def word_access_def al in_storage_def WordFragment_of_def getByte_eq)
  ultimately show r: "store_ready place_graph place_new"
    by (simp add: store_ready_def place_getEventLabel iw al label_access_def)
  have "AAccess_overlaps (mixed_access 8 8) (mixed_access 8 4)" by code_simp
  then have range: "co_range place_graph (mixed_access 8 4) = [Event 1 1]"
    using b by (simp add: co_range_def overlap_filter_def bucket_of_def label_access_def place_getEventLabel mixed_access_def)
  then show "getCoherentPlacings place_graph place_new = Some ([Event 1 1], [])"
    by (simp add: getCoherentPlacings_def isRMWStore_def kind_defs splitLocMOBefore_def isWriteRfBefore_def place_getEventLabel
        label_view_def View_contains_def View_getMax_def View_empty_def isDepTracking_def iw isInitializer_def getInit_def)
qed

theorem calcCoOrderings_exact_witness:
  "\<exists>seqs. calcCoOrderings False 0 place_graph [] [] place_new =
      Some (addStoreToCO place_new 1 place_graph,
        fold (\<lambda>s. addToWorklist 4 (WriteRevisitMIXER (Event 2 1) (Event 2 1) s)) seqs [], [], Some (Event 1 1)) \<and>
    distinct (map (per_byte (cov place_graph) 8) seqs)"
proof -
  have "bucket_of place_graph place_new = [Event 1 1]"
    by (simp add: bucket_of_def getStoresToLoc_def place_graph_def bucket_def getBucket_def SAddr_align_def wordSize_def)
  then show ?thesis
    using calcCoOrderings_exact [OF place_ready(1) _ place_ready(2), of 4 "Event 1 1" 0 "[]" "[]"]
    by (auto simp: getStamp_def label_access_def place_getEventLabel mixed_access_def)
qed

end
