(* ===== verification/Configuration.thy ===== *)
theory Configuration
  imports VSets Bounds "HOL-Library.Char_ord" "HOL-Library.List_Lexorder"
begin

text \<open>
  The configuration of a run: the command line options and their checks (src/src/Config.cpp and
  Config.hpp), the order on memory models (src/src/MemoryModel.hpp), the detection of a stronger model
  for the program at hand (src/src/Static/Transforms/MMDetectorPass.cpp and transformInput in
  src/src/main.cpp) and the choice of the driver (src/src/DriverFactory.hpp).

  The command line parser belongs to LLVM: a run starts from the values of the options. Whether the
  input file is a regular file is a parameter. The options that exist only in debug builds are left
  out. A program is the list of its functions, each the list of its instructions, of which the
  detector sees the orderings of the memory accesses.
\<close>

section \<open>Definitions\<close>

datatype ModelType = MT_SC | MT_TSO | MT_RA | MT_RC11 | MT_IMM
datatype SchedulePolicy = SP_ltr | SP_wf | SP_wfr | SP_arbitrary
datatype JournalDataFS = JD_writeback | JD_ordered | JD_journal
datatype VerbosityLevel = VL_Quiet | VL_Error | VL_Warning | VL_Tip

definition modelNumber :: "ModelType \<Rightarrow> nat" where
  "modelNumber m = (case m of MT_SC \<Rightarrow> 0 | MT_TSO \<Rightarrow> 1 | MT_RA \<Rightarrow> 2 | MT_RC11 \<Rightarrow> 3 | MT_IMM \<Rightarrow> 4)"

definition isStrongerThan :: "ModelType \<Rightarrow> ModelType \<Rightarrow> bool" where
  "isStrongerThan model other =
     [[False, True, True, True, True],
      [False, False, True, True, True],
      [False, False, False, True, True],
      [False, False, False, False, True],
      [False, False, False, False, False]] ! modelNumber model ! modelNumber other"

text \<open>The options of the command line, by the groups of the source.\<close>

record ClGeneral =
  clCFLAGS :: "string list"
  clInputFile :: string

record ClExploration = ClGeneral +
  clModelType :: ModelType
  clDisableEstimation :: bool
  clThreads :: "32 word"
  clBound :: int
  clBoundType :: BoundType
  clBoundTypeOccurrences :: nat
  clLAPOR :: bool
  clDisableSymmetryReduction :: bool
  clHelper :: bool
  clMixer :: bool
  clPrintErrorTrace :: bool
  clDotGraphFile :: string
  clCheckLiveness :: bool
  clDisableInstructionCaching :: bool
  clDisableRaceDetection :: bool
  clDisableBAM :: bool
  clDisableIPR :: bool
  clDisableStopOnSystemError :: bool

record ClPersistency = ClExploration +
  clPersevere :: bool
  clBlockSize :: "32 word"
  clMaxFileSize :: "32 word"
  clJournalData :: JournalDataFS
  clDisableDelalloc :: bool

record ClTransformation = ClPersistency +
  clLoopUnroll :: int
  clNoUnrollFuns :: "string list"
  clDisableLoopJumpThreading :: bool
  clDisableCastElimination :: bool
  clDisableFunctionInliner :: bool
  clDisableSpinAssume :: bool
  clDisableCodeCondenser :: bool
  clDisableLoadAnnot :: bool
  clDisableAssumePropagation :: bool
  clDisableConfirmAnnot :: bool
  clDisableMMDetector :: bool

record ClOptions = ClTransformation +
  clEstimationMax :: "32 word"
  clEstimationMin :: "32 word"
  clEstimationSdThreshold :: "32 word"
  clProgramEntryFunction :: "string list"
  clInputFromBitcodeFile :: bool
  clTransformFile :: string
  clSkipTransforms :: bool
  clTransformOnly :: bool
  clTransformBcFile :: string
  clDiscoverRustTests :: bool
  clRustTestFilter :: string
  clListRustTests :: bool
  clTraceOutputDir :: string
  clPerTestTimeout :: "32 word"
  clWarnOnGraphSize :: "32 word"
  clSchedulePolicy :: SchedulePolicy
  clPrintArbitraryScheduleSeed :: bool
  clArbitraryScheduleSeed :: string
  clPrintExecGraphs :: bool
  clPrintBlockedExecs :: bool
  clVLevel :: VerbosityLevel

text \<open>The values of the options that the command line leaves out.\<close>

definition default_options :: "string \<Rightarrow> ClOptions" where
  "default_options inputFile =
     \<lparr>clCFLAGS = [], clInputFile = inputFile, clModelType = MT_RC11, clDisableEstimation = False, clThreads = 1,
      clBound = - 1, clBoundType = BT_round, clBoundTypeOccurrences = 0, clLAPOR = False,
      clDisableSymmetryReduction = False, clHelper = False, clMixer = False, clPrintErrorTrace = False,
      clDotGraphFile = [], clCheckLiveness = False, clDisableInstructionCaching = False,
      clDisableRaceDetection = False, clDisableBAM = False, clDisableIPR = False, clDisableStopOnSystemError = False,
      clPersevere = False, clBlockSize = 2, clMaxFileSize = 64, clJournalData = JD_ordered, clDisableDelalloc = False,
      clLoopUnroll = - 1, clNoUnrollFuns = [], clDisableLoopJumpThreading = False, clDisableCastElimination = False,
      clDisableFunctionInliner = False, clDisableSpinAssume = False, clDisableCodeCondenser = False,
      clDisableLoadAnnot = False, clDisableAssumePropagation = False, clDisableConfirmAnnot = False,
      clDisableMMDetector = False, clEstimationMax = 1000, clEstimationMin = 10, clEstimationSdThreshold = 10,
      clProgramEntryFunction = [], clInputFromBitcodeFile = False, clTransformFile = [], clSkipTransforms = False,
      clTransformOnly = False, clTransformBcFile = [], clDiscoverRustTests = False, clRustTestFilter = [],
      clListRustTests = False, clTraceOutputDir = [], clPerTestTimeout = 0, clWarnOnGraphSize = 1024,
      clSchedulePolicy = SP_wf, clPrintArbitraryScheduleSeed = False, clArbitraryScheduleSeed = [],
      clPrintExecGraphs = False, clPrintBlockedExecs = False, clVLevel = VL_Tip\<rparr>"

text \<open>The fields of Config, with the prefix cf\_.\<close>

record ConfExploration =
  cf_cflags :: "string list"
  cf_inputFile :: string
  cf_model :: ModelType
  cf_estimate :: bool
  cf_isDepTrackingModel :: bool
  cf_threads :: "32 word"
  cf_bound :: "32 word option"
  cf_boundType :: BoundType
  cf_LAPOR :: bool
  cf_symmetryReduction :: bool
  cf_helper :: bool
  cf_mixer :: bool
  cf_checkLiveness :: bool
  cf_printErrorTrace :: bool
  cf_dotFile :: string
  cf_instructionCaching :: bool
  cf_disableRaceDetection :: bool
  cf_disableBAM :: bool
  cf_ipr :: bool
  cf_disableStopOnSystemError :: bool

record ConfPersistency = ConfExploration +
  cf_persevere :: bool
  cf_blockSize :: "32 word"
  cf_maxFileSize :: "32 word"
  cf_journalData :: JournalDataFS
  cf_disableDelalloc :: bool

record ConfTransformation = ConfPersistency +
  cf_unroll :: "32 word option"
  cf_noUnrollFuns :: "string VSet"
  cf_castElimination :: bool
  cf_inlineFunctions :: bool
  cf_loopJumpThreading :: bool
  cf_spinAssume :: bool
  cf_codeCondenser :: bool
  cf_loadAnnot :: bool
  cf_assumePropagation :: bool
  cf_confirmAnnot :: bool
  cf_mmDetector :: bool

record Config = ConfTransformation +
  cf_estimationMax :: "32 word"
  cf_estimationMin :: "32 word"
  cf_sdThreshold :: "32 word"
  cf_inputFromBitcodeFile :: bool
  cf_printExecGraphs :: bool
  cf_printBlockedExecs :: bool
  cf_schedulePolicy :: SchedulePolicy
  cf_randomScheduleSeed :: string
  cf_printRandomScheduleSeed :: bool
  cf_transformFile :: string
  cf_skipTransforms :: bool
  cf_transformOnly :: bool
  cf_transformBcFile :: string
  cf_programEntryFun :: string
  cf_programEntryFuns :: "string list"
  cf_discoverRustTests :: bool
  cf_rustTestFilter :: string
  cf_listRustTests :: bool
  cf_traceOutputDir :: string
  cf_perTestTimeout :: "32 word"
  cf_warnOnGraphSize :: "32 word"
  cf_vLevel :: VerbosityLevel

text \<open>The errors that end the run and the warnings.\<close>

datatype ConfError = CE_LAPOR | CE_HelperArbitrary | CE_BoundNotSC | CE_InputFile
datatype ConfWarning = CW_IMM | CW_PrintSeed | CW_Seed | CW_BoundType | CW_Bounding

definition check_imm :: "ClOptions \<Rightarrow> ClOptions \<times> ConfWarning list" where
  "check_imm cl =
     (if clModelType cl = MT_IMM \<and> (\<not> clDisableIPR cl \<or> \<not> clDisableSymmetryReduction cl)
      then (cl\<lparr>clDisableSymmetryReduction := True, clDisableIPR := True\<rparr>, [CW_IMM]) else (cl, []))"

definition check_bounding :: "ClOptions \<Rightarrow> ClOptions \<times> ConfWarning list" where
  "check_bounding cl =
     (if clBound cl \<noteq> - 1 \<and> (clLAPOR cl \<or> clHelper cl \<or> \<not> clDisableBAM cl \<or> \<not> clDisableSymmetryReduction cl \<or>
         \<not> clDisableIPR cl \<or> clSchedulePolicy cl \<noteq> SP_ltr)
      then (cl\<lparr>clLAPOR := False, clHelper := False, clDisableBAM := True, clDisableSymmetryReduction := True,
              clDisableIPR := True, clSchedulePolicy := SP_ltr\<rparr>, [CW_Bounding]) else (cl, []))"

definition check_mixer :: "ClOptions \<Rightarrow> ClOptions" where
  "check_mixer cl =
     (if clMixer cl
      then cl\<lparr>clDisableMMDetector := True, clModelType := MT_RA, clDisableEstimation := True, clDisableIPR := True,
             clDisableBAM := True, clDisableSymmetryReduction := True, clHelper := False, clBound := - 1,
             clSchedulePolicy := SP_ltr\<rparr> else cl)"

definition checkConfigOptions :: "(string \<Rightarrow> bool) \<Rightarrow> ClOptions \<Rightarrow> ConfError + (ClOptions \<times> ConfWarning list)" where
  "checkConfigOptions is_regular_file cl =
     (if clLAPOR cl then Inl CE_LAPOR
      else if clHelper cl \<and> clSchedulePolicy cl = SP_arbitrary then Inl CE_HelperArbitrary
      else let (cl, w1) = check_imm cl;
               w2 = (if clSchedulePolicy cl \<noteq> SP_arbitrary \<and> clPrintArbitraryScheduleSeed cl then [CW_PrintSeed] else []);
               w3 = (if clSchedulePolicy cl \<noteq> SP_arbitrary \<and> clArbitraryScheduleSeed cl \<noteq> [] then [CW_Seed] else []) in
        if clBound cl \<noteq> - 1 \<and> clModelType cl \<noteq> MT_SC then Inl CE_BoundNotSC
        else let w4 = (if clBound cl = - 1 \<and> clBoundTypeOccurrences cl > 0 then [CW_BoundType] else []);
                 (cl, w5) = check_bounding cl; cl = check_mixer cl in
          if \<not> is_regular_file (clInputFile cl) then Inl CE_InputFile
          else Inr (cl, w1 @ w2 @ w3 @ w4 @ w5))"

definition nonnegative :: "int \<Rightarrow> 32 word option" where
  "nonnegative i = (if i \<ge> 0 then Some (word_of_int i) else None)"

text \<open>A fresh Config has empty vectors and sets.\<close>

definition saveConfigOptions :: "ClOptions \<Rightarrow> Config" where
  "saveConfigOptions cl =
     (let funs = (if clProgramEntryFunction cl = [] then [''main''] else clProgramEntryFunction cl) in
      \<lparr>cf_cflags = clCFLAGS cl, cf_inputFile = clInputFile cl, cf_model = clModelType cl,
       cf_estimate = (\<not> clDisableEstimation cl), cf_isDepTrackingModel = (clModelType cl = MT_IMM),
       cf_threads = clThreads cl, cf_bound = nonnegative (clBound cl), cf_boundType = clBoundType cl,
       cf_LAPOR = clLAPOR cl, cf_symmetryReduction = (\<not> clDisableSymmetryReduction cl), cf_helper = clHelper cl,
       cf_mixer = clMixer cl, cf_checkLiveness = clCheckLiveness cl, cf_printErrorTrace = clPrintErrorTrace cl,
       cf_dotFile = clDotGraphFile cl, cf_instructionCaching = (\<not> clDisableInstructionCaching cl),
       cf_disableRaceDetection = clDisableRaceDetection cl, cf_disableBAM = clDisableBAM cl,
       cf_ipr = (\<not> clDisableIPR cl), cf_disableStopOnSystemError = clDisableStopOnSystemError cl,
       cf_persevere = clPersevere cl, cf_blockSize = clBlockSize cl, cf_maxFileSize = clMaxFileSize cl,
       cf_journalData = clJournalData cl, cf_disableDelalloc = clDisableDelalloc cl,
       cf_unroll = nonnegative (clLoopUnroll cl),
       cf_noUnrollFuns = fold (\<lambda>f s. fst (VSet_insert s f)) [''memcpy'', ''memmove'', ''memset'', ''memcmp'']
         (VSet_insert_range [] (clNoUnrollFuns cl)),
       cf_castElimination = (\<not> clDisableCastElimination cl), cf_inlineFunctions = (\<not> clDisableFunctionInliner cl),
       cf_loopJumpThreading = (\<not> clDisableLoopJumpThreading cl), cf_spinAssume = (\<not> clDisableSpinAssume cl),
       cf_codeCondenser = (\<not> clDisableCodeCondenser cl), cf_loadAnnot = (\<not> clDisableLoadAnnot cl),
       cf_assumePropagation = (\<not> clDisableAssumePropagation cl), cf_confirmAnnot = (\<not> clDisableConfirmAnnot cl),
       cf_mmDetector = (\<not> clDisableMMDetector cl),
       cf_estimationMax = clEstimationMax cl, cf_estimationMin = clEstimationMin cl,
       cf_sdThreshold = clEstimationSdThreshold cl, cf_inputFromBitcodeFile = clInputFromBitcodeFile cl,
       cf_printExecGraphs = clPrintExecGraphs cl, cf_printBlockedExecs = clPrintBlockedExecs cl,
       cf_schedulePolicy = clSchedulePolicy cl, cf_randomScheduleSeed = clArbitraryScheduleSeed cl,
       cf_printRandomScheduleSeed = clPrintArbitraryScheduleSeed cl, cf_transformFile = clTransformFile cl,
       cf_skipTransforms = clSkipTransforms cl, cf_transformOnly = clTransformOnly cl,
       cf_transformBcFile = clTransformBcFile cl, cf_programEntryFun = hd funs, cf_programEntryFuns = funs,
       cf_discoverRustTests = clDiscoverRustTests cl, cf_rustTestFilter = clRustTestFilter cl,
       cf_listRustTests = clListRustTests cl, cf_traceOutputDir = clTraceOutputDir cl,
       cf_perTestTimeout = clPerTestTimeout cl, cf_warnOnGraphSize = clWarnOnGraphSize cl, cf_vLevel = clVLevel cl\<rparr>)"

definition getConfigOptions :: "(string \<Rightarrow> bool) \<Rightarrow> ClOptions \<Rightarrow> ConfError + (Config \<times> ConfWarning list)" where
  "getConfigOptions is_regular_file cl =
     (case checkConfigOptions is_regular_file cl of Inl e \<Rightarrow> Inl e
      | Inr (cl, ws) \<Rightarrow> Inr (saveConfigOptions cl, ws))"

section \<open>The memory model of the program\<close>

datatype Inst =
  LoadInst AtomicOrdering | StoreInst AtomicOrdering | AtomicCmpXchgInst AtomicOrdering AtomicOrdering
| AtomicRMWInst AtomicOrdering | FenceInst AtomicOrdering | OtherInst

definition isSCNAOrdering :: "AtomicOrdering \<Rightarrow> bool" where
  "isSCNAOrdering ord = (ord = SequentiallyConsistent \<or> ord = NotAtomic)"

definition isRANAOrdering :: "AtomicOrdering \<Rightarrow> bool" where
  "isRANAOrdering ord = (ord = Acquire \<or> ord = Release \<or> ord = AcquireRelease \<or> ord = NotAtomic)"

fun inst_orderings :: "Inst \<Rightarrow> AtomicOrdering list" where
  "inst_orderings (LoadInst ord) = [ord]"
| "inst_orderings (StoreInst ord) = [ord]"
| "inst_orderings (AtomicCmpXchgInst succ fail) = [succ, fail]"
| "inst_orderings (AtomicRMWInst ord) = [ord]"
| "inst_orderings (FenceInst ord) = [ord]"
| "inst_orderings OtherInst = []"

definition mm_step :: "Inst \<Rightarrow> bool \<times> bool \<Rightarrow> bool \<times> bool" where
  "mm_step i s =
     (case s of (sc, ra) \<Rightarrow>
        (sc \<and> list_all isSCNAOrdering (inst_orderings i), ra \<and> list_all isRANAOrdering (inst_orderings i)))"

definition MMAnalysis_run :: "Inst list list \<Rightarrow> ModelType option" where
  "MMAnalysis_run M =
     (case fold (fold mm_step) M (True, True) of (sc, ra) \<Rightarrow>
        if sc then Some MT_SC else if ra then Some MT_RA else None)"

text \<open>
  The detector pass runs when it is enabled; the rest of the transformations does not touch the
  configuration.
\<close>

definition transformInput :: "ModelType option \<Rightarrow> Config \<Rightarrow> Config" where
  "transformInput determinedMM conf =
     (case determinedMM of
        Some m \<Rightarrow> if cf_mmDetector conf \<and> isStrongerThan m (cf_model conf)
                  then conf\<lparr>cf_model := m, cf_isDepTrackingModel := (m = MT_IMM)\<rparr> else conf
      | None \<Rightarrow> conf)"

text \<open>The memory model drivers: all but one are commented out in the source. None is the abort.\<close>

datatype ModelDriver = RADriver

definition DriverFactory_create :: "Config \<Rightarrow> ModelDriver option" where
  "DriverFactory_create conf = (case cf_model conf of MT_RA \<Rightarrow> Some RADriver | _ \<Rightarrow> None)"

definition verified_config :: "Inst list list \<Rightarrow> Config \<Rightarrow> Config" where
  "verified_config M conf =
     (if cf_skipTransforms conf then conf else transformInput (MMAnalysis_run M) conf)"

section \<open>Configurations that reach the driver\<close>

definition all_orderings :: "(AtomicOrdering \<Rightarrow> bool) \<Rightarrow> Inst list list \<Rightarrow> bool" where
  "all_orderings p M = list_all (list_all (\<lambda>i. list_all p (inst_orderings i))) M"

lemma mm_steps:
  "fold mm_step is (a, b) =
     (a \<and> list_all (\<lambda>i. list_all isSCNAOrdering (inst_orderings i)) is,
      b \<and> list_all (\<lambda>i. list_all isRANAOrdering (inst_orderings i)) is)"
  by (induction "is" arbitrary: a b) (auto simp: mm_step_def)

lemma mm_functions:
  "fold (fold mm_step) M (a, b) = (a \<and> all_orderings isSCNAOrdering M, b \<and> all_orderings isRANAOrdering M)"
  by (induction M arbitrary: a b) (auto simp: mm_steps all_orderings_def)

lemma MMAnalysis_run_eq:
  "MMAnalysis_run M =
     (if all_orderings isSCNAOrdering M then Some MT_SC
      else if all_orderings isRANAOrdering M then Some MT_RA else None)"
  by (simp add: MMAnalysis_run_def mm_functions)

lemma isStrongerThan_less: "isStrongerThan m n = (modelNumber m < modelNumber n)"
  by (cases m; cases n) (simp_all add: isStrongerThan_def modelNumber_def)

lemma DriverFactory_create_iff: "DriverFactory_create conf \<noteq> None \<longleftrightarrow> cf_model conf = MT_RA"
  by (cases "cf_model conf") (auto simp: DriverFactory_create_def)

text \<open>What the checks leave of the options.\<close>

lemma check_imm_fields [simp]:
  "clModelType (fst (check_imm cl)) = clModelType cl" "clMixer (fst (check_imm cl)) = clMixer cl"
  "clLAPOR (fst (check_imm cl)) = clLAPOR cl" "clBound (fst (check_imm cl)) = clBound cl"
  "clHelper (fst (check_imm cl)) = clHelper cl" "clSchedulePolicy (fst (check_imm cl)) = clSchedulePolicy cl"
  "clDisableMMDetector (fst (check_imm cl)) = clDisableMMDetector cl"
  "clSkipTransforms (fst (check_imm cl)) = clSkipTransforms cl"
  by (simp_all add: check_imm_def)

lemma check_bounding_fields [simp]:
  "clModelType (fst (check_bounding cl)) = clModelType cl" "clMixer (fst (check_bounding cl)) = clMixer cl"
  "clBound (fst (check_bounding cl)) = clBound cl"
  "clDisableMMDetector (fst (check_bounding cl)) = clDisableMMDetector cl"
  "clSkipTransforms (fst (check_bounding cl)) = clSkipTransforms cl"
  by (simp_all add: check_bounding_def)

lemma check_bounding_policy:
  "clLAPOR (fst (check_bounding cl)) \<Longrightarrow> clLAPOR cl"
  "clHelper (fst (check_bounding cl)) \<Longrightarrow> clHelper cl \<and> clSchedulePolicy (fst (check_bounding cl)) = clSchedulePolicy cl"
  by (simp_all add: check_bounding_def split: if_splits)

lemma check_mixer_fields [simp]:
  "clMixer (check_mixer cl) = clMixer cl" "clLAPOR (check_mixer cl) = clLAPOR cl"
  "clSkipTransforms (check_mixer cl) = clSkipTransforms cl"
  "clModelType (check_mixer cl) = (if clMixer cl then MT_RA else clModelType cl)"
  "clBound (check_mixer cl) = (if clMixer cl then - 1 else clBound cl)"
  "clHelper (check_mixer cl) = (\<not> clMixer cl \<and> clHelper cl)"
  "clSchedulePolicy (check_mixer cl) = (if clMixer cl then SP_ltr else clSchedulePolicy cl)"
  "clDisableMMDetector (check_mixer cl) = (clMixer cl \<or> clDisableMMDetector cl)"
  "clDisableIPR (check_mixer cl) = (clMixer cl \<or> clDisableIPR cl)"
  "clDisableBAM (check_mixer cl) = (clMixer cl \<or> clDisableBAM cl)"
  "clDisableSymmetryReduction (check_mixer cl) = (clMixer cl \<or> clDisableSymmetryReduction cl)"
  "clDisableEstimation (check_mixer cl) = (clMixer cl \<or> clDisableEstimation cl)"
  by (simp_all add: check_mixer_def)

lemma checkConfigOptions_accepts:
  assumes "checkConfigOptions isReg cl = Inr (cl', ws)"
  shows "cl' = check_mixer (fst (check_bounding (fst (check_imm cl)))) \<and> \<not> clLAPOR cl \<and>
    (clHelper cl \<longrightarrow> clSchedulePolicy cl \<noteq> SP_arbitrary) \<and> (clBound cl = - 1 \<or> clModelType cl = MT_SC)"
proof (cases "check_imm cl")
  case (Pair c1 w1)
  obtain c2 w2 where c2: "check_bounding c1 = (c2, w2)" by fastforce
  have c1: "c1 = fst (check_imm cl)" using Pair by simp
  have "clModelType c1 = clModelType cl" "clBound c1 = clBound cl" by (simp_all add: c1)
  then show ?thesis
    using assms Pair c2 by (simp add: checkConfigOptions_def Let_def split: if_splits)
qed

lemma save_fields [simp]:
  "cf_model (saveConfigOptions cl) = clModelType cl" "cf_mixer (saveConfigOptions cl) = clMixer cl"
  "cf_isDepTrackingModel (saveConfigOptions cl) = (clModelType cl = MT_IMM)"
  "cf_bound (saveConfigOptions cl) = nonnegative (clBound cl)" "cf_LAPOR (saveConfigOptions cl) = clLAPOR cl"
  "cf_helper (saveConfigOptions cl) = clHelper cl" "cf_schedulePolicy (saveConfigOptions cl) = clSchedulePolicy cl"
  "cf_ipr (saveConfigOptions cl) = (\<not> clDisableIPR cl)" "cf_disableBAM (saveConfigOptions cl) = clDisableBAM cl"
  "cf_symmetryReduction (saveConfigOptions cl) = (\<not> clDisableSymmetryReduction cl)"
  "cf_estimate (saveConfigOptions cl) = (\<not> clDisableEstimation cl)"
  "cf_mmDetector (saveConfigOptions cl) = (\<not> clDisableMMDetector cl)"
  "cf_skipTransforms (saveConfigOptions cl) = clSkipTransforms cl"
  by (simp_all add: saveConfigOptions_def Let_def)

text \<open>Detecting the memory model changes nothing else.\<close>

lemma verified_config_same [simp]:
  "cf_bound (verified_config M c) = cf_bound c" "cf_LAPOR (verified_config M c) = cf_LAPOR c"
  "cf_helper (verified_config M c) = cf_helper c" "cf_mixer (verified_config M c) = cf_mixer c"
  "cf_schedulePolicy (verified_config M c) = cf_schedulePolicy c" "cf_ipr (verified_config M c) = cf_ipr c"
  "cf_disableBAM (verified_config M c) = cf_disableBAM c" "cf_estimate (verified_config M c) = cf_estimate c"
  "cf_symmetryReduction (verified_config M c) = cf_symmetryReduction c"
  by (simp_all add: verified_config_def transformInput_def split: option.splits)

lemma verified_config_model:
  "cf_model (verified_config M c) =
     (if cf_skipTransforms c \<or> \<not> cf_mmDetector c then cf_model c
      else case MMAnalysis_run M of None \<Rightarrow> cf_model c
        | Some m \<Rightarrow> if isStrongerThan m (cf_model c) then m else cf_model c)"
  by (simp add: verified_config_def transformInput_def split: option.splits)

lemma verified_config_dep:
  "cf_isDepTrackingModel c = (cf_model c = MT_IMM) \<Longrightarrow>
   cf_isDepTrackingModel (verified_config M c) = (cf_model (verified_config M c) = MT_IMM)"
  by (simp add: verified_config_def transformInput_def split: option.splits)

lemma accepted_config:
  assumes "getConfigOptions isReg cl = Inr (conf, ws)"
  shows "conf = saveConfigOptions (check_mixer (fst (check_bounding (fst (check_imm cl))))) \<and> \<not> clLAPOR cl \<and>
    (clHelper cl \<longrightarrow> clSchedulePolicy cl \<noteq> SP_arbitrary) \<and> (clBound cl = - 1 \<or> clModelType cl = MT_SC)"
  using assms checkConfigOptions_accepts [of isReg cl]
  by (auto simp: getConfigOptions_def split: sum.splits)



text \<open>
  C30. A configuration that reaches the driver satisfies what the driver relies on: the model is RA and
  dependencies are not tracked, there is no bound and no LAPOR, the helper mode is not combined with
  arbitrary scheduling, and the mixer mode runs left to right without in-place revisits, symmetry
  reduction, barrier handling, helper mode and estimation.
\<close>

theorem driver_config_consistent:
  assumes "getConfigOptions isReg cl = Inr (conf, ws)" "DriverFactory_create (verified_config M conf) = Some d"
    and c: "c = verified_config M conf"
  shows "cf_model c = MT_RA \<and> \<not> cf_isDepTrackingModel c \<and> cf_bound c = None \<and> \<not> cf_LAPOR c \<and>
    (cf_helper c \<longrightarrow> cf_schedulePolicy c \<noteq> SP_arbitrary) \<and>
    (cf_mixer c \<longrightarrow> cf_schedulePolicy c = SP_ltr \<and> \<not> cf_ipr c \<and> \<not> cf_symmetryReduction c \<and> cf_disableBAM c \<and>
      \<not> cf_helper c \<and> \<not> cf_estimate c)"
proof -
  note acc = accepted_config [OF assms(1)]
  have ra: "cf_model (verified_config M conf) = MT_RA"
    using assms(2) DriverFactory_create_iff [of "verified_config M conf"] by simp
  have sc: "clModelType cl = MT_SC \<and> \<not> clMixer cl \<Longrightarrow> False"
    using ra acc by (simp add: verified_config_model isStrongerThan_less modelNumber_def split: if_splits option.splits)
  have b: "cf_bound conf = None"
    using acc sc by (auto simp: nonnegative_def)
  have dep: "cf_isDepTrackingModel conf = (cf_model conf = MT_IMM)" using acc by simp
  show ?thesis
    unfolding c using ra b verified_config_dep [OF dep] acc
      check_bounding_policy [of "fst (check_imm cl)"] by auto
qed

text \<open>The mixer option together with a bound and a policy of its own.\<close>

theorem driver_config_consistent_witness:
  "\<exists>conf ws. getConfigOptions (\<lambda>_. True)
       (default_options ''a.c''\<lparr>clMixer := True, clModelType := MT_SC, clBound := 2, clSchedulePolicy := SP_wfr\<rparr>) =
       Inr (conf, ws) \<and>
     cf_bound (verified_config [] conf) = None \<and> cf_schedulePolicy (verified_config [] conf) = SP_ltr"
proof -
  let ?cl = "default_options ''a.c''\<lparr>clMixer := True, clModelType := MT_SC, clBound := 2, clSchedulePolicy := SP_wfr\<rparr>"
  obtain conf ws where acc: "getConfigOptions (\<lambda>_. True) ?cl = Inr (conf, ws)"
    by (simp add: getConfigOptions_def checkConfigOptions_def check_imm_def check_bounding_def check_mixer_def
        default_options_def)
  have c: "conf = saveConfigOptions (check_mixer (fst (check_bounding (fst (check_imm ?cl)))))"
    using accepted_config [OF acc] by simp
  have mx: "cf_mixer conf" unfolding c by simp
  have "DriverFactory_create (verified_config [] conf) = Some RADriver"
    unfolding c by (simp add: DriverFactory_create_def verified_config_model MMAnalysis_run_eq)
  then show ?thesis
    using driver_config_consistent [OF acc _ refl] acc mx by force
qed

end
