(* ===== verification/Scheduling.thy ===== *)
theory Scheduling
  imports Symmetry DriverChecks Configuration
begin

text \<open>
  Scheduling (src/src/GenMCDriver.cpp, scheduleNext and the policies it chooses from).

  The interpreter and the random number generator are parameters: whether the stack of a thread is
  empty, whether the next instruction of a thread is a load, how many instructions a thread has
  executed, and a number drawn from 0 to a given bound. A function returns the thread it schedules,
  None for false, and the outer None where the code hits BUG or dereferences a null pointer.
\<close>

section \<open>Definitions\<close>

record Interp =
  stack_empty :: "int \<Rightarrow> bool"
  next_load :: "int \<Rightarrow> bool"
  instructions :: "int \<Rightarrow> int"
  draw :: "nat \<Rightarrow> nat"


definition all_threads :: "ExecutionGraph \<Rightarrow> int list" where
  "all_threads g = [0 .. int (getNumThreads g) - 1]"

definition isSchedulable :: "Interp \<Rightarrow> ExecutionGraph \<Rightarrow> int \<Rightarrow> bool option" where
  "isSchedulable I g t = do { lab \<leftarrow> getLastThreadLabel g t; Some (\<not> stack_empty I t \<and> \<not> isTerminator (kind lab)) }"

definition schedulePrioritized :: "Interp \<Rightarrow> bool \<Rightarrow> Event list \<Rightarrow> ExecutionGraph \<Rightarrow> int option option" where
  "schedulePrioritized I bounded threadPrios g =
     (if threadPrios = [] then Some None
      else do { BUG_ON bounded; find_opt (isSchedulable I g) (map thread threadPrios) })"

definition scheduleNextLTR :: "Interp \<Rightarrow> ExecutionGraph \<Rightarrow> int option option" where
  "scheduleNextLTR I g = find_opt (isSchedulable I g) (all_threads g)"

text \<open>The last schedulable thread met on the way to the first symmetric one.\<close>

definition getFirstSchedulableSymmetric :: "Interp \<Rightarrow> bool \<Rightarrow> ExecutionGraph \<Rightarrow> int \<Rightarrow> int option" where
  "getFirstSchedulableSymmetric I symmetryReduction g tid =
     (if \<not> symmetryReduction then Some tid
      else do { symms \<leftarrow> symm_preds g tid;
                try_fold (\<lambda>firstSched s. do { b \<leftarrow> isSchedulable I g s; Some (if b then s else firstSched) }) symms tid })"

text \<open>The first loop of the two write-first policies: a thread that replays the graph.\<close>

definition schedule_replayed :: "Interp \<Rightarrow> ExecutionGraph \<Rightarrow> int option option" where
  "schedule_replayed I g =
     find_opt (\<lambda>i. do { b \<leftarrow> isSchedulable I g i; Some (b \<and> containsPos g (Event i (instructions I i + 1))) }) (all_threads g)"

definition scheduleNextWF :: "Interp \<Rightarrow> bool \<Rightarrow> ExecutionGraph \<Rightarrow> int option option" where
  "scheduleNextWF I sr g =
     do { r \<leftarrow> schedule_replayed I g;
          (case r of Some i \<Rightarrow> Some (Some i)
           | None \<Rightarrow>
             do { fallback \<leftarrow> find_opt (isSchedulable I g) (all_threads g);
                  w \<leftarrow> find_opt (\<lambda>i. do { b \<leftarrow> isSchedulable I g i; Some (b \<and> \<not> next_load I i) }) (all_threads g);
                  (case (case w of Some i \<Rightarrow> Some i | None \<Rightarrow> fallback) of
                     Some i \<Rightarrow> map_option Some (getFirstSchedulableSymmetric I sr g i)
                   | None \<Rightarrow> Some None) }) }"

definition scheduleNextWFR :: "Interp \<Rightarrow> bool \<Rightarrow> ExecutionGraph \<Rightarrow> int option option" where
  "scheduleNextWFR I sr g =
     do { r \<leftarrow> schedule_replayed I g;
          (case r of Some i \<Rightarrow> Some (Some i)
           | None \<Rightarrow>
             do { ts \<leftarrow> filter_opt (isSchedulable I g) (all_threads g);
                  let writes = filter (\<lambda>i. \<not> next_load I i) ts; nonwrites = filter (next_load I) ts;
                      selection = (if writes \<noteq> [] then writes else nonwrites) in
                  if selection = [] then Some None
                  else do { candidate \<leftarrow> vec_at selection (int (draw I (length selection - 1)));
                            map_option Some (getFirstSchedulableSymmetric I sr g candidate) } }) }"

definition scheduleNextRandom :: "Interp \<Rightarrow> bool \<Rightarrow> ExecutionGraph \<Rightarrow> int option option" where
  "scheduleNextRandom I sr g =
     (let n = getNumThreads g; random = draw I n in
      do { r \<leftarrow> find_opt (isSchedulable I g) (map (\<lambda>j. int ((j + random) mod n)) [0..<n]);
           (case r of None \<Rightarrow> Some None | Some i \<Rightarrow> map_option Some (getFirstSchedulableSymmetric I sr g i)) })"

definition scheduleAtomicity :: "bool \<Rightarrow> (AAccess \<Rightarrow> SVal) \<Rightarrow> Event \<Rightarrow> ExecutionGraph \<Rightarrow>
    (int option \<times> Reports) option" where
  "scheduleAtomicity mixer initVal lastAdded g =
     do { lastLab \<leftarrow> getEventLabel g lastAdded;
          if isFaiRead (kind lastLab) then Some (Some (thread lastAdded), [])
          else if isCasRead (kind lastLab) then
            do { (v, rep) \<leftarrow> getReadValue mixer initVal g lastLab;
                 Some (if v = expected lastLab then Some (thread lastAdded) else None, rep) }
          else Some (None, []) }"

definition scheduleNormal :: "Interp \<Rightarrow> bool \<Rightarrow> bool \<Rightarrow> SchedulePolicy \<Rightarrow> ExecutionGraph \<Rightarrow> int option option" where
  "scheduleNormal I sr estimation policy g =
     (if estimation then scheduleNextWFR I sr g
      else case policy of SP_ltr \<Rightarrow> scheduleNextLTR I g | SP_wf \<Rightarrow> scheduleNextWF I sr g
        | SP_wfr \<Rightarrow> scheduleNextWFR I sr g | SP_arbitrary \<Rightarrow> scheduleNextRandom I sr g)"

definition unblockThread :: "Event \<Rightarrow> ExecutionGraph \<Rightarrow> ExecutionGraph option" where
  "unblockThread pos g =
     do { bLab \<leftarrow> getLastThreadLabel g (thread pos);
          BUG_ON (\<not> isBlock (kind bLab));
          removeLast (thread pos) g }"

text \<open>The graph, the read that is rescheduled and the thread.\<close>

definition rescheduleReads :: "bool \<Rightarrow> ExecutionGraph \<Rightarrow> (ExecutionGraph \<times> (Event \<times> int) option) option" where
  "rescheduleReads bounded g =
     do { r \<leftarrow> find_opt (\<lambda>i. do { l \<leftarrow> getLastThreadLabel g i; Some (kind l = EL_ReadOptBlock) }) (all_threads g);
          (case r of None \<Rightarrow> Some (g, None)
           | Some i \<Rightarrow> do { BUG_ON bounded; bLab \<leftarrow> getLastThreadLabel g i;
                           g \<leftarrow> unblockThread (position bLab) g; Some (g, Some (position bLab, i)) }) }"

text \<open>The graph, the read that is rescheduled, the thread, and the errors reported on the way.\<close>

definition scheduleNext :: "Interp \<Rightarrow> bool \<Rightarrow> bool \<Rightarrow> bool \<Rightarrow> bool \<Rightarrow> SchedulePolicy \<Rightarrow> (AAccess \<Rightarrow> SVal) \<Rightarrow> bool \<Rightarrow> Event \<Rightarrow>
    Event list \<Rightarrow> ExecutionGraph \<Rightarrow> (ExecutionGraph \<times> Event option \<times> int option \<times> Reports) option" where
  "scheduleNext I mixer sr bounded estimation policy initVal stopped lastAdded threadPrios g =
     (if stopped then Some (g, None, None, [])
      else do { (a, rep) \<leftarrow> scheduleAtomicity mixer initVal lastAdded g;
        if a \<noteq> None then Some (g, None, a, rep)
        else do { p \<leftarrow> schedulePrioritized I bounded threadPrios g;
          if p \<noteq> None then Some (g, None, p, rep)
          else do { n \<leftarrow> scheduleNormal I sr estimation policy g;
            if n \<noteq> None then Some (g, None, n, rep)
            else do { (g, r) \<leftarrow> rescheduleReads bounded g;
                      Some (g, map_option fst r, map_option snd r, rep) } } } })"

section \<open>Policies\<close>

text \<open>A thread can run if it has instructions left and its last event does not end or block it.\<close>

definition runnable :: "Interp \<Rightarrow> ExecutionGraph \<Rightarrow> int \<Rightarrow> bool" where
  "runnable I g t = (t \<in> set (all_threads g) \<and> \<not> stack_empty I t \<and>
     label_is (\<lambda>l. \<not> isTerminator (kind l)) g (getLastThreadEvent g t))"

definition sched_ready :: "Interp \<Rightarrow> bool \<Rightarrow> ExecutionGraph \<Rightarrow> bool" where
  "sched_ready I sr g = ((\<forall>t\<in>set (all_threads g). getLastThreadLabel g t \<noteq> None) \<and> (\<forall>k. draw I k \<le> k) \<and> (sr \<longrightarrow> symm_links g))"

text \<open>The contract of a policy: it picks a thread that can run, if there is one.\<close>

locale policy =
  fixes pick :: "Interp \<Rightarrow> bool \<Rightarrow> ExecutionGraph \<Rightarrow> int option option"
  assumes picks: "sched_ready I sr g \<Longrightarrow>
    \<exists>r. pick I sr g = Some r \<and> (case r of None \<Rightarrow> \<forall>t. \<not> runnable I g t | Some t \<Rightarrow> runnable I g t)"
begin

lemma pick_none_iff: "sched_ready I sr g \<Longrightarrow> pick I sr g = Some None \<longleftrightarrow> (\<forall>t. \<not> runnable I g t)"
  using picks [of I sr g] by (auto split: option.splits)

lemma pick_some: "sched_ready I sr g \<Longrightarrow> runnable I g t \<Longrightarrow> \<exists>s. pick I sr g = Some (Some s) \<and> runnable I g s"
  using picks [of I sr g] by (auto split: option.splits)

end

lemma isSchedulable_runnable:
  "sched_ready I sr g \<Longrightarrow> t \<in> set (all_threads g) \<Longrightarrow> isSchedulable I g t = Some (runnable I g t)"
  by (auto simp: sched_ready_def isSchedulable_def runnable_def label_is_def getLastThreadLabel_def)

lemma runnable_thread: "runnable I g t \<Longrightarrow> t \<in> set (all_threads g)"
  by (simp add: runnable_def)

lemma find_runnable:
  assumes "sched_ready I sr g" "set ts \<subseteq> set (all_threads g)"
  shows "find_opt (isSchedulable I g) ts = Some (find (runnable I g) ts)"
  using assms isSchedulable_runnable by (intro find_opt_total) blast

lemma find_cases: "case find P xs of None \<Rightarrow> \<forall>x\<in>set xs. \<not> P x | Some x \<Rightarrow> x \<in> set xs \<and> P x"
  by (auto simp: find_None_iff find_Some_iff split: option.splits)

lemma replayed_runnable:
  assumes "sched_ready I sr g"
  shows "\<exists>r. schedule_replayed I g = Some r \<and> (case r of None \<Rightarrow> True | Some t \<Rightarrow> runnable I g t)"
proof -
  have "schedule_replayed I g = Some (find (\<lambda>i. runnable I g i \<and> containsPos g (Event i (instructions I i + 1))) (all_threads g))"
    unfolding schedule_replayed_def using isSchedulable_runnable [OF assms] by (intro find_opt_total) simp
  then show ?thesis using find_cases by (auto split: option.splits simp: find_Some_iff)
qed

lemma first_symmetric_runnable:
  assumes "sched_ready I sr g" "runnable I g t"
  shows "\<exists>s. getFirstSchedulableSymmetric I sr g t = Some s \<and> runnable I g s"
proof (cases sr)
  case True
  have links: "symm_links g" using assms(1) True by (simp add: sched_ready_def)
  have t: "0 \<le> t" "t < int (getNumThreads g)" using runnable_thread [OF assms(2)] by (auto simp: all_threads_def)
  obtain ss where ss: "symm_preds g t = Some ss" "set ss = {s. (symm_link g)\<^sup>+\<^sup>+ s t}"
    using symm_preds_reach [OF links t] by blast
  have "s \<in> set (all_threads g)" if "s \<in> set ss" for s
  proof -
    have "(symm_link g)\<^sup>+\<^sup>+ s t" using that ss(2) by simp
    then have "0 \<le> s \<and> s < t" by (induction rule: tranclp_induct) (use symm_link_range [OF links] in force)+
    then show ?thesis using t by (simp add: all_threads_def)
  qed
  then have "try_fold (\<lambda>firstSched s. do { b \<leftarrow> isSchedulable I g s; Some (if b then s else firstSched) }) ss u =
      Some (fold (\<lambda>s f. if runnable I g s then s else f) ss u)" for u
    using isSchedulable_runnable [OF assms(1)] by (induction ss arbitrary: u) auto
  moreover have "runnable I g (fold (\<lambda>s f. if runnable I g s then s else f) ss u)" if "runnable I g u" for u
    using that by (induction ss arbitrary: u) auto
  ultimately show ?thesis using True ss(1) assms(2) by (simp add: getFirstSchedulableSymmetric_def)
qed (use assms in \<open>simp add: getFirstSchedulableSymmetric_def\<close>)

interpretation ltr: policy "\<lambda>I sr g. scheduleNextLTR I g"
proof
  fix I sr g assume r: "sched_ready I sr g"
  show "\<exists>r. scheduleNextLTR I g = Some r \<and> (case r of None \<Rightarrow> \<forall>t. \<not> runnable I g t | Some t \<Rightarrow> runnable I g t)"
    using find_cases [where P = "runnable I g" and xs = "all_threads g"] runnable_thread [of I g]
    by (auto simp: scheduleNextLTR_def find_runnable [OF r] split: option.splits)
qed

lemma symmetric_pick:
  assumes "sched_ready I sr g" "case r of None \<Rightarrow> \<forall>t. \<not> runnable I g t | Some t \<Rightarrow> runnable I g t"
  shows "\<exists>s. (case r of None \<Rightarrow> Some None | Some i \<Rightarrow> map_option Some (getFirstSchedulableSymmetric I sr g i)) = Some s \<and>
    (case s of None \<Rightarrow> \<forall>t. \<not> runnable I g t | Some t \<Rightarrow> runnable I g t)"
  using assms first_symmetric_runnable [OF assms(1)] by (auto split: option.splits)

interpretation wf: policy scheduleNextWF
proof
  fix I sr g assume r: "sched_ready I sr g"
  obtain p where p: "schedule_replayed I g = Some p" "case p of None \<Rightarrow> True | Some t \<Rightarrow> runnable I g t"
    using replayed_runnable [OF r] by blast
  define w where "w = find (\<lambda>i. runnable I g i \<and> \<not> next_load I i) (all_threads g)"
  define c where "c = (case w of Some i \<Rightarrow> Some i | None \<Rightarrow> find (runnable I g) (all_threads g))"
  have "find_opt (\<lambda>i. do { b \<leftarrow> isSchedulable I g i; Some (b \<and> \<not> next_load I i) }) (all_threads g) = Some w"
    unfolding w_def using isSchedulable_runnable [OF r] by (intro find_opt_total) simp
  then have WF: "scheduleNextWF I sr g = (case p of Some i \<Rightarrow> Some (Some i) | None \<Rightarrow>
      (case c of None \<Rightarrow> Some None | Some i \<Rightarrow> map_option Some (getFirstSchedulableSymmetric I sr g i)))"
    by (simp add: scheduleNextWF_def p(1) find_runnable [OF r] c_def split: option.splits)
  have "case c of None \<Rightarrow> \<forall>t. \<not> runnable I g t | Some t \<Rightarrow> runnable I g t"
    using find_cases [where P = "\<lambda>i. runnable I g i \<and> \<not> next_load I i" and xs = "all_threads g"] find_cases [where P = "runnable I g" and xs = "all_threads g"]
      runnable_thread [of I g] by (auto simp: c_def w_def split: option.splits)
  from symmetric_pick [OF r this] p(2)
  show "\<exists>q. scheduleNextWF I sr g = Some q \<and> (case q of None \<Rightarrow> \<forall>t. \<not> runnable I g t | Some t \<Rightarrow> runnable I g t)"
    unfolding WF by (cases p) auto
qed

interpretation wfr: policy scheduleNextWFR
proof
  fix I sr g assume r: "sched_ready I sr g"
  obtain p where p: "schedule_replayed I g = Some p" "case p of None \<Rightarrow> True | Some t \<Rightarrow> runnable I g t"
    using replayed_runnable [OF r] by blast
  define ts where "ts = filter (runnable I g) (all_threads g)"
  define sel where "sel = (if filter (\<lambda>i. \<not> next_load I i) ts \<noteq> [] then filter (\<lambda>i. \<not> next_load I i) ts else filter (next_load I) ts)"
  define c where "c = (if sel = [] then None else Some (sel ! draw I (length sel - 1)))"
  have f: "filter_opt (isSchedulable I g) (all_threads g) = Some ts"
    unfolding ts_def using isSchedulable_runnable [OF r] by (intro filter_opt_total) simp
  have d: "draw I (length sel - 1) < length sel" if "sel \<noteq> []"
    using r that by (metis diff_Suc_less length_greater_0_conv One_nat_def le_less_trans sched_ready_def)
  then have v: "vec_at sel (int (draw I (length sel - 1))) = Some (sel ! draw I (length sel - 1))" if "sel \<noteq> []"
    using that by (simp add: vec_at_def)
  have WFR: "scheduleNextWFR I sr g = (case p of Some i \<Rightarrow> Some (Some i) | None \<Rightarrow>
      (case c of None \<Rightarrow> Some None | Some i \<Rightarrow> map_option Some (getFirstSchedulableSymmetric I sr g i)))"
  proof (cases "sel = []")
    case True
    then show ?thesis unfolding scheduleNextWFR_def p(1) f by (simp add: c_def Let_def sel_def [symmetric] split: option.splits)
  next
    case False
    then show ?thesis unfolding scheduleNextWFR_def p(1) f
      by (simp add: c_def Let_def sel_def [symmetric] v [OF False, simplified] split: option.splits)
  qed
  have "sel = [] \<Longrightarrow> \<forall>t. \<not> runnable I g t"
    using runnable_thread [of I g] by (auto simp: sel_def ts_def filter_empty_conv split: if_splits)
  moreover have "set sel \<subseteq> {t. runnable I g t}" by (auto simp: sel_def ts_def)
  ultimately have "case c of None \<Rightarrow> \<forall>t. \<not> runnable I g t | Some t \<Rightarrow> runnable I g t"
    using nth_mem [OF d] by (auto simp: c_def)
  from symmetric_pick [OF r this] p(2)
  show "\<exists>q. scheduleNextWFR I sr g = Some q \<and> (case q of None \<Rightarrow> \<forall>t. \<not> runnable I g t | Some t \<Rightarrow> runnable I g t)"
    unfolding WFR by (cases p) auto
qed

text \<open>Starting at a random thread and going around reaches every thread.\<close>

lemma rotated_threads: "set (map (\<lambda>j. int ((j + k) mod n)) [0..<n]) = {0..<int n}"
proof (cases "n = 0")
  case False
  have "\<exists>j<n. (j + k) mod n = i" if "i < n" for i
  proof -
    have "k mod n < n" using False by simp
    then have e: "i + n - k mod n + k mod n = i + n" by linarith
    have "((i + n - k mod n) mod n + k) mod n = (i + n - k mod n + k mod n) mod n" by (simp add: mod_add_left_eq mod_add_right_eq)
    also have "\<dots> = i" unfolding e using that by simp
    finally show ?thesis using False by (intro exI [of _ "(i + n - k mod n) mod n"]) simp
  qed
  then have "{0..<n} \<subseteq> (\<lambda>j. (j + k) mod n) ` {0..<n}" by fastforce
  moreover have "(\<lambda>j. (j + k) mod n) ` {0..<n} \<subseteq> {0..<n}" using False by auto
  ultimately have "int ` (\<lambda>j. (j + k) mod n) ` {0..<n} = int ` {0..<n}" by blast
  then show ?thesis by (simp add: image_image image_int_atLeastLessThan)
qed simp

interpretation arbitrary: policy scheduleNextRandom
proof
  fix I sr g assume r: "sched_ready I sr g"
  define ts where "ts = map (\<lambda>j. int ((j + draw I (getNumThreads g)) mod getNumThreads g)) [0..<getNumThreads g]"
  have ts: "set ts = set (all_threads g)" unfolding ts_def rotated_threads by (auto simp: all_threads_def)
  then have "find_opt (isSchedulable I g) ts = Some (find (runnable I g) ts)" using find_runnable [OF r] by blast
  then have R: "scheduleNextRandom I sr g = (case find (runnable I g) ts of None \<Rightarrow> Some None
      | Some i \<Rightarrow> map_option Some (getFirstSchedulableSymmetric I sr g i))"
    by (simp add: scheduleNextRandom_def Let_def ts_def)
  have "case find (runnable I g) ts of None \<Rightarrow> \<forall>t. \<not> runnable I g t | Some t \<Rightarrow> runnable I g t"
    using find_cases [where P = "runnable I g" and xs = ts] runnable_thread [of I g] ts by (auto split: option.splits)
  from symmetric_pick [OF r this]
  show "\<exists>q. scheduleNextRandom I sr g = Some q \<and> (case q of None \<Rightarrow> \<forall>t. \<not> runnable I g t | Some t \<Rightarrow> runnable I g t)"
    unfolding R .
qed

section \<open>Properties\<close>

lemma scheduleNormal_picks:
  assumes "sched_ready I sr g"
  shows "\<exists>r. scheduleNormal I sr estimation pol g = Some r \<and>
    (case r of None \<Rightarrow> \<forall>t. \<not> runnable I g t | Some t \<Rightarrow> runnable I g t)"
  unfolding scheduleNormal_def
  using ltr.picks [OF assms] wf.picks [OF assms] wfr.picks [OF assms] arbitrary.picks [OF assms]
  by (cases pol) auto

lemma schedulePrioritized_picks:
  assumes "sched_ready I sr g" "thread ` set prios \<subseteq> set (all_threads g)"
  shows "\<exists>r. schedulePrioritized I False prios g = Some r \<and> (case r of None \<Rightarrow> True | Some t \<Rightarrow> runnable I g t)"
proof -
  have "find_opt (isSchedulable I g) (map thread prios) = Some (find (runnable I g) (map thread prios))"
    using assms by (intro find_runnable) auto
  then show ?thesis using find_cases [where P = "runnable I g" and xs = "map thread prios"]
    by (auto simp: schedulePrioritized_def split: option.splits)
qed

text \<open>A thread whose read was put off because it would block.\<close>

definition put_off :: "ExecutionGraph \<Rightarrow> int \<Rightarrow> bool" where
  "put_off g t = (t \<in> set (all_threads g) \<and> label_is (\<lambda>l. kind l = EL_ReadOptBlock \<and> thread (position l) = t) g (getLastThreadEvent g t))"

lemma rescheduleReads_picks:
  assumes "sched_ready I sr g" "labels_placed g"
  shows "\<exists>g' r. rescheduleReads False g = Some (g', r) \<and>
    (case r of None \<Rightarrow> g' = g \<and> (\<forall>t. \<not> put_off g t) | Some (e, t) \<Rightarrow> put_off g t \<and> e = getLastThreadEvent g t)"
proof -
  have last: "\<exists>l. getLastThreadLabel g t = Some l \<and> position l = getLastThreadEvent g t" if "t \<in> set (all_threads g)" for t
    using assms that by (auto simp: sched_ready_def getLastThreadLabel_def labels_placed_def)
  have find: "find_opt (\<lambda>i. do { l \<leftarrow> getLastThreadLabel g i; Some (kind l = EL_ReadOptBlock) }) (all_threads g) = Some (find (put_off g) (all_threads g))"
  proof (intro find_opt_total ballI)
    fix t assume t: "t \<in> set (all_threads g)"
    then show "do { l \<leftarrow> getLastThreadLabel g t; Some (kind l = EL_ReadOptBlock) } = Some (put_off g t)"
      using last [OF t] by (auto simp: put_off_def label_is_def getLastThreadLabel_def getLastThreadEvent_def)
  qed
  show ?thesis
  proof (cases "find (put_off g) (all_threads g)")
    case None
    then have "\<forall>t. \<not> put_off g t" by (auto simp: find_None_iff put_off_def)
    then show ?thesis using None find by (simp add: rescheduleReads_def)
  next
    case (Some t)
    then have t: "put_off g t" by (auto simp: find_Some_iff)
    obtain l where l: "getLastThreadLabel g t = Some l" "position l = getLastThreadEvent g t"
      using last t unfolding put_off_def by blast
    then have k: "kind l = EL_ReadOptBlock" "thread (position l) = t"
      using t by (simp_all add: put_off_def label_is_def getLastThreadLabel_def)
    have "isBlock EL_ReadOptBlock" "\<not> isFree EL_ReadOptBlock" by code_simp+
    then show ?thesis using Some find l k t by (simp add: rescheduleReads_def unblockThread_def removeLast_def unlink_free_def)
  qed
qed

text \<open>C21. The scheduler never stops while something can run: unless the last event is the read of an
  atomic update, scheduleNext picks a thread whenever a thread can run or a read has been put off. The
  thread it picks can run, and a read that was put off is only resumed when no thread can run.\<close>

theorem scheduleNext_progress:
  assumes "sched_ready I sr g" "labels_placed g" "scheduleAtomicity mixer initVal lastAdded g = Some (None, rep)"
    and "thread ` set prios \<subseteq> set (all_threads g)"
  shows "\<exists>g' rr r. scheduleNext I mixer sr False estimation pol initVal False lastAdded prios g = Some (g', rr, r, rep) \<and>
    (r = None \<longleftrightarrow> (\<forall>t. \<not> runnable I g t \<and> \<not> put_off g t)) \<and>
    (\<forall>t. r = Some t \<longrightarrow> (if rr = None then runnable I g t \<and> g' = g else put_off g t \<and> (\<forall>u. \<not> runnable I g u)))"
proof -
  obtain p where p: "schedulePrioritized I False prios g = Some p" "case p of None \<Rightarrow> True | Some t \<Rightarrow> runnable I g t"
    using schedulePrioritized_picks [OF assms(1,4)] by (elim exE conjE)
  obtain n where n: "scheduleNormal I sr estimation pol g = Some n"
      "case n of None \<Rightarrow> \<forall>t. \<not> runnable I g t | Some t \<Rightarrow> runnable I g t"
    using scheduleNormal_picks [OF assms(1), of estimation pol] by (elim exE conjE)
  obtain h q where q: "rescheduleReads False g = Some (h, q)"
      "case q of None \<Rightarrow> h = g \<and> (\<forall>t. \<not> put_off g t) | Some (e, t) \<Rightarrow> put_off g t \<and> e = getLastThreadEvent g t"
    using rescheduleReads_picks [OF assms(1,2)] by (elim exE conjE)
  show ?thesis
    using assms(3) p n q by (cases p; cases n; cases q) (auto simp: scheduleNext_def)
qed

theorem scheduleNext_progress_witness:
  "\<exists>g' rr r. scheduleNext \<lparr>stack_empty = \<lambda>t. t \<noteq> 1, next_load = \<lambda>_. False, instructions = \<lambda>_. 5, draw = id\<rparr> True True False False
      SP_wf (\<lambda>_. 0) False (Event 0 0) [] (symm_graph 4) = Some (g', rr, r, []) \<and> r \<noteq> None"
proof -
  let ?I = "\<lparr>stack_empty = \<lambda>t. t \<noteq> 1, next_load = \<lambda>_. False, instructions = \<lambda>_. 5, draw = id\<rparr>"
  have threads: "all_threads (symm_graph 4) = [0, 1, 2]" by (simp add: all_threads_def symm_graph_def getNumThreads_def upto_rec1)
  have last: "getLastThreadEvent (symm_graph 4) t = Event t 2" if "t \<in> {0, 1, 2}" for t
    using that by (auto simp: getLastThreadEvent_def symm_graph_def getThreadSize_def)
  have init: "kind (InitLabel\<lparr>initRfs := r\<rparr>) = EL_Init" for r by (simp add: InitLabel_def EventLabel_new_def)
  have "sched_ready ?I True (symm_graph 4)"
    using symm_graph_links by (simp add: sched_ready_def threads getLastThreadLabel_def last symm_label)
  moreover have "runnable ?I (symm_graph 4) 1" by (simp add: runnable_def threads label_is_def last symm_label kind_defs)
  moreover have "scheduleAtomicity True (\<lambda>_. 0) (Event 0 0) (symm_graph 4) = Some (None, [])"
    by (simp add: scheduleAtomicity_def symm_label init kind_defs)
  ultimately show ?thesis
    using scheduleNext_progress [of ?I True "symm_graph 4" True "\<lambda>_. 0" "Event 0 0" "[]" "[]"] symm_graph_placed by fastforce
qed

end
