(* ===== verification/RMWs.thy ===== *)
theory RMWs
  imports CoOrderings Scheduling
begin

text \<open>
  Completing a read-modify-write that was revisited (GenMCDriver::completeRevisitedRMW in
  src/src/GenMCDriver.cpp): the value it stores (executeAtomicRMWOperation in src/src/Execution.cpp),
  adding its write to the graph with the views and the allocation of the driver (addLabelToGraph), and
  the place of the write in coherence order. The state of the driver is a record.
\<close>

unbundle bit_operations_syntax

section \<open>Definitions\<close>

text \<open>
  The driver: the execution it works on, whether the execution is moot, the threads to schedule first,
  the last event added, the number of blocked executions, the errors reported, and the threads it asked
  the interpreter to run again. Its environment: the configuration, the values of memory before the
  run, and whether it estimates the state space.
\<close>

record DriverState =
  dr_exec :: Execution
  dr_moot :: bool
  dr_threadPrios :: "Event list"
  dr_lastAdded :: Event
  dr_exploredBlocked :: "32 word"
  dr_reports :: Reports
  dr_reset :: "int list"

record DriverEnv =
  env_conf :: Config
  env_initVal :: "AAccess \<Rightarrow> SVal"
  env_estimation :: bool

definition dr_graph :: "DriverState \<Rightarrow> ExecutionGraph" where
  "dr_graph d = ex_graph (dr_exec d)"

definition set_graph :: "ExecutionGraph \<Rightarrow> DriverState \<Rightarrow> DriverState" where
  "set_graph g d = d\<lparr>dr_exec := dr_exec d\<lparr>ex_graph := g\<rparr>\<rparr>"

definition add_reports :: "Reports \<Rightarrow> DriverState \<Rightarrow> DriverState" where
  "add_reports rep d = d\<lparr>dr_reports := dr_reports d @ rep\<rparr>"

text \<open>The operators that LLVM has and the labels do not store fall into the default case.\<close>

definition executeAtomicRMWOperation :: "SVal \<Rightarrow> SVal \<Rightarrow> ASize \<Rightarrow> BinOp \<Rightarrow> SVal option" where
  "executeAtomicRMWOperation oldVal v sz op =
     (let bits = unat (ASize_getBits sz) in
      case op of
        Op_Xchg \<Rightarrow> Some v
      | Op_Add \<Rightarrow> SVal_binop Plus oldVal v
      | Op_Sub \<Rightarrow> SVal_binop Minus oldVal v
      | Op_And \<Rightarrow> SVal_binop And oldVal v
      | Op_Nand \<Rightarrow> map_option NOT (SVal_binop And oldVal v)
      | Op_Or \<Rightarrow> SVal_binop Or oldVal v
      | Op_Xor \<Rightarrow> SVal_binop Xor oldVal v
      | Op_Max \<Rightarrow> do { a \<leftarrow> signExtendBottom oldVal bits; b \<leftarrow> signExtendBottom v bits;
                       Some (if SVal_sgt a b then oldVal else v) }
      | Op_Min \<Rightarrow> do { a \<leftarrow> signExtendBottom oldVal bits; b \<leftarrow> signExtendBottom v bits;
                       Some (if SVal_slt a b then oldVal else v) }
      | Op_UMax \<Rightarrow> Some (if SVal_ugt oldVal v then oldVal else v)
      | Op_UMin \<Rightarrow> Some (if SVal_ult oldVal v then oldVal else v))"

definition findAllocatingLabel :: "ExecutionGraph \<Rightarrow> SAddr \<Rightarrow> Event option" where
  "findAllocatingLabel g addr =
     map_option position (find (\<lambda>l. kind l = EL_Malloc \<and> malloc_contains l addr) (graph_labels g))"

definition updateLabelViews :: "bool \<Rightarrow> Event \<Rightarrow> ExecutionGraph \<Rightarrow> ExecutionGraph option" where
  "updateLabelViews symmetryReduction e g =
     do { g \<leftarrow> updateMMViews e g;
          if symmetryReduction then updatePrefixWithSymmetriesSR e g else Some g }"

text \<open>The cache of labels is not part of the state: it only saves running instructions again.\<close>

definition driver_addLabelToGraph :: "DriverEnv \<Rightarrow> EventLabel \<Rightarrow> DriverState \<Rightarrow> DriverState option" where
  "driver_addLabelToGraph E lab d =
     do { g \<leftarrow> addLabelToGraph lab (dr_graph d);
          g \<leftarrow> updateLabelViews (cf_symmetryReduction (env_conf E)) (position lab) g;
          g \<leftarrow> (if isMemAccess (kind lab) then addAlloc (findAllocatingLabel g (getAddr lab)) (position lab) g else Some g);
          Some ((set_graph g d)\<lparr>dr_lastAdded := position lab\<rparr>) }"

text \<open>The value an RMW stores and the attributes of its write, or nothing if there is no write.\<close>

definition rmw_result :: "DriverEnv \<Rightarrow> ExecutionGraph \<Rightarrow> EventLabel \<Rightarrow> ((SVal \<times> WriteAttr) option \<times> Reports) option" where
  "rmw_result E g rLab =
     (let mixer = cf_mixer (env_conf E); initVal = env_initVal E in
      if isCasRead (kind rLab) then
        do { (v, rep) \<leftarrow> getReadValue mixer initVal g rLab;
             Some (if v \<noteq> expected rLab then None else Some (swapValue rLab, wattr rLab), rep) }
      else if isFaiRead (kind rLab) then
        do { (v, rep) \<leftarrow> getReadValue mixer initVal g rLab;
             result \<leftarrow> executeAtomicRMWOperation v (opValue rLab) (getSize rLab) (binOp rLab);
             if kind rLab = EL_BIncFaiRead \<and> result = 0
             then do { (b, rep') \<leftarrow> getBarrierInitValue mixer initVal g (access rLab);
                       Some (Some (b, wattr rLab), rep @ rep') }
             else Some (Some (result, wattr rLab), rep) }
      else Some (None, []))"

definition create_counterpart :: "EventLabel \<Rightarrow> SVal \<Rightarrow> WriteAttr \<Rightarrow> EventLabel option" where
  "create_counterpart rLab v wa =
     (let pos = Event_next (position rLab); o' = ordering rLab; a = access rLab; d = EventDeps_empty in
      if kind rLab = EL_BIncFaiRead then Some (BIncFaiWriteLabel pos o' a v wa d)
      else if kind rLab = EL_NoRetFaiRead then Some (NoRetFaiWriteLabel pos o' a v wa d)
      else if kind rLab = EL_FaiRead then Some (FaiWriteLabel pos o' a v wa d)
      else if kind rLab = EL_LockCasRead then Some (LockCasWriteLabel pos o' a v wa d)
      else if kind rLab = EL_TrylockCasRead then Some (TrylockCasWriteLabel pos o' a v wa d)
      else if kind rLab = EL_CasRead then Some (CasWriteLabel EL_CasWrite pos o' a v wa d)
      else if kind rLab = EL_HelpedCasRead then Some (CasWriteLabel EL_HelpedCasWrite pos o' a v wa d)
      else if kind rLab = EL_ConfirmingCasRead then Some (CasWriteLabel EL_ConfirmingCasWrite pos o' a v wa d)
      else None)"

text \<open>The stores of the location, split at the RMW: what is left of the rf edges, the parts seen, the
  stores before the write and those after it.\<close>

type_synonym 'e rmw_split = "('e \<times> AAccess) list \<times> AAccess list \<times> 'e list \<times> 'e list"

definition markSeen :: "'e \<Rightarrow> ('e \<times> AAccess) list \<times> AAccess list \<Rightarrow> ('e \<times> AAccess) list \<times> AAccess list" where
  "markSeen s rs =
     (filter (\<lambda>p. fst p \<noteq> s) (fst rs), snd rs @ map snd (filter (\<lambda>p. fst p = s) (fst rs)))"

definition split_step :: "('e \<Rightarrow> AAccess) \<Rightarrow> 'e \<Rightarrow> 'e rmw_split \<Rightarrow> 'e rmw_split" where
  "split_step acc s st =
     (case st of (remaining, seen, before, after) \<Rightarrow>
        if \<exists>a\<in>set seen. AAccess_overlaps a (acc s) then (remaining, seen, before, after @ [s])
        else let (remaining, seen) = markSeen s (remaining, seen) in (remaining, seen, before @ [s], after))"

definition split_at_rmw :: "('e \<Rightarrow> AAccess) \<Rightarrow> 'e \<Rightarrow> ('e \<times> AAccess) list \<Rightarrow> 'e list \<Rightarrow> 'e list \<times> 'e list" where
  "split_at_rmw acc ini rs coh =
     (let (remaining, seen) = markSeen ini (rs, []);
          (remaining, seen, before, after) = fold (split_step acc) coh (remaining, seen, [], []) in (before, after))"

definition clearStores :: "SAddr \<Rightarrow> ExecutionGraph \<Rightarrow> ExecutionGraph" where
  "clearStores a g = g\<lparr>coherence := bucket_upd (getBucket a) (\<lambda>_. []) (coherence g)\<rparr>"

text \<open>A null pointer is None; None of the option type is the abort.\<close>

definition completeRevisitedRMW :: "DriverEnv \<Rightarrow> Event \<Rightarrow> DriverState \<Rightarrow> (Event option \<times> DriverState) option" where
  "completeRevisitedRMW E r d =
     do { rLab \<leftarrow> getReadLabel (dr_graph d) r;
          (res, rep) \<leftarrow> rmw_result E (dr_graph d) rLab;
          let d = add_reports rep d in
          (case res of None \<Rightarrow> Some (None, d)
           | Some (v, wa) \<Rightarrow>
             do { wLab \<leftarrow> create_counterpart rLab v wa;
                  d \<leftarrow> driver_addLabelToGraph E wLab d;
                  BUG_ON (\<not> hasRf rLab);
                  let g = dr_graph d; coh = getStoresToLoc g (getAddr wLab);
                      (before, after) = split_at_rmw (label_access g) getInit (rfs rLab) coh;
                      g = addStoresToCO before (access wLab) 0 (clearStores (getAddr wLab) g);
                      g = addStoreToCO wLab (length before) g;
                      g = addStoresToCO after (access wLab) (Suc (length before)) g in
                  Some (Some (position wLab), set_graph g d) }) }"

section \<open>The value of a read-modify-write\<close>

text \<open>The operators on integers of b bits, with the numbers between 0 and 2 to the b.\<close>

definition rmw_value :: "nat \<Rightarrow> BinOp \<Rightarrow> int \<Rightarrow> int \<Rightarrow> int" where
  "rmw_value b op x y =
     (case op of
        Op_Xchg \<Rightarrow> y
      | Op_Add \<Rightarrow> (x + y) mod 2 ^ b
      | Op_Sub \<Rightarrow> (x - y) mod 2 ^ b
      | Op_And \<Rightarrow> x AND y
      | Op_Nand \<Rightarrow> 2 ^ b - 1 - (x AND y)
      | Op_Or \<Rightarrow> x OR y
      | Op_Xor \<Rightarrow> x XOR y
      | Op_Max \<Rightarrow> if signed_take_bit (b - 1) x > signed_take_bit (b - 1) y then x else y
      | Op_Min \<Rightarrow> if signed_take_bit (b - 1) x < signed_take_bit (b - 1) y then x else y
      | Op_UMax \<Rightarrow> max x y
      | Op_UMin \<Rightarrow> min x y)"

lemma signExtendBottom_sint:
  assumes "0 < b" "b \<le> 64"
  shows "\<exists>r. signExtendBottom v b = Some r \<and> sint r = signed_take_bit (b - 1) (uint v)"
proof -
  have "sint (word_of_int (signed_take_bit (b - 1) (uint v)) :: SVal) = signed_take_bit (b - 1) (uint v)"
    using assms by (cases "b = 64") (auto simp: signed_of_int signed_take_bit_signed_take_bit min_def)
  then show ?thesis using assms by (auto simp: signExtendBottom_signed)
qed

lemma uint_nand:
  fixes a c :: "64 word"
  assumes "b \<le> 64" "uint a < 2 ^ b"
  shows "uint (NOT (a AND c)) mod 2 ^ b = 2 ^ b - 1 - (uint a AND uint c)"
proof -
  let ?x = "uint a AND uint c" and ?M = "(2 :: int) ^ b"
  have x: "0 \<le> ?x" "?x < ?M" using assms(2) AND_upper1 [of "uint a" "uint c"] by auto
  have "uint (NOT (a AND c)) mod ?M = (- ?x - 1) mod ?M"
    using assms(1) by (simp add: unsigned_not_eq unsigned_and_eq not_int_def min_def del: bit.de_Morgan_conj flip: take_bit_eq_mod)
  also have "- ?x - 1 = ?M - 1 - ?x - ?M" by simp
  also have "\<dots> mod ?M = (?M - 1 - ?x) mod ?M" by (rule minus_mod_self2)
  also have "\<dots> = ?M - 1 - ?x" using x by (intro mod_pos_pos_trivial) linarith+
  finally show ?thesis .
qed

text \<open>
  C33. On values of one to eight bytes every operator returns, and the low bytes of its result are those
  of the operator on integers of that size, with wrap-around, two's complement for the signed maximum
  and minimum, and bit by bit for the logical operators.
\<close>

theorem executeAtomicRMWOperation_sized:
  assumes n: "0 < n" "n \<le> 8" and old: "uint old < 2 ^ (8 * n)" and v: "uint v < 2 ^ (8 * n)"
  shows "\<exists>r. executeAtomicRMWOperation old v (of_nat n) op = Some r \<and>
    uint r mod 2 ^ (8 * n) = rmw_value (8 * n) op (uint old) (uint v)"
proof -
  have bits: "unat (ASize_getBits (of_nat n)) = 8 * n"
    using n by (auto simp: ASize_getBits_def CHAR_BIT_def unat_word_ariths unat_of_nat)
  have id: "uint old mod 2 ^ (8 * n) = uint old" "uint v mod 2 ^ (8 * n) = uint v"
    using old v by simp_all
  have dvd: "(2 :: int) ^ (8 * n) dvd 2 ^ 64" using n by (intro le_imp_power_dvd) simp
  obtain a b where se: "signExtendBottom old (8 * n) = Some a" "sint a = signed_take_bit (8 * n - 1) (uint old)"
      "signExtendBottom v (8 * n) = Some b" "sint b = signed_take_bit (8 * n - 1) (uint v)"
    using signExtendBottom_sint [of "8 * n" old] signExtendBottom_sint [of "8 * n" v] n by auto
  note simps = executeAtomicRMWOperation_def bits Let_def rmw_value_def id
  show ?thesis
  proof (cases op)
    case Op_Add
    then show ?thesis using dvd by (simp add: simps uint_word_ariths mod_mod_cancel)
  next
    case Op_Sub
    then show ?thesis using dvd by (simp add: simps uint_word_ariths mod_mod_cancel)
  next
    case Op_And
    then show ?thesis using id by (simp add: simps unsigned_and_eq take_bit_and flip: take_bit_eq_mod)
  next
    case Op_Or
    then show ?thesis using id by (simp add: simps unsigned_or_eq take_bit_or flip: take_bit_eq_mod)
  next
    case Op_Xor
    then show ?thesis using id by (simp add: simps unsigned_xor_eq take_bit_xor flip: take_bit_eq_mod)
  next
    case Op_Nand
    then show ?thesis using uint_nand [OF _ old, of v] n by (simp add: simps)
  next
    case Op_Max
    then show ?thesis by (simp add: simps se SVal_compare_spec)
  next
    case Op_Min
    then show ?thesis by (simp add: simps se SVal_compare_spec)
  qed (simp_all add: simps SVal_compare_spec max_def min_def)
qed

text \<open>An increment of one byte that wraps around.\<close>

theorem executeAtomicRMWOperation_sized_witness:
  "\<exists>r. executeAtomicRMWOperation 255 2 1 Op_Add = Some r \<and> uint r mod 256 = 1"
  using executeAtomicRMWOperation_sized [of 1 255 2 Op_Add] by (simp add: rmw_value_def)

section \<open>Where the write goes\<close>

text \<open>
  The store x comes before y in the coherence list, or is the initializer. A store is from-read after
  the read if it overwrites a part that the read takes from an earlier store.
\<close>

definition co_before :: "'e \<Rightarrow> 'e list \<Rightarrow> 'e \<Rightarrow> 'e \<Rightarrow> bool" where
  "co_before ini coh x y = (x = ini \<or> y \<in> set (tl (dropWhile (\<lambda>z. z \<noteq> x) coh)))"

definition fr_after :: "('e \<Rightarrow> AAccess) \<Rightarrow> 'e \<Rightarrow> ('e \<times> AAccess) list \<Rightarrow> 'e list \<Rightarrow> 'e \<Rightarrow> bool" where
  "fr_after acc ini rs coh y =
     (\<exists>p\<in>set rs. co_before ini coh (fst p) y \<and> AAccess_overlaps (snd p) (acc y))"

text \<open>No store that is read overwrites a part that is read from an earlier one.\<close>

definition rfs_latest :: "('e \<Rightarrow> AAccess) \<Rightarrow> 'e \<Rightarrow> ('e \<times> AAccess) list \<Rightarrow> 'e list \<Rightarrow> bool" where
  "rfs_latest acc ini rs coh = (\<forall>q\<in>set rs. fst q \<noteq> ini \<longrightarrow> \<not> fr_after acc ini rs coh (fst q))"

lemma set_tl_dropWhile: "y \<in> set (tl (dropWhile P vs)) \<Longrightarrow> y \<in> set vs"
  by (metis list.sel(2) list.set_sel(2) set_dropWhileD)

lemma co_before_split:
  assumes "distinct (us @ y # vs)" "x \<noteq> ini"
  shows "co_before ini (us @ y # vs) x y \<longleftrightarrow> x \<in> set us"
proof (cases "x \<in> set us")
  case True
  then obtain u1 u2 where u: "us = u1 @ x # u2" "x \<notin> set u1" by (meson split_list_first)
  then have "dropWhile (\<lambda>z. z \<noteq> x) (us @ y # vs) = x # u2 @ y # vs" by (simp add: dropWhile_append)
  then show ?thesis using True by (simp add: co_before_def)
next
  case False
  then have "dropWhile (\<lambda>z. z \<noteq> x) (us @ y # vs) = dropWhile (\<lambda>z. z \<noteq> x) (y # vs)" by (simp add: dropWhile_append)
  moreover have "y \<notin> set (tl (dropWhile (\<lambda>z. z \<noteq> x) (y # vs)))"
    using assms(1) set_tl_dropWhile [of y "\<lambda>z. z \<noteq> x" vs] by auto
  ultimately show ?thesis using False assms(2) by (simp add: co_before_def)
qed

lemma fr_after_split:
  assumes "distinct (us @ y # vs)" "ini \<notin> set us"
  shows "fr_after acc ini rs (us @ y # vs) y \<longleftrightarrow>
    (\<exists>p\<in>set rs. (fst p = ini \<or> fst p \<in> set us) \<and> AAccess_overlaps (snd p) (acc y))"
proof -
  have "co_before ini (us @ y # vs) x y \<longleftrightarrow> x = ini \<or> x \<in> set us" for x
    using co_before_split [OF assms(1)] by (cases "x = ini") (auto simp: co_before_def)
  then show ?thesis by (simp add: fr_after_def)
qed

lemma split_step_tuple:
  "split_step acc s (remaining, seen, before, after) =
     (if \<exists>a\<in>set seen. AAccess_overlaps a (acc s) then (remaining, seen, before, after @ [s])
      else (filter (\<lambda>p. fst p \<noteq> s) remaining, seen @ map snd (filter (\<lambda>p. fst p = s) remaining), before @ [s], after))"
  by (simp add: split_step_def markSeen_def)

lemma split_steps:
  assumes coh: "coh = us @ vs" and d: "distinct coh" and i: "ini \<notin> set coh" and l: "rfs_latest acc ini rs coh"
  shows "\<exists>seen. set seen = snd ` {p \<in> set rs. fst p = ini \<or> fst p \<in> set us} \<and>
    fold (split_step acc) us (filter (\<lambda>p. fst p \<noteq> ini) rs, map snd (filter (\<lambda>p. fst p = ini) rs), [], []) =
      (filter (\<lambda>p. fst p \<noteq> ini \<and> fst p \<notin> set us) rs, seen, filter (\<lambda>y. \<not> fr_after acc ini rs coh y) us,
       filter (fr_after acc ini rs coh) us)"
  using coh
proof (induction us arbitrary: vs rule: rev_induct)
  case (snoc y us)
  have c: "coh = us @ y # vs" using snoc.prems by simp
  obtain seen where s: "set seen = snd ` {p \<in> set rs. fst p = ini \<or> fst p \<in> set us}"
    and f: "fold (split_step acc) us (filter (\<lambda>p. fst p \<noteq> ini) rs, map snd (filter (\<lambda>p. fst p = ini) rs), [], []) =
      (filter (\<lambda>p. fst p \<noteq> ini \<and> fst p \<notin> set us) rs, seen, filter (\<lambda>y. \<not> fr_after acc ini rs coh y) us,
       filter (fr_after acc ini rs coh) us)"
    using snoc.IH [OF c] by blast
  have "(\<exists>a\<in>set seen. AAccess_overlaps a (acc y)) \<longleftrightarrow>
      (\<exists>p\<in>set rs. (fst p = ini \<or> fst p \<in> set us) \<and> AAccess_overlaps (snd p) (acc y))"
    unfolding s by blast
  then have y: "(\<exists>a\<in>set seen. AAccess_overlaps a (acc y)) \<longleftrightarrow> fr_after acc ini rs coh y"
    using fr_after_split [of us y vs ini acc rs] d i unfolding c by simp
  have yi: "y \<noteq> ini" "y \<notin> set us" using i d c by auto
  show ?case
  proof (cases "fr_after acc ini rs coh y")
    case True
    then have no: "fst p \<noteq> y" if "p \<in> set rs" for p using l yi that by (auto simp: rfs_latest_def)
    then have "filter (\<lambda>p. fst p \<noteq> ini \<and> fst p \<notin> set (us @ [y])) rs = filter (\<lambda>p. fst p \<noteq> ini \<and> fst p \<notin> set us) rs"
      by (intro filter_cong) auto
    moreover have "set seen = snd ` {p \<in> set rs. fst p = ini \<or> fst p \<in> set (us @ [y])}"
      using no unfolding s by (intro arg_cong [where f = "(`) snd"]) auto
    ultimately show ?thesis using True y by (intro exI [of _ seen]) (simp add: f split_step_tuple)
  next
    case False
    let ?new = "map snd (filter (\<lambda>p. fst p = y) (filter (\<lambda>p. fst p \<noteq> ini \<and> fst p \<notin> set us) rs))"
    have "set (seen @ ?new) = snd ` {p \<in> set rs. fst p = ini \<or> fst p \<in> set (us @ [y])}"
      using yi by (auto simp: s)
    moreover have "filter (\<lambda>p. fst p \<noteq> y) (filter (\<lambda>p. fst p \<noteq> ini \<and> fst p \<notin> set us) rs) =
        filter (\<lambda>p. fst p \<noteq> ini \<and> fst p \<notin> set (us @ [y])) rs"
      by (auto intro: filter_cong)
    ultimately show ?thesis using False y
      by (intro exI [of _ "seen @ ?new"]) (simp add: f split_step_tuple)
  qed
qed auto

lemma split_at_rmw_eq:
  assumes "distinct coh" "ini \<notin> set coh" "rfs_latest acc ini rs coh"
  shows "split_at_rmw acc ini rs coh =
    (filter (\<lambda>y. \<not> fr_after acc ini rs coh y) coh, filter (fr_after acc ini rs coh) coh)"
  using split_steps [of coh coh "[]", OF _ assms] by (auto simp: split_at_rmw_def markSeen_def)

section \<open>The graph of the driver\<close>

text \<open>What a step keeps of the graph: the coherence order and, for labels that are not empty, their
  kinds, positions, accesses and rf edges.\<close>

definition keeps :: "ExecutionGraph \<Rightarrow> ExecutionGraph \<Rightarrow> bool" where
  "keeps g g' = (coherence g' = coherence g \<and>
     (\<forall>e l. getEventLabel g e = Some l \<and> kind l \<noteq> EL_Empty \<longrightarrow>
        (\<exists>l'. getEventLabel g' e = Some l' \<and> kind l' = kind l \<and> position l' = position l \<and> access l' = access l \<and>
              rfs l' = rfs l)))"

lemma keeps_refl [simp]: "keeps g g"
  by (simp add: keeps_def)

lemma keeps_trans [trans]: "keeps g g' \<Longrightarrow> keeps g' g'' \<Longrightarrow> keeps g g''"
  unfolding keeps_def by (metis (no_types, opaque_lifting))

lemma keeps_upd:
  assumes "\<And>l. kind (f l) = kind l \<and> position (f l) = position l \<and> access (f l) = access l \<and> rfs (f l) = rfs l"
  shows "keeps g (upd_label e f g)"
  using assms by (auto simp: keeps_def getEventLabel_upd_label)

lemma keeps_addLabelToGraph:
  assumes "addLabelToGraph lab g = Some g'"
  shows "keeps g g'"
proof -
  obtain lab2 g2 where s: "(if hasStamp lab then (lab, g) else let (s, g') = nextStamp g in (setStamp s lab, g')) = (lab2, g2)"
    by (metis surj_pair)
  have g2: "events g2 = events g" "coherence g2 = coherence g"
    using s by (auto simp: nextStamp_def split: if_splits)
  have lab: "getEventLabel g2 e = getEventLabel g e" for e
    by (simp add: getEventLabel_def containsPos_iff g2)
  let ?p = "position lab2" and ?t = "nat (thread (position lab2))"
  show ?thesis
  proof (cases "index ?p < int (length (events g2 ! ?t))")
    case True
    then obtain eLab where e: "getEventLabel g2 ?p = Some eLab" "kind eLab = EL_Empty" "g' = upd_label ?p (\<lambda>_. lab2) g2"
      using assms unfolding addLabelToGraph_def s by (auto simp: Let_def split: if_splits option.splits bind_splits)
    then show ?thesis
      using lab g2 by (auto simp: keeps_def getEventLabel_upd_label)
  next
    case False
    then have e: "g' = g2\<lparr>events := (events g2)[?t := events g2 ! ?t @ [lab2]]\<rparr>"
      using assms unfolding addLabelToGraph_def s by (auto simp: Let_def split: if_splits option.splits bind_splits)
    have "getEventLabel g' x = Some l" if "getEventLabel g x = Some l" for x l
      using that g2 unfolding e
      by (cases "nat (thread x) = ?t")
        (auto simp: getEventLabel_def containsPos_iff nth_append split: if_splits)
    then show ?thesis using g2 by (auto simp: keeps_def e)
  qed
qed

lemma keeps_updateMMViews:
  assumes "updateMMViews e g = Some g'"
  shows "keeps g g'"
proof -
  obtain vs p where "g' = upd_label e (\<lambda>l. l\<lparr>prefixView := Some p\<rparr>)
      (upd_label e (\<lambda>l. l\<lparr>calculatedViews := vs\<rparr>) (upd_label e (\<lambda>l. l\<lparr>calculatedRels := []\<rparr>) g))"
    using assms unfolding updateMMViews_def Let_def by (auto split: bind_splits)
  moreover have "keeps h (upd_label e (\<lambda>l. l\<lparr>prefixView := Some p\<rparr>) h)" "keeps h (upd_label e (\<lambda>l. l\<lparr>calculatedViews := vs\<rparr>) h)"
    "keeps h (upd_label e (\<lambda>l. l\<lparr>calculatedRels := []\<rparr>) h)" for h
    by (simp_all add: keeps_upd)
  ultimately show ?thesis by (metis keeps_trans)
qed

lemma keeps_driver_getPrefixView: "driver_getPrefixView w g = Some (a, b) \<Longrightarrow> keeps g b"
  unfolding driver_getPrefixView_def by (auto split: bind_splits option.splits intro!: keeps_upd)

lemma keeps_updateFromPrefix: "updateFromPrefix e g w = Some g' \<Longrightarrow> keeps g g'"
  unfolding updateFromPrefix_def
  by (auto split: bind_splits intro!: keeps_trans [OF keeps_driver_getPrefixView keeps_upd])

lemma keeps_try_fold: "try_fold (updateFromPrefix e) ws g = Some g' \<Longrightarrow> keeps g g'"
  by (induction ws arbitrary: g) (auto split: bind_splits intro: keeps_trans keeps_updateFromPrefix)

lemma keeps_updatePrefixWithSymmetriesSR: "updatePrefixWithSymmetriesSR e g = Some g' \<Longrightarrow> keeps g g'"
  unfolding updatePrefixWithSymmetriesSR_def
  by (auto split: bind_splits if_splits intro: keeps_trans keeps_updateFromPrefix keeps_try_fold)

lemma keeps_addAlloc:
  assumes "addAlloc a m g = Some g'"
  shows "keeps g g'"
proof (cases a)
  case (Some b)
  let ?g = "upd_label m (\<lambda>l. l\<lparr>allocLab := Some b\<rparr>) g"
  obtain al where al: "getEventLabel ?g b = Some al"
      "g' = upd_label b (\<lambda>_. al\<lparr>accessList := accessList al @ [m]\<rparr>) ?g"
    using assms Some unfolding addAlloc_def Let_def addAccess_def by (auto split: bind_splits if_splits)
  have "keeps ?g g'" using al by (auto simp: keeps_def getEventLabel_upd_label [of b])
  moreover have "keeps g ?g" by (simp add: keeps_upd)
  ultimately show ?thesis using keeps_trans by blast
qed (use assms in \<open>simp add: addAlloc_def\<close>)

lemma keeps_driver_addLabelToGraph:
  assumes "driver_addLabelToGraph E lab d = Some d'"
  shows "keeps (dr_graph d) (dr_graph d')"
proof -
  obtain g1 g2 g3 where g: "addLabelToGraph lab (dr_graph d) = Some g1"
      "updateLabelViews (cf_symmetryReduction (env_conf E)) (position lab) g1 = Some g2"
      "(if isMemAccess (kind lab) then addAlloc (findAllocatingLabel g2 (getAddr lab)) (position lab) g2 else Some g2) = Some g3"
    and d': "dr_graph d' = g3"
    using assms unfolding driver_addLabelToGraph_def by (auto simp: set_graph_def dr_graph_def split: bind_splits)
  have "keeps g1 g2" using g(2) unfolding updateLabelViews_def
    by (auto split: bind_splits if_splits intro: keeps_trans [OF keeps_updateMMViews]
        keeps_updatePrefixWithSymmetriesSR keeps_updateMMViews)
  moreover have "keeps g2 g3" using g(3) by (auto split: if_splits intro: keeps_addAlloc)
  ultimately show ?thesis using keeps_addLabelToGraph [OF g(1)] d' by (metis keeps_trans)
qed

lemma keeps_access:
  assumes "keeps g g'" "label_is (\<lambda>l. isWrite (kind l)) g e"
  shows "label_access g' e = label_access g e"
proof -
  obtain l where l: "getEventLabel g e = Some l" "isWrite (kind l)" using assms(2) by (auto simp: label_is_def split: option.splits)
  then have "kind l \<noteq> EL_Empty" by (auto simp: kind_defs)
  then show ?thesis using assms(1) l by (force simp: keeps_def label_access_def)
qed

lemma fr_after_cong:
  assumes "y \<in> set coh" "\<And>x. x \<in> set coh \<Longrightarrow> acc' x = acc x"
  shows "fr_after acc' ini rs coh y = fr_after acc ini rs coh y"
  using assms by (simp add: fr_after_def)

text \<open>The write of an RMW keeps the access of the read and comes next in its thread.\<close>

lemma create_counterpart_fields:
  assumes "create_counterpart rLab v wa = Some wLab"
  shows "position wLab = Event_next (position rLab)" "access wLab = access rLab" "isWrite (kind wLab)" "val wLab = v"
  using assms
  by (auto simp: create_counterpart_def Let_def BIncFaiWriteLabel_def NoRetFaiWriteLabel_def FaiWriteLabel_def
      LockCasWriteLabel_def TrylockCasWriteLabel_def CasWriteLabel_def WriteLabel_def MemAccessLabel_def
      EventLabel_new_def kind_defs split: if_splits)

section \<open>Atomicity\<close>

lemma fr_after_upward:
  assumes d: "distinct coh" and i: "ini \<notin> set coh" and same: "\<And>y. y \<in> set coh \<Longrightarrow> acc y = a"
  shows "filter (\<lambda>y. \<not> fr_after acc ini rs coh y) coh @ filter (fr_after acc ini rs coh) coh = coh"
proof -
  have split: "fr_after acc ini rs coh (coh ! k) \<longleftrightarrow>
      (\<exists>p\<in>set rs. (fst p = ini \<or> fst p \<in> set (take k coh)) \<and> AAccess_overlaps (snd p) a)" if "k < length coh" for k
    using fr_after_split [of "take k coh" "coh ! k" "drop (Suc k) coh" ini acc rs] that d i same [of "coh ! k"]
    by (simp add: id_take_nth_drop [symmetric] Cons_nth_drop_Suc) (meson in_set_takeD)
  have "fr_after acc ini rs coh (coh ! j) \<Longrightarrow> fr_after acc ini rs coh (coh ! k)" if "j < k" "k < length coh" for j k
    using split [of j] split [of k] that set_take_subset_set_take [of j k coh] by fastforce
  then have "sorted_wrt (\<lambda>y z. fr_after acc ini rs coh y \<longrightarrow> fr_after acc ini rs coh z) coh"
    by (simp add: sorted_wrt_iff_nth_less)
  moreover have "filter (\<lambda>y. \<not> P y) xs @ filter P xs = xs" if "sorted_wrt (\<lambda>y z. P y \<longrightarrow> P z) xs" for P :: "'a \<Rightarrow> bool" and xs
    using that by (induction xs) (auto simp: filter_empty_conv filter_id_conv)
  ultimately show ?thesis by blast
qed

lemma completeRevisitedRMW_stores:
  assumes c: "completeRevisitedRMW E r d = Some (Some w, d')" and r: "getReadLabel (dr_graph d) r = Some rLab"
    and coh: "coh = getStoresToLoc (dr_graph d) (getAddr rLab)"
    and wr: "\<And>e. e \<in> set coh \<Longrightarrow> label_is (\<lambda>l. isWrite (kind l)) (dr_graph d) e"
    and src: "\<And>p. p \<in> set (rfs rLab) \<Longrightarrow> fst p = getInit \<or> fst p \<in> set coh"
    and d: "distinct coh" "getInit \<notin> set coh" and l: "rfs_latest (label_access (dr_graph d)) getInit (rfs rLab) coh"
  shows "w = Event_next (position rLab)"
    and "getStoresToLoc (dr_graph d') (getAddr rLab) =
      filter (\<lambda>y. \<not> fr_after (label_access (dr_graph d)) getInit (rfs rLab) coh y) coh @
      w # filter (fr_after (label_access (dr_graph d)) getInit (rfs rLab) coh) coh"
proof -
  obtain v wa rep wLab d1 before after where res: "rmw_result E (dr_graph d) rLab = Some (Some (v, wa), rep)"
    and wLab: "create_counterpart rLab v wa = Some wLab"
    and d1: "driver_addLabelToGraph E wLab (add_reports rep d) = Some d1"
    and sp: "split_at_rmw (label_access (dr_graph d1)) getInit (rfs rLab) (getStoresToLoc (dr_graph d1) (getAddr wLab)) = (before, after)"
    and w: "w = position wLab"
    and d': "d' = set_graph (addStoresToCO after (access wLab) (Suc (length before)) (addStoreToCO wLab (length before)
      (addStoresToCO before (access wLab) 0 (clearStores (getAddr wLab) (dr_graph d1))))) d1"
    using c r unfolding completeRevisitedRMW_def
    by (auto simp: Let_def split: bind_splits option.splits prod.splits if_splits)
  note f = create_counterpart_fields [OF wLab]
  have a: "getAddr wLab = getAddr rLab" by (simp add: getAddr_def f)
  have k: "keeps (dr_graph d) (dr_graph d1)"
    using keeps_driver_addLabelToGraph [OF d1] by (simp add: add_reports_def dr_graph_def)
  have coh1: "getStoresToLoc (dr_graph d1) (getAddr rLab) = coh"
    using k by (simp add: coh getStoresToLoc_def keeps_def)
  have acc: "label_access (dr_graph d1) e = label_access (dr_graph d) e" if "e \<in> set coh" for e
    using keeps_access [OF k wr [OF that]] .
  have fr: "fr_after (label_access (dr_graph d1)) getInit (rfs rLab) coh y = fr_after (label_access (dr_graph d)) getInit (rfs rLab) coh y"
    if "y \<in> set coh" for y
    by (rule fr_after_cong [OF that acc])
  have l1: "rfs_latest (label_access (dr_graph d1)) getInit (rfs rLab) coh"
    using l src fr unfolding rfs_latest_def by blast
  have ba: "before = filter (\<lambda>y. \<not> fr_after (label_access (dr_graph d)) getInit (rfs rLab) coh y) coh"
      "after = filter (fr_after (label_access (dr_graph d)) getInit (rfs rLab) coh) coh"
    using sp split_at_rmw_eq [OF d l1] fr by (auto simp: a coh1 intro: filter_cong)
  show "w = Event_next (position rLab)" using w f by simp
  show "getStoresToLoc (dr_graph d') (getAddr rLab) =
      filter (\<lambda>y. \<not> fr_after (label_access (dr_graph d)) getInit (rfs rLab) coh y) coh @
      w # filter (fr_after (label_access (dr_graph d)) getInit (rfs rLab) coh) coh"
    unfolding ba [symmetric]
    by (simp add: d' dr_graph_def set_graph_def getStoresToLoc_def addStoresToCO_def addStoreToCO_def clearStores_def
        getAddr_def f w)
qed


text \<open>
  Without the condition on the rf edges of an RMW of two bytes, stores of different sizes can change
  their order: the store of both bytes comes before the store of the second byte, which is read, and
  after it once the RMW is complete.
\<close>

lemma split_at_rmw_reorders:
  "split_at_rmw (\<lambda>e. if e = 1 then mixed_access 8 1 else if e = 2 then mixed_access 8 2 else mixed_access 9 1) 0
     [(1, mixed_access 8 1), (3, mixed_access 9 1)] [1, 2, 3 :: nat] = ([1, 3], [2])"
  by code_simp

text \<open>Two stores of eight bytes, and an increment in a third thread that reads the first of them.\<close>

definition rmw_store :: "int \<Rightarrow> Stamp \<Rightarrow> Event list \<Rightarrow> EventLabel" where
  "rmw_store t s rds =
     (keep_label s [] (WriteLabel EL_Write (Event t 1) Monotonic (mixed_access 8 8) 5 WA_None EventDeps_empty))
       \<lparr>readerList := rds\<rparr>"

definition rmw_read :: EventLabel where
  "rmw_read = keep_label 6 []
     (FaiReadLabel EL_FaiRead (Event 3 1) Monotonic (mixed_access 8 8) Op_Add 2 WA_None (Some (Event 1 1)) EventDeps_empty)"

definition rmw_graph :: ExecutionGraph where
  "rmw_graph = \<lparr>events = [[keep_label 0 [] InitLabel], [keep_label 1 [] (symm_start 1 (-1)), rmw_store 1 2 [Event 3 1]],
     [keep_label 3 [] (symm_start 2 (-1)), rmw_store 2 4 []], [keep_label 5 [] (symm_start 3 (-1)), rmw_read]],
     timestamp = 7, coherence = [(8, [Event 1 1, Event 2 1])], recoveryTID = -1\<rparr>"

definition rmw_driver :: DriverState where
  "rmw_driver = \<lparr>dr_exec = \<lparr>ex_graph = rmw_graph, ex_choices = [], ex_workqueue = []\<rparr>, dr_moot = False,
     dr_threadPrios = [], dr_lastAdded = Event 3 1, dr_exploredBlocked = 0, dr_reports = [], dr_reset = []\<rparr>"

definition rmw_env :: DriverEnv where
  "rmw_env = \<lparr>env_conf = saveConfigOptions (check_mixer (default_options ''a.c''\<lparr>clMixer := True\<rparr>)),
     env_initVal = (\<lambda>_. 0), env_estimation = False\<rparr>"

lemma rmw_completes: "map_option fst (completeRevisitedRMW rmw_env (Event 3 1) rmw_driver) = Some (Some (Event 3 2))"
  by code_simp


end
