(* ===== verification/Spec2Isabelle.thy ===== *)
theory Spec2Isabelle
  imports Prelude VSets MemValues Views LabelKinds Labels ExecGraph GraphCut GraphRemove GraphIters
    RAViews RARaces RACoherence Bounds Symmetry SExprs Revisits Executions DriverChecks ReadOptions
    Revisiting GraphCopy CopyExact Permutations CoOrderings Configuration Scheduling RMWs
begin

text \<open>
  A verification library for the core of the stateless model checker in src/src/.

  \<^bold>\<open>The program.\<close> The checker runs a multi-threaded program under a weak memory model and keeps the
  run as an execution graph: per thread the labels of its events, with reads-from edges between
  reads and writes, a coherence order per location and a stamp per label that records the order in
  which labels were added. For each new event the driver (GenMCDriver) asks the memory-model driver
  (RADriver) for the views of the label, for races it takes part in and for the ways to place it:
  the stores a read may read from, the places a write may have in coherence order, and the earlier
  reads a write may revisit. Exploring an alternative cuts the graph back to a stamp. Symmetry
  reduction and bounds on context switches prune the exploration.

  \<^bold>\<open>Theories and sources\<close>, in the order of the imports; a definition has the name of the function it
  models, with the class in front where names clash.
    \<^item> Prelude: aborts as options, strictly sorted lists, hash maps of buckets, searches whose
      predicate may abort; shared theorem collections.
    \<^item> VSets (VSet.hpp, VSet.tcc): sets as strictly sorted vectors, with the in-place bulk
      operations as loops over buffers and indices. The properties say that they compute union,
      difference and the inclusion tests.
    \<^item> MemValues (Stamp.hpp, ASize.hpp, SVal.hpp, SAddr.hpp, SAddrAllocator.hpp, MemAccess.hpp):
      values, addresses and accesses as words of their width: sign extension, storage bits, overlap,
      splitting of accesses, allocation pools and where they wrap around.
    \<^item> Views (Event.hpp, View.hpp/cpp, DepView.hpp/cpp, VectorClock.hpp): vector clocks. The locale
      vector_clock states their interface, with plain and hole-tracking clocks as interpretations.
    \<^item> LabelKinds, Labels (EventLabel.hpp, EventAttr.hpp, ThreadInfo.hpp, DepInfo.hpp): the kinds in
      the order of the enumeration, so that class tests are comparisons as in the source, and one
      record for the class hierarchy with the constructors, queries and resets.
    \<^item> ExecGraph, GraphCut, GraphRemove (ExecutionGraph.hpp/cpp): the state of a graph and its
      operations. A pointer to a label is the position of the label, so a dangling pointer is a
      position outside the graph. ExecGraph has all the definitions and shows that changing an rf
      edge keeps rf edges and reader lists in agreement; GraphCut treats cutToStamp and
      compressStampsAfter, GraphRemove treats removeLast.
    \<^item> GraphIters (GraphIterators.hpp): the label iterator and the ranges over the relations.
    \<^item> RAViews, RARaces, RACoherence (RADriver.cpp): the happens-before and causal-prefix views by
      depth-first search, the race checks, and the coherence options. RAViews relates the searches
      to relations between labels, through the locales label_search and view_search; RARaces says
      which error is reported when; RACoherence says which stores, places and revisits are offered.
    \<^item> Bounds (BoundDecider.cpp, ContextBoundDecider.cpp, RoundBoundDecider.cpp): the schedules of a
      graph and the number of context switches or rounds they need.
    \<^item> Symmetry (GenMCDriver.cpp): symmetric threads and the pruning by symmetry.
    \<^item> SExprs (SExpr.hpp, SExprVisitor.hpp/tcc): symbolic expressions with their constructors, the
      evaluator and the transformers. Evaluating an annotation that was renamed and made concrete
      gives its value in the combined mapping.
    \<^item> Revisits (Revisit.hpp, WorkSet.hpp): the revisits with their class tests, the work sets, and
      std::map as a list sorted by keys.
    \<^item> Executions (GenMCDriver.hpp, first part of GenMCDriver.cpp): a graph with its choices and its
      queue of revisits; restricting an execution to a stamp and repairing the reads that lost their
      store; the work list as a stack ordered by stamps.
    \<^item> DriverChecks (GenMCDriver.cpp): the values of reads, byte by byte, and the checks of accesses,
      locks, barriers, annotations and liveness.
    \<^item> ReadOptions (GenMCDriver.cpp): the stores a read may read from and the ways to put it together
      from several stores. The options are exactly the consistent ones.
    \<^item> Revisiting (GenMCDriver.cpp): the view of a backward revisit, the sets of stores to keep, the
      test for maximal extensions and the revisits of a store.
    \<^item> GraphCopy, CopyExact (ExecutionGraph.cpp, GenMCDriver.cpp): the copy of a graph up to a view for
      a backward revisit. GraphCopy has the definitions and follows the copy label by label;
      CopyExact shows which events, edges and links the copy has.
    \<^item> Permutations (CombinatoricUtils.hpp): the permutation and combination iterators, which visit
      every arrangement of the buffer once and restore it.
    \<^item> CoOrderings (GenMCDriver.cpp): the places of a new store in coherence order. With stores of
      different sizes one alternative per byte-wise order is added, through the permutations.
    \<^item> Configuration (Config.hpp/cpp, MemoryModel.hpp, MMDetectorPass.cpp, main.cpp, DriverFactory.hpp):
      the options, their checks, the detection of the memory model and the choice of the driver. The
      properties say which runs reach a driver and what the driver can rely on then.
    \<^item> Scheduling (GenMCDriver.cpp): the choice of the next thread. The locale policy states what the
      scheduling policies share; each policy is an interpretation.
    \<^item> RMWs (GenMCDriver.cpp, Execution.cpp): the state of the driver, adding labels with their views,
      the values of read-modify-writes and the completion of a revisited one.

  \<^bold>\<open>Errors.\<close> BUG_ON, a null pointer, a read outside a vector and an unset optional are None; an
  operation that can reach one is option-valued, and theorems about it state that it returns. The
  errors the checker reports about the program under test are values of VerificationError.

  \<^bold>\<open>Bounds and fuel.\<close> Loops over data are structural recursions. A fuel occurs in: the label
  iterator (one more than the number of labels), the depth-first searches (one more than seven times
  the number of labels, since a search visits each pair of a state and a stamp once), the
  bounded schedules (one more than the number of labels, since each step removes one), and the
  chains of symmetric threads (one more than the number of threads, since links lead to smaller
  threads). The properties show that this is enough. Words keep their width; thread ids and
  indices are integers, since the sources compare them with -1.

  \<^bold>\<open>Parameters.\<close> The flags of the configuration are arguments, in RMWs the whole configuration. What
  the driver asks the interpreter is a parameter: the values of memory before the run, whether an
  address is static, and in Scheduling the record Interp with the state of the threads and the
  random numbers. Whether the input file is a regular file is a parameter of Configuration. Errors
  that the driver reports on the way are part of the results.

  \<^bold>\<open>Not modelled.\<close> The interpreter and the LLVM passes, apart from the RMW operators and the detector
  of the memory model, execute and transform LLVM code and depend on the LLVM libraries, which are
  not part of the sources. So do the event handlers of GenMCDriver and its exploration loop, which
  run the interpreter, and the file descriptors, a BitVector of LLVM. The cache of labels only saves
  running instructions again. Printing, logging, command-line parsing and operating-system threads
  are input and output. The circular and reversible permutations, the counting functions of
  CombinatoricUtils, the adjacency lists and matrices and the graphs with dependency tracking have
  no user in the program.
\<close>

end
